(* ===== verification/Prelude.thy ===== *)
theory Prelude
  imports Complex_Main "HOL-Library.Word" "HOL-Library.Signed_Division"
begin

unbundle bit_operations_syntax

text \<open>
  Shared vocabulary of the development: the ways a C++ computation of the game can abort
  (\<open>error\<close>), the result type \<open>'a res\<close> with its sequencing operator \<open>rbind\<close>, the integer
  and floating-point conventions of the source (\<open>int32\<close>, truncating division, rounding half
  away from zero), and the generic lemmas on folds, list updates and words that several
  components use. The collections \<open>res_simps\<close>, \<open>geo_simps\<close> and \<open>inv_intros\<close> gather the facts
  that the component proofs hand to the simplifier and to \<open>auto\<close>.
\<close>

section \<open>Collections\<close>

named_theorems res_simps \<open>facts about the result type and its sequencing\<close>
named_theorems geo_simps \<open>coordinates of points and of matrix indices\<close>
named_theorems inv_intros \<open>preservation of component invariants\<close>

section \<open>Results\<close>

text \<open>
  The build passes no \<^verbatim>\<open>-DNDEBUG\<close>, so a failing \<^verbatim>\<open>assert\<close> aborts the program
  (\<open>AssertFailed\<close>). \<open>OutOfRange\<close> is the exception of \<^verbatim>\<open>HashMap::at\<close> on a missing key,
  \<open>LengthError\<close> that of a \<^verbatim>\<open>std::vector\<close> constructed with a negative count (converted to
  a huge \<^verbatim>\<open>size_t\<close>), \<open>BadAccess\<close> a read outside a vector, \<open>UseAfterFree\<close> a
  dereference of an entity that was destroyed, \<open>NullDeref\<close> one of a null pointer, \<open>DivByZero\<close> an
  integer division by zero, \<open>Underflow\<close> an unsigned subtraction that would wrap below zero where the
  program relies on that it does not.
\<close>

datatype error = AssertFailed | OutOfRange | LengthError | BadAccess | UseAfterFree | NullDeref | DivByZero | Underflow

type_synonym 'a res = "error + 'a"

fun rbind :: "'a res \<Rightarrow> ('a \<Rightarrow> 'b res) \<Rightarrow> 'b res" where
  "rbind (Inl e) f = Inl e"
| "rbind (Inr a) f = f a"

definition assert :: "bool \<Rightarrow> 'a res \<Rightarrow> 'a res" where
  "assert b k = (if b then k else Inl AssertFailed)"

lemma rbind_eq_Inr_iff [res_simps]:
  "rbind m f = Inr y \<longleftrightarrow> (\<exists>a. m = Inr a \<and> f a = Inr y)"
  by (cases m) auto

lemma rbind_Inr_right [simp]: "rbind m Inr = m"
  by (cases m) auto

lemma rbind_assoc: "rbind (rbind m f) g = rbind m (\<lambda>a. rbind (f a) g)"
  by (cases m) auto

lemma assert_True [simp]: "assert True k = k"
  by (simp add: assert_def)

lemma assert_eq_Inr_iff [res_simps]: "assert b k = Inr y \<longleftrightarrow> b \<and> k = Inr y"
  by (simp add: assert_def)

text \<open>A loop over a list of which every round may abort.\<close>

fun rfold :: "('a \<Rightarrow> 's \<Rightarrow> 's res) \<Rightarrow> 'a list \<Rightarrow> 's \<Rightarrow> 's res" where
  "rfold f [] s = Inr s"
| "rfold f (a # as) s = rbind (f a s) (rfold f as)"

lemma rfold_invariant:
  assumes "P s" and "\<And>a s. a \<in> set as \<Longrightarrow> P s \<Longrightarrow> \<exists>s'. f a s = Inr s' \<and> P s'"
  shows "\<exists>s'. rfold f as s = Inr s' \<and> P s'"
  using assms
proof (induction as arbitrary: s)
  case (Cons a as)
  then obtain s' where "f a s = Inr s'" "P s'" by (meson list.set_intros(1))
  with Cons show ?case by auto
qed auto

lemma rfold_append: "rfold f (as @ bs) s = rbind (rfold f as s) (rfold f bs)"
proof (induction as arbitrary: s)
  case (Cons a as)
  then show ?case by (cases "f a s") simp_all
qed simp

section \<open>Numbers\<close>

text \<open>
  Coordinates, timers and counters are \<^verbatim>\<open>int32_t\<close> or \<^verbatim>\<open>int\<close> in the source. They are
  modelled as \<^typ>\<open>int\<close>; \<open>int32\<close> is the range in which the two agree, and the bounds lemmas of
  the components show that the program's values stay in it (signed overflow is undefined in
  C++, so there is no wrapped value to model).
\<close>

definition int32 :: "int \<Rightarrow> bool" where
  "int32 i \<longleftrightarrow> - (2 ^ 31) \<le> i \<and> i < 2 ^ 31"

lemma int32_small: "\<bar>i\<bar> \<le> 2000000000 \<Longrightarrow> int32 i"
  by (auto simp: int32_def)

text \<open>
  A \<^verbatim>\<open>double\<close> is modelled by the rational it denotes. \<^verbatim>\<open>round\<close> of \<^verbatim>\<open><cmath>\<close> rounds halfway
  cases away from zero.
\<close>

definition c_round :: "rat \<Rightarrow> int" where
  "c_round r = (if 0 \<le> r then \<lfloor>r + 1 / 2\<rfloor> else \<lceil>r - 1 / 2\<rceil>)"

lemma c_round_of_int [simp]: "c_round (of_int i) = i"
  by (auto simp: c_round_def floor_eq_iff ceiling_eq_iff)

text \<open>
  The rounded result does not see floating-point errors below one half, which is what makes the
  exact-rational reading of \<^verbatim>\<open>kTurnTimer * entity.speed\<close> faithful.
\<close>

lemma c_round_near:
  assumes "\<bar>r - of_int i\<bar> < 1 / 2"
  shows "c_round r = i"
proof (cases "0 \<le> r")
  case True
  then show ?thesis using assms unfolding c_round_def abs_less_iff floor_eq_iff if_P [OF True]
    by linarith
next
  case False
  then show ?thesis using assms unfolding c_round_def abs_less_iff ceiling_eq_iff if_not_P [OF False]
    by linarith
qed

lemma ucast_add_down:
  fixes v w :: "'a::len word"
  assumes "LENGTH('b::len) \<le> LENGTH('a)"
  shows "(ucast (v + w) :: 'b word) = ucast v + ucast w"
  using assms by transfer (metis take_bit_add take_bit_take_bit min.absorb1)

section \<open>Lists\<close>

lemma fold_invariant:
  assumes "P s" and "\<And>a s. a \<in> set as \<Longrightarrow> P s \<Longrightarrow> P (f a s)"
  shows "P (fold f as s)"
  using assms by (induction as arbitrary: s) auto

lemma fold_length_update [simp]:
  "length (fold (\<lambda>a xs. xs[g a := h a]) as xs) = length xs"
  by (induction as arbitrary: xs) auto

lemma nth_fold_update_other:
  "k \<notin> g ` set as \<Longrightarrow> fold (\<lambda>a xs. xs[g a := h a]) as xs ! k = xs ! k"
  by (induction as arbitrary: xs) auto

lemma nth_fold_update:
  assumes "inj_on g (set as)" and "distinct as" and "a \<in> set as" and "g a < length xs"
  shows "fold (\<lambda>a xs. xs[g a := h a]) as xs ! g a = h a"
  using assms
proof (induction as arbitrary: xs)
  case (Cons b as)
  show ?case
  proof (cases "a = b")
    case True
    with Cons.prems have "g a \<notin> g ` set as" by auto
    with True Cons.prems show ?thesis by (simp add: nth_fold_update_other)
  next
    case False
    with Cons show ?thesis by auto
  qed
qed simp

lemma fold_cong_set:
  "(\<And>a s. a \<in> set as \<Longrightarrow> f a s = g a s) \<Longrightarrow> fold f as s = fold g as s"
  by (induction as arbitrary: s) auto

end
