(* ===== verification/Base.thy ===== *)
theory Base
  imports Prelude
begin

text \<open>
  The model of \<^verbatim>\<open>base.h\<close>: terminal colours and glyphs with their comparison operators, the
  colour-cube constructor \<open>RGB\<close>, the full-width glyph constructor \<open>Wide\<close>, the keyboard events
  \<open>Input\<close> and their printed names. Bytes, glyph codes and colours keep their width.
\<close>

section \<open>Colours and glyphs\<close>

datatype color = Color (color_value: "8 word")

record glyph =
  ch :: "16 word"
  fg :: color
  bg :: color

text \<open>The four comparison operators are written on the fields, as in the source.\<close>

definition color_eq :: "color \<Rightarrow> color \<Rightarrow> bool" where
  "color_eq a b \<longleftrightarrow> color_value a = color_value b"

definition color_neq :: "color \<Rightarrow> color \<Rightarrow> bool" where
  "color_neq a b \<longleftrightarrow> \<not> color_eq a b"

definition glyph_eq :: "glyph \<Rightarrow> glyph \<Rightarrow> bool" where
  "glyph_eq a b \<longleftrightarrow> ch a = ch b \<and> color_eq (fg a) (fg b) \<and> color_eq (bg a) (bg b)"

definition glyph_neq :: "glyph \<Rightarrow> glyph \<Rightarrow> bool" where
  "glyph_neq a b \<longleftrightarrow> \<not> glyph_eq a b"

definition kBlack :: color where "kBlack = Color 0"
definition kNone :: color where "kNone = Color 255"
definition kGray :: color where "kGray = Color (16 + 216 + 5)"

definition RGB :: "int \<Rightarrow> color" where
  "RGB code =
     (let r = drop_bit 8 code AND 0xf;
          g = drop_bit 4 code AND 0xf;
          b = drop_bit 0 code AND 0xf
      in Color (word_of_int (16 + b + 6 * g + 36 * r)))"

text \<open>
  \<^verbatim>\<open>char\<close> is signed on the targets of the build, so the conversion to \<^verbatim>\<open>uint32_t\<close> sign-extends;
  the sum wraps at 32 bits and the conversion to \<^verbatim>\<open>char16_t\<close> keeps the low 16.
\<close>

definition Wide :: "char \<Rightarrow> int \<Rightarrow> glyph" where
  "Wide c code =
     (let offset = 0xff00 - 0x20;
          wide = (ucast ((scast (of_char c :: 8 word) :: 32 word) + offset) :: 16 word)
      in \<lparr>ch = wide, fg = (if code = 255 then kNone else RGB code), bg = kNone\<rparr>)"

text \<open>The default argument of \<open>Wide\<close>.\<close>

definition Wide1 :: "char \<Rightarrow> glyph" where
  "Wide1 c = Wide c 255"

definition Empty :: glyph where
  "Empty = Wide1 (CHR '' '')"

section \<open>Keyboard events\<close>

text \<open>
  \<open>Input\<close> is an enumeration with underlying type \<^verbatim>\<open>uint8_t\<close>: the enumerators are numbered by
  their position in the \<^verbatim>\<open>INPUTS\<close> macro, and every other byte is a value of the type too.
\<close>

type_synonym input = "8 word"

definition INPUTS :: "string list" where
  "INPUTS = [''Esc'', ''Tab'', ''Enter'', ''Up'', ''Down'', ''Right'', ''Left'',
     ''ShiftTab'', ''ShiftUp'', ''ShiftDown'', ''ShiftRight'', ''ShiftLeft'']"

definition Input_Esc :: input where "Input_Esc = 0"
definition Input_Tab :: input where "Input_Tab = 1"
definition Input_Enter :: input where "Input_Enter = 2"
definition Input_Up :: input where "Input_Up = 3"
definition Input_Down :: input where "Input_Down = 4"
definition Input_Right :: input where "Input_Right = 5"
definition Input_Left :: input where "Input_Left = 6"
definition Input_ShiftTab :: input where "Input_ShiftTab = 7"
definition Input_ShiftUp :: input where "Input_ShiftUp = 8"
definition Input_ShiftDown :: input where "Input_ShiftDown = 9"
definition Input_ShiftRight :: input where "Input_ShiftRight = 10"
definition Input_ShiftLeft :: input where "Input_ShiftLeft = 11"

text \<open>
  The cache of one-character strings in \<open>show\<close>: a 256-byte array of which the loop fills two
  bytes per printable character; \<open>None\<close> marks the bytes it leaves uninitialised. \<open>c_string\<close>
  reads the zero-terminated string at an offset; it fails where it would meet an uninitialised
  byte or the end of the array.
\<close>

definition show_cache :: "nat option list" where
  "show_cache =
     fold (\<lambda>i result. result[2 * (i - 0x20) + 0 := Some i, 2 * (i - 0x20) + 1 := Some 0])
       [0x20..<0x7f] (replicate 256 None)"

fun c_string :: "nat option list \<Rightarrow> string res" where
  "c_string [] = Inl BadAccess"
| "c_string (None # bs) = Inl BadAccess"
| "c_string (Some b # bs) =
     (if b = 0 then Inr [] else rbind (c_string bs) (\<lambda>s. Inr (char_of b # s)))"

definition show_input :: "input \<Rightarrow> string res" where
  "show_input inp =
     (let i = unat inp
      in if 0x20 \<le> i \<and> i < 0x7f then c_string (drop (2 * (i - 0x20)) show_cache)
         else if i < length INPUTS then Inr (INPUTS ! i)
         else Inr ''<unknown>'')"

section \<open>Lemmas\<close>

lemma color_eq_iff [simp]: "color_eq a b \<longleftrightarrow> a = b"
  by (cases a; cases b) (simp add: color_eq_def)

lemma color_neq_iff [simp]: "color_neq a b \<longleftrightarrow> a \<noteq> b"
  by (simp add: color_neq_def)

lemma glyph_eq_iff [simp]: "glyph_eq a b \<longleftrightarrow> a = b"
  by (auto simp: glyph_eq_def)

lemma glyph_neq_iff [simp]: "glyph_neq a b \<longleftrightarrow> a \<noteq> b"
  by (simp add: glyph_neq_def)

subsection \<open>The colour cube\<close>

lemma nibble_arith:
  fixes r g b :: int
  assumes "0 \<le> r" "r < 16" "0 \<le> g" "g < 16" "0 \<le> b" "b < 16"
  shows "(256 * r + 16 * g + b) div 256 mod 16 = r"
    "(256 * r + 16 * g + b) div 16 mod 16 = g" "(256 * r + 16 * g + b) mod 16 = b"
proof -
  have "256 * r + 16 * g + b = b + (g + r * 16) * 16" by simp
  then show "(256 * r + 16 * g + b) div 16 mod 16 = g" "(256 * r + 16 * g + b) mod 16 = b"
    using assms by (simp_all only: div_mult_self1 mod_mult_self1) simp_all
  show "(256 * r + 16 * g + b) div 256 mod 16 = r"
    using assms by auto
qed

lemma nibbles_of_code:
  fixes r g b :: int
  assumes "0 \<le> r" "r < 16" "0 \<le> g" "g < 16" "0 \<le> b" "b < 16"
  shows "drop_bit 8 (256 * r + 16 * g + b) AND 0xf = r"
    "drop_bit 4 (256 * r + 16 * g + b) AND 0xf = g" "(256 * r + 16 * g + b) AND 0xf = b"
proof -
  have mask: "x AND 0xf = x mod 16" for x :: int
    using take_bit_eq_mask [of 4 x] by (simp add: take_bit_eq_mod mask_eq_exp_minus_1)
  show "drop_bit 8 (256 * r + 16 * g + b) AND 0xf = r"
    "drop_bit 4 (256 * r + 16 * g + b) AND 0xf = g" "(256 * r + 16 * g + b) AND 0xf = b"
    unfolding mask using nibble_arith [OF assms] by (simp_all add: drop_bit_eq_div)
qed

lemma RGB_cube_value:
  assumes "0 \<le> r" "r \<le> 5" "0 \<le> g" "g \<le> 5" "0 \<le> b" "b \<le> 5"
  shows "uint (color_value (RGB (256 * r + 16 * g + b))) = 16 + 36 * r + 6 * g + b"
proof -
  have "RGB (256 * r + 16 * g + b) = Color (word_of_int (16 + b + 6 * g + 36 * r))"
    using assms nibbles_of_code [of r g b] by (simp add: RGB_def Let_def del: of_int_add of_int_mult)
  then show ?thesis
    using assms by (simp add: unsigned_of_int take_bit_int_eq_self del: of_int_add of_int_mult)
qed

subsection \<open>Wide glyphs\<close>

lemma scast_ascii:
  "n < 128 \<Longrightarrow> (scast (word_of_nat n :: 8 word) :: 32 word) = word_of_nat n"
proof -
  assume "n < 128"
  then have "sint (word_of_nat n :: 8 word) = int n"
    by (simp add: signed_of_nat signed_take_bit_int_eq_self)
  then show ?thesis by (metis of_int_sint of_int_of_nat_eq)
qed

lemma ch_Wide_ascii:
  assumes "of_char c < (128 :: nat)"
  shows "ch (Wide c code) = 0xff00 - 0x20 + word_of_nat (of_char c)"
proof -
  have "(of_char c :: 8 word) = word_of_nat (of_char c)"
    by (simp add: of_nat_of_char)
  moreover have "take_bit 32 (of_char c :: nat) = of_char c"
    using assms by (intro take_bit_nat_eq_self) simp
  ultimately show ?thesis
    using assms
    by (simp add: Wide_def Let_def scast_ascii ucast_add_down unsigned_of_nat)
qed

lemma Wide_colors [simp]:
  "fg (Wide c code) = (if code = 255 then kNone else RGB code)" "bg (Wide c code) = kNone"
  by (simp_all add: Wide_def Let_def)

subsection \<open>Printing a key\<close>

lemma fill_pairs:
  assumes "2 * (b - a) \<le> length xs" "a \<le> i" "i < b"
  defines "ys \<equiv> fold (\<lambda>i result. result[2 * (i - a) + 0 := Some i, 2 * (i - a) + 1 := Some 0])
       [a..<b] xs"
  shows "length ys = length xs \<and> ys ! (2 * (i - a)) = Some i \<and> ys ! Suc (2 * (i - a)) = Some 0"
  using assms(1,3) unfolding ys_def
proof (induction b)
  case (Suc b)
  define zs where "zs = fold (\<lambda>i result. result[2 * (i - a) + 0 := Some i, 2 * (i - a) + 1 := Some 0])
       [a..<b] xs"
  have len: "length zs = length xs"
    unfolding zs_def by (rule fold_invariant [where P = "\<lambda>ys. length ys = length xs"]) auto
  have step: "fold (\<lambda>i result. result[2 * (i - a) + 0 := Some i, 2 * (i - a) + 1 := Some 0])
       [a..<Suc b] xs = zs[2 * (b - a) := Some b, Suc (2 * (b - a)) := Some 0]"
    using Suc.prems assms(2) by (simp add: zs_def)
  show ?case
  proof (cases "i = b")
    case True
    with Suc.prems assms(2) len show ?thesis unfolding step by auto
  next
    case False
    with Suc assms(2) have "length zs = length xs \<and> zs ! (2 * (i - a)) = Some i \<and>
        zs ! Suc (2 * (i - a)) = Some 0" unfolding zs_def by auto
    with False Suc.prems assms(2) show ?thesis unfolding step by auto
  qed
qed simp

lemma show_cache_string:
  assumes "0x20 \<le> i" "i < 0x7f"
  shows "c_string (drop (2 * (i - 0x20)) show_cache) = Inr [char_of i]"
proof -
  define k where "k = 2 * (i - 0x20)"
  have "k + 1 < 256" using assms by (simp add: k_def)
  have *: "length show_cache = 256 \<and> show_cache ! k = Some i \<and> show_cache ! Suc k = Some 0"
    unfolding show_cache_def k_def
    using fill_pairs [of "0x7f" "0x20" "replicate 256 None" i] assms by (simp only: length_replicate)
  then have "drop k show_cache = Some i # Some 0 # drop (Suc (Suc k)) show_cache"
    using \<open>k + 1 < 256\<close> by (metis Cons_nth_drop_Suc Suc_eq_plus1 Suc_lessD)
  then show ?thesis using assms unfolding k_def by simp
qed

lemma show_input_printable:
  "0x20 \<le> unat i \<Longrightarrow> unat i < 0x7f \<Longrightarrow> show_input i = Inr [char_of (unat i)]"
  by (simp add: show_input_def Let_def show_cache_string)

lemma show_input_named: "unat i < 12 \<Longrightarrow> show_input i = Inr (INPUTS ! unat i)"
  by (simp add: show_input_def Let_def INPUTS_def)

end
