(* ===== verification/Geo.thy ===== *)
theory Geo
  imports Base
begin

text \<open>
  The model of the value types of \<^verbatim>\<open>geo.h\<close>: \<open>point\<close> with its vector operations and its four
  lengths, and \<open>matrix\<close>, the bounds-checked two-dimensional array. The locale \<open>grid\<close> is the
  contract of a bounds-checked array that the map generator, the field of vision and the
  renderer rely on; \<open>matrix\<close> is its provider.
\<close>

section \<open>Points\<close>

datatype point = Point (px: int) (py: int)

definition point_plus :: "point \<Rightarrow> point \<Rightarrow> point" where
  "point_plus p o' = Point (px p + px o') (py p + py o')"

definition point_minus :: "point \<Rightarrow> point \<Rightarrow> point" where
  "point_minus p o' = Point (px p - px o') (py p - py o')"

text \<open>The operators of points make them a group, so that the library's lemmas apply to them.\<close>

instantiation point :: ab_group_add
begin

definition zero_point :: point where
  "zero_point = Point 0 0"

definition plus_point :: "point \<Rightarrow> point \<Rightarrow> point" where
  "p + q = point_plus p q"

definition minus_point :: "point \<Rightarrow> point \<Rightarrow> point" where
  "p - q = point_minus p q"

definition uminus_point :: "point \<Rightarrow> point" where
  "- p = Point (- px p) (- py p)"

instance
  by standard (auto simp: zero_point_def plus_point_def minus_point_def uminus_point_def point_plus_def point_minus_def)

end

instantiation point :: linorder
begin

definition less_eq_point :: "point \<Rightarrow> point \<Rightarrow> bool" where
  "p \<le> q \<longleftrightarrow> px p < px q \<or> px p = px q \<and> py p \<le> py q"

definition less_point :: "point \<Rightarrow> point \<Rightarrow> bool" where
  "p < q \<longleftrightarrow> px p < px q \<or> px p = px q \<and> py p < py q"

instance
  by standard (auto simp: less_eq_point_def less_point_def point.expand)

end

definition origin :: point where
  "origin = Point 0 0"

text \<open>\<^verbatim>\<open>==\<close> and \<^verbatim>\<open>!=\<close> of the source, on the coordinates.\<close>

definition point_eq :: "point \<Rightarrow> point \<Rightarrow> bool" where
  "point_eq p q \<longleftrightarrow> px p = px q \<and> py p = py q"

definition point_neq :: "point \<Rightarrow> point \<Rightarrow> bool" where
  "point_neq p q \<longleftrightarrow> px p \<noteq> px q \<or> py p \<noteq> py q"

definition lenL2Squared :: "point \<Rightarrow> int" where
  "lenL2Squared p = px p * px p + py p * py p"

text \<open>\<^verbatim>\<open>lenL2\<close> is a \<^verbatim>\<open>double\<close>; the model is the real number that it approximates.\<close>

definition lenL2 :: "point \<Rightarrow> real" where
  "lenL2 p = sqrt (real_of_int (lenL2Squared p))"

text \<open>The operands of the division are non-negative, where truncation and \<open>div\<close> agree.\<close>

definition lenNethack :: "point \<Rightarrow> int" where
  "lenNethack p =
     (let ax = \<bar>px p\<bar>; ay = \<bar>py p\<bar>
      in (46 * min ax ay + 95 * max ax ay + 25) div 100)"

definition lenTaxicab :: "point \<Rightarrow> int" where
  "lenTaxicab p = \<bar>px p\<bar> + \<bar>py p\<bar>"

definition lenWalking :: "point \<Rightarrow> int" where
  "lenWalking p = max \<bar>px p\<bar> \<bar>py p\<bar>"

section \<open>Matrices\<close>

record 'a matrix =
  m_size :: point
  m_init :: 'a
  m_data :: "'a list"

text \<open>
  The default constructor leaves value-initialised fields (\<open>v\<close> is \<^verbatim>\<open>Value{}\<close>). The sizing
  constructor fills \<^verbatim>\<open>size.x * size.y\<close> cells; a negative product is converted to a count no
  vector can have.
\<close>

definition Matrix_default :: "'a \<Rightarrow> 'a matrix" where
  "Matrix_default v = \<lparr>m_size = Point 0 0, m_init = v, m_data = []\<rparr>"

definition Matrix :: "point \<Rightarrow> 'a \<Rightarrow> 'a matrix res" where
  "Matrix sz init =
     (if px sz * py sz < 0 then Inl LengthError
      else Inr \<lparr>m_size = sz, m_init = init, m_data = replicate (nat (px sz * py sz)) init\<rparr>)"

definition matrix_size :: "'a matrix \<Rightarrow> point" where
  "matrix_size m = m_size m"

definition matrix_contains :: "'a matrix \<Rightarrow> point \<Rightarrow> bool" where
  "matrix_contains m p \<longleftrightarrow> 0 \<le> px p \<and> px p < px (m_size m) \<and> 0 \<le> py p \<and> py p < py (m_size m)"

definition matrix_index :: "'a matrix \<Rightarrow> point \<Rightarrow> nat" where
  "matrix_index m p = nat (px p + px (m_size m) * py p)"

definition matrix_get :: "'a matrix \<Rightarrow> point \<Rightarrow> 'a" where
  "matrix_get m p = (if matrix_contains m p then m_data m ! matrix_index m p else m_init m)"

definition matrix_set :: "'a matrix \<Rightarrow> point \<Rightarrow> 'a \<Rightarrow> 'a matrix" where
  "matrix_set m p v =
     (if matrix_contains m p then m\<lparr>m_data := (m_data m)[matrix_index m p := v]\<rparr> else m)"

definition matrix_fill :: "'a matrix \<Rightarrow> 'a \<Rightarrow> 'a matrix" where
  "matrix_fill m v = m\<lparr>m_data := replicate (length (m_data m)) v\<rparr>"

text \<open>The invariant the constructors establish: one cell per point of the rectangle.\<close>

definition matrix_wf :: "'a matrix \<Rightarrow> bool" where
  "matrix_wf m \<longleftrightarrow> int (length (m_data m)) = px (m_size m) * py (m_size m)"

section \<open>Lemmas on points\<close>

lemma px_plus [simp, geo_simps]: "px (p + q) = px p + px q" "py (p + q) = py p + py q"
  by (simp_all add: plus_point_def point_plus_def)

lemma px_minus [simp, geo_simps]: "px (p - q) = px p - px q" "py (p - q) = py p - py q"
  by (simp_all add: minus_point_def point_minus_def)

lemma px_zero [simp, geo_simps]: "px 0 = 0" "py 0 = 0"
  by (simp_all add: zero_point_def)

lemma px_uminus [simp, geo_simps]: "px (- p) = - px p" "py (- p) = - py p"
  by (simp_all add: uminus_point_def)

lemma px_origin [simp, geo_simps]: "px origin = 0" "py origin = 0"
  by (simp_all add: origin_def)

lemma origin_eq_zero [simp]: "origin = 0"
  by (simp add: origin_def zero_point_def)

lemma point_eq_iff [simp]: "point_eq p q \<longleftrightarrow> p = q"
  by (auto simp: point_eq_def intro: point.expand)

lemma point_neq_iff [simp]: "point_neq p q \<longleftrightarrow> p \<noteq> q"
  by (auto simp: point_neq_def intro: point.expand)

lemma point_eqI: "px p = px q \<Longrightarrow> py p = py q \<Longrightarrow> p = q"
  by (simp add: point.expand)

lemma lenWalking_le_iff: "lenWalking p \<le> k \<longleftrightarrow> \<bar>px p\<bar> \<le> k \<and> \<bar>py p\<bar> \<le> k"
  by (auto simp: lenWalking_def)

lemma lenWalking_nonneg [simp]: "0 \<le> lenWalking p"
  by (simp add: lenWalking_def)

text \<open>
  With coordinates of less than 32768 in magnitude every intermediate result of the five
  length functions is an \<^verbatim>\<open>int32_t\<close>.
\<close>

lemma lengths_int32:
  assumes "\<bar>px p\<bar> < 32768" "\<bar>py p\<bar> < 32768"
  shows "int32 (px p * px p)" "int32 (lenL2Squared p)" "int32 (lenTaxicab p)"
    "int32 (46 * min \<bar>px p\<bar> \<bar>py p\<bar> + 95 * max \<bar>px p\<bar> \<bar>py p\<bar> + 25)" "int32 (lenWalking p)"
proof -
  have sq: "0 \<le> i * i \<and> i * i \<le> 32767 * 32767" if "\<bar>i\<bar> < 32768" for i :: int
  proof -
    have "\<bar>i\<bar> * \<bar>i\<bar> \<le> 32767 * 32767" using that by (intro mult_mono) auto
    then show ?thesis by simp
  qed
  have sum: "int32 a \<and> int32 (a + b)"
    if "0 \<le> a \<and> a \<le> 32767 * 32767" "0 \<le> b \<and> b \<le> 32767 * 32767" for a b :: int
    using that by (simp add: int32_def)
  show "int32 (px p * px p)" "int32 (lenL2Squared p)"
    using sum [of "px p * px p" "py p * py p"] sq [OF assms(1)] sq [OF assms(2)]
    by (simp_all add: lenL2Squared_def)
  show "int32 (lenTaxicab p)" "int32 (lenWalking p)"
    "int32 (46 * min \<bar>px p\<bar> \<bar>py p\<bar> + 95 * max \<bar>px p\<bar> \<bar>py p\<bar> + 25)"
    using assms by (auto simp: int32_def lenTaxicab_def lenWalking_def)
qed

section \<open>The contract of a bounds-checked array\<close>

locale grid =
  fixes getv :: "'m \<Rightarrow> point \<Rightarrow> 'a"
    and setv :: "'m \<Rightarrow> point \<Rightarrow> 'a \<Rightarrow> 'm"
    and inside :: "'m \<Rightarrow> point \<Rightarrow> bool"
    and wf :: "'m \<Rightarrow> bool"
  assumes get_set: "wf m \<Longrightarrow> getv (setv m p v) q = (if q = p \<and> inside m p then v else getv m q)"
    and inside_set: "inside (setv m p v) q = inside m q"
    and wf_set: "wf m \<Longrightarrow> wf (setv m p v)"
begin

text \<open>
  A loop that writes \<open>g a\<close> at \<open>f a\<close> for each \<open>a\<close>: the cells off the written points are kept,
  a written cell holds its last value.
\<close>

lemma wf_writes: "wf m \<Longrightarrow> wf (fold (\<lambda>a m. setv m (f a) (g a)) as m)"
  by (induction as arbitrary: m) (simp_all add: wf_set)

lemma inside_writes: "inside (fold (\<lambda>a m. setv m (f a) (g a)) as m) q = inside m q"
  by (induction as arbitrary: m) (simp_all add: inside_set)

lemma get_writes_other:
  "wf m \<Longrightarrow> q \<notin> f ` set as \<Longrightarrow> getv (fold (\<lambda>a m. setv m (f a) (g a)) as m) q = getv m q"
  by (induction as arbitrary: m) (auto simp: wf_set get_set)

lemma get_writes_outside:
  "wf m \<Longrightarrow> \<not> inside m q \<Longrightarrow> getv (fold (\<lambda>a m. setv m (f a) (g a)) as m) q = getv m q"
  by (induction as arbitrary: m) (auto simp: wf_set get_set inside_set)

text \<open>Where all writes to a point agree on the value, the order of the loop does not matter.\<close>

lemma get_writes:
  assumes "wf m" "inside m q" "q \<in> f ` set as" "\<And>a. a \<in> set as \<Longrightarrow> f a = q \<Longrightarrow> g a = v"
  shows "getv (fold (\<lambda>a m. setv m (f a) (g a)) as m) q = v"
  using assms
proof (induction as arbitrary: m)
  case (Cons a as)
  show ?case
  proof (cases "q \<in> f ` set as")
    case True
    with Cons show ?thesis by (simp add: wf_set inside_set)
  next
    case False
    then have "f a = q" "g a = v" using Cons.prems by auto
    with False Cons.prems show ?thesis by (simp add: get_writes_other wf_set get_set)
  qed
qed simp

text \<open>Guarded writes: a loop with an \<^verbatim>\<open>if\<close> around its \<open>set\<close> writes the filtered list.\<close>

lemma guarded_writes:
  "fold (\<lambda>a m. if c a then setv m (f a) (g a) else m) as m =
   fold (\<lambda>a m. setv m (f a) (g a)) (filter c as) m"
  by (induction as arbitrary: m) auto

end

section \<open>Matrices provide it\<close>

lemma matrix_index_less:
  assumes "matrix_wf m" "matrix_contains m p"
  shows "matrix_index m p < length (m_data m)"
proof -
  have "px p + px (m_size m) * py p < px (m_size m) * (py p + 1)"
    using assms by (simp add: matrix_contains_def algebra_simps)
  also have "\<dots> \<le> px (m_size m) * py (m_size m)"
    using assms by (intro mult_left_mono) (auto simp: matrix_contains_def)
  finally show ?thesis
    using assms by (simp add: matrix_index_def matrix_wf_def matrix_contains_def nat_less_iff)
qed

lemma matrix_index_inj:
  assumes "matrix_contains m p" "matrix_contains m q" "matrix_index m p = matrix_index m q"
  shows "p = q"
proof -
  define w where "w = px (m_size m)"
  have eq: "px p + w * py p = px q + w * py q"
    using assms by (simp add: matrix_index_def matrix_contains_def eq_nat_nat_iff w_def)
  have "(px p + w * py p) mod w = px p" "(px q + w * py q) mod w = px q"
    using assms by (simp_all add: matrix_contains_def w_def)
  with eq have "px p = px q" by simp
  moreover from this eq have "py p = py q"
    using assms by (simp add: matrix_contains_def w_def)
  ultimately show ?thesis by (rule point_eqI)
qed

lemma matrix_set_fields [simp]:
  "m_size (matrix_set m p v) = m_size m" "m_init (matrix_set m p v) = m_init m"
  "length (m_data (matrix_set m p v)) = length (m_data m)"
  by (simp_all add: matrix_set_def)

lemma matrix_contains_set [simp]: "matrix_contains (matrix_set m p v) q = matrix_contains m q"
  by (simp add: matrix_contains_def)

lemma matrix_get_set:
  assumes "matrix_wf m"
  shows "matrix_get (matrix_set m p v) q =
    (if q = p \<and> matrix_contains m p then v else matrix_get m q)"
proof -
  have idx: "matrix_index (matrix_set m p v) q = matrix_index m q" for q
    by (simp add: matrix_index_def)
  have data: "m_data (matrix_set m p v) =
      (if matrix_contains m p then (m_data m)[matrix_index m p := v] else m_data m)"
    by (simp add: matrix_set_def)
  show ?thesis
    using matrix_index_less [OF assms] matrix_index_inj [of m p q]
    by (auto simp: matrix_get_def idx data nth_list_update)
qed

interpretation matrix_grid: grid matrix_get matrix_set matrix_contains matrix_wf
  by unfold_locales (simp_all add: matrix_get_set matrix_wf_def)

lemma matrix_fill_fields [simp]:
  "m_size (matrix_fill m v) = m_size m" "m_init (matrix_fill m v) = m_init m"
  "length (m_data (matrix_fill m v)) = length (m_data m)"
  by (simp_all add: matrix_fill_def)

lemma matrix_wf_fill [simp]: "matrix_wf (matrix_fill m v) = matrix_wf m"
  by (simp add: matrix_wf_def)

lemma matrix_contains_fill [simp]: "matrix_contains (matrix_fill m v) p = matrix_contains m p"
  by (simp add: matrix_contains_def)

lemma matrix_get_fill:
  assumes "matrix_wf m"
  shows "matrix_get (matrix_fill m v) p = (if matrix_contains m p then v else m_init m)"
proof -
  have "matrix_index (matrix_fill m v) p = matrix_index m p"
    by (simp add: matrix_index_def)
  then show ?thesis
    using matrix_index_less [OF assms, of p] by (simp add: matrix_get_def) (simp add: matrix_fill_def)
qed

text \<open>What the sizing constructor returns, wherever it does not throw.\<close>

lemma Matrix_Inr_iff:
  "Matrix sz init = Inr m \<longleftrightarrow> 0 \<le> px sz * py sz \<and>
     m = \<lparr>m_size = sz, m_init = init, m_data = replicate (nat (px sz * py sz)) init\<rparr>"
  by (auto simp: Matrix_def)

lemma Matrix_wf: "Matrix sz init = Inr m \<Longrightarrow> matrix_wf m"
  by (auto simp: Matrix_Inr_iff matrix_wf_def)

lemma Matrix_get: "Matrix sz init = Inr m \<Longrightarrow> matrix_get m p = init"
  using matrix_index_less [OF Matrix_wf, of sz init m p]
  by (auto simp: matrix_get_def Matrix_Inr_iff)

lemma Matrix_default_wf [simp]: "matrix_wf (Matrix_default v)"
  by (simp add: matrix_wf_def Matrix_default_def)

end
