(* ===== verification/Los.thy ===== *)
theory Los
  imports Geo
begin

text \<open>
  The model of \<^verbatim>\<open>geo.cpp\<close>: the integer line-of-sight walk \<open>LOS\<close>. The two loops are kept as the
  source has them, one per major axis; the lemmas give the closed form of the walk and from it
  the shape of a line: its length, its endpoints, its unit steps and its distance from the ideal
  segment.
\<close>

section \<open>The algorithm\<close>

text \<open>
  The state of a loop: \<^verbatim>\<open>current\<close>, \<^verbatim>\<open>test\<close> and \<^verbatim>\<open>result\<close>. \<open>los_step_x\<close> is the body of the
  first loop, \<open>los_step_y\<close> that of the second.
\<close>

type_synonym los_state = "point \<times> int \<times> point list"

fun los_step_x :: "int \<Rightarrow> int \<Rightarrow> int \<Rightarrow> int \<Rightarrow> los_state \<Rightarrow> los_state" where
  "los_step_x x_sign y_sign x_diff y_diff (current, test, result) =
     (let current = Point (px current + x_sign) (py current);
          test = test - y_diff;
          (current, test) =
            (if test < 0 then (Point (px current) (py current + y_sign), test + x_diff)
             else (current, test))
      in (current, test, result @ [current]))"

fun los_step_y :: "int \<Rightarrow> int \<Rightarrow> int \<Rightarrow> int \<Rightarrow> los_state \<Rightarrow> los_state" where
  "los_step_y x_sign y_sign x_diff y_diff (current, test, result) =
     (let current = Point (px current) (py current + y_sign);
          test = test - x_diff;
          (current, test) =
            (if test < 0 then (Point (px current + x_sign) (py current), test + y_diff)
             else (current, test))
      in (current, test, result @ [current]))"

definition LOS :: "point \<Rightarrow> point \<Rightarrow> point list res" where
  "LOS a b =
     (let x_diff = \<bar>px a - px b\<bar>;
          y_diff = \<bar>py a - py b\<bar>;
          x_sign = (if px b < px a then -1 else 1);
          y_sign = (if py b < py a then -1 else 1);
          sz = nat (max x_diff y_diff + 1);
          test = 0;
          (current, test, result) =
            (if y_diff \<le> x_diff
             then (los_step_x x_sign y_sign x_diff y_diff ^^ nat x_diff)
                    (a, (x_diff + test) div 2, [a])
             else (los_step_y x_sign y_sign x_diff y_diff ^^ nat y_diff)
                    (a, (y_diff + test) div 2, [a]))
      in assert (length result = sz) (Inr result))"

section \<open>Closed form\<close>

text \<open>
  The number of minor steps taken after \<open>i\<close> major ones, for a line of \<open>d\<close> major and \<open>e\<close> minor
  steps: the rounding of \<open>i * e / d\<close> to the nearest integer, ties towards the start.
\<close>

definition los_minor :: "int \<Rightarrow> int \<Rightarrow> int \<Rightarrow> int" where
  "los_minor d e i = (i * e + (d - 1 - d div 2)) div d"

definition los_point :: "point \<Rightarrow> point \<Rightarrow> int \<Rightarrow> point" where
  "los_point a b i =
     (let x_diff = \<bar>px a - px b\<bar>;
          y_diff = \<bar>py a - py b\<bar>;
          x_sign = (if px b < px a then -1 else 1);
          y_sign = (if py b < py a then -1 else 1)
      in if y_diff \<le> x_diff
         then Point (px a + i * x_sign) (py a + los_minor x_diff y_diff i * y_sign)
         else Point (px a + los_minor y_diff x_diff i * x_sign) (py a + i * y_sign))"

lemma los_minor_unique:
  assumes "0 \<le> d div 2 - i * e + k * d" "d div 2 - i * e + k * d < d"
  shows "los_minor d e i = k"
  unfolding los_minor_def
  using assms by (intro int_div_pos_eq [where r = "d - 1 - (d div 2 - i * e + k * d)"])
    (auto simp: algebra_simps)

lemma los_minor_test:
  assumes "0 < d"
  shows "0 \<le> d div 2 - i * e + los_minor d e i * d" "d div 2 - i * e + los_minor d e i * d < d"
proof -
  define n where "n = i * e + (d - 1 - d div 2)"
  define q where "q = n div d"
  have "n = d * q + n mod d" "0 \<le> n mod d" "n mod d < d"
    using assms by (simp_all add: q_def)
  moreover have "los_minor d e i = q"
    by (simp add: los_minor_def q_def n_def)
  ultimately show "0 \<le> d div 2 - i * e + los_minor d e i * d"
    "d div 2 - i * e + los_minor d e i * d < d"
    unfolding n_def by (simp_all add: mult.commute)
qed

lemma los_minor_0 [simp]: "0 \<le> d \<Longrightarrow> los_minor d e 0 = 0"
  by (cases "d = 0") (auto simp: los_minor_def intro: div_pos_pos_trivial)

lemma los_minor_Suc:
  fixes d e i :: int
  assumes "0 < d" "0 \<le> e" "e \<le> d"
  defines "t \<equiv> d div 2 - i * e + los_minor d e i * d - e"
  shows "los_minor d e (i + 1) = los_minor d e i + (if t < 0 then 1 else 0)"
  using los_minor_test [OF assms(1), of i e] assms
  by (intro los_minor_unique) (auto simp: algebra_simps split: if_splits)

lemma los_minor_end: "0 \<le> d \<Longrightarrow> 0 \<le> e \<Longrightarrow> e \<le> d \<Longrightarrow> los_minor d e d = e"
  by (cases "d = 0") (auto intro!: los_minor_unique simp: mult.commute)

lemma funpow_los_step_x:
  fixes a :: point and x_sign y_sign x_diff y_diff :: int
  assumes "0 \<le> y_diff" "y_diff \<le> x_diff" "n = 0 \<or> 0 < x_diff"
  defines "pt \<equiv> \<lambda>i. Point (px a + i * x_sign) (py a + los_minor x_diff y_diff i * y_sign)"
  shows "(los_step_x x_sign y_sign x_diff y_diff ^^ n) (a, x_diff div 2, [a]) =
    (pt (int n), x_diff div 2 - int n * y_diff + los_minor x_diff y_diff (int n) * x_diff,
     map (pt \<circ> int) [0..<Suc n])"
  using assms(3)
proof (induction n)
  case 0
  then show ?case using assms(1,2) by (simp add: pt_def)
next
  case (Suc n)
  then have "0 < x_diff" by simp
  from los_minor_Suc [OF this assms(1,2), of "int n"] Suc show ?case
    by (auto simp: pt_def Let_def algebra_simps)
qed

lemma funpow_los_step_y:
  fixes a :: point and x_sign y_sign x_diff y_diff :: int
  assumes "0 \<le> x_diff" "x_diff \<le> y_diff" "n = 0 \<or> 0 < y_diff"
  defines "pt \<equiv> \<lambda>i. Point (px a + los_minor y_diff x_diff i * x_sign) (py a + i * y_sign)"
  shows "(los_step_y x_sign y_sign x_diff y_diff ^^ n) (a, y_diff div 2, [a]) =
    (pt (int n), y_diff div 2 - int n * x_diff + los_minor y_diff x_diff (int n) * y_diff,
     map (pt \<circ> int) [0..<Suc n])"
  using assms(3)
proof (induction n)
  case 0
  then show ?case using assms(1,2) by (simp add: pt_def)
next
  case (Suc n)
  then have "0 < y_diff" by simp
  from los_minor_Suc [OF this assms(1,2), of "int n"] Suc show ?case
    by (auto simp: pt_def Let_def algebra_simps)
qed

text \<open>The walk is total and its points have the closed form.\<close>

lemma LOS_closed_form:
  "LOS a b = Inr (map (los_point a b \<circ> int) [0..<nat (lenWalking (b - a)) + 1])"
proof (cases "\<bar>py a - py b\<bar> \<le> \<bar>px a - px b\<bar>")
  case True
  then show ?thesis
    using funpow_los_step_x [of "\<bar>py a - py b\<bar>" "\<bar>px a - px b\<bar>" "nat \<bar>px a - px b\<bar>"]
    by (simp add: LOS_def Let_def los_point_def comp_def lenWalking_def abs_minus_commute
        max_def nat_add_distrib del: upt_Suc)
next
  case False
  then show ?thesis
    using funpow_los_step_y [of "\<bar>px a - px b\<bar>" "\<bar>py a - py b\<bar>" "nat \<bar>py a - py b\<bar>"]
    by (simp add: LOS_def Let_def los_point_def comp_def lenWalking_def abs_minus_commute
        max_def nat_add_distrib del: upt_Suc)
qed

section \<open>Shape of a line\<close>

lemma los_minor_nonneg: "0 \<le> d \<Longrightarrow> 0 \<le> e \<Longrightarrow> 0 \<le> i \<Longrightarrow> 0 \<le> los_minor d e i"
  by (cases "d = 0") (auto simp: los_minor_def pos_imp_zdiv_nonneg_iff)

lemma los_minor_le:
  assumes "0 \<le> e" "e \<le> d" "0 \<le> i"
  shows "los_minor d e i \<le> i"
proof (cases "d = 0")
  case False
  then have "0 < d" using assms by simp
  have "i * e \<le> i * d" using assms by (intro mult_left_mono) auto
  then have "los_minor d e i * d < (i + 1) * d"
    using los_minor_test(2) [OF \<open>0 < d\<close>, of i e] \<open>0 < d\<close> by (simp add: algebra_simps)
  then show ?thesis using \<open>0 < d\<close> by (simp add: mult_less_cancel_right)
qed (use assms in \<open>simp add: los_minor_def\<close>)

lemma los_minor_step:
  assumes "0 < d" "0 \<le> e" "e \<le> d"
  shows "los_minor d e (i + 1) = los_minor d e i \<or> los_minor d e (i + 1) = los_minor d e i + 1"
  using los_minor_Suc [OF assms, of i] by (auto split: if_splits)

text \<open>With an odd number of major steps there are no ties, and the walk is its own mirror.\<close>

lemma los_minor_reverse:
  assumes "odd d" "0 < d"
  shows "los_minor d e (d - i) = e - los_minor d e i"
proof (rule los_minor_unique)
  have h: "d = 2 * (d div 2) + 1" using assms by presburger
  have eq: "d div 2 - (d - i) * e + (e - los_minor d e i) * d =
      d div 2 + i * e - los_minor d e i * d"
    by (simp add: algebra_simps)
  show "0 \<le> d div 2 - (d - i) * e + (e - los_minor d e i) * d"
    "d div 2 - (d - i) * e + (e - los_minor d e i) * d < d"
    unfolding eq using los_minor_test [OF \<open>0 < d\<close>, of i e] h by linarith+
qed

text \<open>Both axes at once: a line is a sign per coordinate, a major axis and the two step counts.\<close>

lemma los_point_form:
  obtains xs ys E maj where "xs = 1 \<or> xs = -1" "ys = 1 \<or> ys = -1"
    "0 \<le> E" "E \<le> lenWalking (b - a)"
    "\<And>i. los_point a b i = a + (if maj then Point (i * xs) (los_minor (lenWalking (b - a)) E i * ys)
       else Point (los_minor (lenWalking (b - a)) E i * xs) (i * ys))"
    "b = a + (if maj then Point (lenWalking (b - a) * xs) (E * ys)
       else Point (E * xs) (lenWalking (b - a) * ys))"
proof -
  define X Y where "X = \<bar>px a - px b\<bar>" and "Y = \<bar>py a - py b\<bar>"
  define xs ys :: int where "xs = (if px b < px a then -1 else 1)" and "ys = (if py b < py a then -1 else 1)"
  have b: "px b = px a + X * xs" "py b = py a + Y * ys"
    by (auto simp: xs_def ys_def X_def Y_def)
  have D: "lenWalking (b - a) = max X Y"
    by (simp add: lenWalking_def X_def Y_def abs_minus_commute)
  have pt: "los_point a b i = (if Y \<le> X then Point (px a + i * xs) (py a + los_minor X Y i * ys)
         else Point (px a + los_minor Y X i * xs) (py a + i * ys))" for i
    unfolding los_point_def Let_def X_def Y_def xs_def ys_def by (rule refl)
  have "xs = 1 \<or> xs = -1" "ys = 1 \<or> ys = -1" by (auto simp: xs_def ys_def)
  then show ?thesis
  proof (rule that [of xs ys "min X Y" "Y \<le> X"])
    show "0 \<le> min X Y" by (simp add: X_def Y_def)
    show "min X Y \<le> lenWalking (b - a)" by (simp add: D)
    show "los_point a b i = a + (if Y \<le> X
        then Point (i * xs) (los_minor (lenWalking (b - a)) (min X Y) i * ys)
        else Point (los_minor (lenWalking (b - a)) (min X Y) i * xs) (i * ys))" for i
      unfolding pt D by (rule point_eqI) simp_all
    show "b = a + (if Y \<le> X then Point (lenWalking (b - a) * xs) (min X Y * ys)
       else Point (min X Y * xs) (lenWalking (b - a) * ys))"
      unfolding D by (rule point_eqI) (simp_all add: b)
  qed
qed

lemma los_point_0 [simp]: "los_point a b 0 = a"
  by (simp add: los_point_def Let_def)

lemma los_point_end: "los_point a b (lenWalking (b - a)) = b"
proof (rule los_point_form [of b a])
  fix xs ys E maj
  assume E: "0 \<le> E" "E \<le> lenWalking (b - a)"
    and pt: "\<And>i. los_point a b i = a + (if maj
      then Point (i * xs) (los_minor (lenWalking (b - a)) E i * ys)
      else Point (los_minor (lenWalking (b - a)) E i * xs) (i * ys))"
    and b: "b = a + (if maj then Point (lenWalking (b - a) * xs) (E * ys)
       else Point (E * xs) (lenWalking (b - a) * ys))"
  show ?thesis unfolding pt los_minor_end [OF lenWalking_nonneg E] by (rule b [symmetric])
qed

lemma los_point_dist:
  assumes "0 \<le> i"
  shows "lenWalking (los_point a b i - a) = i"
proof (rule los_point_form [of b a])
  fix xs ys E maj
  assume E: "0 \<le> E" "E \<le> lenWalking (b - a)" and sgn: "xs = 1 \<or> xs = -1" "ys = 1 \<or> ys = -1"
    and pt: "\<And>i. los_point a b i = a + (if maj
      then Point (i * xs) (los_minor (lenWalking (b - a)) E i * ys)
      else Point (los_minor (lenWalking (b - a)) E i * xs) (i * ys))"
  have "0 \<le> los_minor (lenWalking (b - a)) E i" "los_minor (lenWalking (b - a)) E i \<le> i"
    using los_minor_le [OF E assms] los_minor_nonneg [OF _ E(1) assms] by auto
  with sgn assms show ?thesis unfolding pt lenWalking_def by auto
qed

lemma los_point_step:
  assumes "0 < lenWalking (b - a)"
  shows "lenWalking (los_point a b (i + 1) - los_point a b i) = 1"
proof (rule los_point_form [of b a])
  fix xs ys E maj
  assume E: "0 \<le> E" "E \<le> lenWalking (b - a)" and sgn: "xs = 1 \<or> xs = -1" "ys = 1 \<or> ys = -1"
    and pt: "\<And>i. los_point a b i = a + (if maj
      then Point (i * xs) (los_minor (lenWalking (b - a)) E i * ys)
      else Point (los_minor (lenWalking (b - a)) E i * xs) (i * ys))"
  show ?thesis
    using los_minor_step [OF assms E, of i] sgn unfolding pt lenWalking_def
    by (auto simp: algebra_simps)
qed

text \<open>The walk back is the walk out turned by half a revolution.\<close>

lemma los_point_rotate:
  assumes "0 < lenWalking (b - a)"
  shows "los_point b a i = a + b - los_point a b i"
proof -
  define X Y where "X = \<bar>px a - px b\<bar>" and "Y = \<bar>py a - py b\<bar>"
  define xs ys :: int where "xs = (if px b < px a then -1 else 1)" and "ys = (if py b < py a then -1 else 1)"
  define xs' ys' :: int where "xs' = (if px a < px b then -1 else 1)" and "ys' = (if py a < py b then -1 else 1)"
  have ab: "los_point a b i = (if Y \<le> X then Point (px a + i * xs) (py a + los_minor X Y i * ys)
         else Point (px a + los_minor Y X i * xs) (py a + i * ys))"
    unfolding los_point_def Let_def X_def Y_def xs_def ys_def by (rule refl)
  have ba: "los_point b a i = (if Y \<le> X then Point (px b + i * xs') (py b + los_minor X Y i * ys')
         else Point (px b + los_minor Y X i * xs') (py b + i * ys'))"
    unfolding los_point_def Let_def X_def Y_def xs'_def ys'_def by (simp add: abs_minus_commute)
  have flip: "xs' = - xs \<or> X = 0" "ys' = - ys \<or> Y = 0"
    by (auto simp: xs_def xs'_def ys_def ys'_def X_def Y_def)
  have pos: "0 < max X Y" "0 \<le> X" "0 \<le> Y"
    using assms by (simp_all add: lenWalking_def X_def Y_def abs_minus_commute)
  have flat: "los_minor d 0 i = 0" if "0 < d" for d
    using that by (simp add: los_minor_def div_pos_pos_trivial)
  show ?thesis
    unfolding ab ba using flip pos
    by (cases "X = 0"; cases "Y = 0") (auto simp: flat intro!: point_eqI)
qed

lemma los_point_reverse:
  assumes "odd (lenWalking (b - a))"
  shows "los_point b a i = los_point a b (lenWalking (b - a) - i)"
proof -
  have pos: "0 < lenWalking (b - a)"
    using assms by (metis even_zero lenWalking_nonneg order_le_less)
  show ?thesis
  proof (rule los_point_form [of b a])
    fix xs ys E maj
    assume pt: "\<And>i. los_point a b i = a + (if maj
        then Point (i * xs) (los_minor (lenWalking (b - a)) E i * ys)
        else Point (los_minor (lenWalking (b - a)) E i * xs) (i * ys))"
      and b: "b = a + (if maj then Point (lenWalking (b - a) * xs) (E * ys)
         else Point (E * xs) (lenWalking (b - a) * ys))"
    have "px b = px a + (if maj then lenWalking (b - a) * xs else E * xs)"
      "py b = py a + (if maj then E * ys else lenWalking (b - a) * ys)"
      by (subst b, simp)+
    then show ?thesis
      unfolding los_point_rotate [OF pos] pt los_minor_reverse [OF assms pos]
      by (intro point_eqI) (simp_all add: algebra_simps)
  qed
qed

text \<open>The signed area between the walk and the segment: at most half a cell off.\<close>

definition cross :: "point \<Rightarrow> point \<Rightarrow> int" where
  "cross p q = px p * py q - py p * px q"

lemma los_minor_deviation:
  assumes "0 < d"
  shows "2 * \<bar>i * e - los_minor d e i * d\<bar> \<le> d"
proof -
  have h: "2 * (d div 2) \<le> d" "d \<le> 2 * (d div 2) + 1" by presburger+
  have bound: "2 * \<bar>x\<bar> \<le> d" if "0 \<le> h - x" "h - x < d" "2 * h \<le> d" "d \<le> 2 * h + 1" for x h :: int
    using that by arith
  show ?thesis
    using los_minor_test [OF assms, of i e] h by (intro bound [of "d div 2"]) linarith+
qed

lemma los_point_deviation:
  "2 * \<bar>cross (los_point a b i - a) (b - a)\<bar> \<le> lenWalking (b - a)"
proof (cases "b = a")
  case False
  then have pos: "0 < lenWalking (b - a)"
    by (auto intro!: point_eqI simp: less_max_iff_disj lenWalking_def)
  show ?thesis
  proof (rule los_point_form [of b a])
    fix xs ys E maj
    assume sgn: "xs = 1 \<or> xs = -1" "ys = 1 \<or> ys = -1"
      and pt: "\<And>i. los_point a b i = a + (if maj
        then Point (i * xs) (los_minor (lenWalking (b - a)) E i * ys)
        else Point (los_minor (lenWalking (b - a)) E i * xs) (i * ys))"
      and b: "b = a + (if maj then Point (lenWalking (b - a) * xs) (E * ys)
         else Point (E * xs) (lenWalking (b - a) * ys))"
    define D where "D = lenWalking (b - a)"
    have ba: "b - a = (if maj then Point (D * xs) (E * ys) else Point (E * xs) (D * ys))"
      unfolding D_def by (metis b add_diff_cancel_left')
    have "\<bar>cross (los_point a b i - a) (b - a)\<bar> = \<bar>i * E - los_minor D E i * D\<bar>"
      using sgn unfolding pt cross_def unfolding D_def [symmetric] unfolding ba
      by (auto simp: algebra_simps)
    then show ?thesis
      using los_minor_deviation [OF pos, of i E] by (simp add: D_def)
  qed
qed (simp add: cross_def)

end
