(* ===== verification/Fov.thy ===== *)
theory Fov
  imports Los "HOL-Library.Sublist"
begin

text \<open>
  The model of the field-of-vision trie of \<^verbatim>\<open>geo.h\<close> (\<^verbatim>\<open>FOVNode\<close>, \<^verbatim>\<open>FOV\<close>): the trie of all
  lines of sight from the origin to the square of a given radius, its construction by
  \<^verbatim>\<open>trieUpdate\<close>, and the breadth-first traversal \<^verbatim>\<open>fieldOfVision\<close> that asks a callback which
  nodes block. The lemmas identify the set of root-to-node paths of the trie and give an
  invariant rule for the traversal with a stateful callback.
\<close>

section \<open>The trie\<close>

text \<open>
  A node owns its children. Of its parent the code reads only the point, and only during the
  traversal; the model hands it down there instead of storing a pointer.
\<close>

datatype fov_node = FOVNode (node_point: point) (node_children: "fov_node list")

record fov =
  radius :: int
  root :: fov_node

text \<open>The guard \<^verbatim>\<open>node.point.lenL2() > radius - 0.5\<close>.\<close>

definition beyond :: "int \<Rightarrow> point \<Rightarrow> bool" where
  "beyond r p \<longleftrightarrow> lenL2 p > real_of_int r - 0.5"

text \<open>
  The lambda of \<^verbatim>\<open>trieUpdate\<close> returns a reference to the first child at \<open>next\<close>, appending a fresh
  one when there is none; \<open>update_child\<close> applies an update to that child in place.
\<close>

fun update_child :: "point \<Rightarrow> (fov_node \<Rightarrow> fov_node res) \<Rightarrow> fov_node list \<Rightarrow> fov_node list res" where
  "update_child nxt f [] = rbind (f (FOVNode nxt [])) (\<lambda>c. Inr [c])"
| "update_child nxt f (c # cs) =
     (if node_point c = nxt then rbind (f c) (\<lambda>c'. Inr (c' # cs))
      else rbind (update_child nxt f cs) (\<lambda>cs'. Inr (c # cs')))"

function trieUpdate :: "int \<Rightarrow> fov_node \<Rightarrow> point list \<Rightarrow> nat \<Rightarrow> fov_node res" where
  "trieUpdate r node line i =
     (if \<not> i < length line then Inl BadAccess
      else assert (line ! i = node_point node)
        (if beyond r (node_point node) then Inr node
         else if \<not> i + 1 < length line then Inr node
         else rbind
           (update_child (line ! (i + 1))
             (\<lambda>child. assert (line ! (i + 1) = node_point child)
                (trieUpdate r child line (i + 1)))
             (node_children node))
           (\<lambda>cs. Inr (FOVNode (node_point node) cs))))"
  by pat_completeness auto
termination
  by (relation "measure (\<lambda>(r, node, line, i). length line - i)") auto

declare trieUpdate.simps [simp del]

text \<open>The perimeter point of round \<open>i\<close>, \<open>j\<close> of the constructor.\<close>

definition fov_target :: "int \<Rightarrow> int \<Rightarrow> int \<Rightarrow> point" where
  "fov_target r i j =
     (let p = (if j AND 1 \<noteq> 0 then Point r i else Point i r);
          xb = px p * (if j AND 2 \<noteq> 0 then 1 else -1);
          yb = py p * (if j AND 4 \<noteq> 0 then 1 else -1)
      in Point xb yb)"

definition FOV :: "int \<Rightarrow> fov res" where
  "FOV r =
     rbind
       (rfold (\<lambda>i. rfold (\<lambda>j node.
            rbind (LOS origin (fov_target r i j)) (\<lambda>line. trieUpdate r node line 0))
          [0..7]) [0..r] (FOVNode (Point 0 0) []))
       (\<lambda>node. Inr \<lparr>radius = r, root = node\<rparr>)"

section \<open>The traversal\<close>

text \<open>
  The vector \<^verbatim>\<open>cache\<close> from its read position on is a queue of nodes, each with the point of its
  parent (\<open>None\<close> for the root). The callback may update a state \<open>'s\<close>.
\<close>

type_synonym 's blocked_fn = "point \<Rightarrow> point option \<Rightarrow> 's \<Rightarrow> bool \<times> 's"

function fov_loop :: "'s blocked_fn \<Rightarrow> (fov_node \<times> point option) list \<Rightarrow> 's \<Rightarrow> 's" where
  "fov_loop blocked [] s = s"
| "fov_loop blocked ((node, prev) # queue) s =
     (let (b, s') = blocked (node_point node) prev s
      in if b then fov_loop blocked queue s'
         else fov_loop blocked
           (queue @ map (\<lambda>c. (c, Some (node_point node))) (node_children node)) s')"
  by pat_completeness auto

lemma size_children: "(\<Sum>c\<leftarrow>node_children node. size c) < size node"
proof (cases node)
  case (FOVNode p cs)
  have "(\<Sum>c\<leftarrow>cs. size c) \<le> size_list size cs"
    by (induction cs) auto
  with FOVNode show ?thesis by simp
qed

lemma size_node_pos: "0 < size (node :: fov_node)"
  by (cases node) simp

termination fov_loop
  by (relation "measure (\<lambda>(blocked, queue, s). \<Sum>e\<leftarrow>queue. size (fst e))")
    (auto simp: comp_def size_children size_node_pos)

definition fieldOfVision :: "fov \<Rightarrow> 's blocked_fn \<Rightarrow> 's \<Rightarrow> 's" where
  "fieldOfVision f blocked s = fov_loop blocked [(root f, None)] s"

section \<open>The guard in integers\<close>

text \<open>
  The comparison of the square root with a half-integer is decided by an integer inequality:
  no floating-point rounding can change it.
\<close>

lemma beyond_iff [code]:
  "beyond r p \<longleftrightarrow> r \<le> 0 \<or> (2 * r - 1) * (2 * r - 1) < 4 * lenL2Squared p"
proof (cases "r \<le> 0")
  case True
  have "0 \<le> lenL2 p" by (simp add: lenL2_def lenL2Squared_def)
  with True have "real_of_int r - 0.5 < lenL2 p" using of_int_le_0_iff [of r] by linarith
  then show ?thesis using True by (simp add: beyond_def)
next
  case False
  define x where "x = real_of_int (2 * r - 1) / 2"
  have x: "0 \<le> x" "real_of_int r - 0.5 = x" using False by (auto simp: x_def field_simps)
  have "beyond r p \<longleftrightarrow> \<not> sqrt (real_of_int (lenL2Squared p)) \<le> x"
    unfolding beyond_def x lenL2_def by (simp only: not_le)
  also have "\<dots> \<longleftrightarrow> \<not> real_of_int (lenL2Squared p) \<le> x\<^sup>2"
    by (meson x(1) real_le_lsqrt sqrt_le_D)
  also have "\<dots> \<longleftrightarrow> (real_of_int (2 * r - 1))\<^sup>2 < 4 * real_of_int (lenL2Squared p)"
    by (simp add: x_def power_divide not_le mult.commute)
  also have "\<dots> \<longleftrightarrow> (2 * r - 1) * (2 * r - 1) < 4 * lenL2Squared p"
    unfolding power2_eq_square by (metis of_int_less_iff of_int_mult of_int_numeral)
  finally show ?thesis using False by simp
qed

section \<open>Paths of the trie\<close>

fun trie_paths :: "fov_node \<Rightarrow> point list set" where
  "trie_paths (FOVNode p cs) = {[p]} \<union> (#) p ` (\<Union>c \<in> set cs. trie_paths c)"

text \<open>The part of a line that enters the trie: up to the first point beyond the radius.\<close>

fun cut :: "int \<Rightarrow> point list \<Rightarrow> point list" where
  "cut r [] = []"
| "cut r (p # ps) = (if beyond r p then [p] else p # cut r ps)"

definition prefixes_of :: "point list \<Rightarrow> point list set" where
  "prefixes_of ps = {q. q \<noteq> [] \<and> prefix q ps}"

lemma prefixes_of_Nil [simp]: "prefixes_of [] = {}"
  by (simp add: prefixes_of_def)

lemma prefixes_of_Cons: "prefixes_of (p # ps) = {[p]} \<union> (#) p ` prefixes_of ps"
proof -
  have "q \<noteq> [] \<and> prefix q (p # ps) \<longleftrightarrow> q = [p] \<or> (\<exists>q'. q = p # q' \<and> q' \<noteq> [] \<and> prefix q' ps)" for q
    by (cases q) auto
  then show ?thesis unfolding prefixes_of_def by auto
qed

lemma update_child_paths:
  assumes f: "\<And>c. node_point c = nxt \<Longrightarrow>
      \<exists>c'. f c = Inr c' \<and> node_point c' = nxt \<and> trie_paths c' = trie_paths c \<union> S"
    and S: "[nxt] \<in> S"
  shows "\<exists>cs'. update_child nxt f cs = Inr cs' \<and>
    (\<Union>c \<in> set cs'. trie_paths c) = (\<Union>c \<in> set cs. trie_paths c) \<union> S"
proof (induction cs)
  case Nil
  from f [of "FOVNode nxt []"] S show ?case by auto
next
  case (Cons c cs)
  show ?case
  proof (cases "node_point c = nxt")
    case True
    from f [OF this] True show ?thesis by auto
  next
    case False
    with Cons show ?thesis by auto
  qed
qed

lemma trieUpdate_paths:
  assumes "i < length line" "line ! i = node_point node"
  shows "\<exists>node'. trieUpdate r node line i = Inr node' \<and> node_point node' = node_point node \<and>
    trie_paths node' = trie_paths node \<union> prefixes_of (cut r (drop i line))"
  using assms
proof (induction r node line i rule: trieUpdate.induct)
  case (1 r node line i)
  obtain p cs where node: "node = FOVNode p cs" by (cases node)
  have drop: "drop i line = p # drop (Suc i) line"
    using "1.prems" node by (simp flip: Cons_nth_drop_Suc)
  show ?case
  proof (cases "beyond r p \<or> \<not> i + 1 < length line")
    case True
    then have "cut r (drop i line) = [p]" by (auto simp: drop)
    moreover have "trieUpdate r node line i = Inr node"
      using True "1.prems" node by (subst trieUpdate.simps) auto
    ultimately show ?thesis by (auto simp: node prefixes_of_Cons)
  next
    case False
    let ?S = "prefixes_of (cut r (drop (Suc i) line))"
    let ?f = "\<lambda>child. assert (line ! (i + 1) = node_point child) (trieUpdate r child line (i + 1))"
    have "\<exists>cs'. update_child (line ! (i + 1)) ?f cs = Inr cs' \<and>
        (\<Union>c \<in> set cs'. trie_paths c) = (\<Union>c \<in> set cs. trie_paths c) \<union> ?S"
    proof (rule update_child_paths)
      fix c assume c: "node_point c = line ! (i + 1)"
      show "\<exists>c'. ?f c = Inr c' \<and> node_point c' = line ! (i + 1) \<and> trie_paths c' = trie_paths c \<union> ?S"
      proof -
        have "\<exists>c'. trieUpdate r c line (i + 1) = Inr c' \<and> node_point c' = node_point c \<and>
            trie_paths c' = trie_paths c \<union> prefixes_of (cut r (drop (i + 1) line))"
          by (rule "1.IH") (use False "1.prems" node c in auto)
        with c show ?thesis by simp
      qed
    next
      show "[line ! (i + 1)] \<in> ?S"
        using False by (simp add: prefixes_of_Cons flip: Cons_nth_drop_Suc)
    qed
    then obtain cs' where cs': "update_child (line ! (i + 1)) ?f cs = Inr cs'"
      "(\<Union>c \<in> set cs'. trie_paths c) = (\<Union>c \<in> set cs. trie_paths c) \<union> ?S" by blast
    have "trieUpdate r node line i = Inr (FOVNode p cs')"
      using False "1.prems" node cs'(1) by (subst trieUpdate.simps) simp
    moreover have "cut r (drop i line) = p # cut r (drop (Suc i) line)"
      using False by (simp add: drop)
    ultimately show ?thesis using cs'(2) by (auto simp: node prefixes_of_Cons)
  qed
qed

section \<open>The trie of a radius\<close>

lemma fov_target_walking:
  "0 \<le> i \<Longrightarrow> i \<le> r \<Longrightarrow> lenWalking (fov_target r i j) = r"
  by (auto simp: fov_target_def Let_def lenWalking_def)

lemma fov_targets:
  assumes "0 \<le> r"
  shows "{fov_target r i j | i j. i \<in> {0..r} \<and> j \<in> {0..7}} = {t. lenWalking t = r}"
proof -
  have "\<exists>i j. t = fov_target r i j \<and> 0 \<le> i \<and> i \<le> r \<and> 0 \<le> j \<and> j \<le> 7" if t: "lenWalking t = r" for t
  proof -
    define i where "i = min \<bar>px t\<bar> \<bar>py t\<bar>"
    define j :: int where "j = (if \<bar>py t\<bar> \<le> \<bar>px t\<bar> then 1 else 0) + (if 0 \<le> px t then 2 else 0) +
      (if 0 \<le> py t then 4 else 0)"
    have "t = fov_target r i j"
      using t unfolding fov_target_def i_def j_def Let_def lenWalking_def
      by (intro point_eqI) (auto split: if_splits)
    moreover have "0 \<le> i" "i \<le> r" "0 \<le> j" "j \<le> 7"
      using t by (auto simp: i_def j_def lenWalking_def)
    ultimately show ?thesis by blast
  qed
  then show ?thesis by (fastforce simp: fov_target_walking)
qed

definition sight_line :: "point \<Rightarrow> point list" where
  "sight_line t = map (los_point 0 t \<circ> int) [0..<nat (lenWalking t) + 1]"

lemma LOS_origin: "LOS origin t = Inr (sight_line t)"
  using LOS_closed_form [of origin t] by (simp add: sight_line_def)

lemma hd_sight_line: "sight_line t ! 0 = 0" "sight_line t \<noteq> []"
  by (simp_all add: sight_line_def del: upt_Suc)

text \<open>The construction never trips an assertion, and the trie is exactly the cut lines of sight.\<close>

lemma FOV_paths:
  assumes "0 \<le> r"
  shows "\<exists>node. FOV r = Inr \<lparr>radius = r, root = node\<rparr> \<and> node_point node = 0 \<and>
    trie_paths node = (\<Union>t \<in> {t. lenWalking t = r}. prefixes_of (cut r (sight_line t)))"
proof -
  let ?P = "\<lambda>t. prefixes_of (cut r (sight_line t))"
  have upd: "\<exists>node'. trieUpdate r node (sight_line t) 0 = Inr node' \<and> node_point node' = 0 \<and>
      trie_paths node' = trie_paths node \<union> ?P t" if "node_point node = 0" for node t
    using trieUpdate_paths [of 0 "sight_line t" node r] that hd_sight_line [of t] by auto
  have inner: "\<exists>node'. rfold (\<lambda>j node. rbind (LOS origin (fov_target r i j))
          (\<lambda>line. trieUpdate r node line 0)) js node = Inr node' \<and> node_point node' = 0 \<and>
      trie_paths node' = trie_paths node \<union> (\<Union>j \<in> set js. ?P (fov_target r i j))"
    if "node_point node = 0" for i js node
    using that
  proof (induction js arbitrary: node)
    case (Cons j js)
    from upd [OF Cons.prems, of "fov_target r i j"] Cons.IH show ?case
      by (fastforce simp: LOS_origin simp del: origin_eq_zero)
  qed simp
  have outer: "\<exists>node'. rfold (\<lambda>i. rfold (\<lambda>j node. rbind (LOS origin (fov_target r i j))
          (\<lambda>line. trieUpdate r node line 0)) js) ks node = Inr node' \<and> node_point node' = 0 \<and>
      trie_paths node' = trie_paths node \<union> (\<Union>i \<in> set ks. \<Union>j \<in> set js. ?P (fov_target r i j))"
    if "node_point node = 0" for ks js node
    using that
  proof (induction ks arbitrary: node)
    case (Cons i ks)
    from inner [OF Cons.prems, of i js] Cons.IH show ?case by fastforce
  qed simp
  have root: "{[0]} \<subseteq> ?P t" for t
    using hd_sight_line [of t] by (cases "sight_line t") (auto simp: prefixes_of_Cons)
  have "lenWalking (Point r 0) = r" using assms by (simp add: lenWalking_def)
  then have "{[0]} \<union> (\<Union>t \<in> {t. lenWalking t = r}. ?P t) = (\<Union>t \<in> {t. lenWalking t = r}. ?P t)"
    using root by blast
  moreover have "(\<Union>i \<in> {0..r}. \<Union>j \<in> {0..7}. ?P (fov_target r i j)) = (\<Union>t \<in> {t. lenWalking t = r}. ?P t)"
    unfolding fov_targets [OF assms, symmetric] by blast
  ultimately show ?thesis
    using outer [of "FOVNode (Point 0 0) []" "[0..7]" "[0..r]"]
    by (auto simp: FOV_def zero_point_def)
qed

lemma FOV_trie_paths:
  assumes "0 \<le> r" "FOV r = Inr f"
  shows "radius f = r" "node_point (root f) = 0"
    "trie_paths (root f) = (\<Union>t \<in> {t. lenWalking t = r}. prefixes_of (cut r (sight_line t)))"
  using FOV_paths [OF assms(1)] assms(2) by fastforce+

section \<open>Edges of the trie\<close>

fun all_edges :: "(point \<Rightarrow> point \<Rightarrow> bool) \<Rightarrow> fov_node \<Rightarrow> bool" where
  "all_edges E (FOVNode p cs) \<longleftrightarrow> (\<forall>c \<in> set cs. E p (node_point c) \<and> all_edges E c)"

lemma all_edges_children:
  "all_edges E node \<longleftrightarrow> (\<forall>c \<in> set (node_children node). E (node_point node) (node_point c) \<and> all_edges E c)"
  by (cases node) simp

lemma trie_paths_children:
  "trie_paths node = {[node_point node]} \<union>
     (#) (node_point node) ` (\<Union>c \<in> set (node_children node). trie_paths c)"
  by (cases node) simp

lemma node_point_path: "[node_point node] \<in> trie_paths node"
  by (cases node) simp

lemma trie_path_not_Nil: "q \<in> trie_paths node \<Longrightarrow> q \<noteq> []"
  by (cases node) auto

lemma trie_path_hd: "q \<in> trie_paths node \<Longrightarrow> hd q = node_point node"
  by (cases node) auto

lemma all_edgesI:
  assumes "\<And>q. q \<in> trie_paths node \<Longrightarrow> successively E q"
  shows "all_edges E node"
  using assms
proof (induction node)
  case (FOVNode p cs)
  show ?case
  proof (simp, intro ballI conjI)
    fix c assume c: "c \<in> set cs"
    have "successively E (p # q)" if "q \<in> trie_paths c" for q
      using FOVNode.prems [of "p # q"] c that by auto
    note * = this
    from * [OF node_point_path] show "E p (node_point c)" by simp
    show "all_edges E c"
      by (rule FOVNode.IH [OF c]) (metis * successively_Cons successively.simps(1))
  qed
qed

text \<open>Two consecutive points of a line of sight to the perimeter.\<close>

definition sight_edge :: "int \<Rightarrow> point \<Rightarrow> point \<Rightarrow> bool" where
  "sight_edge r p c \<longleftrightarrow> (\<exists>t i. lenWalking t = r \<and> 0 \<le> i \<and> i < r \<and>
     p = los_point 0 t i \<and> c = los_point 0 t (i + 1))"

lemma prefix_cut: "prefix (cut r ps) ps"
  by (induction ps) auto

lemma successively_sight_line:
  assumes "lenWalking t = r"
  shows "successively (sight_edge r) (sight_line t)"
proof -
  have "sight_edge r (los_point 0 t (int n)) (los_point 0 t (int (Suc n)))" if "n < nat r" for n
    using that assms unfolding sight_edge_def
    by (intro exI [of _ t] exI [of _ "int n"]) (auto simp: add.commute)
  then show ?thesis
    unfolding sight_line_def assms successively_conv_nth by (auto simp del: upt_Suc of_nat_Suc)
qed

lemma successively_prefix: "prefix q ps \<Longrightarrow> successively E ps \<Longrightarrow> successively E q"
  by (auto simp: prefix_def successively_append_iff)

lemma FOV_edges:
  assumes "0 \<le> r" "FOV r = Inr f"
  shows "all_edges (sight_edge r) (root f)"
proof (rule all_edgesI)
  fix q assume "q \<in> trie_paths (root f)"
  then obtain t where "lenWalking t = r" "prefix q (cut r (sight_line t))"
    using FOV_trie_paths(3) [OF assms] by (auto simp: prefixes_of_def)
  then show "successively (sight_edge r) q"
    by (meson prefix_cut prefix_order.trans successively_prefix successively_sight_line)
qed

text \<open>
  The length behind \<^verbatim>\<open>lenNethack\<close> before rounding. Along a line of sight every step adds 95, and
  46 more when it is diagonal: the same constants as in the visibility computation.
\<close>

definition nethack_cost :: "point \<Rightarrow> int" where
  "nethack_cost p = 46 * min \<bar>px p\<bar> \<bar>py p\<bar> + 95 * max \<bar>px p\<bar> \<bar>py p\<bar>"

lemma lenNethack_cost: "lenNethack p = (nethack_cost p + 25) div 100"
  by (simp add: lenNethack_def nethack_cost_def Let_def)

lemma sight_edge_props:
  assumes "sight_edge r p c"
  shows "lenWalking c = lenWalking p + 1" "lenWalking c \<le> r" "lenWalking (c - p) = 1"
    "nethack_cost c = nethack_cost p + 95 + (if px c \<noteq> px p \<and> py c \<noteq> py p then 46 else 0)"
proof -
  from assms obtain t i where t: "lenWalking t = r" "0 \<le> i" "i < r"
    and p: "p = los_point 0 t i" and c: "c = los_point 0 t (i + 1)"
    by (auto simp: sight_edge_def)
  show "lenWalking c = lenWalking p + 1" "lenWalking c \<le> r"
    using los_point_dist [of i 0 t] los_point_dist [of "i + 1" 0 t] t p c by simp_all
  show "lenWalking (c - p) = 1"
    using los_point_step [of t 0 i] t p c by simp
  show "nethack_cost c = nethack_cost p + 95 + (if px c \<noteq> px p \<and> py c \<noteq> py p then 46 else 0)"
  proof (rule los_point_form [of t 0])
    fix xs ys E maj
    assume E: "0 \<le> E" "E \<le> lenWalking (t - 0)" and sgn: "xs = 1 \<or> xs = -1" "ys = 1 \<or> ys = -1"
      and pt: "\<And>i. los_point 0 t i = 0 + (if maj
        then Point (i * xs) (los_minor (lenWalking (t - 0)) E i * ys)
        else Point (los_minor (lenWalking (t - 0)) E i * xs) (i * ys))"
    define k where "k = los_minor (lenWalking (t - 0)) E"
    have "0 < lenWalking (t - 0)" using t by simp
    with E t los_minor_step [of "lenWalking (t - 0)" E i] los_minor_le [OF E, of i]
      los_minor_nonneg [of "lenWalking (t - 0)" E i]
    have k: "k (i + 1) = k i \<or> k (i + 1) = k i + 1" "0 \<le> k i" "k i \<le> i"
      by (auto simp: k_def)
    show ?thesis
      using k sgn t(2) unfolding p c pt k_def [symmetric] nethack_cost_def by auto
  qed
qed

section \<open>The trie covers the disc\<close>

lemma los_minor_hits:
  assumes "0 \<le> m" "m \<le> n" "n \<le> r" "0 < r"
  shows "\<exists>e. 0 \<le> e \<and> e \<le> r \<and> los_minor r e n = m"
proof -
  define f where "f e = los_minor r (int e) n" for e
  have "\<bar>f (Suc e) - f e\<bar> \<le> 1" for e
  proof -
    define x where "x = n * int e + (r - 1 - r div 2)"
    have "f (Suc e) = (x + n) div r" "f e = x div r"
      by (simp_all add: f_def los_minor_def x_def algebra_simps)
    moreover have "x div r \<le> (x + n) div r"
      by (rule zdiv_mono1) (use assms in auto)
    moreover have "(x + n) div r \<le> (x + r) div r"
      by (rule zdiv_mono1) (use assms in auto)
    ultimately show ?thesis using assms by simp
  qed
  moreover have "f 0 = 0" using assms by (simp add: f_def los_minor_def div_pos_pos_trivial)
  moreover have "f (nat r) = n"
  proof -
    have "los_minor r r n = n" using assms by (intro los_minor_unique) auto
    then show ?thesis using assms by (simp add: f_def)
  qed
  ultimately obtain e where "0 \<le> e" "e \<le> nat r" "f e = m"
    using nat_intermed_int_val [of 0 "nat r" f m] assms by auto
  then show ?thesis using assms by (intro exI [of _ "int e"]) (auto simp: f_def)
qed

lemma sight_line_through:
  assumes "lenWalking p \<le> r" "0 < r"
  shows "\<exists>t. lenWalking t = r \<and> los_point 0 t (lenWalking p) = p"
proof -
  define sx sy :: int where "sx = (if px p < 0 then -1 else 1)" and "sy = (if py p < 0 then -1 else 1)"
  define n m where "n = lenWalking p" and "m = min \<bar>px p\<bar> \<bar>py p\<bar>"
  have "0 \<le> m" "m \<le> n" by (auto simp: n_def m_def lenWalking_def)
  then obtain e where e: "0 \<le> e" "e \<le> r" "los_minor r e n = m"
    using los_minor_hits [of m n r] assms by (auto simp: n_def)
  have e0: "e \<noteq> 0 \<or> m = 0" using e assms by (auto simp: los_minor_def div_pos_pos_trivial)
  have er: "e \<noteq> r \<or> m = n"
    using e assms los_minor_unique [of r n r n] by (auto simp: n_def)
  show ?thesis
  proof (cases "\<bar>py p\<bar> \<le> \<bar>px p\<bar>")
    case True
    have "los_point 0 (Point (r * sx) (e * sy)) n = p"
      using True e e0 assms
      by (intro point_eqI)
        (auto simp: los_point_def Let_def sx_def sy_def n_def m_def lenWalking_def)
    then show ?thesis using e assms
      by (intro exI [of _ "Point (r * sx) (e * sy)"]) (auto simp: n_def lenWalking_def sx_def sy_def)
  next
    case False
    then have "e \<noteq> r" using er by (auto simp: n_def m_def lenWalking_def)
    then have "los_point 0 (Point (e * sx) (r * sy)) n = p"
      using False e e0 assms
      by (intro point_eqI)
        (auto simp: los_point_def Let_def sx_def sy_def n_def m_def lenWalking_def)
    then show ?thesis using e assms
      by (intro exI [of _ "Point (e * sx) (r * sy)"]) (auto simp: n_def lenWalking_def sx_def sy_def)
  qed
qed

lemma lenL2Squared_mono:
  assumes "\<bar>px p\<bar> \<le> \<bar>px q\<bar>" "\<bar>py p\<bar> \<le> \<bar>py q\<bar>"
  shows "lenL2Squared p \<le> lenL2Squared q"
proof -
  have "i * i \<le> j * j" if "\<bar>i\<bar> \<le> \<bar>j\<bar>" for i j :: int
    using mult_mono [OF that that] by simp
  from add_mono [OF this this, OF assms] show ?thesis by (simp add: lenL2Squared_def)
qed

lemma sight_edge_L2:
  assumes "0 \<le> i" "0 < lenWalking t"
  shows "lenL2Squared (los_point 0 t i) \<le> lenL2Squared (los_point 0 t (i + 1))"
proof (rule los_point_form [of t 0])
  fix xs ys E maj
  assume E: "0 \<le> E" "E \<le> lenWalking (t - 0)" and sgn: "xs = 1 \<or> xs = -1" "ys = 1 \<or> ys = -1"
    and pt: "\<And>i. los_point 0 t i = 0 + (if maj
      then Point (i * xs) (los_minor (lenWalking (t - 0)) E i * ys)
      else Point (los_minor (lenWalking (t - 0)) E i * xs) (i * ys))"
  define k where "k = los_minor (lenWalking (t - 0)) E"
  have k: "k (i + 1) = k i \<or> k (i + 1) = k i + 1" "0 \<le> k i"
    using los_minor_step [OF _ E, of i] los_minor_nonneg [OF _ E(1) assms(1)] assms(2)
    by (auto simp: k_def)
  show ?thesis
    using k sgn assms(1) unfolding pt k_def [symmetric] by (intro lenL2Squared_mono) auto
qed

lemma sight_line_L2:
  assumes "0 < lenWalking t" "i \<le> j"
  shows "lenL2Squared (los_point 0 t (int i)) \<le> lenL2Squared (los_point 0 t (int j))"
  using assms(2)
proof (induction j rule: dec_induct)
  case (step j)
  then show ?case using sight_edge_L2 [of "int j" t] assms(1) by (simp add: add.commute)
qed simp

lemma prefix_cutI:
  "prefix q ps \<Longrightarrow> (\<And>x. x \<in> set (butlast q) \<Longrightarrow> \<not> beyond r x) \<Longrightarrow> prefix q (cut r ps)"
proof (induction ps arbitrary: q)
  case (Cons p ps)
  show ?case
  proof (cases q)
    case (Cons x q')
    with Cons.prems have x: "x = p" "prefix q' ps" by auto
    show ?thesis
    proof (cases "q' = []")
      case False
      with Cons Cons.prems(2) x have "\<not> beyond r p" "\<And>y. y \<in> set (butlast q') \<Longrightarrow> \<not> beyond r y"
        by auto
      then show ?thesis using x Cons Cons.IH [of q'] by simp
    qed (use x Cons in simp)
  qed simp
qed simp

text \<open>
  Every cell whose nearer cells are all within the radius is the end of a trie path through
  strictly nearer cells.
\<close>

lemma FOV_path_to:
  assumes r: "0 < r" and f: "FOV r = Inr f" and p: "lenWalking p \<le> r"
    and near: "\<And>x. lenWalking x < lenWalking p \<Longrightarrow> lenL2Squared x \<le> lenL2Squared p \<Longrightarrow> \<not> beyond r x"
  shows "\<exists>q \<in> trie_paths (root f). last q = p \<and>
    (\<forall>x \<in> set (butlast q). lenWalking x < lenWalking p \<and> lenL2Squared x \<le> lenL2Squared p)"
proof -
  obtain t where t: "lenWalking t = r" "los_point 0 t (lenWalking p) = p"
    using sight_line_through [OF p r] by blast
  define n where "n = nat (lenWalking p)"
  have n: "lenWalking p = int n" by (simp add: n_def)
  define q where "q = map (los_point 0 t \<circ> int) [0..<Suc n]"
  have q: "q \<noteq> []" "last q = p" "butlast q = map (los_point 0 t \<circ> int) [0..<n]"
    using t(2) by (simp_all add: q_def n)
  have bl: "lenWalking x < lenWalking p \<and> lenL2Squared x \<le> lenL2Squared p" if "x \<in> set (butlast q)" for x
  proof -
    from that q(3) obtain i where i: "i < n" "x = los_point 0 t (int i)" by auto
    then show ?thesis
      using los_point_dist [of "int i" 0 t] sight_line_L2 [of t i n] t r by (simp add: n)
  qed
  have upt: "[0..<Suc n] = take (Suc n) [0..<nat r + 1]"
    using p n r by (simp add: take_upt del: upt_Suc)
  have "prefix q (sight_line t)"
    unfolding q_def sight_line_def t(1) upt by (intro map_mono_prefix take_is_prefix)
  then have cut: "prefix q (cut r (sight_line t))"
    by (rule prefix_cutI) (use bl near in blast)
  have "q \<in> trie_paths (root f)"
    unfolding FOV_trie_paths(3) [OF less_imp_le [OF r] f]
    by (rule UN_I [of t]) (simp_all add: t(1) q(1) cut prefixes_of_def)
  with bl q(2) show ?thesis by blast
qed

section \<open>Reasoning about the traversal\<close>

definition fov_kids :: "fov_node \<Rightarrow> (fov_node \<times> point option) list" where
  "fov_kids node = map (\<lambda>c. (c, Some (node_point node))) (node_children node)"

lemma fov_loop_step:
  "blocked (node_point node) prev s = (b, s') \<Longrightarrow>
   fov_loop blocked ((node, prev) # queue) s = fov_loop blocked (queue @ (if b then [] else fov_kids node)) s'"
  by (simp add: fov_kids_def)

lemma fov_loop_induct [case_names Nil step]:
  assumes "\<And>s. P [] s"
    and "\<And>node prev queue s b s'. blocked (node_point node) prev s = (b, s') \<Longrightarrow>
      P (queue @ (if b then [] else fov_kids node)) s' \<Longrightarrow> P ((node, prev) # queue) s"
  shows "P queue s"
  using assms
proof (induction blocked queue s rule: fov_loop.induct)
  case (2 blocked node prev queue s)
  obtain b s' where bs: "blocked (node_point node) prev s = (b, s')" by fastforce
  have "P (queue @ (if b then [] else fov_kids node)) s'"
    using "2.IH"(1) [OF bs [symmetric] refl] "2.IH"(2) [OF bs [symmetric] refl] "2.prems"
    by (cases b) (simp_all add: fov_kids_def)
  with bs "2.prems"(2) show ?case by blast
qed blast

text \<open>
  \<open>Q s p prev\<close> is what the callback may assume of a queued node; it must be monotone in the
  state, hold of the first nodes and be established for the children of every node that does
  not block. \<open>fov_queue\<close> says so of a whole queue whose edges are all in \<open>E\<close>.
\<close>

definition fov_queue :: "(point \<Rightarrow> point option \<Rightarrow> bool) \<Rightarrow> (point \<Rightarrow> point \<Rightarrow> bool) \<Rightarrow>
    (fov_node \<times> point option) list \<Rightarrow> bool" where
  "fov_queue R E queue \<longleftrightarrow> (\<forall>(node, prev) \<in> set queue. R (node_point node) prev \<and> all_edges E node)"

definition fov_contract :: "'s blocked_fn \<Rightarrow> ('s \<Rightarrow> bool) \<Rightarrow> ('s \<Rightarrow> point \<Rightarrow> point option \<Rightarrow> bool) \<Rightarrow>
    (point \<Rightarrow> point \<Rightarrow> bool) \<Rightarrow> bool" where
  "fov_contract blocked Inv Q E \<longleftrightarrow> (\<forall>p prev s b s'. Inv s \<and> Q s p prev \<and> blocked p prev s = (b, s') \<longrightarrow>
     Inv s' \<and> (\<forall>p' prev'. Q s p' prev' \<longrightarrow> Q s' p' prev') \<and> (\<not> b \<longrightarrow> (\<forall>c. E p c \<longrightarrow> Q s' c (Some p))))"

lemma fov_contract_step:
  assumes "fov_contract blocked Inv Q E" "Inv s" "fov_queue (Q s) E ((node, prev) # queue)"
    "blocked (node_point node) prev s = (b, s')"
  shows "Inv s'" "fov_queue (Q s') E (queue @ (if b then [] else fov_kids node))"
proof -
  have node: "Q s (node_point node) prev" "all_edges E node" and
    queue: "\<forall>(node, prev) \<in> set queue. Q s (node_point node) prev \<and> all_edges E node"
    using assms(3) by (auto simp: fov_queue_def)
  have st: "Inv s' \<and> (\<forall>p' prev'. Q s p' prev' \<longrightarrow> Q s' p' prev') \<and>
      (\<not> b \<longrightarrow> (\<forall>c. E (node_point node) c \<longrightarrow> Q s' c (Some (node_point node))))"
    using assms(1,2,4) node(1) unfolding fov_contract_def by blast
  then show "Inv s'" by blast
  show "fov_queue (Q s') E (queue @ (if b then [] else fov_kids node))"
    using st queue node(2)
    by (fastforce simp: fov_queue_def fov_kids_def all_edges_children [of E node])
qed

lemma fov_loop_rule:
  assumes "fov_contract blocked Inv Q E" "Inv s" "fov_queue (Q s) E queue"
  shows "Inv (fov_loop blocked queue s)"
  using assms(2,3)
proof (induction queue s rule: fov_loop_induct [where blocked = blocked])
  case (step node prev queue s b s')
  from fov_contract_step [OF assms(1) step.prems step.hyps] step.IH
  show ?case by (simp only: fov_loop_step [of blocked node, OF step.hyps])
qed simp

text \<open>
  Completeness: a state predicate \<open>Seen s p\<close> that every call establishes for its point and that
  later calls keep holds in the end of the last point of every trie path along which no node
  blocks (\<open>A\<close> is a set of points at which the callback never blocks).
\<close>

definition fov_reach :: "point set \<Rightarrow> (fov_node \<times> point option) list \<Rightarrow> point \<Rightarrow> bool" where
  "fov_reach A queue p \<longleftrightarrow> (\<exists>(node, prev) \<in> set queue. \<exists>q \<in> trie_paths node.
     last q = p \<and> set (butlast q) \<subseteq> A)"

lemma fov_reach_step:
  assumes "fov_reach A ((node, prev) # queue) p" "p \<noteq> node_point node"
    "node_point node \<in> A \<Longrightarrow> \<not> b"
  shows "fov_reach A (queue @ (if b then [] else fov_kids node)) p"
proof (cases "fov_reach A queue p")
  case False
  with assms(1) obtain q where q: "q \<in> trie_paths node" "last q = p" "set (butlast q) \<subseteq> A"
    by (auto simp: fov_reach_def)
  with assms(2) obtain c q' where c: "c \<in> set (node_children node)" "q' \<in> trie_paths c"
    "q = node_point node # q'" by (auto simp: trie_paths_children [of node])
  with q(2,3) trie_path_not_Nil [OF c(2)] have "node_point node \<in> A" "last q' = p" "set (butlast q') \<subseteq> A"
    by auto
  with assms(3) c show ?thesis by (force simp: fov_reach_def fov_kids_def)
qed (auto simp: fov_reach_def)

lemma fov_loop_visits:
  assumes contract: "fov_contract blocked Inv Q E"
    and sees: "\<And>p prev s b s'. Inv s \<Longrightarrow> Q s p prev \<Longrightarrow> blocked p prev s = (b, s') \<Longrightarrow>
      Seen s' p \<and> (\<forall>p'. Seen s p' \<longrightarrow> Seen s' p') \<and> (p \<in> A \<longrightarrow> \<not> b)"
    and "Inv s" "fov_queue (Q s) E queue" "Seen s p \<or> fov_reach A queue p"
  shows "Seen (fov_loop blocked queue s) p"
  using assms(3-)
proof (induction queue s rule: fov_loop_induct [where blocked = blocked])
  case (step node prev queue s b s')
  have "Q s (node_point node) prev" using step.prems(2) by (auto simp: fov_queue_def)
  from sees [OF step.prems(1) this step.hyps]
  have "Seen s' p \<or> fov_reach A (queue @ (if b then [] else fov_kids node)) p"
    using step.prems(3) fov_reach_step [of A node prev queue p b] by blast
  with fov_contract_step [OF contract step.prems(1,2) step.hyps] step.IH
  show ?case by (simp only: fov_loop_step [of blocked node, OF step.hyps])
qed (auto simp: fov_reach_def)

end
