(* ===== verification/Entities.thy ===== *)
theory Entities
  imports Geo
begin

text \<open>
  The model of \<^verbatim>\<open>entity.h\<close> and \<^verbatim>\<open>entity.cpp\<close>: the attack and species tables with their lookup
  functions, the entities on the board (a common part and, per type, the fields of \<^verbatim>\<open>Pokemon\<close>
  and \<^verbatim>\<open>Trainer\<close>) and their constructors.
\<close>

section \<open>Data\<close>

record attack =
  attack_name :: string
  attack_range :: int
  attack_damage :: int

text \<open>An array of four pointers to attacks; \<open>None\<close> is the null pointer.\<close>

type_synonym attacks = "attack option list"

record species_data =
  species_name :: string
  species_glyph :: glyph
  species_hp :: int
  species_speed :: rat

text \<open>The weak pointer to a trainer is an address or empty.\<close>

record individual_data =
  ind_attacks :: attacks
  ind_species :: species_data
  ind_trainer :: "nat option"

text \<open>
  The \<^verbatim>\<open>type\<close> tag and the fields of the derived class it selects are one datatype.
\<close>

datatype entity_type =
    Pokemon (self: individual_data)
  | Trainer (trainer_name: string) (trainer_player: bool)

record entity =
  etype :: entity_type
  removed :: bool
  pos :: point
  entity_glyph :: glyph
  move_timer :: int
  turn_timer :: int
  cur_hp :: int
  max_hp :: int
  speed :: rat

definition match :: "entity \<Rightarrow> (individual_data \<Rightarrow> 'a) \<Rightarrow> (string \<Rightarrow> bool \<Rightarrow> 'a) \<Rightarrow> 'a" where
  "match e p t = (case etype e of Pokemon s \<Rightarrow> p s | Trainer n b \<Rightarrow> t n b)"

section \<open>Tables\<close>

text \<open>\<^verbatim>\<open>HashMap::at\<close>: the mapped value, or an exception.\<close>

definition map_at :: "('k \<rightharpoonup> 'v) \<Rightarrow> 'k \<Rightarrow> 'v res" where
  "map_at m k = (case m k of None \<Rightarrow> Inl OutOfRange | Some v \<Rightarrow> Inr v)"

text \<open>\<^verbatim>\<open>HashMap::emplace\<close>: inserts unless the key is present.\<close>

definition emplace :: "'k \<Rightarrow> 'v \<Rightarrow> ('k \<rightharpoonup> 'v) \<Rightarrow> ('k \<rightharpoonup> 'v)" where
  "emplace k v m = (case m k of None \<Rightarrow> m(k \<mapsto> v) | Some _ \<Rightarrow> m)"

definition attack_list :: "attack list" where
  "attack_list =
     [\<lparr>attack_name = ''Ember'', attack_range = 12, attack_damage = 40\<rparr>,
      \<lparr>attack_name = ''Ice Beam'', attack_range = 12, attack_damage = 60\<rparr>,
      \<lparr>attack_name = ''Blizzard'', attack_range = 12, attack_damage = 80\<rparr>,
      \<lparr>attack_name = ''Headbutt'', attack_range = 8, attack_damage = 80\<rparr>,
      \<lparr>attack_name = ''Tackle'', attack_range = 4, attack_damage = 40\<rparr>]"

definition attack_table :: "string \<rightharpoonup> attack" where
  "attack_table = fold (\<lambda>a result. result(attack_name a \<mapsto> a)) attack_list Map.empty"

definition getAttack :: "string \<Rightarrow> attack res" where
  "getAttack name = map_at attack_table name"

definition species_list :: "(species_data \<times> string list) list" where
  "species_list =
     [(\<lparr>species_name = ''Ratatta'', species_glyph = Wide1 (CHR ''R''), species_hp = 60,
        species_speed = 1 / 4\<rparr>, [''Headbutt'', ''Tackle'']),
      (\<lparr>species_name = ''Pidgey'', species_glyph = Wide1 (CHR ''P''), species_hp = 30,
        species_speed = 1 / 3\<rparr>, [''Tackle''])]"

definition getAttacks :: "string list \<Rightarrow> attacks res" where
  "getAttacks names =
     (let result = replicate 4 None
      in assert (length names \<le> length result)
        (rfold (\<lambda>i result. rbind (getAttack (names ! i)) (\<lambda>a. Inr (result[i := Some a])))
          [0..<length names] result))"

definition species_table :: "(string \<rightharpoonup> species_data \<times> attacks) res" where
  "species_table =
     rfold (\<lambda>(species, names) result.
         rbind (getAttacks names) (\<lambda>as. Inr (emplace (species_name species) (species, as) result)))
       species_list Map.empty"

definition getSpecies :: "string \<Rightarrow> (species_data \<times> attacks) res" where
  "getSpecies name = rbind species_table (\<lambda>table. map_at table name)"

definition getIndividual :: "string \<Rightarrow> individual_data res" where
  "getIndividual name = rbind (getSpecies name) (\<lambda>(species, as).
     Inr \<lparr>ind_attacks = as, ind_species = species, ind_trainer = None\<rparr>)"

section \<open>Constructors\<close>

definition Entity :: "entity_type \<Rightarrow> point \<Rightarrow> glyph \<Rightarrow> int \<Rightarrow> rat \<Rightarrow> entity" where
  "Entity ty p gl hp sp =
     \<lparr>etype = ty, removed = False, pos = p, entity_glyph = gl, move_timer = 0, turn_timer = 0,
      cur_hp = hp, max_hp = hp, speed = sp\<rparr>"

definition new_Trainer :: "string \<Rightarrow> point \<Rightarrow> bool \<Rightarrow> int \<Rightarrow> rat \<Rightarrow> entity" where
  "new_Trainer name p player hp sp = Entity (Trainer name player) p (Wide1 (CHR ''@'')) hp sp"

definition new_Pokemon_self :: "individual_data \<Rightarrow> point \<Rightarrow> entity" where
  "new_Pokemon_self s p =
     Entity (Pokemon s) p (species_glyph (ind_species s)) (species_hp (ind_species s))
       (species_speed (ind_species s))"

definition new_Pokemon :: "string \<Rightarrow> point \<Rightarrow> entity res" where
  "new_Pokemon species p = rbind (getIndividual species) (\<lambda>s. Inr (new_Pokemon_self s p))"

section \<open>Lemmas\<close>

lemma attack_table_eq:
  "attack_table = map_of (rev (map (\<lambda>a. (attack_name a, a)) attack_list))"
proof -
  have "fold (\<lambda>a result. result(attack_name a \<mapsto> a)) as m =
      m ++ map_of (rev (map (\<lambda>a. (attack_name a, a)) as))" for as :: "attack list" and m
    by (induction as arbitrary: m) (simp_all add: map_add_assoc)
  then show ?thesis by (simp add: attack_table_def)
qed

lemma getAttack_Headbutt [simp]: "getAttack ''Headbutt'' =
    Inr \<lparr>attack_name = ''Headbutt'', attack_range = 8, attack_damage = 80\<rparr>"
  and getAttack_Tackle [simp]: "getAttack ''Tackle'' =
    Inr \<lparr>attack_name = ''Tackle'', attack_range = 4, attack_damage = 40\<rparr>"
  by (simp_all add: getAttack_def map_at_def attack_table_def attack_list_def)

text \<open>Every lookup returns an attack of the table under its own name, or throws.\<close>

lemma getAttack_Inr: "getAttack name = Inr a \<Longrightarrow> attack_name a = name \<and> a \<in> set attack_list"
  by (auto simp: getAttack_def map_at_def attack_table_eq split: option.splits dest: map_of_SomeD)

lemma getAttack_Inl_iff:
  "getAttack name = Inl e \<longleftrightarrow> e = OutOfRange \<and> name \<notin> attack_name ` set attack_list"
proof -
  have "attack_table name = None \<longleftrightarrow> name \<notin> attack_name ` set attack_list"
    by (simp add: attack_table_eq map_of_eq_None_iff image_image)
  then show ?thesis by (auto simp: getAttack_def map_at_def split: option.splits)
qed

lemma species_table_eq: "species_table = Inr
   [''Ratatta'' \<mapsto> (fst (species_list ! 0),
      [Some \<lparr>attack_name = ''Headbutt'', attack_range = 8, attack_damage = 80\<rparr>,
       Some \<lparr>attack_name = ''Tackle'', attack_range = 4, attack_damage = 40\<rparr>, None, None]),
    ''Pidgey'' \<mapsto> (fst (species_list ! 1),
      [Some \<lparr>attack_name = ''Tackle'', attack_range = 4, attack_damage = 40\<rparr>, None, None, None])]"
  by (simp add: species_table_def species_list_def getAttacks_def emplace_def numeral_eq_Suc)

lemma getSpecies_cases:
  "getSpecies name = (if name = ''Ratatta'' \<or> name = ''Pidgey'' then Inr (the (map_of
     [(''Ratatta'', (fst (species_list ! 0),
      [Some \<lparr>attack_name = ''Headbutt'', attack_range = 8, attack_damage = 80\<rparr>,
       Some \<lparr>attack_name = ''Tackle'', attack_range = 4, attack_damage = 40\<rparr>, None, None])),
      (''Pidgey'', (fst (species_list ! 1),
      [Some \<lparr>attack_name = ''Tackle'', attack_range = 4, attack_damage = 40\<rparr>, None, None, None]))]
     name)) else Inl OutOfRange)"
  by (auto simp: getSpecies_def species_table_eq map_at_def)

lemma new_Pokemon_Pidgey: "\<exists>e. new_Pokemon ''Pidgey'' p = Inr e \<and> pos e = p \<and> speed e = 1 / 3 \<and>
    move_timer e = 0 \<and> turn_timer e = 0 \<and> \<not> removed e \<and> cur_hp e = 30 \<and> max_hp e = 30 \<and>
    entity_glyph e = Wide1 (CHR ''P'') \<and> (\<exists>s. etype e = Pokemon s)"
  by (simp add: new_Pokemon_def getIndividual_def getSpecies_cases species_list_def
      new_Pokemon_self_def Entity_def)

lemma new_Trainer_fields [simp]:
  "pos (new_Trainer n p b hp sp) = p" "speed (new_Trainer n p b hp sp) = sp"
  "move_timer (new_Trainer n p b hp sp) = 0" "turn_timer (new_Trainer n p b hp sp) = 0"
  "removed (new_Trainer n p b hp sp) = False" "etype (new_Trainer n p b hp sp) = Trainer n b"
  "entity_glyph (new_Trainer n p b hp sp) = Wide1 (CHR ''@'')"
  by (simp_all add: new_Trainer_def Entity_def)

end
