(* ===== verification/Board.thy ===== *)
theory Board
  imports Fov Entities
begin

text \<open>
  The model of the tiles and of \<^verbatim>\<open>struct Board\<close> of \<^verbatim>\<open>game.h\<close> and \<^verbatim>\<open>game.cpp\<close>: the tile map, the
  entities with their index by position, the turn index and the cached fields of vision. Entities
  are objects behind pointers; \<open>store\<close> is the part of the heap that holds them, addressed by
  \<open>eid\<close>, and a destroyed entity has no entry.
\<close>

section \<open>Tiles\<close>

datatype status = Free | Blocked | Occupied

type_synonym tile_flags = "8 word"

definition FlagNone :: tile_flags where "FlagNone = 0x0"
definition FlagBlocked :: tile_flags where "FlagBlocked = 0x1"
definition FlagObscure :: tile_flags where "FlagObscure = 0x2"

record tile =
  tile_glyph :: glyph
  tile_flags :: tile_flags
  tile_description :: string

definition tile_table :: "char \<rightharpoonup> tile" where
  "tile_table =
     [CHR ''.'' \<mapsto> \<lparr>tile_glyph = Wide1 (CHR ''.''), tile_flags = FlagNone,
        tile_description = ''grass''\<rparr>,
      CHR ''\"'' \<mapsto> \<lparr>tile_glyph = Wide (CHR ''\"'') 0x231, tile_flags = FlagObscure,
        tile_description = ''tall grass''\<rparr>,
      CHR ''#'' \<mapsto> \<lparr>tile_glyph = Wide (CHR ''#'') 0x010, tile_flags = FlagBlocked,
        tile_description = ''a tree''\<rparr>]"

definition tileType :: "char \<Rightarrow> tile res" where
  "tileType c = map_at tile_table c"

section \<open>Timers\<close>

definition kMapSize :: int where "kMapSize = 31"
definition kFOVRadius :: int where "kFOVRadius = 15"
definition kVisionRadius :: int where "kVisionRadius = 3"
definition kMoveTimer :: int where "kMoveTimer = 960"
definition kTurnTimer :: int where "kTurnTimer = 120"
definition kTrainerHP :: int where "kTrainerHP = 8"
definition kTrainerSpeed :: rat where "kTrainerSpeed = 1 / 10"

definition charge_of :: "entity \<Rightarrow> int" where
  "charge_of e = c_round (of_int kTurnTimer * speed e)"

definition charge :: "entity \<Rightarrow> entity" where
  "charge e =
     (let c = charge_of e;
          e = (if move_timer e > 0 then e\<lparr>move_timer := move_timer e - c\<rparr> else e)
      in if turn_timer e > 0 then e\<lparr>turn_timer := turn_timer e - c\<rparr> else e)"

definition turnReady :: "entity \<Rightarrow> bool" where
  "turnReady e \<longleftrightarrow> turn_timer e \<le> 0"

text \<open>The parameters of \<^verbatim>\<open>wait\<close> are doubles; its callers pass integers.\<close>

definition wait :: "entity \<Rightarrow> rat \<Rightarrow> rat \<Rightarrow> entity" where
  "wait e moves turns =
     e\<lparr>move_timer := move_timer e + c_round (of_int kMoveTimer * moves),
       turn_timer := turn_timer e + c_round (of_int kTurnTimer * turns)\<rparr>"

section \<open>The board\<close>

type_synonym eid = nat

text \<open>\<open>visibility\<close> holds one value per cell around the entity, \<open>-1\<close> where it cannot see.\<close>

record vision =
  offset :: point
  dirty :: bool
  visibility :: "int matrix"

text \<open>
  \<open>m_entityAtPos\<close> maps a point to an owning pointer that may be null (\<open>Some None\<close>): that is what
  \<^verbatim>\<open>operator[]\<close> inserts. \<open>m_vision\<close> never keeps a null pointer. \<open>next_id\<close> is the next unused
  address of \<open>store\<close>.
\<close>

record board =
  m_fov :: fov
  m_entityIndex :: nat
  m_map :: "tile matrix"
  m_entities :: "eid list"
  m_entityAtPos :: "point \<rightharpoonup> eid option"
  m_vision :: "eid \<rightharpoonup> vision"
  store :: "eid \<rightharpoonup> entity"
  next_id :: eid

definition deref :: "board \<Rightarrow> eid \<Rightarrow> entity res" where
  "deref b i = (case store b i of None \<Rightarrow> Inl UseAfterFree | Some e \<Rightarrow> Inr e)"

text \<open>\<^verbatim>\<open>new Trainer(...)\<close>, \<^verbatim>\<open>new Pokemon(...)\<close>: an object at a fresh address.\<close>

definition alloc :: "board \<Rightarrow> entity \<Rightarrow> eid \<times> board" where
  "alloc b e = (next_id b, b\<lparr>store := (store b)(next_id b \<mapsto> e), next_id := Suc (next_id b)\<rparr>)"

definition Board :: "point \<Rightarrow> board res" where
  "Board sz =
     rbind (FOV kFOVRadius) (\<lambda>f.
     rbind (tileType (CHR ''#'')) (\<lambda>t.
     rbind (Matrix sz t) (\<lambda>m.
       Inr \<lparr>m_fov = f, m_entityIndex = 0, m_map = m, m_entities = [], m_entityAtPos = Map.empty,
            m_vision = Map.empty, store = Map.empty, next_id = 0\<rparr>)))"

subsection \<open>Reads\<close>

definition getSize :: "board \<Rightarrow> point" where
  "getSize b = matrix_size (m_map b)"

definition getTile :: "board \<Rightarrow> point \<Rightarrow> tile" where
  "getTile b p = matrix_get (m_map b) p"

definition getStatus :: "board \<Rightarrow> point \<Rightarrow> status" where
  "getStatus b p =
     (if tile_flags (getTile b p) AND FlagBlocked \<noteq> 0 then Blocked
      else if m_entityAtPos b p \<noteq> None then Occupied
      else Free)"

definition getActiveEntity :: "board \<Rightarrow> eid res" where
  "getActiveEntity b =
     assert (m_entityIndex b < length (m_entities b)) (Inr (m_entities b ! m_entityIndex b))"

definition getEntity :: "board \<Rightarrow> point \<Rightarrow> eid option" where
  "getEntity b p = (case m_entityAtPos b p of Some it \<Rightarrow> it | None \<Rightarrow> None)"

definition getEntities :: "board \<Rightarrow> eid list" where
  "getEntities b = m_entities b"

subsection \<open>Vision\<close>

definition visibilityAt_vision :: "vision \<Rightarrow> point \<Rightarrow> int" where
  "visibilityAt_vision v p = matrix_get (visibility v) (p + offset v)"

definition canSee_vision :: "vision \<Rightarrow> point \<Rightarrow> bool" where
  "canSee_vision v p \<longleftrightarrow> visibilityAt_vision v p \<ge> 0"

definition dirtyVision :: "board \<Rightarrow> eid \<Rightarrow> point option \<Rightarrow> board" where
  "dirtyVision b i target =
     (case m_vision b i of
        None \<Rightarrow> b
      | Some v \<Rightarrow>
          if dirty v then b
          else if target \<noteq> None \<and> \<not> canSee_vision v (the target) then b
          else b\<lparr>m_vision := (m_vision b)(i \<mapsto> v\<lparr>dirty := True\<rparr>)\<rparr>)"

text \<open>
  The callback of \<^verbatim>\<open>getVision\<close>: \<open>p\<close> is relative to the entity, \<open>parent\<close> the point one step nearer.
\<close>

definition vision_value :: "tile matrix \<Rightarrow> point \<Rightarrow> point \<Rightarrow> point \<Rightarrow> point option \<Rightarrow> int matrix \<Rightarrow> int" where
  "vision_value tiles ps off p parent vmap =
     (case parent of
        None \<Rightarrow> 100 * (kVisionRadius + 1) - 95 - 46 - 25
      | Some par \<Rightarrow>
          let tile = matrix_get tiles (p + ps)
          in if tile_flags tile AND FlagBlocked \<noteq> 0 then 0
             else
               let obscure = tile_flags tile AND FlagObscure \<noteq> 0;
                   diagonal = (px p \<noteq> px par \<and> py p \<noteq> py par);
                   loss = (if obscure then 95 + (if diagonal then 46 else 0) else 0);
                   prev = matrix_get vmap (par + ps + off)
               in max (prev - loss) 0)"

definition vision_blocked :: "tile matrix \<Rightarrow> point \<Rightarrow> point \<Rightarrow> int matrix blocked_fn" where
  "vision_blocked tiles ps off p parent vmap =
     (let v = vision_value tiles ps off p parent vmap;
          key = p + ps + off
      in (v \<le> 0, matrix_set vmap key (max v (matrix_get vmap key))))"

definition new_Vision :: "vision res" where
  "new_Vision =
     rbind (Matrix (Point (2 * kFOVRadius + 1) (2 * kFOVRadius + 1)) (-1)) (\<lambda>m.
       Inr \<lparr>offset = Point 0 0, dirty = True, visibility = m\<rparr>)"

definition compute_vision :: "fov \<Rightarrow> tile matrix \<Rightarrow> point \<Rightarrow> vision \<Rightarrow> vision" where
  "compute_vision f tiles ps v =
     (let off = Point kFOVRadius kFOVRadius - ps;
          vmap = matrix_fill (visibility v) (-1);
          vmap = fieldOfVision f (vision_blocked tiles ps off) vmap
      in v\<lparr>visibility := vmap, offset := off, dirty := False\<rparr>)"

definition getVision :: "board \<Rightarrow> eid \<Rightarrow> (vision \<times> board) res" where
  "getVision b i =
     rbind (case m_vision b i of None \<Rightarrow> new_Vision | Some v \<Rightarrow> Inr v) (\<lambda>v.
     rbind (if dirty v
            then rbind (deref b i) (\<lambda>e. Inr (compute_vision (m_fov b) (m_map b) (pos e) v))
            else Inr v) (\<lambda>v.
       Inr (v, b\<lparr>m_vision := (m_vision b)(i \<mapsto> v)\<rparr>)))"

definition canSee :: "board \<Rightarrow> eid \<Rightarrow> point \<Rightarrow> (bool \<times> board) res" where
  "canSee b i p = rbind (getVision b i) (\<lambda>(v, b). Inr (canSee_vision v p, b))"

definition visibilityAt :: "board \<Rightarrow> eid \<Rightarrow> point \<Rightarrow> (int \<times> board) res" where
  "visibilityAt b i p = rbind (getVision b i) (\<lambda>(v, b). Inr (visibilityAt_vision v p, b))"

subsection \<open>Writes\<close>

definition clearAllTiles :: "board \<Rightarrow> board res" where
  "clearAllTiles b = rbind (tileType (CHR ''.'')) (\<lambda>t. Inr (b\<lparr>m_map := matrix_fill (m_map b) t\<rparr>))"

definition setTile :: "board \<Rightarrow> point \<Rightarrow> tile \<Rightarrow> board" where
  "setTile b p t =
     (if \<not> matrix_contains (m_map b) p then b
      else
        let prev = matrix_get (m_map b) p;
            b = b\<lparr>m_map := matrix_set (m_map b) p t\<rparr>;
            mask = FlagBlocked OR FlagObscure;
            dirty = (tile_flags prev AND mask \<noteq> tile_flags t AND mask)
        in if dirty then fold (\<lambda>i b. dirtyVision b i (Some p)) (m_entities b) b else b)"

definition addEntity :: "board \<Rightarrow> eid \<Rightarrow> board res" where
  "addEntity b i =
     rbind (deref b i) (\<lambda>e.
       let b = b\<lparr>m_entities := m_entities b @ [i]\<rparr>;
           entry = (case m_entityAtPos b (pos e) of None \<Rightarrow> None | Some en \<Rightarrow> en)
       in assert (entry = None)
            (Inr (b\<lparr>m_entityAtPos := (m_entityAtPos b)(pos e \<mapsto> Some i)\<rparr>)))"

definition moveEntity :: "board \<Rightarrow> eid \<Rightarrow> point \<Rightarrow> board res" where
  "moveEntity b i to =
     rbind (deref b i) (\<lambda>e.
       case m_entityAtPos b (pos e) of
         None \<Rightarrow> Inl AssertFailed
       | Some it \<Rightarrow>
           assert (it = Some i)
           (let rest = (m_entityAtPos b)(pos e := None);
                target = (case rest to of None \<Rightarrow> None | Some en \<Rightarrow> en)
            in assert (target = None)
                 (Inr (dirtyVision
                    (b\<lparr>m_entityAtPos := rest(to \<mapsto> it),
                       store := (store b)(i \<mapsto> e\<lparr>pos := to\<rparr>)\<rparr>) i None))))"

text \<open>
  Erasing the entry drops the last owner of the entity, which is destroyed; the pointers to it in
  \<open>m_entities\<close> stay.
\<close>

definition removeEntity :: "board \<Rightarrow> eid \<Rightarrow> board res" where
  "removeEntity b i =
     rbind (deref b i) (\<lambda>e.
       case m_entityAtPos b (pos e) of
         None \<Rightarrow> Inl AssertFailed
       | Some it \<Rightarrow>
           assert (it = Some i)
             (Inr (b\<lparr>m_entityAtPos := (m_entityAtPos b)(pos e := None),
                     store := (store b)(i := None),
                     m_vision := (m_vision b)(i := None)\<rparr>)))"

definition advanceEntity :: "board \<Rightarrow> board res" where
  "advanceEntity b =
     rbind (getActiveEntity b) (\<lambda>i.
     rbind (deref b i) (\<lambda>e.
       let b = b\<lparr>store := (store b)(i \<mapsto> charge e)\<rparr>;
           b = b\<lparr>m_entityIndex := m_entityIndex b + 1\<rparr>
       in Inr (if m_entityIndex b \<ge> length (m_entities b) then b\<lparr>m_entityIndex := 0\<rparr> else b)))"

section \<open>Simplification rules\<close>

lemma tileType_simps [simp]:
  "tileType (CHR ''.'') = Inr \<lparr>tile_glyph = Wide1 (CHR ''.''), tile_flags = FlagNone,
     tile_description = ''grass''\<rparr>"
  "tileType (CHR ''\"'') = Inr \<lparr>tile_glyph = Wide (CHR ''\"'') 0x231, tile_flags = FlagObscure,
     tile_description = ''tall grass''\<rparr>"
  "tileType (CHR ''#'') = Inr \<lparr>tile_glyph = Wide (CHR ''#'') 0x010, tile_flags = FlagBlocked,
     tile_description = ''a tree''\<rparr>"
  by (simp_all add: tileType_def map_at_def tile_table_def)

definition blocked_tile :: "tile \<Rightarrow> bool" where
  "blocked_tile t \<longleftrightarrow> tile_flags t AND FlagBlocked \<noteq> 0"

definition obscure_tile :: "tile \<Rightarrow> bool" where
  "obscure_tile t \<longleftrightarrow> tile_flags t AND FlagObscure \<noteq> 0"

text \<open>The masked comparison of \<open>setTile\<close> detects exactly the changes that vision depends on.\<close>

lemma tile_mask_eq_iff:
  "tile_flags s AND (FlagBlocked OR FlagObscure) = tile_flags t AND (FlagBlocked OR FlagObscure) \<longleftrightarrow>
   blocked_tile s = blocked_tile t \<and> obscure_tile s = obscure_tile t"
proof -
  have one: "v AND 1 \<noteq> 0 \<longleftrightarrow> bit v 0" and two: "v AND 2 \<noteq> 0 \<longleftrightarrow> bit v 1" for v :: tile_flags
    using and_exp_eq_0_iff_not_bit [of v 0] and_exp_eq_0_iff_not_bit [of v 1] by simp_all
  have mask: "v AND 3 = take_bit 2 v" for v :: tile_flags
    by (simp add: take_bit_eq_mask mask_eq_exp_minus_1)
  have lt: "n < 8" if "n < 2" for n :: nat
    using that by simp
  have "take_bit 2 v = take_bit 2 w \<longleftrightarrow> (\<forall>n<2. bit v n = bit w n)" for v w :: tile_flags
    unfolding bit_eq_iff [of "take_bit 2 v"] bit_take_bit_iff
    by auto (metis lt)+
  then have three: "v AND 3 = w AND 3 \<longleftrightarrow> bit v 0 = bit w 0 \<and> bit v 1 = bit w 1" for v w :: tile_flags
    unfolding mask by (auto simp: numeral_2_eq_2 All_less_Suc)
  have "FlagBlocked OR FlagObscure = 3" by (simp add: FlagBlocked_def FlagObscure_def)
  then show ?thesis
    by (simp add: three one two blocked_tile_def obscure_tile_def FlagBlocked_def FlagObscure_def)
qed

lemma deref_Inr_iff [res_simps]: "deref b i = Inr e \<longleftrightarrow> store b i = Some e"
  by (auto simp: deref_def split: option.splits)

lemma deref_Some [simp]: "store b i = Some e \<Longrightarrow> deref b i = Inr e"
  by (simp add: deref_def)

lemma dirtyVision_fields [simp]:
  "m_fov (dirtyVision b i t) = m_fov b" "m_entityIndex (dirtyVision b i t) = m_entityIndex b"
  "m_map (dirtyVision b i t) = m_map b" "m_entities (dirtyVision b i t) = m_entities b"
  "m_entityAtPos (dirtyVision b i t) = m_entityAtPos b" "store (dirtyVision b i t) = store b"
  "next_id (dirtyVision b i t) = next_id b"
  by (simp_all add: dirtyVision_def split: option.split)

lemma dirtyVision_all_fields [simp]:
  "m_fov (fold (\<lambda>i b. dirtyVision b i t) is b) = m_fov b"
  "m_entityIndex (fold (\<lambda>i b. dirtyVision b i t) is b) = m_entityIndex b"
  "m_map (fold (\<lambda>i b. dirtyVision b i t) is b) = m_map b"
  "m_entities (fold (\<lambda>i b. dirtyVision b i t) is b) = m_entities b"
  "m_entityAtPos (fold (\<lambda>i b. dirtyVision b i t) is b) = m_entityAtPos b"
  "store (fold (\<lambda>i b. dirtyVision b i t) is b) = store b"
  "next_id (fold (\<lambda>i b. dirtyVision b i t) is b) = next_id b"
  by (induction "is" arbitrary: b) simp_all

lemma dirtyVision_vision:
  "m_vision (dirtyVision b i t) j =
     (if j = i then map_option (\<lambda>v. if t \<noteq> None \<and> \<not> canSee_vision v (the t) then v
        else v\<lparr>dirty := True\<rparr>) (m_vision b j) else m_vision b j)"
  by (auto simp: dirtyVision_def split: option.split)

section \<open>The invariant\<close>

text \<open>
  The list of entities and the index by position describe each other: every listed entity is
  alive and indexed at its position, every index entry points to a listed entity standing there.
  The turn index points into the list.
\<close>

definition index_ok :: "board \<Rightarrow> bool" where
  "index_ok b \<longleftrightarrow> distinct (m_entities b) \<and>
     (\<forall>i \<in> set (m_entities b). \<exists>e. store b i = Some e \<and> m_entityAtPos b (pos e) = Some (Some i)) \<and>
     (\<forall>p en. m_entityAtPos b p = Some en \<longrightarrow>
        (\<exists>i \<in> set (m_entities b). en = Some i \<and> (\<exists>e. store b i = Some e \<and> pos e = p)))"

definition turn_ok :: "board \<Rightarrow> bool" where
  "turn_ok b \<longleftrightarrow> (m_entities b = [] \<longrightarrow> m_entityIndex b = 0) \<and>
     (m_entities b \<noteq> [] \<longrightarrow> m_entityIndex b < length (m_entities b))"

definition store_ok :: "board \<Rightarrow> bool" where
  "store_ok b \<longleftrightarrow> (\<forall>i. next_id b \<le> i \<longrightarrow> store b i = None) \<and> set (m_entities b) \<subseteq> {..<next_id b} \<and>
     dom (m_vision b) \<subseteq> {..<next_id b}"

definition board_ok :: "board \<Rightarrow> bool" where
  "board_ok b \<longleftrightarrow> matrix_wf (m_map b) \<and> index_ok b \<and> turn_ok b \<and> store_ok b"

lemma index_ok_entity:
  assumes "index_ok b" "i \<in> set (m_entities b)"
  obtains e where "store b i = Some e" "m_entityAtPos b (pos e) = Some (Some i)"
  using assms by (auto simp: index_ok_def)

lemma index_ok_entry:
  assumes "index_ok b" "m_entityAtPos b p = Some en"
  obtains i e where "en = Some i" "i \<in> set (m_entities b)" "store b i = Some e" "pos e = p"
  using assms unfolding index_ok_def by blast

text \<open>No two entities share a cell.\<close>

lemma index_ok_pos_inj:
  assumes "index_ok b" "i \<in> set (m_entities b)" "j \<in> set (m_entities b)"
    "store b i = Some e" "store b j = Some e'" "pos e = pos e'"
  shows "i = j"
  using assms unfolding index_ok_def by (metis option.inject)

lemma board_ok_Board:
  assumes "Board sz = Inr b"
  shows "board_ok b" "m_entities b = []" "m_vision b = Map.empty"
  using assms Matrix_wf
  by (auto simp: Board_def board_ok_def index_ok_def turn_ok_def store_ok_def res_simps)

subsection \<open>Adding an entity\<close>

lemma alloc_addEntity:
  assumes ok: "board_ok b" and free: "m_entityAtPos b (pos e) = None" and al: "alloc b e = (i, b1)"
  defines "b2 \<equiv> b1\<lparr>m_entities := m_entities b @ [i], m_entityAtPos := (m_entityAtPos b)(pos e \<mapsto> Some i)\<rparr>"
  shows "addEntity b1 i = Inr b2" "board_ok b2"
proof -
  have b1: "i = next_id b" "b1 = b\<lparr>store := (store b)(i \<mapsto> e), next_id := Suc i\<rparr>"
    using al by (auto simp: alloc_def)
  show "addEntity b1 i = Inr b2"
    using free by (simp add: addEntity_def b2_def b1 deref_def)
  have i: "i \<notin> set (m_entities b)" "store b i = None"
    using ok by (auto simp: board_ok_def store_ok_def b1)
  have "index_ok b2"
    unfolding index_ok_def
  proof (intro conjI ballI allI impI)
    show "distinct (m_entities b2)"
      using ok i by (simp add: b2_def board_ok_def index_ok_def)
  next
    fix j assume "j \<in> set (m_entities b2)"
    then consider "j = i" | "j \<in> set (m_entities b)" "j \<noteq> i" by (auto simp: b2_def)
    then show "\<exists>e. store b2 j = Some e \<and> m_entityAtPos b2 (pos e) = Some (Some j)"
    proof cases
      case 2
      then obtain e' where "store b j = Some e'" "m_entityAtPos b (pos e') = Some (Some j)"
        using ok by (auto simp: board_ok_def elim: index_ok_entity)
      with 2 free show ?thesis by (auto simp: b2_def b1(2))
    qed (simp add: b2_def b1(2))
  next
    fix p en assume "m_entityAtPos b2 p = Some en"
    then consider "p = pos e" "en = Some i" | "m_entityAtPos b p = Some en" "p \<noteq> pos e"
      by (cases "p = pos e") (simp_all add: b2_def)
    then show "\<exists>j \<in> set (m_entities b2). en = Some j \<and> (\<exists>e. store b2 j = Some e \<and> pos e = p)"
    proof cases
      case 2
      then obtain j e' where "en = Some j" "j \<in> set (m_entities b)" "store b j = Some e'" "pos e' = p"
        using ok by (auto simp: board_ok_def elim: index_ok_entry)
      with i show ?thesis by (auto simp: b2_def b1(2))
    qed (simp add: b2_def b1(2))
  qed
  moreover have "turn_ok b2" "matrix_wf (m_map b2)"
    using ok by (auto simp: board_ok_def b2_def b1(2) turn_ok_def less_SucI)
  moreover have "store_ok b2"
    using ok unfolding board_ok_def store_ok_def
    by (auto simp: b2_def b1 intro: less_SucI)
  ultimately show "board_ok b2" by (simp add: board_ok_def)
qed

subsection \<open>Moving an entity\<close>

text \<open>
  The board after a move that trips no assertion, and the condition for it: the target cell has
  no other occupant.
\<close>

lemma moveEntity_ok:
  assumes ok: "board_ok b" and i: "i \<in> set (m_entities b)" and e: "store b i = Some e"
    and free: "m_entityAtPos b to = None \<or> to = pos e"
  defines "b1 \<equiv> b\<lparr>m_entityAtPos := (m_entityAtPos b)(pos e := None, to \<mapsto> Some i),
      store := (store b)(i \<mapsto> e\<lparr>pos := to\<rparr>)\<rparr>"
  shows "moveEntity b i to = Inr (dirtyVision b1 i None)" "board_ok (dirtyVision b1 i None)"
proof -
  have idx: "index_ok b" using ok by (simp add: board_ok_def)
  have at: "m_entityAtPos b (pos e) = Some (Some i)"
    using index_ok_entity [OF idx i] e by auto
  show "moveEntity b i to = Inr (dirtyVision b1 i None)"
    using e at free by (auto simp: moveEntity_def b1_def Let_def)
  have "index_ok b1"
    unfolding index_ok_def
  proof (intro conjI ballI allI impI)
    show "distinct (m_entities b1)" using idx by (simp add: b1_def index_ok_def)
  next
    fix j assume "j \<in> set (m_entities b1)"
    then have j: "j \<in> set (m_entities b)" by (simp add: b1_def)
    then obtain e' where e': "store b j = Some e'" "m_entityAtPos b (pos e') = Some (Some j)"
      by (rule index_ok_entity [OF idx])
    show "\<exists>e. store b1 j = Some e \<and> m_entityAtPos b1 (pos e) = Some (Some j)"
    proof (cases "j = i")
      case False
      with e' at have "pos e' \<noteq> pos e" by auto
      with e' free False show ?thesis by (auto simp: b1_def)
    qed (simp add: b1_def)
  next
    fix p en assume "m_entityAtPos b1 p = Some en"
    then consider "p = to" "en = Some i" | "m_entityAtPos b p = Some en" "p \<noteq> to" "p \<noteq> pos e"
      by (cases "p = to"; cases "p = pos e") (simp_all add: b1_def)
    then show "\<exists>j \<in> set (m_entities b1). en = Some j \<and> (\<exists>e. store b1 j = Some e \<and> pos e = p)"
    proof cases
      case 1
      with i show ?thesis by (auto simp: b1_def)
    next
      case 2
      then obtain j e' where "en = Some j" "j \<in> set (m_entities b)" "store b j = Some e'" "pos e' = p"
        using idx by (auto elim: index_ok_entry)
      with 2 e show ?thesis by (auto simp: b1_def)
    qed
  qed
  moreover have "store_ok (dirtyVision b1 i None)"
    unfolding store_ok_def
  proof (intro conjI)
    have "dom (m_vision (dirtyVision b1 i None)) \<subseteq> dom (m_vision b)"
      by (auto simp: dirtyVision_vision b1_def split: if_splits)
    also have "dom (m_vision b) \<subseteq> {..<next_id b}"
      using ok by (simp add: board_ok_def store_ok_def)
    finally show "dom (m_vision (dirtyVision b1 i None)) \<subseteq> {..<next_id (dirtyVision b1 i None)}"
      by (simp add: b1_def)
    show "\<forall>j. next_id (dirtyVision b1 i None) \<le> j \<longrightarrow> store (dirtyVision b1 i None) j = None"
      "set (m_entities (dirtyVision b1 i None)) \<subseteq> {..<next_id (dirtyVision b1 i None)}"
      using ok i by (auto simp: board_ok_def store_ok_def b1_def)
  qed
  ultimately show "board_ok (dirtyVision b1 i None)"
    using ok by (simp add: board_ok_def index_ok_def turn_ok_def) (simp add: b1_def)
qed

text \<open>A move onto another entity aborts: the assertion guards the index.\<close>

lemma moveEntity_occupied:
  assumes "index_ok b" "i \<in> set (m_entities b)" "store b i = Some e"
    "m_entityAtPos b to = Some en" "to \<noteq> pos e"
  shows "moveEntity b i to = Inl AssertFailed"
proof -
  from assms have "m_entityAtPos b (pos e) = Some (Some i)" by (auto elim: index_ok_entity)
  moreover from assms obtain j where "en = Some j" by (auto elim: index_ok_entry)
  ultimately show ?thesis using assms by (simp add: moveEntity_def assert_def)
qed

subsection \<open>Passing the turn\<close>

lemma charge_fields [simp]:
  "etype (charge e) = etype e" "pos (charge e) = pos e" "speed (charge e) = speed e"
  "removed (charge e) = removed e" "entity_glyph (charge e) = entity_glyph e"
  "cur_hp (charge e) = cur_hp e" "max_hp (charge e) = max_hp e"
  by (simp_all add: charge_def Let_def)

lemma charge_timers [simp]:
  "move_timer (charge e) = (if 0 < move_timer e then move_timer e - charge_of e else move_timer e)"
  "turn_timer (charge e) = (if 0 < turn_timer e then turn_timer e - charge_of e else turn_timer e)"
  by (simp_all add: charge_def Let_def)

lemma index_ok_store_update:
  assumes "index_ok b" "store b i = Some e" "pos e' = pos e"
  shows "index_ok (b\<lparr>store := (store b)(i \<mapsto> e')\<rparr>)"
  using assms unfolding index_ok_def by (auto; metis option.inject)

lemma board_ok_store_update:
  assumes "board_ok b" "store b i = Some e" "pos e' = pos e"
  shows "board_ok (b\<lparr>store := (store b)(i \<mapsto> e')\<rparr>)"
  using assms index_ok_store_update [OF _ assms(2,3)]
  by (auto simp: board_ok_def turn_ok_def store_ok_def)

lemma getActiveEntity_ok:
  assumes "board_ok b" "m_entities b \<noteq> []"
  obtains i e where "getActiveEntity b = Inr i" "i \<in> set (m_entities b)" "store b i = Some e"
    "i = m_entities b ! m_entityIndex b"
proof -
  from assms have "m_entityIndex b < length (m_entities b)" by (auto simp: board_ok_def turn_ok_def)
  moreover from this obtain e where "store b (m_entities b ! m_entityIndex b) = Some e"
    using assms by (auto simp: board_ok_def elim!: index_ok_entity)
  ultimately show ?thesis using that by (simp add: getActiveEntity_def)
qed

lemma advanceEntity_ok:
  assumes "board_ok b" "getActiveEntity b = Inr i" "store b i = Some e"
  defines "b' \<equiv> b\<lparr>store := (store b)(i \<mapsto> charge e),
      m_entityIndex := Suc (m_entityIndex b) mod length (m_entities b)\<rparr>"
  shows "advanceEntity b = Inr b'" "board_ok b'"
proof -
  have lt: "m_entityIndex b < length (m_entities b)"
    using assms(2) by (simp add: getActiveEntity_def assert_def split: if_splits)
  then show "advanceEntity b = Inr b'"
    using assms(2,3) by (auto simp: advanceEntity_def b'_def Let_def mod_Suc not_le)
  have "board_ok (b\<lparr>store := (store b)(i \<mapsto> charge e)\<rparr>)"
    by (rule board_ok_store_update [OF assms(1,3)]) simp
  then show "board_ok b'"
    using lt by (auto simp: board_ok_def b'_def turn_ok_def store_ok_def index_ok_def)
qed

subsection \<open>Removing an entity\<close>

text \<open>
  \<open>removeEntity\<close> destroys the entity but keeps its pointer in \<open>m_entities\<close>.
\<close>

lemma removeEntity_dangling:
  assumes "board_ok b" "i \<in> set (m_entities b)"
  shows "\<exists>b'. removeEntity b i = Inr b' \<and> i \<in> set (m_entities b') \<and> deref b' i = Inl UseAfterFree"
proof -
  from assms obtain e where "store b i = Some e" "m_entityAtPos b (pos e) = Some (Some i)"
    by (auto simp: board_ok_def elim: index_ok_entity)
  then show ?thesis using assms(2) by (simp add: removeEntity_def deref_def)
qed

end
