(* ===== verification/Vision.thy ===== *)
theory Vision
  imports Board
begin

text \<open>
  What the field of vision of an entity means: the cells it marks, the values it gives them, and
  when a cached vision may be kept. \<open>relvis\<close> reads a visibility matrix by the position relative to
  the entity.
\<close>

declare fov_loop.simps(2) [simp del]

lemma lenWalking_eq_0_iff: "lenWalking p = 0 \<longleftrightarrow> p = 0"
  by (auto simp: lenWalking_def max_def intro!: point_eqI split: if_splits)

section \<open>The visibility matrix\<close>

definition relvis :: "int matrix \<Rightarrow> point \<Rightarrow> int" where
  "relvis vmap p = matrix_get vmap (p + Point kFOVRadius kFOVRadius)"

definition vis_shape :: "int matrix \<Rightarrow> bool" where
  "vis_shape m \<longleftrightarrow> matrix_wf m \<and> m_init m = -1 \<and>
     m_size m = Point (2 * kFOVRadius + 1) (2 * kFOVRadius + 1)"

lemma vis_shape_contains:
  "vis_shape m \<Longrightarrow> matrix_contains m (p + Point kFOVRadius kFOVRadius) \<longleftrightarrow> lenWalking p \<le> kFOVRadius"
  by (auto simp: vis_shape_def matrix_contains_def kFOVRadius_def lenWalking_def)

lemma vis_shape_set [simp]: "vis_shape (matrix_set m p v) = vis_shape m"
  by (auto simp: vis_shape_def matrix_wf_def)

lemma vis_shape_fill [simp]: "vis_shape (matrix_fill m v) = vis_shape m"
  by (auto simp: vis_shape_def)

lemma relvis_set:
  assumes "vis_shape m" "lenWalking p \<le> kFOVRadius"
  shows "relvis (matrix_set m (p + Point kFOVRadius kFOVRadius) v) q = (if q = p then v else relvis m q)"
  using assms vis_shape_contains [OF assms(1), of p] unfolding relvis_def
  by (subst matrix_get_set) (auto simp: vis_shape_def)

lemma relvis_fill: "vis_shape m \<Longrightarrow> relvis (matrix_fill m (-1)) p = -1"
  by (simp add: relvis_def matrix_get_fill vis_shape_def)

lemma relvis_far: "vis_shape m \<Longrightarrow> \<not> lenWalking p \<le> kFOVRadius \<Longrightarrow> relvis m p = -1"
  using vis_shape_contains [of m p] by (simp add: relvis_def matrix_get_def vis_shape_def)

text \<open>Two matrices of the shape with equal values are equal.\<close>

lemma matrix_eqI:
  assumes "matrix_wf m" "matrix_wf m'" "m_size m = m_size m'" "m_init m = m_init m'"
    "\<And>p. matrix_get m p = matrix_get m' p" "0 < px (m_size m)"
  shows "m = (m' :: 'a matrix)"
proof -
  have len: "length (m_data m) = length (m_data m')"
    using assms(1-3) by (simp add: matrix_wf_def)
  have "m_data m ! n = m_data m' ! n" if n: "n < length (m_data m)" for n
  proof -
    define w where "w = px (m_size m)"
    define p where "p = Point (int n mod w) (int n div w)"
    have "int n < w * py (m_size m)" using n assms(1) by (simp add: matrix_wf_def w_def)
    moreover have "int n = w * (int n div w) + int n mod w" "0 \<le> int n mod w"
      using assms(6) by (simp_all add: w_def)
    ultimately have "w * (int n div w) < w * py (m_size m)" by linarith
    then have "matrix_contains m p"
      using assms(6) by (simp add: matrix_contains_def p_def w_def pos_imp_zdiv_nonneg_iff)
    moreover have "matrix_index m p = n" by (simp add: matrix_index_def p_def w_def)
    moreover have "matrix_index m' p = matrix_index m p" "matrix_contains m' p = matrix_contains m p"
      by (simp_all add: matrix_index_def matrix_contains_def assms(3))
    ultimately show ?thesis using assms(5) [of p] by (simp add: matrix_get_def)
  qed
  with len have "m_data m = m_data m'" by (simp add: list_eq_iff_nth_eq)
  with assms(3,4) show ?thesis by simp
qed

section \<open>One call of the callback\<close>

definition rel_value :: "tile matrix \<Rightarrow> point \<Rightarrow> point \<Rightarrow> point option \<Rightarrow> int matrix \<Rightarrow> int" where
  "rel_value tiles ps p parent vmap =
     vision_value tiles ps (Point kFOVRadius kFOVRadius - ps) p parent vmap"

definition rel_blocked :: "tile matrix \<Rightarrow> point \<Rightarrow> int matrix blocked_fn" where
  "rel_blocked tiles ps = vision_blocked tiles ps (Point kFOVRadius kFOVRadius - ps)"

lemma rel_value_cases:
  "rel_value tiles ps p None vmap = 234"
  "rel_value tiles ps p (Some par) vmap =
     (let tile = matrix_get tiles (p + ps)
      in if blocked_tile tile then 0
         else max (relvis vmap par - (if obscure_tile tile
           then 95 + (if px p \<noteq> px par \<and> py p \<noteq> py par then 46 else 0) else 0)) 0)"
  by (simp_all add: rel_value_def vision_value_def relvis_def blocked_tile_def obscure_tile_def
      kVisionRadius_def Let_def)

lemma rel_value_nonneg: "0 \<le> rel_value tiles ps p parent vmap"
  by (cases parent) (auto simp: rel_value_cases Let_def)

lemma rel_blocked_eq:
  "rel_blocked tiles ps p parent vmap = (rel_value tiles ps p parent vmap \<le> 0,
     matrix_set vmap (p + Point kFOVRadius kFOVRadius)
       (max (rel_value tiles ps p parent vmap) (relvis vmap p)))"
proof -
  have "p + ps + (Point kFOVRadius kFOVRadius - ps) = p + Point kFOVRadius kFOVRadius"
    by (simp add: algebra_simps)
  then show ?thesis by (simp add: rel_blocked_def vision_blocked_def rel_value_def relvis_def Let_def)
qed

lemma rel_blocked_step:
  assumes "vis_shape vmap" "lenWalking p \<le> kFOVRadius" "rel_blocked tiles ps p parent vmap = (b, vmap')"
  shows "vis_shape vmap'" "b \<longleftrightarrow> rel_value tiles ps p parent vmap = 0"
    "relvis vmap' q = (if q = p then max (rel_value tiles ps p parent vmap) (relvis vmap q) else relvis vmap q)"
    "relvis vmap q \<le> relvis vmap' q"
  using assms relvis_set [OF assms(1,2), of _ q] rel_value_nonneg [of tiles ps p parent vmap]
  by (auto simp: rel_blocked_eq)

text \<open>
  What a queued node may rely on: it lies on the board of the trie, one step along a line of
  sight from its parent, and the parent has a positive visibility.
\<close>

definition vis_ready :: "int matrix \<Rightarrow> point \<Rightarrow> point option \<Rightarrow> bool" where
  "vis_ready vmap p parent \<longleftrightarrow> lenWalking p \<le> kFOVRadius \<and>
     (case parent of None \<Rightarrow> p = 0 | Some q \<Rightarrow> sight_edge kFOVRadius q p \<and> 0 < relvis vmap q)"

text \<open>
  The contract with an extra invariant \<open>J\<close>, which has to survive a single call.
\<close>

lemma rel_blocked_contract:
  assumes "\<And>p parent vmap b vmap'. vis_shape vmap \<Longrightarrow> J vmap \<Longrightarrow> vis_ready vmap p parent \<Longrightarrow>
    rel_blocked tiles ps p parent vmap = (b, vmap') \<Longrightarrow> J vmap'"
  shows "fov_contract (rel_blocked tiles ps) (\<lambda>m. vis_shape m \<and> J m) vis_ready (sight_edge kFOVRadius)"
  unfolding fov_contract_def
proof (intro allI impI; elim conjE)
  fix p parent vmap b vmap'
  assume *: "vis_shape vmap" "J vmap" "vis_ready vmap p parent"
    "rel_blocked tiles ps p parent vmap = (b, vmap')"
  have p: "lenWalking p \<le> kFOVRadius" using *(3) by (simp add: vis_ready_def)
  note st = rel_blocked_step [OF *(1) p *(4)]
  have "vis_ready vmap' p' prev'" if "vis_ready vmap p' prev'" for p' prev'
    using that st(4) by (auto simp: vis_ready_def split: option.splits intro: less_le_trans)
  moreover have "vis_ready vmap' c (Some p)" if "\<not> b" "sight_edge kFOVRadius p c" for c
    using that st(2) st(3) [of p] rel_value_nonneg [of tiles ps p parent vmap]
      sight_edge_props(2) [OF that(2)] by (auto simp: vis_ready_def)
  ultimately show "(vis_shape vmap' \<and> J vmap') \<and>
      (\<forall>p' prev'. vis_ready vmap p' prev' \<longrightarrow> vis_ready vmap' p' prev') \<and>
      (\<not> b \<longrightarrow> (\<forall>c. sight_edge kFOVRadius p c \<longrightarrow> vis_ready vmap' c (Some p)))"
    using st(1) assms [OF *] by blast
qed

section \<open>The traversal as a whole\<close>

text \<open>The matrix that \<open>compute_vision\<close> leaves, starting from a matrix of the right shape.\<close>

definition vision_map :: "fov \<Rightarrow> tile matrix \<Rightarrow> point \<Rightarrow> int matrix \<Rightarrow> int matrix" where
  "vision_map f tiles ps m = fieldOfVision f (rel_blocked tiles ps) (matrix_fill m (-1))"

lemma compute_vision_eq:
  "compute_vision f tiles ps v =
     v\<lparr>visibility := vision_map f tiles ps (visibility v),
       offset := Point kFOVRadius kFOVRadius - ps, dirty := False\<rparr>"
  by (simp add: compute_vision_def vision_map_def rel_blocked_def Let_def)

lemma visibilityAt_compute:
  "visibilityAt_vision (compute_vision f tiles ps v) p =
     relvis (vision_map f tiles ps (visibility v)) (p - ps)"
  by (simp add: visibilityAt_vision_def compute_vision_eq relvis_def algebra_simps)

lemma kFOVRadius_pos: "0 < kFOVRadius" "0 \<le> kFOVRadius"
  by (simp_all add: kFOVRadius_def)

lemma root_queue:
  assumes "FOV kFOVRadius = Inr f"
  shows "fov_queue (vis_ready m) (sight_edge kFOVRadius) [(root f, None)]"
  using FOV_trie_paths(2) [OF kFOVRadius_pos(2) assms] FOV_edges [OF kFOVRadius_pos(2) assms]
  by (simp add: fov_queue_def vis_ready_def kFOVRadius_def lenWalking_def)

lemma vision_map_invariant:
  assumes f: "FOV kFOVRadius = Inr f" and m: "vis_shape m" and start: "J (matrix_fill m (-1))"
    and step: "\<And>p parent vmap b vmap'. vis_shape vmap \<Longrightarrow> J vmap \<Longrightarrow> vis_ready vmap p parent \<Longrightarrow>
      rel_blocked tiles ps p parent vmap = (b, vmap') \<Longrightarrow> J vmap'"
  shows "vis_shape (vision_map f tiles ps m)" "J (vision_map f tiles ps m)"
proof -
  have "fov_contract (rel_blocked tiles ps) (\<lambda>m. vis_shape m \<and> J m) vis_ready (sight_edge kFOVRadius)"
    by (rule rel_blocked_contract) (rule step)
  from fov_loop_rule [OF this _ root_queue [OF f], of "matrix_fill m (-1)"] m start
  show "vis_shape (vision_map f tiles ps m)" "J (vision_map f tiles ps m)"
    by (simp_all add: vision_map_def fieldOfVision_def)
qed

lemma vision_map_shape:
  "FOV kFOVRadius = Inr f \<Longrightarrow> vis_shape m \<Longrightarrow> vis_shape (vision_map f tiles ps m)"
  by (rule vision_map_invariant(1) [where J = "\<lambda>_. True"]) auto

text \<open>The fields of a vision: values between \<open>-1\<close> and the initial 234.\<close>

lemma vision_map_range:
  assumes "FOV kFOVRadius = Inr f" "vis_shape m"
  shows "-1 \<le> relvis (vision_map f tiles ps m) p \<and> relvis (vision_map f tiles ps m) p \<le> 234"
proof -
  let ?J = "\<lambda>vm. \<forall>p. -1 \<le> relvis vm p \<and> relvis vm p \<le> 234"
  have "?J (vision_map f tiles ps m)"
  proof (rule vision_map_invariant(2) [OF assms])
    fix p parent vmap b vmap'
    assume *: "vis_shape vmap" "?J vmap" "vis_ready vmap p parent"
      "rel_blocked tiles ps p parent vmap = (b, vmap')"
    have "rel_value tiles ps p parent vmap \<le> 234"
    proof (cases parent)
      case (Some par)
      then show ?thesis using *(2) [rule_format, of par] by (auto simp: rel_value_cases Let_def)
    qed (simp add: rel_value_cases)
    then show "?J vmap'"
      using *(2,3) rel_blocked_step(3) [OF *(1) _ *(4)] rel_value_nonneg [of tiles ps p parent vmap]
      by (auto simp: vis_ready_def)
  qed (simp add: relvis_fill assms(2))
  then show ?thesis by blast
qed

section \<open>What is seen\<close>

lemma vision_map_visits:
  assumes f: "FOV kFOVRadius = Inr f" and m: "vis_shape m" and start: "J (matrix_fill m (-1))"
    and step: "\<And>p parent vmap b vmap'. vis_shape vmap \<Longrightarrow> J vmap \<Longrightarrow> vis_ready vmap p parent \<Longrightarrow>
      rel_blocked tiles ps p parent vmap = (b, vmap') \<Longrightarrow> J vmap' \<and> (p \<in> A \<longrightarrow> \<not> b)"
    and q: "q \<in> trie_paths (root f)" "set (butlast q) \<subseteq> A"
  shows "0 \<le> relvis (vision_map f tiles ps m) (last q)"
  unfolding vision_map_def fieldOfVision_def
proof (rule fov_loop_visits [where A = A and Inv = "\<lambda>m. vis_shape m \<and> J m" and Q = vis_ready])
  show "fov_contract (rel_blocked tiles ps) (\<lambda>m. vis_shape m \<and> J m) vis_ready (sight_edge kFOVRadius)"
    using step by (intro rel_blocked_contract) blast
  fix p parent vmap b vmap'
  assume *: "vis_shape vmap \<and> J vmap" "vis_ready vmap p parent"
    "rel_blocked tiles ps p parent vmap = (b, vmap')"
  show "0 \<le> relvis vmap' p \<and> (\<forall>p'. 0 \<le> relvis vmap p' \<longrightarrow> 0 \<le> relvis vmap' p') \<and> (p \<in> A \<longrightarrow> \<not> b)"
    using step [OF _ _ *(2,3)] * rel_blocked_step(3,4) [OF _ _ *(3)] rel_value_nonneg [of tiles ps p parent vmap]
    by (auto simp: vis_ready_def intro: order_trans)
next
  show "vis_shape (matrix_fill m (-1)) \<and> J (matrix_fill m (-1))" using m start by simp
  show "fov_queue (vis_ready (matrix_fill m (-1))) (sight_edge kFOVRadius) [(root f, None)]"
    by (rule root_queue [OF f])
  show "0 \<le> relvis (matrix_fill m (-1)) (last q) \<or> fov_reach A [(root f, None)] (last q)"
    using q by (auto simp: fov_reach_def)
qed

lemma no_edge_to_origin: "\<not> sight_edge r q 0"
proof
  assume "sight_edge r q 0"
  from sight_edge_props(1) [OF this] lenWalking_nonneg [of q] show False
    by (simp add: lenWalking_def)
qed

text \<open>An entity always sees its own cell and the eight around it, walls and grass regardless.\<close>

lemma vision_map_near:
  assumes "FOV kFOVRadius = Inr f" "vis_shape m" "lenWalking p \<le> 1"
  shows "0 \<le> relvis (vision_map f tiles ps m) p"
proof -
  have "\<not> beyond kFOVRadius x" if "lenWalking x < lenWalking p" for x
  proof -
    have "lenWalking x = 0" using that assms(3) lenWalking_nonneg [of x] by linarith
    then have "x = 0" by (simp add: lenWalking_eq_0_iff)
    then show ?thesis by (simp add: beyond_iff kFOVRadius_def lenL2Squared_def)
  qed
  then obtain q where q: "q \<in> trie_paths (root f)" "last q = p"
    "\<forall>x \<in> set (butlast q). lenWalking x < lenWalking p"
    using FOV_path_to [OF kFOVRadius_pos(1) assms(1), of p] assms(3) by (fastforce simp: kFOVRadius_def)
  then have "set (butlast q) \<subseteq> {0}"
    using assms(3) lenWalking_eq_0_iff lenWalking_nonneg
    by (metis (no_types, lifting) insertI1 int_one_le_iff_zero_less less_le_not_le linorder_not_le
        order_less_le_trans subsetI order_le_less)
  moreover have "p = 0 \<longrightarrow> \<not> b"
    if "vis_ready vmap p parent" "rel_blocked tiles ps p parent vmap = (b, vmap')" for p parent vmap b vmap'
    using that no_edge_to_origin
    by (cases parent) (auto simp: vis_ready_def rel_blocked_eq rel_value_cases)
  ultimately show ?thesis
    using vision_map_visits [OF assms(1,2), of "\<lambda>_. True" tiles ps "{0}" q] q(1,2) by blast
qed

text \<open>
  Tall grass: where every cell is obscure and none blocks, the remaining visibility of a cell
  plus its Nethack length never exceeds the initial 234, so nothing beyond length
  \<open>kVisionRadius\<close> is seen. This is the claim of the comment in \<^verbatim>\<open>getVision\<close>.
\<close>

lemma vision_map_grass:
  assumes "FOV kFOVRadius = Inr f" "vis_shape m"
    and grass: "\<And>p. obscure_tile (matrix_get tiles p) \<and> \<not> blocked_tile (matrix_get tiles p)"
    and seen: "0 \<le> relvis (vision_map f tiles ps m) p"
  shows "lenNethack p \<le> kVisionRadius"
proof -
  let ?J = "\<lambda>vm. \<forall>p. (0 < relvis vm p \<longrightarrow> relvis vm p + nethack_cost p \<le> 234) \<and>
    (0 \<le> relvis vm p \<longrightarrow> nethack_cost p \<le> 374)"
  have "?J (vision_map f tiles ps m)"
  proof (rule vision_map_invariant(2) [OF assms(1,2)])
    fix p parent vmap b vmap'
    assume *: "vis_shape vmap" "?J vmap" "vis_ready vmap p parent"
      "rel_blocked tiles ps p parent vmap = (b, vmap')"
    let ?v = "rel_value tiles ps p parent vmap"
    have v: "(0 < ?v \<longrightarrow> ?v + nethack_cost p \<le> 234) \<and> nethack_cost p \<le> 374"
    proof (cases parent)
      case None
      then show ?thesis using *(3) by (simp add: rel_value_cases vis_ready_def nethack_cost_def)
    next
      case (Some par)
      with *(2,3) have "relvis vmap par + nethack_cost par \<le> 234" "0 < relvis vmap par"
        "nethack_cost p = nethack_cost par + 95 + (if px p \<noteq> px par \<and> py p \<noteq> py par then 46 else 0)"
        by (auto simp: vis_ready_def sight_edge_props(4))
      with Some grass show ?thesis by (auto simp: rel_value_cases Let_def)
    qed
    show "?J vmap'"
      using *(2,3) v rel_blocked_step(3) [OF *(1) _ *(4)]
      by (auto simp: vis_ready_def max_def split: if_splits)
  qed (simp add: relvis_fill assms(2))
  with seen have "nethack_cost p + 25 < 400" by force
  then show ?thesis by (simp add: lenNethack_cost kVisionRadius_def)
qed

text \<open>
  Lines of sight: a seen cell lies on a line of sight from the entity whose cells in between do
  not block.
\<close>

lemma fov_reach_append: "fov_reach A (queue @ queue') p \<longleftrightarrow> fov_reach A queue p \<or> fov_reach A queue' p"
  by (simp add: fov_reach_def bex_Un)

lemma fov_loop_only:
  assumes "fov_contract blocked Inv Q E" "Inv s" "fov_queue (Q s) E queue"
    and sees: "\<And>p prev s b s'. Inv s \<Longrightarrow> Q s p prev \<Longrightarrow> blocked p prev s = (b, s') \<Longrightarrow>
      (\<forall>p'. Seen s' p' \<longrightarrow> Seen s p' \<or> p' = p) \<and> (\<not> b \<longrightarrow> p \<in> A)"
    and "Seen (fov_loop blocked queue s) p"
  shows "Seen s p \<or> fov_reach A queue p"
  using assms(2,3,5)
proof (induction queue s rule: fov_loop_induct [where blocked = blocked])
  case (step node prev queue s b s')
  have "Q s (node_point node) prev" using step.prems(2) by (auto simp: fov_queue_def)
  note node = sees [OF step.prems(1) this step.hyps]
  have "Seen s' p \<or> fov_reach A (queue @ (if b then [] else fov_kids node)) p"
    using fov_contract_step [OF assms(1) step.prems(1,2) step.hyps] step.IH step.prems(3)
    by (simp only: fov_loop_step [of blocked node, OF step.hyps])
  moreover have "fov_reach A ((node, prev) # queue) p" if "fov_reach A (fov_kids node) p" "\<not> b"
  proof -
    from that(1) obtain c q where c: "c \<in> set (node_children node)" "q \<in> trie_paths c" "last q = p"
      "set (butlast q) \<subseteq> A" by (auto simp: fov_reach_def fov_kids_def)
    have "node_point node # q \<in> trie_paths node"
      using c(1,2) by (auto simp: trie_paths_children [of node])
    moreover have "last (node_point node # q) = p" "set (butlast (node_point node # q)) \<subseteq> A"
      using c that(2) node trie_path_not_Nil [OF c(2)] by auto
    ultimately show ?thesis unfolding fov_reach_def
      by (intro bexI [of _ "(node, prev)"]) (auto intro!: bexI [of _ "node_point node # q"])
  qed
  moreover have "fov_reach A ((node, prev) # queue) (node_point node)"
    by (auto simp: fov_reach_def intro!: bexI [OF _ node_point_path])
  moreover have "fov_reach A ((node, prev) # queue) p" if "fov_reach A queue p"
    using that by (auto simp: fov_reach_def)
  ultimately show ?case
    using node by (cases b) (auto simp: fov_reach_append)
qed simp

lemma vision_map_line:
  assumes f: "FOV kFOVRadius = Inr f" and m: "vis_shape m"
    and seen: "0 \<le> relvis (vision_map f tiles ps m) p"
  shows "\<exists>q \<in> trie_paths (root f). last q = p \<and>
    (\<forall>x \<in> set (butlast q). x = 0 \<or> \<not> blocked_tile (matrix_get tiles (x + ps)))"
proof -
  let ?A = "{x. x = 0 \<or> \<not> blocked_tile (matrix_get tiles (x + ps))}"
  have "0 \<le> relvis (matrix_fill m (-1)) p \<or> fov_reach ?A [(root f, None)] p"
  proof (rule fov_loop_only [where Inv = "\<lambda>m. vis_shape m \<and> True" and Q = vis_ready])
    show "fov_contract (rel_blocked tiles ps) (\<lambda>m. vis_shape m \<and> True) vis_ready (sight_edge kFOVRadius)"
      by (rule rel_blocked_contract) simp
    fix p parent vmap b vmap'
    assume *: "vis_shape vmap \<and> True" "vis_ready vmap p parent"
      "rel_blocked tiles ps p parent vmap = (b, vmap')"
    show "(\<forall>p'. 0 \<le> relvis vmap' p' \<longrightarrow> 0 \<le> relvis vmap p' \<or> p' = p) \<and> (\<not> b \<longrightarrow> p \<in> ?A)"
      using * rel_blocked_step(2,3) [OF _ _ *(3)]
      by (auto simp: vis_ready_def rel_value_cases Let_def split: option.splits if_splits)
  qed (use m seen root_queue [OF f] in \<open>auto simp: vision_map_def fieldOfVision_def\<close>)
  then show ?thesis using m by (fastforce simp: relvis_fill fov_reach_def)
qed

text \<open>
  Without tall grass the visible cells are exactly the ends of the unblocked lines of the trie.
\<close>

lemma vision_map_clear_iff:
  assumes f: "FOV kFOVRadius = Inr f" and m: "vis_shape m"
    and clear: "\<And>p. \<not> obscure_tile (matrix_get tiles p)"
  shows "0 \<le> relvis (vision_map f tiles ps m) p \<longleftrightarrow> (\<exists>q \<in> trie_paths (root f). last q = p \<and>
    (\<forall>x \<in> set (butlast q). x = 0 \<or> \<not> blocked_tile (matrix_get tiles (x + ps))))"
proof
  let ?A = "{x. x = 0 \<or> \<not> blocked_tile (matrix_get tiles (x + ps))}"
  assume "\<exists>q \<in> trie_paths (root f). last q = p \<and>
    (\<forall>x \<in> set (butlast q). x = 0 \<or> \<not> blocked_tile (matrix_get tiles (x + ps)))"
  then obtain q where q: "q \<in> trie_paths (root f)" "last q = p" "set (butlast q) \<subseteq> ?A" by blast
  have "p \<in> ?A \<longrightarrow> \<not> b"
    if "vis_ready vmap p parent" "rel_blocked tiles ps p parent vmap = (b, vmap')" for p parent vmap b vmap'
    using that no_edge_to_origin clear
    by (cases parent) (auto simp: vis_ready_def rel_blocked_eq rel_value_cases Let_def)
  with vision_map_visits [OF f m, of "\<lambda>_. True" tiles ps ?A q] q
  show "0 \<le> relvis (vision_map f tiles ps m) p" by blast
qed (rule vision_map_line [OF f m])

section \<open>When a cached vision may be kept\<close>

definition same_tile :: "tile \<Rightarrow> tile \<Rightarrow> bool" where
  "same_tile s t \<longleftrightarrow> blocked_tile s = blocked_tile t \<and> obscure_tile s = obscure_tile t"

lemma fov_loop_mono:
  assumes "vis_shape vmap" "fov_queue (vis_ready vmap) (sight_edge kFOVRadius) queue"
  shows "relvis vmap p \<le> relvis (fov_loop (rel_blocked tiles ps) queue vmap) p"
proof -
  let ?J = "\<lambda>m. \<forall>p. relvis vmap p \<le> relvis m p"
  have "fov_contract (rel_blocked tiles ps) (\<lambda>m. vis_shape m \<and> ?J m) vis_ready (sight_edge kFOVRadius)"
  proof (rule rel_blocked_contract)
    fix p parent m b m'
    assume *: "vis_shape m" "?J m" "vis_ready m p parent" "rel_blocked tiles ps p parent m = (b, m')"
    then show "?J m'" using rel_blocked_step(4) [OF *(1) _ *(4)] by (auto simp: vis_ready_def intro: order_trans)
  qed
  from fov_loop_rule [OF this _ assms(2)] assms(1) show ?thesis by simp
qed

text \<open>
  Two tile maps that agree on the cells seen in one of them give the same vision: a tile that an
  entity does not see cannot influence what it sees.
\<close>

lemma fov_loop_agree:
  assumes "vis_shape vmap" "fov_queue (vis_ready vmap) (sight_edge kFOVRadius) queue"
    "\<And>p. 0 \<le> relvis (fov_loop (rel_blocked tiles ps) queue vmap) p \<Longrightarrow>
       same_tile (matrix_get tiles (p + ps)) (matrix_get tiles' (p + ps))"
  shows "fov_loop (rel_blocked tiles' ps) queue vmap = fov_loop (rel_blocked tiles ps) queue vmap"
  using assms
proof (induction queue vmap rule: fov_loop_induct [where blocked = "rel_blocked tiles ps"])
  case (step node prev queue vmap b vmap')
  let ?p = "node_point node" and ?queue' = "queue @ (if b then [] else fov_kids node)"
  have ready: "vis_ready vmap ?p prev" using step.prems(2) by (auto simp: fov_queue_def)
  have contract: "fov_contract (rel_blocked tiles ps) (\<lambda>m. vis_shape m \<and> True) vis_ready (sight_edge kFOVRadius)"
    by (rule rel_blocked_contract) simp
  have nxt: "vis_shape vmap'" "fov_queue (vis_ready vmap') (sight_edge kFOVRadius) ?queue'"
    using fov_contract_step [OF contract _ step.prems(2) step.hyps] step.prems(1) by auto
  note final = fov_loop_step [of "rel_blocked tiles ps" node, OF step.hyps]
  have "0 \<le> relvis vmap' ?p"
    using rel_blocked_step(3) [OF step.prems(1) _ step.hyps, of ?p] ready
      rel_value_nonneg [of tiles ps ?p prev vmap] by (simp add: vis_ready_def)
  then have "0 \<le> relvis (fov_loop (rel_blocked tiles ps) ((node, prev) # queue) vmap) ?p"
    unfolding final using fov_loop_mono [OF nxt] order_trans by blast
  from step.prems(3) [OF this]
  have "rel_value tiles' ps ?p prev vmap = rel_value tiles ps ?p prev vmap"
    by (cases prev) (simp_all add: rel_value_cases same_tile_def)
  then have "rel_blocked tiles' ps ?p prev vmap = (b, vmap')"
    using step.hyps by (simp add: rel_blocked_eq)
  from fov_loop_step [of "rel_blocked tiles' ps" node, OF this] step.IH [OF nxt] step.prems(3)
  show ?case by (simp only: final)
qed simp

lemma vision_map_agree:
  assumes f: "FOV kFOVRadius = Inr f" and m: "vis_shape m"
    and "\<And>p. 0 \<le> relvis (vision_map f tiles ps m) (p - ps) \<Longrightarrow>
       same_tile (matrix_get tiles p) (matrix_get tiles' p)"
  shows "vision_map f tiles' ps m = vision_map f tiles ps m"
  unfolding vision_map_def fieldOfVision_def
proof (rule fov_loop_agree)
  fix p assume "0 \<le> relvis (fov_loop (rel_blocked tiles ps) [(root f, None)] (matrix_fill m (-1))) p"
  then show "same_tile (matrix_get tiles (p + ps)) (matrix_get tiles' (p + ps))"
    using assms(3) [of "p + ps"] by (simp add: vision_map_def fieldOfVision_def)
qed (use m root_queue [OF f] in auto)

section \<open>Cache coherence\<close>

text \<open>
  A clean cached vision is what a fresh computation would give; only listed entities have one.
\<close>

definition vision_ok :: "board \<Rightarrow> eid \<Rightarrow> vision \<Rightarrow> bool" where
  "vision_ok b i v \<longleftrightarrow> vis_shape (visibility v) \<and>
     (\<not> dirty v \<longrightarrow> (\<exists>e. store b i = Some e \<and> v = compute_vision (m_fov b) (m_map b) (pos e) v))"

definition visions_ok :: "board \<Rightarrow> bool" where
  "visions_ok b \<longleftrightarrow> FOV kFOVRadius = Inr (m_fov b) \<and>
     (\<forall>i v. m_vision b i = Some v \<longrightarrow> i \<in> set (m_entities b) \<and> vision_ok b i v)"

lemma vis_shape_fill_eq:
  assumes "vis_shape m" "vis_shape m'"
  shows "matrix_fill m (-1) = matrix_fill m' (-1)"
  using assms matrix_get_fill [of m "-1"] matrix_get_fill [of m' "-1"]
  by (intro matrix_eqI) (auto simp: vis_shape_def kFOVRadius_def)

lemma compute_vision_eqI:
  assumes "vis_shape (visibility v)" "vis_shape (visibility v')"
  shows "compute_vision f tiles ps v = compute_vision f tiles ps v'"
  using vis_shape_fill_eq [OF assms] by (simp add: compute_vision_def Let_def vision.splits)

lemma compute_vision_shape:
  "FOV kFOVRadius = Inr f \<Longrightarrow> vis_shape (visibility v) \<Longrightarrow> vis_shape (visibility (compute_vision f tiles ps v))"
  by (simp add: compute_vision_eq vision_map_shape)

definition blank_vision :: vision where
  "blank_vision = \<lparr>offset = Point 0 0, dirty = True, visibility =
     \<lparr>m_size = Point (2 * kFOVRadius + 1) (2 * kFOVRadius + 1), m_init = -1,
      m_data = replicate (nat ((2 * kFOVRadius + 1) * (2 * kFOVRadius + 1))) (-1)\<rparr>\<rparr>"

lemma new_Vision_eq: "new_Vision = Inr blank_vision"
  by (simp add: new_Vision_def blank_vision_def Matrix_def kFOVRadius_def)

lemma blank_vision_ok [simp]: "vis_shape (visibility blank_vision)" "dirty blank_vision"
  by (simp_all add: blank_vision_def vis_shape_def matrix_wf_def kFOVRadius_def)

text \<open>The vision every caller of \<open>getVision\<close> gets is up to date, and the cache stays coherent.\<close>

definition fresh_vision :: "board \<Rightarrow> entity \<Rightarrow> vision" where
  "fresh_vision b e = compute_vision (m_fov b) (m_map b) (pos e) blank_vision"

lemma fresh_vision_eq:
  "vis_shape (visibility v) \<Longrightarrow> compute_vision (m_fov b) (m_map b) (pos e) v = fresh_vision b e"
  by (auto simp: fresh_vision_def intro: compute_vision_eqI)

lemma vision_ok_iff:
  "vision_ok b i v \<longleftrightarrow> vis_shape (visibility v) \<and>
     (\<not> dirty v \<longrightarrow> (\<exists>e. store b i = Some e \<and> v = fresh_vision b e))"
  by (auto simp: vision_ok_def fresh_vision_eq)

lemma fresh_vision_props:
  assumes "FOV kFOVRadius = Inr (m_fov b)"
  shows "vis_shape (visibility (fresh_vision b e))" "\<not> dirty (fresh_vision b e)"
    "visibilityAt_vision (fresh_vision b e) p =
       relvis (vision_map (m_fov b) (m_map b) (pos e) (visibility blank_vision)) (p - pos e)"
  using compute_vision_shape [OF assms blank_vision_ok(1)]
  by (simp_all add: fresh_vision_def visibilityAt_compute) (simp_all add: compute_vision_eq)

lemma getVision_ok:
  assumes ok: "visions_ok b" and e: "store b i = Some e" and i: "i \<in> set (m_entities b)"
  defines "b' \<equiv> b\<lparr>m_vision := (m_vision b)(i \<mapsto> fresh_vision b e)\<rparr>"
  shows "getVision b i = Inr (fresh_vision b e, b')" "visions_ok b'"
proof -
  have f: "FOV kFOVRadius = Inr (m_fov b)" using ok by (simp add: visions_ok_def)
  show "getVision b i = Inr (fresh_vision b e, b')"
  proof (cases "m_vision b i")
    case None
    then show ?thesis
      using e by (simp add: getVision_def new_Vision_eq b'_def fresh_vision_def)
  next
    case (Some v)
    then have v: "vision_ok b i v" using ok by (simp add: visions_ok_def)
    then have "vis_shape (visibility v)" by (simp add: vision_ok_def)
    with Some v e show ?thesis
      by (auto simp: getVision_def b'_def vision_ok_iff fresh_vision_eq)
  qed
  have same: "fresh_vision b' e = fresh_vision b e" for e by (simp add: fresh_vision_def b'_def)
  have "vision_ok b' j v" if "m_vision b' j = Some v" for j v
    using that ok e fresh_vision_props [OF f] unfolding vision_ok_iff same
    by (auto simp: b'_def visions_ok_def vision_ok_iff split: if_splits)
  then show "visions_ok b'"
    using ok f i by (auto simp: visions_ok_def b'_def)
qed

text \<open>
  Any change of the board that keeps the map and the positions keeps the cache; a change of
  one tile keeps it because every vision that sees the tile is marked.
\<close>

lemma visions_ok_frame:
  assumes "visions_ok b" "m_fov b' = m_fov b" "m_map b' = m_map b"
    "set (m_entities b) \<subseteq> set (m_entities b')" "m_vision b' = m_vision b"
    "\<And>i e. i \<in> set (m_entities b) \<Longrightarrow> store b i = Some e \<Longrightarrow> \<exists>e'. store b' i = Some e' \<and> pos e' = pos e"
  shows "visions_ok b'"
proof -
  have "vision_ok b' i v" if i: "i \<in> set (m_entities b)" and v: "vision_ok b i v" for i v
    using v assms(2,3) assms(6) [OF i] unfolding vision_ok_def by metis
  then show ?thesis using assms(1,2,4,5) unfolding visions_ok_def by (metis subsetD)
qed

lemma dirtyVision_all_vision:
  assumes "distinct is"
  shows "m_vision (fold (\<lambda>i b. dirtyVision b i (Some p)) is b) j =
    (if j \<in> set is then map_option (\<lambda>v. if canSee_vision v p then v\<lparr>dirty := True\<rparr> else v) (m_vision b j)
     else m_vision b j)"
  using assms
  by (induction "is" arbitrary: b) (auto simp: dirtyVision_vision option.map_comp intro!: option.map_cong)

lemma setTile_fields:
  "m_fov (setTile b p t) = m_fov b" "m_entityIndex (setTile b p t) = m_entityIndex b"
  "m_entities (setTile b p t) = m_entities b" "m_entityAtPos (setTile b p t) = m_entityAtPos b"
  "store (setTile b p t) = store b" "next_id (setTile b p t) = next_id b"
  "m_map (setTile b p t) = matrix_set (m_map b) p t"
  by (simp_all add: setTile_def Let_def matrix_set_def)

lemma setTile_vision:
  assumes "matrix_contains (m_map b) p" "distinct (m_entities b)" "i \<in> set (m_entities b)"
  shows "m_vision (setTile b p t) i = map_option (\<lambda>v.
     if \<not> same_tile (matrix_get (m_map b) p) t \<and> canSee_vision v p then v\<lparr>dirty := True\<rparr> else v)
     (m_vision b i)"
  using assms tile_mask_eq_iff [of "matrix_get (m_map b) p" t]
  by (auto simp: setTile_def Let_def dirtyVision_all_vision same_tile_def option.map_ident
      cong: option.map_cong)

lemma setTile_vision_other:
  assumes "distinct (m_entities b)" "i \<notin> set (m_entities b)"
  shows "m_vision (setTile b p t) i = m_vision b i"
  using assms by (simp add: setTile_def Let_def dirtyVision_all_vision)

lemma setTile_empty_cache:
  assumes "m_vision b = Map.empty"
  shows "m_vision (setTile b p t) = Map.empty"
proof -
  have "m_vision (fold (\<lambda>i b. dirtyVision b i (Some p)) is b) = Map.empty"
    if "m_vision b = Map.empty" for "is" b
    using that by (induction "is" arbitrary: b) (simp_all add: dirtyVision_def)
  then show ?thesis using assms by (simp add: setTile_def Let_def)
qed

text \<open>
  The central coherence fact: \<open>setTile\<close> invalidates exactly the visions that see the tile, and that
  is enough for the others to stay correct.
\<close>

lemma setTile_visions_ok:
  assumes ok: "visions_ok b" and wf: "matrix_wf (m_map b)" and dist: "distinct (m_entities b)"
  shows "visions_ok (setTile b p t)"
proof (cases "matrix_contains (m_map b) p")
  case False
  then show ?thesis using ok by (simp add: setTile_def)
next
  case True
  have f: "FOV kFOVRadius = Inr (m_fov b)" using ok by (simp add: visions_ok_def)
  have keep: "vision_map (m_fov b) (matrix_set (m_map b) p t) (pos e) (visibility blank_vision) =
      vision_map (m_fov b) (m_map b) (pos e) (visibility blank_vision)"
    if "same_tile (matrix_get (m_map b) p) t \<or> \<not> canSee_vision (fresh_vision b e) p" for e
  proof (rule vision_map_agree [OF f blank_vision_ok(1)])
    fix q assume "0 \<le> relvis (vision_map (m_fov b) (m_map b) (pos e) (visibility blank_vision)) (q - pos e)"
    then have "canSee_vision (fresh_vision b e) q"
      by (simp add: canSee_vision_def fresh_vision_props(3) [OF f])
    with that show "same_tile (matrix_get (m_map b) q) (matrix_get (matrix_set (m_map b) p t) q)"
      by (auto simp: matrix_get_set [OF wf] same_tile_def)
  qed
  have "i \<in> set (m_entities b) \<and> vision_ok (setTile b p t) i v'"
    if v': "m_vision (setTile b p t) i = Some v'" for i v'
  proof -
    have i: "i \<in> set (m_entities b)"
      using ok v' setTile_vision_other [OF dist] by (metis visions_ok_def)
    obtain v where v: "m_vision b i = Some v" and v'_eq: "v' = (if \<not> same_tile (matrix_get (m_map b) p) t \<and>
        canSee_vision v p then v\<lparr>dirty := True\<rparr> else v)"
      using v' setTile_vision [OF True dist i, of t] by auto
    from ok v have "vision_ok b i v" by (simp add: visions_ok_def)
    then have "vision_ok (setTile b p t) i v'"
      using v'_eq keep unfolding vision_ok_iff fresh_vision_def compute_vision_eq
      by (auto simp: setTile_fields split: if_splits)
    with i show ?thesis by blast
  qed
  then show ?thesis using f by (simp add: visions_ok_def setTile_fields)
qed

lemma setTile_board_ok: "board_ok b \<Longrightarrow> board_ok (setTile b p t)"
proof -
  assume ok: "board_ok b"
  then have dist: "distinct (m_entities b)" by (simp add: board_ok_def index_ok_def)
  have "dom (m_vision (setTile b p t)) \<subseteq> dom (m_vision b)"
  proof (cases "matrix_contains (m_map b) p")
    case True
    have "m_vision (setTile b p t) j = None" if "m_vision b j = None" for j
      using that setTile_vision [OF True dist, of j t] setTile_vision_other [OF dist, of j p t]
      by (cases "j \<in> set (m_entities b)") simp_all
    then show ?thesis unfolding dom_def by (intro Collect_mono) metis
  qed (simp add: setTile_def)
  also have "\<dots> \<subseteq> {..<next_id b}" using ok by (simp add: board_ok_def store_ok_def)
  finally show ?thesis
    using ok by (simp add: board_ok_def store_ok_def index_ok_def turn_ok_def setTile_fields matrix_grid.wf_set)
qed

lemma moveEntity_visions_ok:
  assumes ok: "visions_ok b" and e: "store b i = Some e"
    and at: "m_entityAtPos b (pos e) = Some (Some i)" and mv: "moveEntity b i to = Inr b'"
  shows "visions_ok b'"
proof -
  define b1 where "b1 = b\<lparr>m_entityAtPos := (m_entityAtPos b)(pos e := None, to \<mapsto> Some i),
      store := (store b)(i \<mapsto> e\<lparr>pos := to\<rparr>)\<rparr>"
  have b': "b' = dirtyVision b1 i None"
    using mv e at by (auto simp: moveEntity_def b1_def Let_def assert_def split: if_splits)
  have "j \<in> set (m_entities b) \<and> vision_ok b' j v" if "m_vision b' j = Some v" for j v
  proof -
    have v: "\<exists>v0. m_vision b j = Some v0 \<and> v = (if j = i then v0\<lparr>dirty := True\<rparr> else v0)"
      using that by (auto simp: b' dirtyVision_vision b1_def split: if_splits)
    moreover have "store b' j = store b j" if "j \<noteq> i"
      using that by (simp add: b' b1_def)
    moreover have "m_fov b' = m_fov b" "m_map b' = m_map b" by (simp_all add: b' b1_def)
    ultimately show ?thesis using ok by (auto simp: visions_ok_def vision_ok_def)
  qed
  then show ?thesis using ok by (simp add: visions_ok_def b' b1_def)
qed

lemma store_update_visions_ok:
  assumes "visions_ok b" "store b i = Some e" "pos e' = pos e"
  shows "visions_ok (b\<lparr>store := (store b)(i \<mapsto> e')\<rparr>)"
  by (rule visions_ok_frame [OF assms(1)]) (use assms(2,3) in auto)

lemma addEntity_visions_ok:
  assumes "visions_ok b" "board_ok b" "alloc b e = (i, b1)" "addEntity b1 i = Inr b2"
  shows "visions_ok b2"
proof (rule visions_ok_frame [OF assms(1)])
  have b1: "i = next_id b" "b1 = b\<lparr>store := (store b)(i \<mapsto> e), next_id := Suc i\<rparr>"
    using assms(3) by (auto simp: alloc_def)
  have b2: "b2 = b1\<lparr>m_entities := m_entities b1 @ [i],
      m_entityAtPos := (m_entityAtPos b1)(pos e \<mapsto> Some i)\<rparr>"
    using assms(4) by (auto simp: addEntity_def b1(2) Let_def res_simps)
  show "m_fov b2 = m_fov b" "m_map b2 = m_map b" "m_vision b2 = m_vision b"
    "set (m_entities b) \<subseteq> set (m_entities b2)" by (auto simp: b2 b1(2))
  show "\<exists>e'. store b2 j = Some e' \<and> pos e' = pos e0" if "store b j = Some e0" for j e0
    using that assms(2) by (auto simp: b2 b1 board_ok_def store_ok_def)
qed

lemma advanceEntity_visions_ok:
  assumes "visions_ok b" "advanceEntity b = Inr b'"
  shows "visions_ok b'"
proof -
  from assms(2) obtain i e where ie: "store b i = Some e" and
    b': "b' = b\<lparr>store := (store b)(i \<mapsto> charge e), m_entityIndex := m_entityIndex b'\<rparr>"
    by (auto simp: advanceEntity_def res_simps Let_def split: if_splits)
  show ?thesis
    by (rule visions_ok_frame [OF assms(1)]) (subst b', use ie in auto)+
qed

lemma visions_ok_Board: "Board sz = Inr b \<Longrightarrow> visions_ok b"
  by (auto simp: Board_def visions_ok_def res_simps)

end
