(* ===== verification/MapGen.thy ===== *)
theory MapGen
  imports Vision
begin

text \<open>
  The model of the map generator of \<^verbatim>\<open>game.cpp\<close>: \<^verbatim>\<open>initBoard\<close> with its cellular automaton. The
  random engine is an abstract state \<open>'g\<close>; \<open>roll n g\<close> stands for \<^verbatim>\<open>die(n)(rng)\<close>, one draw of
  \<^verbatim>\<open>std::uniform_int_distribution\<close> on \<open>0..n - 1\<close>, whose algorithm the language leaves to the
  implementation. \<open>die_ok\<close> is its documented range.
\<close>

section \<open>Dice\<close>

type_synonym 'g roll = "nat \<Rightarrow> 'g \<Rightarrow> int \<times> 'g"

definition die_ok :: "'g roll \<Rightarrow> bool" where
  "die_ok roll \<longleftrightarrow> (\<forall>n g. 0 < n \<longrightarrow> 0 \<le> fst (roll n g) \<and> fst (roll n g) < int n)"

section \<open>The automaton\<close>

definition aut_border :: "point \<Rightarrow> bool matrix \<Rightarrow> bool matrix" where
  "aut_border sz result =
     (let result = fold (\<lambda>x result.
            matrix_set (matrix_set result (Point x 0) True) (Point x (py sz - 1)) True)
          [0..px sz - 1] result
      in fold (\<lambda>y result.
            matrix_set (matrix_set result (Point 0 y) True) (Point (px sz - 1) y) True)
          [0..py sz - 1] result)"

definition aut_fill :: "'g roll \<Rightarrow> point \<Rightarrow> bool matrix \<times> 'g \<Rightarrow> bool matrix \<times> 'g" where
  "aut_fill roll sz s =
     fold (\<lambda>y. fold (\<lambda>x (result, rng).
         let (d, rng) = roll 100 rng
         in (if d < 45 then matrix_set result (Point x y) True else result, rng))
       [0..px sz - 1]) [0..py sz - 1] s"

definition aut_count :: "bool matrix \<Rightarrow> int \<Rightarrow> int \<Rightarrow> int \<times> int" where
  "aut_count result x y =
     fold (\<lambda>dy. fold (\<lambda>dx (adj1, adj2).
         if dx = 0 \<and> dy = 0 then (adj1, adj2)
         else if min \<bar>dx\<bar> \<bar>dy\<bar> = 2 then (adj1, adj2)
         else
           let nxt = Point (x + dx) (y + dy)
           in if \<not> (matrix_contains result nxt \<and> matrix_get result nxt) then (adj1, adj2)
              else
                let distance = max \<bar>dx\<bar> \<bar>dy\<bar>
                in (if distance \<le> 1 then adj1 + 1 else adj1,
                    if distance \<le> 2 then adj2 + 1 else adj2))
       [-2..2]) [-2..2] (0, 0)"

definition aut_smooth :: "point \<Rightarrow> int \<Rightarrow> bool matrix \<Rightarrow> bool matrix" where
  "aut_smooth sz i result =
     fold (\<lambda>y. fold (\<lambda>x nxt.
         let (adj1, adj2) = aut_count result x y;
             blocked = (adj1 \<ge> 5 \<or> (i < 2 \<and> adj2 \<le> 1))
         in matrix_set nxt (Point x y) blocked)
       [1..px sz - 2]) [1..py sz - 2] result"

definition automata :: "'g roll \<Rightarrow> point \<Rightarrow> 'g \<Rightarrow> (bool matrix \<times> 'g) res" where
  "automata roll sz rng =
     rbind (Matrix sz False) (\<lambda>result.
       let result = aut_border sz result;
           (result, rng) = aut_fill roll sz (result, rng);
           result = fold (aut_smooth sz) [0..2] result
       in Inr (result, rng))"

definition initBoard :: "'g roll \<Rightarrow> board \<Rightarrow> 'g \<Rightarrow> (board \<times> 'g) res" where
  "initBoard roll b rng =
     rbind (clearAllTiles b) (\<lambda>b.
       let sz = getSize b
       in rbind (automata roll sz rng) (\<lambda>(walls, rng).
          rbind (automata roll sz rng) (\<lambda>(grass, rng).
          rbind (tileType (CHR ''#'')) (\<lambda>wt.
          rbind (tileType (CHR ''\"'')) (\<lambda>gt.
            Inr (fold (\<lambda>y. fold (\<lambda>x b.
                   let p = Point x y
                   in if matrix_get walls p then setTile b p wt
                      else if matrix_get grass p then setTile b p gt
                      else b)
                 [0..px sz - 1]) [0..py sz - 1] b, rng))))))"

section \<open>The border survives\<close>

definition on_border :: "point \<Rightarrow> point \<Rightarrow> bool" where
  "on_border sz p \<longleftrightarrow> 0 \<le> px p \<and> px p < px sz \<and> 0 \<le> py p \<and> py p < py sz \<and>
     (px p = 0 \<or> px p = px sz - 1 \<or> py p = 0 \<or> py p = py sz - 1)"

text \<open>A matrix of the given size whose border cells are all set.\<close>

definition walled :: "point \<Rightarrow> bool matrix \<Rightarrow> bool" where
  "walled sz m \<longleftrightarrow> matrix_wf m \<and> m_size m = sz \<and> (\<forall>p. on_border sz p \<longrightarrow> matrix_get m p)"

lemma walled_set_True: "walled sz m \<Longrightarrow> walled sz (matrix_set m p True)"
  by (auto simp: walled_def matrix_grid.wf_set matrix_get_set)

lemma walled_set_inner: "walled sz m \<Longrightarrow> \<not> on_border sz p \<Longrightarrow> walled sz (matrix_set m p v)"
  by (auto simp: walled_def matrix_grid.wf_set matrix_get_set)

text \<open>The two border loops as one list of writes.\<close>

definition border_points :: "point \<Rightarrow> point list" where
  "border_points sz = concat (map (\<lambda>x. [Point x 0, Point x (py sz - 1)]) [0..px sz - 1]) @
     concat (map (\<lambda>y. [Point 0 y, Point (px sz - 1) y]) [0..py sz - 1])"

lemma aut_border_writes: "aut_border sz m = fold (\<lambda>p r. matrix_set r p True) (border_points sz) m"
proof -
  have rows: "fold (\<lambda>x r. matrix_set (matrix_set r (f x) True) (g x) True) xs r =
      fold (\<lambda>p r. matrix_set r p True) (concat (map (\<lambda>x. [f x, g x]) xs)) r"
    for f g :: "int \<Rightarrow> point" and xs r
    by (induction xs arbitrary: r) simp_all
  show ?thesis by (simp add: aut_border_def border_points_def rows)
qed

lemma aut_border_walled:
  assumes "matrix_wf m" "m_size m = sz"
  shows "walled sz (aut_border sz m)"
proof -
  have "matrix_get (aut_border sz m) p" if "on_border sz p" for p
  proof -
    have "p \<in> (\<lambda>p. p) ` set (border_points sz)"
      using that by (cases p) (auto simp: on_border_def border_points_def)
    moreover have "matrix_contains m p"
      using that assms by (simp add: on_border_def matrix_contains_def)
    ultimately show ?thesis
      using matrix_grid.get_writes [OF assms(1), of p "\<lambda>p. p" "border_points sz" "\<lambda>_. True" True]
      by (auto simp: aut_border_writes)
  qed
  moreover have "m_size (fold (\<lambda>p r. matrix_set r p True) ps m') = m_size m'" for ps and m' :: "bool matrix"
    by (induction ps arbitrary: m') simp_all
  ultimately show ?thesis
    using matrix_grid.wf_writes [OF assms(1), of "\<lambda>p. p" "\<lambda>_. True" "border_points sz"]
    by (simp add: walled_def aut_border_writes assms(2))
qed

lemma aut_fill_walled:
  assumes "walled sz (fst s)"
  shows "walled sz (fst (aut_fill roll sz s))"
  unfolding aut_fill_def
  by (intro fold_invariant [where P = "\<lambda>s. walled sz (fst s)"] assms)
    (auto simp: walled_set_True split: prod.splits)

lemma aut_smooth_walled: "walled sz m \<Longrightarrow> walled sz (aut_smooth sz i m)"
  unfolding aut_smooth_def
  by (intro fold_invariant [where P = "walled sz"])
    (auto simp: on_border_def intro!: walled_set_inner split: prod.splits)

lemma automata_walled:
  assumes "0 \<le> px sz * py sz"
  shows "\<exists>m rng'. automata roll sz rng = Inr (m, rng') \<and> walled sz m"
proof -
  obtain m0 where m0: "Matrix sz False = Inr m0" using assms by (auto simp: Matrix_def)
  obtain m1 rng' where m1: "aut_fill roll sz (aut_border sz m0, rng) = (m1, rng')" by fastforce
  have "walled sz (aut_border sz m0)"
    using m0 Matrix_wf [OF m0] by (intro aut_border_walled) (auto simp: Matrix_Inr_iff)
  then have "walled sz m1" using aut_fill_walled [of sz "(aut_border sz m0, rng)" roll] m1 by simp
  then have "walled sz (fold (aut_smooth sz) [0..2] m1)"
    by (intro fold_invariant [where P = "walled sz"] aut_smooth_walled)
  then show ?thesis by (simp add: automata_def m0 m1)
qed

section \<open>The painted board\<close>

text \<open>A pair of nested loops over a rectangle is one loop over its points.\<close>

definition grid_points :: "point \<Rightarrow> point list" where
  "grid_points sz = concat (map (\<lambda>y. map (\<lambda>x. Point x y) [0..px sz - 1]) [0..py sz - 1])"

lemma set_grid_points:
  "p \<in> set (grid_points sz) \<longleftrightarrow> 0 \<le> px p \<and> px p < px sz \<and> 0 \<le> py p \<and> py p < py sz"
  by (cases p) (fastforce simp: grid_points_def)

lemma fold_grid:
  "fold (\<lambda>y. fold (\<lambda>x. h (Point x y)) [0..px sz - 1]) [0..py sz - 1] s = fold h (grid_points sz) s"
proof -
  have row: "fold (\<lambda>x. h (Point x y)) xs = fold h (map (\<lambda>x. Point x y) xs)" for y xs
    by (simp add: fold_map comp_def)
  have rows: "fold (\<lambda>y. fold h (f y)) ys s = fold h (concat (map f ys)) s" for f :: "int \<Rightarrow> point list" and ys s
    by (induction ys arbitrary: s) simp_all
  show ?thesis unfolding row rows grid_points_def ..
qed

text \<open>The tile that the generator puts on a cell.\<close>

definition painted :: "bool matrix \<Rightarrow> bool matrix \<Rightarrow> point \<Rightarrow> tile" where
  "painted walls grass p =
     projr (tileType (if matrix_get walls p then CHR ''#'' else if matrix_get grass p then CHR ''\"''
       else CHR ''.''))"

lemma clearAllTiles_eq:
  "clearAllTiles b = Inr (b\<lparr>m_map := matrix_fill (m_map b) (projr (tileType (CHR ''.'')))\<rparr>)"
  by (simp add: clearAllTiles_def)

lemma initBoard_ok:
  assumes ok: "board_ok b" and vis: "visions_ok b" and cache: "m_vision b = Map.empty"
    and sz: "m_size (m_map b) = sz" "0 \<le> px sz" "0 \<le> py sz"
  shows "\<exists>b' rng' walls rng1 grass. initBoard roll b rng = Inr (b', rng') \<and>
    automata roll sz rng = Inr (walls, rng1) \<and> automata roll sz rng1 = Inr (grass, rng') \<and> board_ok b' \<and> visions_ok b' \<and>
    m_entities b' = m_entities b \<and> m_entityAtPos b' = m_entityAtPos b \<and> m_vision b' = Map.empty \<and>
    store b' = store b \<and> m_size (m_map b') = sz \<and> m_init (m_map b') = m_init (m_map b) \<and>
    walled sz walls \<and> (\<forall>p. matrix_contains (m_map b) p \<longrightarrow> getTile b' p = painted walls grass p)"
proof -
  have "0 \<le> px sz * py sz" using sz by simp
  then obtain walls rng1 grass rng2 where aut: "automata roll sz rng = Inr (walls, rng1)" "walled sz walls"
    "automata roll sz rng1 = Inr (grass, rng2)" "walled sz grass"
    using automata_walled [of sz roll rng] automata_walled [of sz roll] by metis
  define b0 where "b0 = b\<lparr>m_map := matrix_fill (m_map b) (projr (tileType (CHR ''.'')))\<rparr>"
  define wt gt where "wt = projr (tileType (CHR ''#''))" and "gt = projr (tileType (CHR ''\"''))"
  have tiles: "tileType (CHR ''#'') = Inr wt" "tileType (CHR ''\"'') = Inr gt"
    by (simp_all add: wt_def gt_def)
  define paint where "paint = (\<lambda>p b. if matrix_get walls p then setTile b p wt
    else if matrix_get grass p then setTile b p gt else b)"
  define b' where "b' = fold paint (grid_points sz) b0"
  have run: "initBoard roll b rng = Inr (b', rng2)"
    using aut sz fold_grid [of paint sz b0] unfolding b'_def b0_def paint_def initBoard_def
    by (simp add: clearAllTiles_eq Let_def getSize_def matrix_size_def tiles del: tileType_simps)
  have b0: "board_ok b0" "visions_ok b0" "m_vision b0 = Map.empty" "m_size (m_map b0) = sz"
    using ok vis cache sz by (auto simp: b0_def board_ok_def index_ok_def turn_ok_def store_ok_def visions_ok_def)
  let ?P = "\<lambda>b1. board_ok b1 \<and> visions_ok b1 \<and> m_entities b1 = m_entities b \<and>
    m_entityAtPos b1 = m_entityAtPos b \<and> m_vision b1 = Map.empty \<and> store b1 = store b \<and>
    m_size (m_map b1) = sz \<and> m_init (m_map b1) = m_init (m_map b)"
  have "?P b'"
    unfolding b'_def
  proof (rule fold_invariant [where P = ?P])
    show "?P b0" using b0 by (auto simp: b0_def)
    fix p b1 assume *: "?P b1"
    then have "distinct (m_entities b1)" "matrix_wf (m_map b1)"
      by (auto simp: board_ok_def index_ok_def)
    then have "?P (setTile b1 p t)" for t
      using * setTile_board_ok [of b1 p t] setTile_visions_ok [of b1 p t]
        setTile_empty_cache [of b1 p t] by (simp add: setTile_fields)
    then show "?P (paint p b1)" using * by (simp add: paint_def)
  qed
  moreover have "getTile b' p = painted walls grass p" if p: "matrix_contains (m_map b) p" for p
  proof -
    define c g where "c p = (matrix_get walls p \<or> matrix_get grass p)"
      and "g p = (if matrix_get walls p then wt else gt)" for p
    have "m_map (fold paint ps b1) = fold (\<lambda>p m. if c p then matrix_set m p (g p) else m) ps (m_map b1)" for ps b1
      by (induction ps arbitrary: b1) (simp_all add: paint_def c_def g_def setTile_fields)
    then have m: "m_map b' = fold (\<lambda>p m. matrix_set m p (g p)) (filter c (grid_points sz)) (m_map b0)"
      by (simp add: b'_def matrix_grid.guarded_writes [where f = "\<lambda>p. p"])
    have wf: "matrix_wf (m_map b0)" using b0 by (simp add: board_ok_def)
    have in0: "matrix_contains (m_map b0) p" "p \<in> set (grid_points sz)"
      using p sz(1) by (auto simp: b0_def set_grid_points matrix_contains_def)
    show ?thesis
    proof (cases "c p")
      case True
      with in0 show ?thesis
        using matrix_grid.get_writes [OF wf in0(1), of "\<lambda>p. p" "filter c (grid_points sz)" g "g p"]
        by (auto simp: getTile_def m painted_def g_def c_def tiles simp del: tileType_simps)
    next
      case False
      with p ok show ?thesis
        using matrix_grid.get_writes_other [OF wf, of p "\<lambda>p. p" "filter c (grid_points sz)" g]
        by (auto simp: getTile_def m painted_def c_def b0_def matrix_get_fill board_ok_def)
    qed
  qed
  ultimately show ?thesis using run aut(1-3) by blast
qed

end
