(* ===== verification/Runs.thy ===== *)
theory Runs
  imports Prelude
begin

text \<open>
  Runs of a labelled step relation, and the interfaces under which facts about single steps carry
  over to runs: an invariant, a quantity that every step changes by the cost of its label, a
  distance bounded by costs, and a measure that makes every run reach a stopping point.
\<close>

inductive run :: "('s \<Rightarrow> 'e \<Rightarrow> 's \<Rightarrow> bool) \<Rightarrow> 's \<Rightarrow> 'e list \<Rightarrow> 's \<Rightarrow> bool" for step where
  run_nil: "run step s [] s"
| run_cons: "step s e s' \<Longrightarrow> run step s' es s'' \<Longrightarrow> run step s (e # es) s''"

inductive_simps run_nil_iff [simp]: "run step s [] s'"
inductive_simps run_cons_iff: "run step s (e # es) s''"

lemma run_snoc: "run step s es s' \<Longrightarrow> step s' e s'' \<Longrightarrow> run step s (es @ [e]) s''"
  by (induction rule: run.induct) (auto intro: run.intros)

text \<open>Rule induction from the end of a run.\<close>

lemma run_snoc_induct [consumes 1, case_names nil snoc]:
  assumes "run step s es s'" and "P [] s"
    and "\<And>es s' e s''. run step s es s' \<Longrightarrow> P es s' \<Longrightarrow> step s' e s'' \<Longrightarrow> P (es @ [e]) s''"
  shows "P es s'"
proof -
  have "P (ps @ es) s''" if "run step s' es s''" "run step s ps s'" "P ps s'" for ps es s' s''
    using that
  proof (induction arbitrary: ps rule: run.induct)
    case (run_cons s1 e s2 es s3)
    from assms(3) [OF run_cons.prems run_cons.hyps(1)]
      run_cons.IH [of "ps @ [e]"] run_snoc [OF run_cons.prems(1) run_cons.hyps(1)]
    show ?case by simp
  qed simp
  from this [of s es s' "[]"] assms(1,2) show ?thesis by (simp add: run_nil)
qed

locale invariant_steps =
  fixes step :: "'s \<Rightarrow> 'e \<Rightarrow> 's \<Rightarrow> bool" and inv :: "'s \<Rightarrow> bool"
  assumes step_inv: "inv s \<Longrightarrow> step s e s' \<Longrightarrow> inv s'"
begin

lemma run_inv: "run step s es s' \<Longrightarrow> inv s \<Longrightarrow> inv s'"
  by (induction rule: run.induct) (auto intro: step_inv)

end

locale accounted_steps = invariant_steps +
  fixes quantity :: "'s \<Rightarrow> int" and cost :: "'e \<Rightarrow> int"
  assumes step_account: "inv s \<Longrightarrow> step s e s' \<Longrightarrow> quantity s' = quantity s + cost e"
begin

lemma run_account: "run step s es s' \<Longrightarrow> inv s \<Longrightarrow> quantity s' = quantity s + sum_list (map cost es)"
  by (induction rule: run.induct) (simp_all add: step_account step_inv)

end

locale drifting_steps = invariant_steps +
  fixes dist :: "'s \<Rightarrow> 's \<Rightarrow> int" and cost :: "'e \<Rightarrow> int"
  assumes dist_self: "dist s s \<le> 0" and triangle: "dist s s'' \<le> dist s s' + dist s' s''"
    and step_drift: "inv s \<Longrightarrow> step s e s' \<Longrightarrow> dist s s' \<le> cost e"
begin

lemma run_drift: "run step s es s' \<Longrightarrow> inv s \<Longrightarrow> dist s s' \<le> sum_list (map cost es)"
proof (induction rule: run.induct)
  case (run_nil s)
  then show ?case by (simp add: dist_self)
next
  case (run_cons s e s' es s'')
  then have "dist s s' \<le> cost e" "dist s' s'' \<le> sum_list (map cost es)"
    by (auto intro: step_drift step_inv)
  with triangle [of s s'' s'] show ?case by simp
qed

end

text \<open>
  A loop whose every round either stops or takes a step that makes the state smaller in a
  well-founded order.
\<close>

locale progressing_steps = invariant_steps +
  fixes stop :: "'s \<Rightarrow> 's \<Rightarrow> bool" and smaller :: "('s \<times> 's) set"
  assumes wf_smaller: "wf smaller"
    and progress: "inv s \<Longrightarrow> (\<exists>s'. stop s s') \<or> (\<exists>e s'. step s e s')"
    and decreases: "inv s \<Longrightarrow> step s e s' \<Longrightarrow> (s', s) \<in> smaller"
begin

lemma run_stops:
  assumes "inv s"
  shows "\<exists>es s' s''. run step s es s' \<and> stop s' s''"
  using wf_smaller assms
proof (induction s rule: wf_induct_rule)
  case (less s)
  from progress [OF less.prems] show ?case
  proof
    assume "\<exists>e s'. step s e s'"
    then obtain e s' where e: "step s e s'" by blast
    with less obtain es s1 s2 where "run step s' es s1" "stop s1 s2"
      by (meson decreases step_inv)
    with e show ?thesis by (meson run_cons)
  qed (meson run_nil)
qed

end

text \<open>The sum of a cost that only one label has is its number of occurrences.\<close>

lemma sum_list_count: "sum_list (map (\<lambda>e. if e = a then (k::int) else 0) es) = k * int (count_list es a)"
  by (induction es) (auto simp: algebra_simps)

end
