(* ===== verification/Game.thy ===== *)
theory Game
  imports MapGen Runs
begin

text \<open>
  The model of the turn loop of \<^verbatim>\<open>game.cpp\<close>: planning and performing an action, key handling,
  \<^verbatim>\<open>updateState\<close> and the constructor of \<^verbatim>\<open>State\<close>. A loop of the source that has no bound of its
  own is a \<open>partial_function (option)\<close>, so that not returning is the value \<open>None\<close>. The random
  engine, its seeding and the clock are parameters.
\<close>

section \<open>Actions\<close>

definition kSteps :: "point list" where
  "kSteps = [Point (-1) 0, Point 0 1, Point 0 (-1), Point 1 0,
     Point (-1) (-1), Point 1 (-1), Point (-1) 1, Point 1 1]"

record result =
  success :: bool
  moves :: int
  turns :: int

definition kSuccess :: result where "kSuccess = \<lparr>success = True, moves = 0, turns = 1\<rparr>"
definition kFailure :: result where "kFailure = \<lparr>success = False, moves = 0, turns = 1\<rparr>"

datatype action = IdleAction | MoveAction (move_step: point) | WaitForInputAction

definition player :: "entity \<Rightarrow> bool" where
  "player e = match e (\<lambda>_. False) (\<lambda>_ p. p)"

text \<open>The die indexes an array; an index outside it is an invalid access.\<close>

definition plan :: "'g roll \<Rightarrow> entity \<Rightarrow> action option \<Rightarrow> 'g \<Rightarrow> (action \<times> action option \<times> 'g) res" where
  "plan roll e input rng =
     (if \<not> player e then
        let (d, rng) = roll (length kSteps) rng
        in if 0 \<le> d \<and> nat d < length kSteps then Inr (MoveAction (kSteps ! nat d), input, rng)
           else Inl BadAccess
      else case input of
          None \<Rightarrow> Inr (WaitForInputAction, None, rng)
        | Some result \<Rightarrow> Inr (result, None, rng))"

definition act :: "board \<Rightarrow> eid \<Rightarrow> action \<Rightarrow> (result \<times> board) res" where
  "act b i action =
     (case action of
        IdleAction \<Rightarrow> Inr (kSuccess, b)
      | MoveAction step \<Rightarrow>
          rbind (deref b i) (\<lambda>e.
            let to = pos e + step
            in if to = pos e then Inr (kSuccess, b)
               else if getStatus b to \<noteq> Free then Inr (kFailure, b)
               else rbind (moveEntity b i to) (\<lambda>b. Inr (kSuccess, b)))
      | WaitForInputAction \<Rightarrow> Inr (kFailure, b))"

section \<open>The state and its update\<close>

record 'g state =
  st_rng :: 'g
  st_board :: board
  st_player :: eid
  st_input :: "action option"

definition key_dir :: "char \<Rightarrow> point option" where
  "key_dir c =
     (if c = CHR ''h'' then Some (Point (-1) 0)
      else if c = CHR ''j'' then Some (Point 0 1)
      else if c = CHR ''k'' then Some (Point 0 (-1))
      else if c = CHR ''l'' then Some (Point 1 0)
      else if c = CHR ''y'' then Some (Point (-1) (-1))
      else if c = CHR ''u'' then Some (Point 1 (-1))
      else if c = CHR ''b'' then Some (Point (-1) 1)
      else if c = CHR ''n'' then Some (Point 1 1)
      else if c = CHR ''.'' then Some (Point 0 0)
      else None)"

definition processInput :: "'g state \<Rightarrow> input \<Rightarrow> 'g state" where
  "processInput s inp =
     (case key_dir (char_of (unat inp)) of
        Some dir \<Rightarrow> s\<lparr>st_input := Some (MoveAction dir)\<rparr>
      | None \<Rightarrow> s)"

fun read_inputs :: "'g state \<Rightarrow> input list \<Rightarrow> 'g state \<times> input list" where
  "read_inputs s [] = (s, [])"
| "read_inputs s (inp # inputs) =
     (if st_input s = None then read_inputs (processInput s inp) inputs else (s, inp # inputs))"

text \<open>
  The body of the turn loop: the new state and whether the loop goes on. Comparing the addresses
  of two entities is comparing their ids.
\<close>

definition turn_step :: "'g roll \<Rightarrow> 'g state \<Rightarrow> (bool \<times> 'g state) res" where
  "turn_step roll s =
     rbind (getActiveEntity (st_board s)) (\<lambda>i.
     rbind (deref (st_board s) i) (\<lambda>e.
       if \<not> turnReady e then
         rbind (advanceEntity (st_board s)) (\<lambda>b. Inr (True, s\<lparr>st_board := b\<rparr>))
       else
         rbind (plan roll e (st_input s) (st_rng s)) (\<lambda>(action, input, rng).
         rbind (act (st_board s) i action) (\<lambda>(result, b).
           let s = s\<lparr>st_board := b, st_input := input, st_rng := rng\<rparr>
           in if \<not> success result \<and> i = st_player s then Inr (False, s)
              else rbind (deref b i) (\<lambda>e.
                let e = wait e (of_int (moves result)) (of_int (turns result))
                in Inr (True, s\<lparr>st_board := b\<lparr>store := (store b)(i \<mapsto> e)\<rparr>\<rparr>))))))"

partial_function (option) turn_loop :: "'g roll \<Rightarrow> 'g state \<Rightarrow> 'g state res option" where
  "turn_loop roll s =
     (case deref (st_board s) (st_player s) of
        Inl err \<Rightarrow> Some (Inl err)
      | Inr p \<Rightarrow>
          if removed p then Some (Inr s)
          else case turn_step roll s of
              Inl err \<Rightarrow> Some (Inl err)
            | Inr (go_on, s') \<Rightarrow> if go_on then turn_loop roll s' else Some (Inr s'))"

definition updateState :: "'g roll \<Rightarrow> 'g state \<Rightarrow> input list \<Rightarrow> ('g state \<times> input list) res option" where
  "updateState roll s inputs =
     (case rbind (deref (st_board s) (st_player s)) (\<lambda>p.
             if removed p then Inr False
             else rbind (getActiveEntity (st_board s)) (\<lambda>i. Inr (st_player s = i))) of
        Inl err \<Rightarrow> Some (Inl err)
      | Inr reads \<Rightarrow>
          let (s, inputs) = (if reads then read_inputs s inputs else (s, inputs))
          in case turn_loop roll s of
               None \<Rightarrow> None
             | Some (Inl err) \<Rightarrow> Some (Inl err)
             | Some (Inr s') \<Rightarrow> Some (Inr (s', inputs)))"

definition update :: "'g roll \<Rightarrow> 'g state \<Rightarrow> input list \<Rightarrow> ('g state \<times> input list) res option" where
  "update roll s inputs = updateState roll s inputs"

section \<open>The initial state\<close>

text \<open>
  \<open>clock n\<close> is the reading of the \<open>n\<close>-th call of \<^verbatim>\<open>epochTimeNanos\<close>, \<open>mt\<close> the seeding of the engine.
\<close>

partial_function (option) gen_board ::
    "('t \<Rightarrow> 'g) \<Rightarrow> 'g roll \<Rightarrow> (nat \<Rightarrow> 't) \<Rightarrow> point \<Rightarrow> nat \<Rightarrow> board \<Rightarrow> (board \<times> 'g) res option" where
  "gen_board mt roll clock start n b =
     (case initBoard roll b (mt (clock n)) of
        Inl err \<Rightarrow> Some (Inl err)
      | Inr (b', rng) \<Rightarrow>
          if getStatus b' start = Free then Some (Inr (b', rng))
          else gen_board mt roll clock start (Suc n) b')"

fun try_pos :: "'g roll \<Rightarrow> board \<Rightarrow> nat \<Rightarrow> 'g \<Rightarrow> point option \<times> 'g" where
  "try_pos roll b 0 rng = (None, rng)"
| "try_pos roll b (Suc j) rng =
     (let (x, rng) = roll (nat (px (getSize b))) rng;
          (y, rng) = roll (nat (py (getSize b))) rng
      in if getStatus b (Point x y) = Free then (Some (Point x y), rng) else try_pos roll b j rng)"

definition place_pidgey :: "'g roll \<Rightarrow> board \<times> 'g \<Rightarrow> (board \<times> 'g) res" where
  "place_pidgey roll = (\<lambda>(b, rng).
     case try_pos roll b 100 rng of
       (None, rng) \<Rightarrow> Inr (b, rng)
     | (Some p, rng) \<Rightarrow>
         rbind (new_Pokemon ''Pidgey'' p) (\<lambda>e.
           let (i, b) = alloc b e
           in rbind (addEntity b i) (\<lambda>b. Inr (b, rng))))"

definition State :: "('t \<Rightarrow> 'g) \<Rightarrow> 'g roll \<Rightarrow> (nat \<Rightarrow> 't) \<Rightarrow> 'g state res option" where
  "State mt roll clock =
     (case Board (Point kMapSize kMapSize) of
        Inl err \<Rightarrow> Some (Inl err)
      | Inr b \<Rightarrow>
          let sz = getSize b;
              start = Point (px sz div 2) (py sz div 2)
          in case gen_board mt roll clock start 0 b of
               None \<Rightarrow> None
             | Some (Inl err) \<Rightarrow> Some (Inl err)
             | Some (Inr (b, rng)) \<Rightarrow>
                 Some (let (pl, b) = alloc b (new_Trainer [] start True kTrainerHP kTrainerSpeed)
                   in rbind (addEntity b pl) (\<lambda>b.
                      rbind (rfold (\<lambda>_. place_pidgey roll) [0..<5] (b, rng)) (\<lambda>(b, rng).
                        Inr \<lparr>st_rng = rng, st_board = b, st_player = pl, st_input = None\<rparr>))))"

section \<open>The state invariant\<close>

text \<open>
  An entity's timers stay within one turn of zero and its charge moves them; being above
  \<open>- charge_of e \<ge> -120\<close> makes the 120 that a turn costs enough to end the entity's turn.
\<close>

definition timers_ok :: "entity \<Rightarrow> bool" where
  "timers_ok e \<longleftrightarrow> move_timer e = 0 \<and> - charge_of e < turn_timer e \<and> turn_timer e \<le> kTurnTimer \<and>
     1 \<le> charge_of e \<and> charge_of e \<le> kTurnTimer"

definition entity_ok :: "board \<Rightarrow> eid \<Rightarrow> eid \<Rightarrow> entity \<Rightarrow> bool" where
  "entity_ok b pl i e \<longleftrightarrow> \<not> removed e \<and> timers_ok e \<and> \<not> blocked_tile (getTile b (pos e)) \<and>
     (player e \<longleftrightarrow> i = pl)"

definition input_ok :: "action option \<Rightarrow> bool" where
  "input_ok inp \<longleftrightarrow> inp = None \<or> (\<exists>d. inp = Some (MoveAction d) \<and> lenWalking d \<le> 1)"

definition state_ok :: "'g state \<Rightarrow> bool" where
  "state_ok s \<longleftrightarrow> board_ok (st_board s) \<and> visions_ok (st_board s) \<and>
     (\<forall>i e. i \<in> set (m_entities (st_board s)) \<longrightarrow> store (st_board s) i = Some e \<longrightarrow>
        entity_ok (st_board s) (st_player s) i e) \<and>
     st_player s \<in> set (m_entities (st_board s)) \<and> blocked_tile (m_init (m_map (st_board s))) \<and>
     input_ok (st_input s)"

lemma getStatus_Free_iff:
  "getStatus b p = Free \<longleftrightarrow> \<not> blocked_tile (getTile b p) \<and> m_entityAtPos b p = None"
  by (simp add: getStatus_def blocked_tile_def)

text \<open>An entity stands inside the map: whatever is outside reads as the blocked default tile.\<close>

lemma open_tile_inside:
  "blocked_tile (m_init (m_map b)) \<Longrightarrow> \<not> blocked_tile (getTile b p) \<Longrightarrow> matrix_contains (m_map b) p"
  by (auto simp: getTile_def matrix_get_def split: if_splits)

subsection \<open>Acting\<close>

text \<open>The board after entity \<open>i\<close>, read as \<open>e\<close>, has moved to \<open>to\<close>.\<close>

definition moved :: "board \<Rightarrow> eid \<Rightarrow> entity \<Rightarrow> point \<Rightarrow> board" where
  "moved b i e to = dirtyVision (b\<lparr>m_entityAtPos := (m_entityAtPos b)(pos e := None, to \<mapsto> Some i),
      store := (store b)(i \<mapsto> e\<lparr>pos := to\<rparr>)\<rparr>) i None"

lemma moved_fields [simp]:
  "m_fov (moved b i e to) = m_fov b" "m_entityIndex (moved b i e to) = m_entityIndex b"
  "m_map (moved b i e to) = m_map b" "m_entities (moved b i e to) = m_entities b"
  "m_entityAtPos (moved b i e to) = (m_entityAtPos b)(pos e := None, to \<mapsto> Some i)"
  "store (moved b i e to) = (store b)(i \<mapsto> e\<lparr>pos := to\<rparr>)"
  by (simp_all add: moved_def)

lemma act_eq:
  assumes ok: "board_ok b" "i \<in> set (m_entities b)" "store b i = Some e"
  shows "act b i a = Inr (case a of
      IdleAction \<Rightarrow> (kSuccess, b)
    | MoveAction d \<Rightarrow>
        if d = 0 then (kSuccess, b)
        else if getStatus b (pos e + d) = Free then (kSuccess, moved b i e (pos e + d))
        else (kFailure, b)
    | WaitForInputAction \<Rightarrow> (kFailure, b))"
proof (cases a)
  case (MoveAction d)
  then show ?thesis
    using moveEntity_ok(1) [OF ok, of "pos e + d"] ok(3)
    by (auto simp: act_def moved_def getStatus_Free_iff Let_def)
qed (simp_all add: act_def)

lemma moved_ok:
  assumes "board_ok b" "visions_ok b" "i \<in> set (m_entities b)" "store b i = Some e" "getStatus b to = Free"
  shows "board_ok (moved b i e to)" "visions_ok (moved b i e to)"
proof -
  have free: "m_entityAtPos b to = None \<or> to = pos e" using assms(5) by (simp add: getStatus_Free_iff)
  note mv = moveEntity_ok [OF assms(1,3,4) free]
  have at: "m_entityAtPos b (pos e) = Some (Some i)"
    using assms by (auto simp: board_ok_def elim: index_ok_entity)
  show "board_ok (moved b i e to)" using mv(2) by (simp add: moved_def)
  show "visions_ok (moved b i e to)"
    using moveEntity_visions_ok [OF assms(2,4) at mv(1)] by (simp add: moved_def)
qed

lemma plan_ok:
  assumes "die_ok roll" "input_ok inp"
  shows "\<exists>a inp' rng'. plan roll e inp rng = Inr (a, inp', rng') \<and> input_ok inp' \<and>
    (case a of MoveAction d \<Rightarrow> lenWalking d \<le> 1 | IdleAction \<Rightarrow> False | WaitForInputAction \<Rightarrow> player e \<and> inp = None) \<and>
    (player e \<longrightarrow> inp' = None \<and> rng' = rng) \<and> (\<not> player e \<longrightarrow> inp' = inp \<and> (\<exists>d \<in> set kSteps. a = MoveAction d))"
proof (cases "player e")
  case True
  then show ?thesis using assms(2) by (auto simp: plan_def input_ok_def split: option.splits)
next
  case False
  obtain d rng' where roll: "roll (length kSteps) rng = (d, rng')" by fastforce
  have "0 < length kSteps" by (simp add: kSteps_def)
  with assms(1) have "0 \<le> d \<and> d < int (length kSteps)" unfolding die_ok_def by (metis roll fst_conv)
  then have d: "0 \<le> d" "nat d < length kSteps" by auto
  then have "kSteps ! nat d \<in> set kSteps" by simp
  moreover have "\<forall>p \<in> set kSteps. lenWalking p \<le> 1" by (simp add: kSteps_def lenWalking_def)
  ultimately show ?thesis using False d assms(2) by (simp add: plan_def roll)
qed

section \<open>The turn loop as a step relation\<close>

datatype event = Advanced eid | Acted eid

inductive turn_event :: "'g roll \<Rightarrow> 'g state \<Rightarrow> event \<Rightarrow> 'g state \<Rightarrow> bool" for roll where
  advanced: "turn_event roll s (Advanced i) (s\<lparr>st_board := b'\<rparr>)"
    if "getActiveEntity (st_board s) = Inr i" "store (st_board s) i = Some e" "\<not> turnReady e"
      "advanceEntity (st_board s) = Inr b'"
| acted: "turn_event roll s (Acted i) (s\<lparr>st_board := b'\<lparr>store := (store b')(i \<mapsto>
        wait e' (of_int (moves r)) (of_int (turns r)))\<rparr>, st_input := inp, st_rng := rng\<rparr>)"
    if "getActiveEntity (st_board s) = Inr i" "store (st_board s) i = Some e" "turnReady e"
      "plan roll e (st_input s) (st_rng s) = Inr (a, inp, rng)" "act (st_board s) i a = Inr (r, b')"
      "success r \<or> i \<noteq> st_player s" "store b' i = Some e'"

inductive_cases turn_event_AdvancedE: "turn_event roll s (Advanced i) s'"
inductive_cases turn_event_ActedE: "turn_event roll s (Acted i) s'"

inductive turn_stop :: "'g roll \<Rightarrow> 'g state \<Rightarrow> 'g state \<Rightarrow> bool" for roll where
  "turn_stop roll s (s\<lparr>st_board := b', st_input := inp, st_rng := rng\<rparr>)"
    if "getActiveEntity (st_board s) = Inr (st_player s)" "store (st_board s) (st_player s) = Some e"
      "turnReady e" "plan roll e (st_input s) (st_rng s) = Inr (a, inp, rng)"
      "act (st_board s) (st_player s) a = Inr (r, b')" "\<not> success r"

lemma turn_step_continue_iff:
  "turn_step roll s = Inr (True, s') \<longleftrightarrow> (\<exists>ev. turn_event roll s ev s')" (is "?l \<longleftrightarrow> ?r")
proof
  assume l: ?l
  then obtain i e where ie: "getActiveEntity (st_board s) = Inr i" "store (st_board s) i = Some e"
    by (auto simp: turn_step_def res_simps)
  show ?r
  proof (cases "turnReady e")
    case True
    with l ie obtain a inp rng r b' e' where
      "plan roll e (st_input s) (st_rng s) = Inr (a, inp, rng)" "act (st_board s) i a = Inr (r, b')"
      "success r \<or> i \<noteq> st_player s" "store b' i = Some e'"
      "s' = s\<lparr>st_board := b'\<lparr>store := (store b')(i \<mapsto>
        wait e' (of_int (moves r)) (of_int (turns r)))\<rparr>, st_input := inp, st_rng := rng\<rparr>"
      by (auto simp: turn_step_def res_simps Let_def split: if_splits)
    with True ie show ?thesis by (blast intro: acted)
  next
    case False
    with l ie show ?thesis
      by (auto simp: turn_step_def res_simps intro: advanced)
  qed
next
  assume ?r
  then show ?l
    by (auto elim!: turn_event.cases simp: turn_step_def)
qed

lemma turn_step_stop_iff:
  "turn_step roll s = Inr (False, s') \<longleftrightarrow> turn_stop roll s s'" (is "?l \<longleftrightarrow> ?r")
proof
  assume l: ?l
  then obtain i e where ie: "getActiveEntity (st_board s) = Inr i" "store (st_board s) i = Some e"
    by (auto simp: turn_step_def res_simps)
  with l have "turnReady e" by (auto simp: turn_step_def res_simps split: if_splits)
  with l ie obtain a inp rng r b' where
    "plan roll e (st_input s) (st_rng s) = Inr (a, inp, rng)" "act (st_board s) i a = Inr (r, b')"
    "\<not> success r" "i = st_player s" "s' = s\<lparr>st_board := b', st_input := inp, st_rng := rng\<rparr>"
    by (auto simp: turn_step_def res_simps Let_def split: if_splits)
  with \<open>turnReady e\<close> ie show ?r by (auto intro: turn_stop.intros)
next
  assume ?r
  then show ?l by (auto elim!: turn_stop.cases simp: turn_step_def)
qed

subsection \<open>Preservation and progress\<close>

lemma c_round_numeral [simp]: "c_round 0 = 0" "c_round (numeral n) = numeral n"
  using c_round_of_int [of 0] c_round_of_int [of "numeral n"] by simp_all

lemma wait_one:
  assumes "timers_ok e" "turnReady e"
  shows "timers_ok (wait e 0 1)" "\<not> turnReady (wait e 0 1)"
  using assms by (auto simp: timers_ok_def turnReady_def wait_def charge_of_def kTurnTimer_def)

lemma wait_fields [simp]:
  "etype (wait e m t) = etype e" "pos (wait e m t) = pos e" "speed (wait e m t) = speed e"
  "removed (wait e m t) = removed e" "entity_glyph (wait e m t) = entity_glyph e"
  "charge_of (wait e m t) = charge_of e" "player (wait e m t) = player e"
  by (simp_all add: wait_def charge_of_def player_def match_def)

lemma charge_ok: "timers_ok e \<Longrightarrow> timers_ok (charge e)"
  by (auto simp: timers_ok_def charge_of_def)

lemma charge_keeps [simp]: "player (charge e) = player e" "charge_of (charge e) = charge_of e"
  by (simp_all add: player_def match_def charge_of_def)

lemma pos_update_keeps [simp]:
  "player (e\<lparr>pos := p\<rparr>) = player e" "charge_of (e\<lparr>pos := p\<rparr>) = charge_of e"
  "timers_ok (e\<lparr>pos := p\<rparr>) = timers_ok e" "turnReady (e\<lparr>pos := p\<rparr>) = turnReady e"
  by (simp_all add: player_def match_def charge_of_def timers_ok_def turnReady_def)

lemma result_costs [simp]:
  "moves kSuccess = 0" "turns kSuccess = 1" "success kSuccess"
  "moves kFailure = 0" "turns kFailure = 1" "\<not> success kFailure"
  by (simp_all add: kSuccess_def kFailure_def)

lemma state_okD:
  assumes "state_ok s"
  shows "board_ok (st_board s)" "visions_ok (st_board s)" "st_player s \<in> set (m_entities (st_board s))"
    "input_ok (st_input s)"
  using assms by (simp_all add: state_ok_def)

lemma state_ok_entity:
  "state_ok s \<Longrightarrow> i \<in> set (m_entities (st_board s)) \<Longrightarrow> store (st_board s) i = Some e \<Longrightarrow>
   entity_ok (st_board s) (st_player s) i e"
  by (simp add: state_ok_def)

lemma state_ok_active:
  assumes "state_ok s"
  obtains i e where "getActiveEntity (st_board s) = Inr i" "i \<in> set (m_entities (st_board s))"
    "store (st_board s) i = Some e" "entity_ok (st_board s) (st_player s) i e"
    "i = m_entities (st_board s) ! m_entityIndex (st_board s)"
proof -
  have "m_entities (st_board s) \<noteq> []" using state_okD(3) [OF assms] by auto
  with state_okD(1) [OF assms] obtain i e where
    *: "getActiveEntity (st_board s) = Inr i" "i \<in> set (m_entities (st_board s))"
      "store (st_board s) i = Some e" "i = m_entities (st_board s) ! m_entityIndex (st_board s)"
    by (rule getActiveEntity_ok)
  with state_ok_entity [OF assms *(2,3)] that show ?thesis by blast
qed

lemma getActiveEntity_Inr:
  "getActiveEntity b = Inr i \<Longrightarrow> i \<in> set (m_entities b) \<and> i = m_entities b ! m_entityIndex b \<and>
     m_entityIndex b < length (m_entities b)"
  by (auto simp: getActiveEntity_def assert_def split: if_splits)

text \<open>Entities after a turn: one entity changed, the tiles and the list did not.\<close>

lemma state_ok_update:
  assumes "state_ok s" "board_ok b'" "visions_ok b'" "m_entities b' = m_entities (st_board s)"
    "m_map b' = m_map (st_board s)" "store b' = (store (st_board s))(i \<mapsto> e')"
    "entity_ok (st_board s) (st_player s) i e'" "input_ok inp"
  shows "state_ok (s\<lparr>st_board := b', st_input := inp, st_rng := rng\<rparr>)"
  using assms by (auto simp: state_ok_def entity_ok_def getTile_def)

lemma advanced_effect:
  assumes "state_ok s" "turn_event roll s (Advanced i) s'"
  obtains e where "getActiveEntity (st_board s) = Inr i" "store (st_board s) i = Some e" "0 < turn_timer e"
    "s' = s\<lparr>st_board := (st_board s)\<lparr>store := (store (st_board s))(i \<mapsto> charge e),
       m_entityIndex := Suc (m_entityIndex (st_board s)) mod length (m_entities (st_board s))\<rparr>\<rparr>"
proof (rule turn_event_AdvancedE [OF assms(2)])
  fix e b'
  assume *: "s' = s\<lparr>st_board := b'\<rparr>" "getActiveEntity (st_board s) = Inr i"
    "store (st_board s) i = Some e" "\<not> turnReady e" "advanceEntity (st_board s) = Inr b'"
  then show ?thesis
    using that advanceEntity_ok(1) [OF state_okD(1) [OF assms(1)] *(2,3)]
    by (auto simp: turnReady_def)
qed

lemma acted_effect:
  assumes ok: "state_ok s" and die: "die_ok roll" and ev: "turn_event roll s (Acted i) s'"
  obtains e e' b' inp rng where "getActiveEntity (st_board s) = Inr i" "store (st_board s) i = Some e"
    "turnReady e" "board_ok b'" "visions_ok b'" "m_entities b' = m_entities (st_board s)"
    "m_entityIndex b' = m_entityIndex (st_board s)" "m_map b' = m_map (st_board s)"
    "store b' = (store (st_board s))(i \<mapsto> e')" "e' = e\<lparr>pos := pos e'\<rparr>" "lenWalking (pos e' - pos e) \<le> 1"
    "pos e' = pos e \<or> getStatus (st_board s) (pos e') = Free"
    "if i = st_player s then st_input s \<noteq> None \<and> inp = None else inp = st_input s"
    "s' = s\<lparr>st_board := b'\<lparr>store := (store (st_board s))(i \<mapsto> wait e' 0 1)\<rparr>, st_input := inp, st_rng := rng\<rparr>"
proof (rule turn_event_ActedE [OF ev])
  fix e a inp rng r b' e'
  assume 1: "s' = s\<lparr>st_board := b'\<lparr>store := (store b')(i \<mapsto> wait e' (of_int (moves r)) (of_int (turns r)))\<rparr>,
      st_input := inp, st_rng := rng\<rparr>" "getActiveEntity (st_board s) = Inr i"
    "store (st_board s) i = Some e" "turnReady e" "plan roll e (st_input s) (st_rng s) = Inr (a, inp, rng)"
    "act (st_board s) i a = Inr (r, b')" "success r \<or> i \<noteq> st_player s" "store b' i = Some e'"
  let ?b = "st_board s"
  have i: "i \<in> set (m_entities ?b)" using 1 by (simp add: getActiveEntity_Inr)
  note acteq = act_eq [OF state_okD(1) [OF ok] i 1(3), of a]
  have pl: "player e \<longleftrightarrow> i = st_player s" using state_ok_entity [OF ok i 1(3)] by (simp add: entity_ok_def)
  have plan: "case a of MoveAction d \<Rightarrow> lenWalking d \<le> 1 | IdleAction \<Rightarrow> False | WaitForInputAction \<Rightarrow> player e \<and> st_input s = None"
    "player e \<longrightarrow> inp = None" "\<not> player e \<longrightarrow> inp = st_input s"
    using plan_ok [OF die state_okD(4) [OF ok], of e "st_rng s"] 1(5) by auto
  have nowait: "a \<noteq> WaitForInputAction"
    using 1(6,7) acteq plan(1) pl by (auto split: action.splits)
  then obtain d where d: "a = MoveAction d" "lenWalking d \<le> 1" using plan(1) by (cases a) auto
  have r: "of_int (moves r) = (0::rat)" "of_int (turns r) = (1::rat)"
    using acteq 1(6) by (auto simp: d(1) split: if_splits)
  have inp: "if i = st_player s then st_input s \<noteq> None \<and> inp = None else inp = st_input s"
    using plan(2,3) pl nowait 1(5) by (auto simp: plan_def split: option.splits)
  have "b' = ?b \<and> e' = e \<or> (getStatus ?b (pos e + d) = Free \<and> b' = moved ?b i e (pos e + d) \<and>
      e' = e\<lparr>pos := pos e + d\<rparr>)"
    using acteq 1(3,6,8) by (auto simp: d(1) split: if_splits)
  then show ?thesis
  proof
    assume "b' = ?b \<and> e' = e"
    with 1 r inp state_okD [OF ok] show ?thesis
      by (intro that [of e b' e' inp rng]) (auto simp: lenWalking_def)
  next
    assume *: "getStatus ?b (pos e + d) = Free \<and> b' = moved ?b i e (pos e + d) \<and> e' = e\<lparr>pos := pos e + d\<rparr>"
    with moved_ok [OF state_okD(1,2) [OF ok] i 1(3)] 1 r inp d show ?thesis
      by (intro that [of e b' e' inp rng]) auto
  qed
qed

lemma turn_event_ok:
  assumes ok: "state_ok s" and die: "die_ok roll" and ev: "turn_event roll s ev s'"
  shows "state_ok s'"
proof (cases ev)
  case (Advanced i)
  with ok ev obtain e where e: "getActiveEntity (st_board s) = Inr i" "store (st_board s) i = Some e"
    "s' = s\<lparr>st_board := (st_board s)\<lparr>store := (store (st_board s))(i \<mapsto> charge e),
       m_entityIndex := Suc (m_entityIndex (st_board s)) mod length (m_entities (st_board s))\<rparr>\<rparr>"
    by (auto elim: advanced_effect)
  note adv = advanceEntity_ok [OF state_okD(1) [OF ok] e(1,2)]
  have "entity_ok (st_board s) (st_player s) i (charge e)"
    using state_ok_entity [OF ok _ e(2)] e(1) by (auto simp: entity_ok_def charge_ok dest: getActiveEntity_Inr)
  with state_ok_update [OF ok adv(2) advanceEntity_visions_ok [OF state_okD(2) [OF ok] adv(1)],
      of i "charge e" "st_input s" "st_rng s"] state_okD(4) [OF ok]
  show ?thesis by (simp add: e(3))
next
  case (Acted i)
  with ok die ev obtain e e' b' inp rng where *: "getActiveEntity (st_board s) = Inr i"
    "store (st_board s) i = Some e" "turnReady e" "board_ok b'" "visions_ok b'"
    "m_entities b' = m_entities (st_board s)" "m_map b' = m_map (st_board s)"
    "store b' = (store (st_board s))(i \<mapsto> e')" "e' = e\<lparr>pos := pos e'\<rparr>"
    "pos e' = pos e \<or> getStatus (st_board s) (pos e') = Free"
    "if i = st_player s then st_input s \<noteq> None \<and> inp = None else inp = st_input s"
    "s' = s\<lparr>st_board := b'\<lparr>store := (store (st_board s))(i \<mapsto> wait e' 0 1)\<rparr>, st_input := inp, st_rng := rng\<rparr>"
    by (auto elim: acted_effect)
  have e: "entity_ok (st_board s) (st_player s) i e"
    using state_ok_entity [OF ok _ *(2)] *(1) by (auto dest: getActiveEntity_Inr)
  have e': "timers_ok e'" "turnReady e'" "removed e' = removed e" "player e' = player e"
    using e *(3) by (subst *(9); simp add: entity_ok_def)+
  have "entity_ok (st_board s) (st_player s) i (wait e' 0 1)"
    using e e' *(10) wait_one [OF e'(1,2)] by (auto simp: entity_ok_def getStatus_Free_iff)
  moreover have "input_ok inp" using *(11) state_okD(4) [OF ok] by (auto simp: input_ok_def split: if_splits)
  moreover have "store b' i = Some e'" by (simp add: *(8))
  then have "board_ok (b'\<lparr>store := (store b')(i \<mapsto> wait e' 0 1)\<rparr>)" "visions_ok (b'\<lparr>store := (store b')(i \<mapsto> wait e' 0 1)\<rparr>)"
    using *(4,5) by (auto intro: board_ok_store_update store_update_visions_ok)
  ultimately show ?thesis
    unfolding *(12) by (intro state_ok_update [OF ok]) (auto simp: *(6-8))
qed

lemma turn_stop_effect:
  assumes ok: "state_ok s" and st: "turn_stop roll s s'"
  shows "s' = s\<lparr>st_input := None\<rparr>" "getActiveEntity (st_board s) = Inr (st_player s)"
    "\<exists>e. store (st_board s) (st_player s) = Some e \<and> turnReady e" "state_ok s'"
proof -
  from st obtain e a inp rng r b' where
    *: "getActiveEntity (st_board s) = Inr (st_player s)" "store (st_board s) (st_player s) = Some e"
      "turnReady e" "plan roll e (st_input s) (st_rng s) = Inr (a, inp, rng)"
      "act (st_board s) (st_player s) a = Inr (r, b')" "\<not> success r"
      "s' = s\<lparr>st_board := b', st_input := inp, st_rng := rng\<rparr>"
    by (auto elim: turn_stop.cases)
  have "player e" using state_ok_entity [OF ok state_okD(3) [OF ok] *(2)] by (simp add: entity_ok_def)
  with *(4) have "inp = None" "rng = st_rng s" by (auto simp: plan_def split: option.splits)
  moreover have "b' = st_board s"
    using act_eq [OF state_okD(1,3) [OF ok] *(2), of a] *(5,6) by (auto split: action.splits if_splits)
  ultimately show "s' = s\<lparr>st_input := None\<rparr>" using *(7) by simp
  then show "state_ok s'" using ok by (simp add: state_ok_def input_ok_def)
qed (use st in \<open>auto elim: turn_stop.cases\<close>)

lemma turn_progress:
  assumes ok: "state_ok s" and die: "die_ok roll"
  shows "(\<exists>s'. turn_stop roll s s') \<or> (\<exists>ev s'. turn_event roll s ev s')"
proof -
  from ok obtain i e where ie: "getActiveEntity (st_board s) = Inr i" "i \<in> set (m_entities (st_board s))"
    "store (st_board s) i = Some e" by (rule state_ok_active)
  show ?thesis
  proof (cases "turnReady e")
    case True
    obtain a inp rng where plan: "plan roll e (st_input s) (st_rng s) = Inr (a, inp, rng)"
      using plan_ok [OF die state_okD(4) [OF ok]] by blast
    obtain r b' where act: "act (st_board s) i a = Inr (r, b')"
      using act_eq [OF state_okD(1) [OF ok] ie(2,3)] by fastforce
    have "\<exists>e'. store b' i = Some e'"
      using act act_eq [OF state_okD(1) [OF ok] ie(2,3), of a] ie(3) by (auto split: action.splits if_splits)
    then show ?thesis
      using ie True plan act acted [of s i e roll] turn_stop.intros [of s e roll] by blast
  next
    case False
    then show ?thesis
      using advanceEntity_ok(1) [OF state_okD(1) [OF ok] ie(1,3)] advanced [OF ie(1,3)] by blast
  qed
qed

section \<open>The turn loop ends\<close>

definition slot :: "eid list \<Rightarrow> eid \<Rightarrow> nat" where
  "slot es i = length (takeWhile (\<lambda>j. j \<noteq> i) es)"

lemma slot_nth: "i \<in> set es \<Longrightarrow> slot es i < length es \<and> es ! slot es i = i"
  unfolding slot_def by (induction es) auto

lemma slot_of_nth: "distinct es \<Longrightarrow> k < length es \<Longrightarrow> slot es (es ! k) = k"
  by (metis nth_eq_iff_index_eq nth_mem slot_nth)

text \<open>How many places the turn index \<open>k\<close> is before \<open>q\<close>, going round.\<close>

definition ahead :: "nat \<Rightarrow> nat \<Rightarrow> nat \<Rightarrow> nat" where
  "ahead n k q = (q + n - k) mod n"

lemma ahead_less:
  assumes "k < n" "q < n"
  shows "ahead n k q = (if k \<le> q then q - k else q + n - k)"
proof (cases "k \<le> q")
  case True
  then have "q + n - k = (q - k) + n" using assms by simp
  then have "ahead n k q = (q - k) mod n" unfolding ahead_def by (metis mod_add_self2)
  then show ?thesis using True assms by simp
qed (use assms in \<open>simp add: ahead_def\<close>)

lemma ahead_Suc:
  assumes "k < n" "q < n" "k \<noteq> q"
  shows "ahead n (Suc k mod n) q < ahead n k q"
proof -
  have "Suc k mod n = (if Suc k = n then 0 else Suc k)" using assms by (simp add: mod_Suc)
  moreover have "0 < n" using assms by simp
  ultimately show ?thesis
    using assms ahead_less [of k n q] ahead_less [of 0 n q] ahead_less [of "Suc k" n q]
    by (auto split: if_splits)
qed

definition player_timer :: "'g state \<Rightarrow> int" where
  "player_timer s = turn_timer (the (store (st_board s) (st_player s)))"

definition loop_order :: "('g state \<times> 'g state) set" where
  "loop_order = measures
     [\<lambda>s. if st_input s = None then 0 else 1,
      \<lambda>s. nat (player_timer s),
      \<lambda>s. ahead (length (m_entities (st_board s))) (m_entityIndex (st_board s))
             (slot (m_entities (st_board s)) (st_player s)),
      \<lambda>s. case getActiveEntity (st_board s) of Inl _ \<Rightarrow> 0
          | Inr i \<Rightarrow> if turnReady (the (store (st_board s) i)) then 1 else 0]"

lemma turn_event_decreases:
  assumes ok: "state_ok s" and die: "die_ok roll" and ev: "turn_event roll s ev s'"
  shows "(s', s) \<in> loop_order"
proof (cases ev)
  case (Advanced i)
  with ok ev obtain e where e: "getActiveEntity (st_board s) = Inr i" "store (st_board s) i = Some e"
    "0 < turn_timer e"
    "s' = s\<lparr>st_board := (st_board s)\<lparr>store := (store (st_board s))(i \<mapsto> charge e),
       m_entityIndex := Suc (m_entityIndex (st_board s)) mod length (m_entities (st_board s))\<rparr>\<rparr>"
    by (auto elim: advanced_effect)
  let ?es = "m_entities (st_board s)" and ?k = "m_entityIndex (st_board s)"
  note act = getActiveEntity_Inr [OF e(1)]
  show ?thesis
  proof (cases "i = st_player s")
    case True
    have "timers_ok e" using state_ok_entity [OF ok _ e(2)] act by (simp add: entity_ok_def)
    then have "nat (player_timer s') < nat (player_timer s)"
      using True e by (simp add: player_timer_def timers_ok_def)
    then show ?thesis by (simp add: loop_order_def e(4))
  next
    case False
    have "?k \<noteq> slot ?es (st_player s)"
      using False act slot_nth [OF state_okD(3) [OF ok]] by auto
    with act slot_nth [OF state_okD(3) [OF ok]]
    have "ahead (length ?es) (Suc ?k mod length ?es) (slot ?es (st_player s)) <
        ahead (length ?es) ?k (slot ?es (st_player s))" by (intro ahead_Suc) auto
    moreover have "player_timer s' = player_timer s" using False by (simp add: player_timer_def e(4))
    ultimately show ?thesis unfolding loop_order_def by (simp add: e(4))
  qed
next
  case (Acted i)
  with ev have "turn_event roll s (Acted i) s'" by simp
  then obtain e e' b' inp rng where *: "getActiveEntity (st_board s) = Inr i"
    "store (st_board s) i = Some e" "turnReady e" "m_entities b' = m_entities (st_board s)"
    "m_entityIndex b' = m_entityIndex (st_board s)" "e' = e\<lparr>pos := pos e'\<rparr>"
    "if i = st_player s then st_input s \<noteq> None \<and> inp = None else inp = st_input s"
    "s' = s\<lparr>st_board := b'\<lparr>store := (store (st_board s))(i \<mapsto> wait e' 0 1)\<rparr>, st_input := inp, st_rng := rng\<rparr>"
    by (rule acted_effect [OF ok die]) (rule that)
  show ?thesis
  proof (cases "i = st_player s")
    case True
    with *(7) have "st_input s \<noteq> None" "st_input s' = None" by (auto simp: *(8))
    then show ?thesis by (auto simp: loop_order_def)
  next
    case False
    have "timers_ok e" using state_ok_entity [OF ok _ *(2)] *(1) by (auto simp: entity_ok_def dest: getActiveEntity_Inr)
    then have "timers_ok e'" "turnReady e'" using *(3) by (subst *(6); simp)+
    then have "\<not> turnReady (wait e' 0 1)" by (rule wait_one)
    moreover have "player_timer s' = player_timer s" using False *(7) by (simp add: player_timer_def *(8))
    moreover have "getActiveEntity (st_board s') = Inr i"
      using *(1,4,5) by (simp add: *(8) getActiveEntity_def)
    ultimately show ?thesis using False * by (simp add: loop_order_def)
  qed
qed

interpretation turns: progressing_steps "turn_event roll" "\<lambda>s. die_ok roll \<and> state_ok s"
    "turn_stop roll" loop_order for roll
proof unfold_locales
  show "wf (loop_order :: ('a state \<times> 'a state) set)" by (simp add: loop_order_def)
qed (use turn_progress in \<open>blast intro: turn_event_ok turn_event_decreases\<close>)+

lemma turn_loop_run:
  assumes "run (turn_event roll) s es s1" "turn_stop roll s1 s2" "state_ok s" "die_ok roll"
  shows "turn_loop roll s = Some (Inr s2)"
  using assms
proof (induction rule: run.induct)
  case (run_nil s)
  obtain e where "store (st_board s) (st_player s) = Some e" "\<not> removed e"
    using state_okD(1,3) [OF run_nil(2)] state_ok_entity [OF run_nil(2)]
    by (auto simp: board_ok_def entity_ok_def elim!: index_ok_entity)
  then show ?case
    using run_nil turn_step_stop_iff [of roll s s2] by (subst turn_loop.simps) simp
next
  case (run_cons s ev s' es s'')
  obtain e where "store (st_board s) (st_player s) = Some e" "\<not> removed e"
    using state_okD(1,3) [OF run_cons(5)] state_ok_entity [OF run_cons(5)]
    by (auto simp: board_ok_def entity_ok_def elim!: index_ok_entity)
  moreover have "turn_step roll s = Inr (True, s')"
    using run_cons.hyps(1) by (auto simp: turn_step_continue_iff)
  ultimately show ?case
    using run_cons turn_event_ok [of s roll ev s'] by (subst turn_loop.simps) simp
qed

end
