(* ===== verification/Turns.thy ===== *)
theory Turns
  imports Game
begin

text \<open>
  What the turn loop of \<^verbatim>\<open>updateState\<close> does between two requests for a key: who is charged how
  often, how many turns an entity of a given speed gets, how far it can move, and where the player
  ends up. The facts about runs come from the interfaces of \<open>Runs\<close>, interpreted on \<open>turn_event\<close>.
\<close>

section \<open>One event\<close>

definition ent :: "'g state \<Rightarrow> eid \<Rightarrow> entity" where
  "ent s i = the (store (st_board s) i)"

definition ents :: "'g state \<Rightarrow> eid list" where
  "ents s = m_entities (st_board s)"

lemma state_ok_ent:
  assumes "state_ok s" "i \<in> set (ents s)"
  shows "store (st_board s) i = Some (ent s i)" "entity_ok (st_board s) (st_player s) i (ent s i)"
proof -
  have "i \<in> set (m_entities (st_board s))" using assms(2) by (simp add: ents_def)
  with state_okD(1) [OF assms(1)] obtain e where "store (st_board s) i = Some e"
    by (auto simp: board_ok_def elim: index_ok_entity)
  then show "store (st_board s) i = Some (ent s i)" "entity_ok (st_board s) (st_player s) i (ent s i)"
    using state_ok_entity [OF assms(1)] assms(2) by (auto simp: ent_def ents_def)
qed

text \<open>What an event leaves alone, and what it does to the timers, positions and the turn index.\<close>

definition event_frame :: "'g state \<Rightarrow> event \<Rightarrow> 'g state \<Rightarrow> bool" where
  "event_frame s ev s' \<longleftrightarrow>
     ents s' = ents s \<and> st_player s' = st_player s \<and> m_map (st_board s') = m_map (st_board s) \<and>
     (\<forall>j. charge_of (ent s' j) = charge_of (ent s j)) \<and>
     (\<forall>j. entity_glyph (ent s' j) = entity_glyph (ent s j)) \<and>
     (\<forall>j. turn_timer (ent s' j) = turn_timer (ent s j) + (if ev = Acted j then kTurnTimer else 0) -
        (if ev = Advanced j then charge_of (ent s j) else 0)) \<and>
     (\<forall>j. lenWalking (pos (ent s' j) - pos (ent s j)) \<le> (if ev = Acted j then 1 else 0)) \<and>
     m_entityIndex (st_board s') = (case ev of Acted _ \<Rightarrow> m_entityIndex (st_board s)
       | Advanced _ \<Rightarrow> Suc (m_entityIndex (st_board s)) mod length (ents s)) \<and>
     (case ev of Acted i \<Rightarrow> turnReady (ent s i) \<and> getActiveEntity (st_board s) = Inr i
       | Advanced i \<Rightarrow> \<not> turnReady (ent s i) \<and> getActiveEntity (st_board s) = Inr i) \<and>
     (if st_input s' = None then 0 else 1) = (if st_input s = None then 0 else 1::int) -
       (if ev = Acted (st_player s) then 1 else 0)"

lemma lenWalking_0 [simp]: "lenWalking 0 = 0"
  by (simp add: lenWalking_def)

lemma turn_event_frame:
  assumes ok: "state_ok s" and die: "die_ok roll" and ev: "turn_event roll s ev s'"
  shows "event_frame s ev s'"
proof (cases ev)
  case (Advanced i)
  with ok ev obtain e where e: "getActiveEntity (st_board s) = Inr i" "store (st_board s) i = Some e"
    "0 < turn_timer e"
    "s' = s\<lparr>st_board := (st_board s)\<lparr>store := (store (st_board s))(i \<mapsto> charge e),
       m_entityIndex := Suc (m_entityIndex (st_board s)) mod length (m_entities (st_board s))\<rparr>\<rparr>"
    by (auto elim: advanced_effect)
  then have "ent s' j = (if j = i then charge (ent s i) else ent s j)" "ent s i = e" for j
    by (auto simp: ent_def)
  with e show ?thesis
    by (auto simp: event_frame_def Advanced ents_def turnReady_def)
next
  case (Acted i)
  with ev have "turn_event roll s (Acted i) s'" by simp
  then obtain e e' b' inp rng where *: "getActiveEntity (st_board s) = Inr i"
    "store (st_board s) i = Some e" "turnReady e" "m_entities b' = m_entities (st_board s)"
    "m_entityIndex b' = m_entityIndex (st_board s)" "m_map b' = m_map (st_board s)" "e' = e\<lparr>pos := pos e'\<rparr>"
    "lenWalking (pos e' - pos e) \<le> 1"
    "if i = st_player s then st_input s \<noteq> None \<and> inp = None else inp = st_input s"
    "s' = s\<lparr>st_board := b'\<lparr>store := (store (st_board s))(i \<mapsto> wait e' 0 1)\<rparr>, st_input := inp, st_rng := rng\<rparr>"
    by (rule acted_effect [OF ok die]) (rule that)
  have ent: "ent s' j = (if j = i then wait e' 0 1 else ent s j)" "ent s i = e" for j
    using * by (auto simp: ent_def)
  have e': "charge_of e' = charge_of e" "turn_timer e' = turn_timer e" "entity_glyph e' = entity_glyph e"
    by (subst *(7); simp)+
  have frame: "ents s' = ents s" "st_player s' = st_player s" "m_map (st_board s') = m_map (st_board s)"
    "m_entityIndex (st_board s') = m_entityIndex (st_board s)" "st_input s' = inp"
    using *(4-6) by (simp_all add: *(10) ents_def)
  have "turn_timer (wait e' 0 1) = turn_timer e + kTurnTimer"
    using e'(2) by (simp add: wait_def kTurnTimer_def)
  then show ?thesis
    using *(1,3,8,9) e'(1,3) ent frame by (auto simp: event_frame_def Acted)
qed

section \<open>Runs\<close>

text \<open>Invariant of a run that started in a state with entities \<open>es\<close>, player \<open>pl\<close> and charges \<open>cg\<close>.\<close>

definition run_ok :: "'g roll \<Rightarrow> eid list \<Rightarrow> eid \<Rightarrow> (eid \<Rightarrow> int) \<Rightarrow> 'g state \<Rightarrow> bool" where
  "run_ok roll es pl cg s \<longleftrightarrow> die_ok roll \<and> state_ok s \<and> ents s = es \<and> st_player s = pl \<and>
     (\<forall>i. charge_of (ent s i) = cg i)"

lemma run_ok_step: "run_ok roll es pl cg s \<Longrightarrow> turn_event roll s ev s' \<Longrightarrow> run_ok roll es pl cg s'"
  using turn_event_ok [of s roll ev s'] turn_event_frame [of s roll ev s']
  by (auto simp: run_ok_def event_frame_def)

lemma run_ok_frame: "run_ok roll es pl cg s \<Longrightarrow> turn_event roll s ev s' \<Longrightarrow> event_frame s ev s'"
  using turn_event_frame [of s roll ev s'] by (simp add: run_ok_def)

definition timer_cost :: "(eid \<Rightarrow> int) \<Rightarrow> eid \<Rightarrow> event \<Rightarrow> int" where
  "timer_cost cg i ev = (if ev = Acted i then kTurnTimer else 0) - (if ev = Advanced i then cg i else 0)"

interpretation timer: accounted_steps "turn_event roll" "run_ok roll es pl cg"
    "\<lambda>s. turn_timer (ent s i)" "timer_cost cg i" for roll es pl cg i
proof unfold_locales
  fix s ev s' assume *: "run_ok roll es pl cg s" "turn_event roll s ev s'"
  then show "run_ok roll es pl cg s'" by (rule run_ok_step)
  from * have "event_frame s ev s'" "charge_of (ent s i) = cg i"
    by (rule run_ok_frame) (use * in \<open>simp add: run_ok_def\<close>)
  then show "turn_timer (ent s' i) = turn_timer (ent s i) + timer_cost cg i ev"
    by (simp add: event_frame_def timer_cost_def)
qed

interpretation inputs: accounted_steps "turn_event roll" "run_ok roll es pl cg"
    "\<lambda>s. if st_input s = None then 0 else 1" "\<lambda>ev. if ev = Acted pl then -1 else 0" for roll es pl cg
proof unfold_locales
  fix s ev s' assume *: "run_ok roll es pl cg s" "turn_event roll s ev s'"
  from * have "event_frame s ev s'" "st_player s = pl"
    by (rule run_ok_frame) (use * in \<open>simp add: run_ok_def\<close>)
  then show "(if st_input s' = None then 0 else 1) = (if st_input s = None then 0 else 1) +
      (if ev = Acted pl then -1 else 0 :: int)" by (simp add: event_frame_def)
qed

lemma lenWalking_triangle: "lenWalking (p - r) \<le> lenWalking (p - q) + lenWalking (q - r)"
proof -
  have max: "max a b \<le> max c d + max e f" if "a \<le> c + e" "b \<le> d + f" for a b c d e f :: int
    using that by linarith
  show ?thesis
    unfolding lenWalking_def px_minus
    using abs_triangle_ineq [of "px p - px q" "px q - px r"]
      abs_triangle_ineq [of "py p - py q" "py q - py r"]
    by (intro max) simp_all
qed

interpretation walk: drifting_steps "turn_event roll" "run_ok roll es pl cg"
    "\<lambda>s s'. lenWalking (pos (ent s' i) - pos (ent s i))" "\<lambda>ev. if ev = Acted i then 1 else 0"
    for roll es pl cg i
proof unfold_locales
  fix s ev s' assume "run_ok roll es pl cg s" "turn_event roll s ev s'"
  then have "event_frame s ev s'" by (rule run_ok_frame)
  then show "lenWalking (pos (ent s' i) - pos (ent s i)) \<le> (if ev = Acted i then 1 else 0)"
    unfolding event_frame_def by blast
next
  fix s s' s'' :: "'a state"
  show "lenWalking (pos (ent s'' i) - pos (ent s i)) \<le>
    lenWalking (pos (ent s' i) - pos (ent s i)) + lenWalking (pos (ent s'' i) - pos (ent s' i))"
    using lenWalking_triangle [of "pos (ent s'' i)" "pos (ent s i)" "pos (ent s' i)"] by simp
qed (auto intro: run_ok_step)

lemma timer_cost_sum:
  "sum_list (map (timer_cost cg i) es) =
     kTurnTimer * int (count_list es (Acted i)) - cg i * int (count_list es (Advanced i))"
  by (induction es) (auto simp: timer_cost_def algebra_simps)

lemmas timer_account = timer.run_account [unfolded timer_cost_sum]
  and input_account = inputs.run_account [unfolded sum_list_count]
  and walk_bound = walk.run_drift [unfolded sum_list_count]

section \<open>Laps\<close>

text \<open>
  Turns go round: counted from the slot \<open>k\<close> where a run starts, every slot has been advanced past
  \<open>m\<close> times, and the slots of the current lap that the index has left once more.
\<close>

lemma ahead_inj:
  assumes "k < n" "p < n" "q < n"
  shows "ahead n k p = ahead n k q \<longleftrightarrow> p = q"
  using assms ahead_less [of k n p] ahead_less [of k n q] by (auto split: if_splits)

lemma ahead_bound: "k < n \<Longrightarrow> q < n \<Longrightarrow> ahead n k q < n"
  by (simp add: ahead_def)

lemma ahead_next:
  assumes "k < n" "q < n"
  shows "ahead n k (Suc q mod n) = (if Suc (ahead n k q) = n then 0 else Suc (ahead n k q))"
proof -
  have *: "Suc q mod n = (if Suc q = n then 0 else Suc q)" using assms by (simp add: mod_Suc)
  show ?thesis
    using assms ahead_less [of k n q] ahead_less [of k n "Suc q"] ahead_less [of k n 0]
    unfolding * by (auto split: if_splits)
qed

lemma lap_counts:
  assumes "run (turn_event roll) s es s'" "state_ok s" "die_ok roll"
  shows "\<exists>m. \<forall>q < length (ents s). count_list es (Advanced (ents s ! q)) =
    m + (if ahead (length (ents s)) (m_entityIndex (st_board s)) q <
          ahead (length (ents s)) (m_entityIndex (st_board s)) (m_entityIndex (st_board s')) then 1 else 0)"
  using assms
proof (induction rule: run_snoc_induct)
  case nil
  then show ?case by (auto simp: ahead_def intro!: exI [of _ 0])
next
  case (snoc es s1 ev s2)
  let ?n = "length (ents s)" and ?k = "m_entityIndex (st_board s)" and ?k1 = "m_entityIndex (st_board s1)"
  obtain m where m: "\<And>q. q < ?n \<Longrightarrow> count_list es (Advanced (ents s ! q)) =
      m + (if ahead ?n ?k q < ahead ?n ?k ?k1 then 1 else 0)"
    using snoc by blast
  have "run_ok roll (ents s) (st_player s) (\<lambda>i. charge_of (ent s i)) s"
    using snoc.prems by (simp add: run_ok_def)
  then have ok1: "run_ok roll (ents s) (st_player s) (\<lambda>i. charge_of (ent s i)) s1"
    by (rule timer.run_inv [OF snoc.hyps(1)])
  then have e1: "ents s1 = ents s" "state_ok s1" by (simp_all add: run_ok_def)
  have fr: "event_frame s1 ev s2" by (rule run_ok_frame [OF ok1 snoc.hyps(2)])
  have k: "?k < ?n"
    using snoc.prems(1) by (auto elim!: state_ok_active dest: getActiveEntity_Inr simp: ents_def)
  have dist: "distinct (ents s)"
    using state_okD(1) [OF snoc.prems(1)] by (simp add: board_ok_def index_ok_def ents_def)
  show ?case
  proof (cases ev)
    case (Acted i)
    then show ?thesis using m fr by (auto simp: event_frame_def intro!: exI [of _ m])
  next
    case (Advanced i)
    then have act: "getActiveEntity (st_board s1) = Inr i" and k2: "m_entityIndex (st_board s2) = Suc ?k1 mod ?n"
      using fr e1 by (auto simp: event_frame_def)
    then have i: "i = ents s ! ?k1" "?k1 < ?n"
      using getActiveEntity_Inr [OF act] e1 by (auto simp: ents_def)
    have cnt: "count_list (es @ [ev]) (Advanced (ents s ! q)) =
        count_list es (Advanced (ents s ! q)) + (if q = ?k1 then 1 else 0)" if "q < ?n" for q
      using that i dist by (simp add: Advanced nth_eq_iff_index_eq)
    show ?thesis
    proof (cases "Suc (ahead ?n ?k ?k1) = ?n")
      case True
      have "count_list (es @ [ev]) (Advanced (ents s ! q)) = Suc m" if q: "q < ?n" for q
        using cnt [OF q] m [OF q] ahead_inj [OF k q i(2)] ahead_bound [OF k q] True by auto
      then show ?thesis using ahead_next [OF k i(2)] True by (auto simp: k2 intro!: exI [of _ "Suc m"])
    next
      case False
      have "count_list (es @ [ev]) (Advanced (ents s ! q)) =
          m + (if ahead ?n ?k q < Suc (ahead ?n ?k ?k1) then 1 else 0)" if q: "q < ?n" for q
        using cnt [OF q] m [OF q] ahead_inj [OF k q i(2)] by auto
      then show ?thesis using ahead_next [OF k i(2)] False by (auto simp: k2 intro!: exI [of _ m])
    qed
  qed
qed

section \<open>One tick of the game\<close>

text \<open>
  Between two ticks the player is to move with its timer at zero, no action is pending, and every
  timer is at most what the last charge left of a turn.
\<close>

definition at_rest :: "'g state \<Rightarrow> bool" where
  "at_rest s \<longleftrightarrow> state_ok s \<and> getActiveEntity (st_board s) = Inr (st_player s) \<and> st_input s = None \<and>
     turn_timer (ent s (st_player s)) = 0 \<and> charge_of (ent s (st_player s)) = 12 \<and>
     (\<forall>i \<in> set (ents s). turn_timer (ent s i) \<le> kTurnTimer - charge_of (ent s i))"

definition paced :: "'g state \<Rightarrow> bool" where
  "paced s \<longleftrightarrow> (\<forall>i \<in> set (ents s). getActiveEntity (st_board s) \<noteq> Inr i \<longrightarrow>
     turn_timer (ent s i) \<le> kTurnTimer - charge_of (ent s i))"

lemma paced_step:
  assumes ok: "run_ok roll es pl cg s" and "paced s" and ev: "turn_event roll s ev s'"
  shows "paced s'"
  unfolding paced_def
proof (intro ballI impI)
  have fr: "event_frame s ev s'" by (rule run_ok_frame [OF ok ev])
  fix i assume i: "i \<in> set (ents s')" "getActiveEntity (st_board s') \<noteq> Inr i"
  then have i': "i \<in> set (ents s)" using fr by (simp add: event_frame_def)
  show "turn_timer (ent s' i) \<le> kTurnTimer - charge_of (ent s' i)"
  proof (cases ev)
    case (Acted j)
    then have "getActiveEntity (st_board s') = Inr j"
      using fr by (simp add: event_frame_def getActiveEntity_def ents_def)
    with Acted i i' fr \<open>paced s\<close> show ?thesis by (auto simp: event_frame_def paced_def)
  next
    case (Advanced j)
    show ?thesis
    proof (cases "i = j")
      case True
      have "timers_ok (ent s i)"
        using state_ok_ent(2) [of s i] i' ok by (simp add: run_ok_def entity_ok_def)
      with True Advanced fr show ?thesis by (simp add: event_frame_def timers_ok_def)
    next
      case False
      with Advanced i' fr \<open>paced s\<close> show ?thesis by (auto simp: event_frame_def paced_def)
    qed
  qed
qed

interpretation pace: invariant_steps "turn_event roll" "\<lambda>s. run_ok roll es pl cg s \<and> paced s"
    for roll es pl cg
  by unfold_locales (blast intro: run_ok_step paced_step)

definition is_dir :: "input \<Rightarrow> bool" where
  "is_dir inp \<longleftrightarrow> key_dir (char_of (unat inp)) \<noteq> None"

lemma key_dir_unit: "key_dir c = Some d \<Longrightarrow> lenWalking d \<le> 1"
  by (auto simp: key_dir_def lenWalking_def split: if_splits)

lemma read_inputs_eq:
  assumes "st_input s = None"
  shows "read_inputs s inputs =
    (case dropWhile (\<lambda>inp. \<not> is_dir inp) inputs of
       [] \<Rightarrow> (s, [])
     | inp # rest \<Rightarrow> (s\<lparr>st_input := Some (MoveAction (the (key_dir (char_of (unat inp)))))\<rparr>, rest))"
proof -
  have pending: "read_inputs (s\<lparr>st_input := Some a\<rparr>) inputs = (s\<lparr>st_input := Some a\<rparr>, inputs)" for a inputs
    by (cases inputs) simp_all
  show ?thesis
    using assms by (induction inputs) (auto simp: processInput_def is_dir_def pending)
qed

lemma ahead_self [simp]: "k < n \<Longrightarrow> ahead n k k = 0"
  by (simp add: ahead_def)

text \<open>The rest of a tick once the player has acted: ten laps, in which everyone else moves.\<close>

lemma laps_after_acting:
  assumes ok: "run_ok roll es pl cg s" and pace: "paced s" and inp: "st_input s = None"
    and act: "getActiveEntity (st_board s) = Inr pl" and t: "turn_timer (ent s pl) = kTurnTimer" "cg pl = 12"
  shows "\<exists>evs s'. run (turn_event roll) s evs s' \<and> turn_loop roll s = Some (Inr s') \<and> at_rest s' \<and>
    run_ok roll es pl cg s' \<and> count_list evs (Acted pl) = 0 \<and>
    (\<forall>i \<in> set es. count_list evs (Advanced i) = 10)"
proof -
  have s: "die_ok roll" "state_ok s" "ents s = es" "st_player s = pl" using ok by (auto simp: run_ok_def)
  then obtain evs s1 s2 where r: "run (turn_event roll) s evs s1" "turn_stop roll s1 s2"
    using turns.run_stops by blast
  have ok1: "run_ok roll es pl cg s1" "paced s1" using pace.run_inv [OF r(1)] ok pace by auto
  then have s1: "state_ok s1" "ents s1 = es" "st_player s1 = pl" "charge_of (ent s1 pl) = cg pl"
    by (auto simp: run_ok_def)
  have none: "count_list evs (Acted pl) = 0" "st_input s1 = None"
    using input_account [OF r(1) ok] inp by (auto split: if_splits)
  note stop = turn_stop_effect [OF s1(1) r(2)]
  have s2: "s2 = s1" using stop(1) none(2) by simp
  have act1: "getActiveEntity (st_board s1) = Inr pl" "turnReady (ent s1 pl)"
    using stop(2,3) s1(3) by (auto simp: ent_def)
  have pl: "pl \<in> set es" using state_okD(3) [OF s(2)] s by (simp add: ents_def)
  have "timers_ok (ent s1 pl)"
    using state_ok_ent(2) [OF s1(1)] s1(2) pl by (simp add: entity_ok_def)
  then have "-12 < turn_timer (ent s1 pl)" "turn_timer (ent s1 pl) \<le> 0"
    using act1(2) s1(4) t(2) by (auto simp: timers_ok_def turnReady_def)
  moreover have "turn_timer (ent s1 pl) = 120 - 12 * int (count_list evs (Advanced pl))"
    using timer_account [OF r(1) ok, of pl] none t by (simp add: kTurnTimer_def)
  ultimately have ten: "count_list evs (Advanced pl) = 10" "turn_timer (ent s1 pl) = 0" by auto
  have k: "m_entityIndex (st_board s) < length es" "es ! m_entityIndex (st_board s) = pl"
    "m_entityIndex (st_board s1) < length es" "es ! m_entityIndex (st_board s1) = pl"
    using getActiveEntity_Inr [OF act] getActiveEntity_Inr [OF act1(1)] s(3) s1(2) by (auto simp: ents_def)
  have "distinct es" using state_okD(1) [OF s(2)] s(3) by (simp add: board_ok_def index_ok_def ents_def)
  with k have same: "m_entityIndex (st_board s1) = m_entityIndex (st_board s)"
    by (metis nth_eq_iff_index_eq)
  obtain m where m: "\<And>q. q < length es \<Longrightarrow> count_list evs (Advanced (es ! q)) = m"
    using lap_counts [OF r(1) s(2,1)] k(1) by (auto simp: same s(3))
  with ten(1) k have "m = 10" by metis
  with m have "\<forall>i \<in> set es. count_list evs (Advanced i) = 10" by (metis in_set_conv_nth)
  moreover have "at_rest s1"
    unfolding at_rest_def
  proof (intro conjI ballI)
    fix i assume "i \<in> set (ents s1)"
    then show "turn_timer (ent s1 i) \<le> kTurnTimer - charge_of (ent s1 i)"
      using ok1(2) act1(1) ten(2) s1(4) t(2) by (cases "i = pl") (auto simp: paced_def kTurnTimer_def)
  qed (use s1 act1 none(2) ten(2) t(2) in auto)
  ultimately show ?thesis
    using r turn_loop_run [OF r(1) r(2) s(2,1)] none(1) ok1(1) by (auto simp: s2)
qed

lemma at_restD:
  assumes "at_rest s"
  shows "state_ok s" "getActiveEntity (st_board s) = Inr (st_player s)" "st_input s = None"
    "store (st_board s) (st_player s) = Some (ent s (st_player s))" "player (ent s (st_player s))"
    "turnReady (ent s (st_player s))" "\<not> removed (ent s (st_player s))"
    "st_player s \<in> set (ents s)"
  using assms state_ok_ent [of s "st_player s"] state_okD(3) [of s]
  by (auto simp: at_rest_def ents_def entity_ok_def turnReady_def)

lemma updateState_at_rest:
  assumes "at_rest s"
  shows "updateState roll s inputs = (let (s1, rest) = read_inputs s inputs
    in map_option (\<lambda>r. rbind r (\<lambda>s'. Inr (s', rest))) (turn_loop roll s1))"
  using at_restD [OF assms]
  by (auto simp: updateState_def Let_def split: option.splits sum.splits prod.splits)

text \<open>Waiting for a key, and bumping into something: the state does not change.\<close>

lemma turn_loop_idle:
  assumes "at_rest s" "die_ok roll"
  shows "turn_loop roll s = Some (Inr s)"
proof -
  have "turn_stop roll s (s\<lparr>st_board := st_board s, st_input := None, st_rng := st_rng s\<rparr>)"
    using at_restD [OF assms(1)]
    by (intro turn_stop.intros [where a = WaitForInputAction and r = kFailure])
      (auto simp: plan_def act_def)
  moreover have "s\<lparr>st_board := st_board s, st_input := None, st_rng := st_rng s\<rparr> = s"
    using at_restD(3) [OF assms(1)] by simp
  ultimately show ?thesis using turn_loop_run [OF run_nil _ at_restD(1) [OF assms(1)] assms(2)] by simp
qed

lemma turn_loop_bump:
  assumes "at_rest s" "die_ok roll" "lenWalking d \<le> 1" "d \<noteq> 0"
    "getStatus (st_board s) (pos (ent s (st_player s)) + d) \<noteq> Free"
  shows "turn_loop roll (s\<lparr>st_input := Some (MoveAction d)\<rparr>) = Some (Inr s)"
proof -
  let ?s = "s\<lparr>st_input := Some (MoveAction d)\<rparr>"
  note r = at_restD [OF assms(1)]
  have ok: "state_ok ?s" using r(1) assms(3) by (simp add: state_ok_def input_ok_def)
  have "turn_stop roll ?s (?s\<lparr>st_board := st_board s, st_input := None, st_rng := st_rng s\<rparr>)"
    using r assms(4,5) by (intro turn_stop.intros [where a = "MoveAction d" and r = kFailure])
      (auto simp: plan_def act_def Let_def)
  moreover have "?s\<lparr>st_board := st_board s, st_input := None, st_rng := st_rng s\<rparr> = s"
    using r(3) by simp
  ultimately show ?thesis using turn_loop_run [OF run_nil _ ok assms(2)] by metis
qed

text \<open>What is drawn of the tiles and of the entities never changes during a run.\<close>

definition looks :: "tile matrix \<Rightarrow> (eid \<Rightarrow> glyph) \<Rightarrow> 'g state \<Rightarrow> bool" where
  "looks m gl s \<longleftrightarrow> m_map (st_board s) = m \<and> (\<forall>i. entity_glyph (ent s i) = gl i)"

interpretation looks: invariant_steps "turn_event roll" "\<lambda>s. run_ok roll es pl cg s \<and> looks m gl s"
    for roll es pl cg m gl
proof unfold_locales
  fix s ev s' assume *: "run_ok roll es pl cg s \<and> looks m gl s" "turn_event roll s ev s'"
  from * have "event_frame s ev s'" by (blast intro: run_ok_frame)
  with * show "run_ok roll es pl cg s' \<and> looks m gl s'"
    by (auto simp: event_frame_def looks_def intro: run_ok_step)
qed

text \<open>
  A tick in which the player acts. Every entity is charged ten times, so one of charge \<open>c\<close> gets
  \<open>k\<close> turns with \<open>120 * k\<close> within 120 of \<open>10 * c\<close>, and moves at most \<open>k\<close> cells.
\<close>

definition tick_of :: "'g state \<Rightarrow> point \<Rightarrow> 'g state \<Rightarrow> bool" where
  "tick_of s d s' \<longleftrightarrow> at_rest s' \<and> st_player s' = st_player s \<and> ents s' = ents s \<and>
     m_map (st_board s') = m_map (st_board s) \<and>
     pos (ent s' (st_player s)) = pos (ent s (st_player s)) + d \<and>
     (\<forall>i \<in> set (ents s). charge_of (ent s' i) = charge_of (ent s i) \<and>
        entity_glyph (ent s' i) = entity_glyph (ent s i) \<and>
        (\<exists>k::nat. \<bar>kTurnTimer * int k - 10 * charge_of (ent s i)\<bar> < kTurnTimer \<and>
           lenWalking (pos (ent s' i) - pos (ent s i)) \<le> int k))"

lemma player_acts:
  assumes rest: "at_rest s" and d: "lenWalking d \<le> 1"
    and free: "d = 0 \<or> getStatus (st_board s) (pos (ent s (st_player s)) + d) = Free"
  defines "s0 \<equiv> s\<lparr>st_input := Some (MoveAction d)\<rparr>"
  shows "\<exists>s1. state_ok s0 \<and> turn_event roll s0 (Acted (st_player s)) s1 \<and> st_input s1 = None \<and>
    getActiveEntity (st_board s1) = Inr (st_player s) \<and>
    pos (ent s1 (st_player s)) = pos (ent s (st_player s)) + d"
proof -
  define pl e where "pl = st_player s" and "e = ent s pl"
  define b' where "b' = (if d = 0 then st_board s else moved (st_board s) pl e (pos e + d))"
  define s1 where "s1 = s0\<lparr>st_board := b'\<lparr>store := (store b')(pl \<mapsto> wait (e\<lparr>pos := pos e + d\<rparr>) 0 1)\<rparr>,
      st_input := None, st_rng := st_rng s0\<rparr>"
  note r = at_restD [OF rest, folded pl_def, folded e_def]
  have "act (st_board s) pl (MoveAction d) = Inr (kSuccess, b')"
    using act_eq [OF state_okD(1) [OF r(1)] _ r(4), of "MoveAction d"] r(8) free
    by (auto simp: b'_def ents_def pl_def e_def)
  moreover have "store b' pl = Some (e\<lparr>pos := pos e + d\<rparr>)" using r(4) by (simp add: b'_def)
  ultimately have "turn_event roll s0 (Acted pl) s1"
    unfolding s1_def using r acted [of s0 pl e roll "MoveAction d" None "st_rng s0" kSuccess b' "e\<lparr>pos := pos e + d\<rparr>"]
    by (simp add: s0_def plan_def)
  moreover have "ent s1 pl = wait (e\<lparr>pos := pos e + d\<rparr>) 0 1" by (simp add: ent_def s1_def)
  moreover have "getActiveEntity (st_board s1) = Inr pl"
    using r(2) by (simp add: s1_def b'_def getActiveEntity_def)
  moreover have "state_ok s0" using r(1) d by (simp add: s0_def state_ok_def input_ok_def)
  ultimately show ?thesis by (auto simp: s1_def pl_def e_def)
qed

lemma turn_loop_move:
  assumes rest: "at_rest s" and die: "die_ok roll" and d: "lenWalking d \<le> 1"
    and free: "d = 0 \<or> getStatus (st_board s) (pos (ent s (st_player s)) + d) = Free"
  shows "\<exists>s'. turn_loop roll (s\<lparr>st_input := Some (MoveAction d)\<rparr>) = Some (Inr s') \<and> tick_of s d s'"
proof -
  define s0 pl cg where "s0 = s\<lparr>st_input := Some (MoveAction d)\<rparr>" and "pl = st_player s"
    and "cg i = charge_of (ent s i)" for i
  obtain s1 where ok0: "state_ok s0" and ev: "turn_event roll s0 (Acted pl) s1" and s1: "st_input s1 = None"
    "getActiveEntity (st_board s1) = Inr pl" "pos (ent s1 pl) = pos (ent s pl) + d"
    using player_acts [OF rest d free] by (auto simp: s0_def pl_def)
  have ent0: "ent s0 i = ent s i" for i by (simp add: ent_def s0_def)
  have run0: "run_ok roll (ents s) pl cg s0"
    using ok0 die by (simp add: run_ok_def ent0 cg_def) (simp add: s0_def ents_def pl_def)
  have "paced s0" using rest ent0 by (simp add: paced_def at_rest_def s0_def ents_def)
  then have ok1: "run_ok roll (ents s) pl cg s1" "paced s1"
    using run_ok_step [OF run0 ev] paced_step [OF run0 _ ev] by auto
  have "turn_timer (ent s1 pl) = kTurnTimer" "cg pl = 12"
    using run_ok_frame [OF run0 ev] rest by (simp_all add: event_frame_def ent0 at_rest_def pl_def cg_def)
  then obtain evs s' where *: "run (turn_event roll) s1 evs s'" "turn_loop roll s1 = Some (Inr s')"
    "at_rest s'" "run_ok roll (ents s) pl cg s'" "count_list evs (Acted pl) = 0"
    "\<And>i. i \<in> set (ents s) \<Longrightarrow> count_list evs (Advanced i) = 10"
    using laps_after_acting [OF ok1 s1(1,2)] by auto
  have all: "run (turn_event roll) s0 (Acted pl # evs) s'" by (rule run_cons [OF ev *(1)])
  have "turn_step roll s0 = Inr (True, s1)" using ev by (auto simp: turn_step_continue_iff)
  then have loop: "turn_loop roll s0 = Some (Inr s')"
    using at_restD [OF rest] *(2) by (subst turn_loop.simps) (simp add: s0_def)
  have "lenWalking (pos (ent s' pl) - pos (ent s1 pl)) = 0"
    using walk_bound [OF *(1) ok1(1), of pl] *(5) by (simp add: order_antisym)
  then have "pos (ent s' pl) = pos (ent s pl) + d"
    unfolding lenWalking_eq_0_iff by (simp add: s1(3))
  moreover have "looks (m_map (st_board s)) (\<lambda>i. entity_glyph (ent s i)) s0"
    by (simp add: looks_def ent0) (simp add: s0_def)
  then have "looks (m_map (st_board s)) (\<lambda>i. entity_glyph (ent s i)) s'"
    using looks.run_inv [OF all, of "ents s" pl cg] run0 by blast
  moreover have "\<exists>k::nat. \<bar>kTurnTimer * int k - 10 * charge_of (ent s i)\<bar> < kTurnTimer \<and>
      lenWalking (pos (ent s' i) - pos (ent s i)) \<le> int k" if i: "i \<in> set (ents s)" for i
  proof (intro exI conjI)
    let ?k = "count_list (Acted pl # evs) (Acted i)"
    have "turn_timer (ent s' i) = turn_timer (ent s i) + kTurnTimer * int ?k - 10 * cg i"
      using timer_account [OF all run0, of i] *(6) [OF i] by (simp add: ent0)
    moreover have "- cg i < turn_timer (ent s i)" "turn_timer (ent s i) \<le> kTurnTimer - cg i"
      using rest i state_ok_ent(2) [of s i] by (auto simp: at_rest_def cg_def entity_ok_def timers_ok_def)
    moreover have "- cg i < turn_timer (ent s' i)" "turn_timer (ent s' i) \<le> kTurnTimer - cg i"
      using *(3,4) i state_ok_ent(2) [of s' i] by (auto simp: at_rest_def run_ok_def entity_ok_def timers_ok_def)
    ultimately show "\<bar>kTurnTimer * int ?k - 10 * charge_of (ent s i)\<bar> < kTurnTimer"
      unfolding cg_def by linarith
    show "lenWalking (pos (ent s' i) - pos (ent s i)) \<le> int ?k"
      using walk_bound [OF all run0, of i] by (simp add: ent0)
  qed
  ultimately have "tick_of s d s'"
    using *(3,4) by (simp add: tick_of_def looks_def run_ok_def pl_def cg_def)
  with loop show ?thesis by (auto simp: s0_def)
qed

text \<open>
  The whole of \<open>updateState\<close>: keys up to the first direction key are consumed; without one, or when
  the player bumps into something, nothing else happens; otherwise a tick passes.
\<close>

definition tick_outcome :: "'g state \<Rightarrow> input list \<Rightarrow> 'g state \<Rightarrow> input list \<Rightarrow> bool" where
  "tick_outcome s inputs s' inputs' \<longleftrightarrow>
     (case dropWhile (\<lambda>inp. \<not> is_dir inp) inputs of
        [] \<Rightarrow> s' = s \<and> inputs' = []
      | inp # rest \<Rightarrow>
          let d = the (key_dir (char_of (unat inp)))
          in inputs' = rest \<and>
             (if d = 0 \<or> getStatus (st_board s) (pos (ent s (st_player s)) + d) = Free
              then tick_of s d s' else s' = s))"

lemma updateState_outcome:
  assumes rest: "at_rest s" and die: "die_ok roll"
  shows "\<exists>s' inputs'. updateState roll s inputs = Some (Inr (s', inputs')) \<and> at_rest s' \<and>
    tick_outcome s inputs s' inputs'"
proof (cases "dropWhile (\<lambda>inp. \<not> is_dir inp) inputs")
  case Nil
  have "updateState roll s inputs = Some (Inr (s, []))"
    using turn_loop_idle [OF rest die]
    unfolding updateState_at_rest [OF rest] read_inputs_eq [OF at_restD(3) [OF rest]] Nil by simp
  then show ?thesis using rest unfolding tick_outcome_def Nil by simp
next
  case (Cons inp tl)
  then have "is_dir inp" by (metis hd_dropWhile list.distinct(1) list.sel(1))
  then obtain d where d: "key_dir (char_of (unat inp)) = Some d" by (auto simp: is_dir_def)
  note unit = key_dir_unit [OF d]
  have upd: "updateState roll s inputs = map_option (\<lambda>r. rbind r (\<lambda>s'. Inr (s', tl)))
      (turn_loop roll (s\<lparr>st_input := Some (MoveAction d)\<rparr>))"
    using updateState_at_rest [OF rest, of roll inputs]
    by (simp add: read_inputs_eq [OF at_restD(3) [OF rest]] Cons d)
  show ?thesis
  proof (cases "d = 0 \<or> getStatus (st_board s) (pos (ent s (st_player s)) + d) = Free")
    case True
    then obtain s' where "turn_loop roll (s\<lparr>st_input := Some (MoveAction d)\<rparr>) = Some (Inr s')" "tick_of s d s'"
      using turn_loop_move [OF rest die unit] by blast
    then show ?thesis using True by (auto simp: upd tick_outcome_def Cons d tick_of_def)
  next
    case False
    then show ?thesis
      using turn_loop_bump [OF rest die unit] rest by (auto simp: upd tick_outcome_def Cons d)
  qed
qed

end
