(* ===== verification/Start.thy ===== *)
theory Start
  imports Turns
begin

text \<open>
  The constructor of \<^verbatim>\<open>State\<close>: the loop that draws maps until the player's cell is free, and the
  placement of the player and of up to five Pidgeys. The facts end in \<open>State_at_rest\<close>: the game starts
  in a state from which every tick runs.
\<close>

section \<open>Drawing a map\<close>

lemma setTile_no_entities: "m_entities b = [] \<Longrightarrow> setTile b p t = b\<lparr>m_map := matrix_set (m_map b) p t\<rparr>"
  by (simp add: setTile_def matrix_set_def Let_def)

lemma initBoard_frame:
  assumes "m_entities b = []" "initBoard roll b rng = Inr (b', rng')"
  shows "b' = b\<lparr>m_map := m_map b'\<rparr>"
proof -
  let ?P = "\<lambda>b1. b1 = b\<lparr>m_map := m_map b1\<rparr>"
  have set: "?P (setTile b1 p t)" if "?P b1" for b1 p t
  proof -
    have "m_entities b1 = m_entities (b\<lparr>m_map := m_map b1\<rparr>)" using that by (rule arg_cong)
    then have "setTile b1 p t = b1\<lparr>m_map := matrix_set (m_map b1) p t\<rparr>"
      using assms(1) by (intro setTile_no_entities) simp
    also have "\<dots> = b\<lparr>m_map := matrix_set (m_map b1) p t\<rparr>" by (subst that) simp
    finally show ?thesis by simp
  qed
  show ?thesis
    using assms(2) unfolding initBoard_def
    by (auto simp: res_simps clearAllTiles_eq Let_def split: prod.splits if_splits
        intro!: fold_invariant [where P = ?P] set)
qed

text \<open>What a drawn board depends on: the tiles it replaces do not matter.\<close>

lemma initBoard_again:
  assumes "m_entities b = []" "matrix_wf (m_map b)" "matrix_wf m" "m_size m = m_size (m_map b)"
    "m_init m = m_init (m_map b)"
  shows "initBoard roll (b\<lparr>m_map := m\<rparr>) rng = initBoard roll b rng"
proof -
  have "matrix_fill m t = matrix_fill (m_map b) t" for t
    using assms by (simp add: matrix_fill_def matrix_wf_def)
  then show ?thesis by (simp add: initBoard_def clearAllTiles_eq)
qed

text \<open>A board without entities of the given size, closed by the default tile.\<close>

definition blank_board :: "point \<Rightarrow> board \<Rightarrow> bool" where
  "blank_board sz b \<longleftrightarrow> board_ok b \<and> visions_ok b \<and> m_entities b = [] \<and> m_vision b = Map.empty \<and>
     m_entityAtPos b = Map.empty \<and> m_entityIndex b = 0 \<and>
     m_size (m_map b) = sz \<and> m_init (m_map b) = projr (tileType (CHR ''#''))"

text \<open>The border of the map is blocked; every tile is one of the table's.\<close>

definition border_closed :: "board \<Rightarrow> bool" where
  "border_closed b \<longleftrightarrow> (\<forall>p. on_border (m_size (m_map b)) p \<longrightarrow> blocked_tile (getTile b p))"

definition tiles_known :: "board \<Rightarrow> bool" where
  "tiles_known b \<longleftrightarrow> (\<forall>p. \<exists>c \<in> set ''.\"#''. tileType c = Inr (getTile b p))"

lemma blocked_wall: "blocked_tile (projr (tileType (CHR ''#'')))"
  by (simp add: blocked_tile_def FlagBlocked_def)

lemma initBoard_tiles:
  assumes "blank_board sz b" "0 \<le> px sz" "0 \<le> py sz" "initBoard roll b rng = Inr (b', rng')"
  shows "\<exists>walls rng1 grass. automata roll sz rng = Inr (walls, rng1) \<and> automata roll sz rng1 = Inr (grass, rng') \<and>
    (\<forall>p. matrix_contains (m_map b) p \<longrightarrow> getTile b' p = painted walls grass p) \<and> m_entityAtPos b' = m_entityAtPos b"
proof -
  have "board_ok b" "visions_ok b" "m_vision b = Map.empty" "m_size (m_map b) = sz"
    using assms(1) by (auto simp: blank_board_def)
  from initBoard_ok [OF this assms(2,3), of roll rng] assms(4) show ?thesis by fastforce
qed

lemma blank_board_Board: "0 \<le> px sz \<Longrightarrow> 0 \<le> py sz \<Longrightarrow> \<exists>b. Board sz = Inr b \<and> blank_board sz b"
proof -
  assume "0 \<le> px sz" "0 \<le> py sz"
  then have "0 \<le> px sz * py sz" by simp
  moreover obtain f where f: "FOV kFOVRadius = Inr f"
    using FOV_paths [of kFOVRadius] by (auto simp: kFOVRadius_def)
  ultimately obtain b where b: "Board sz = Inr b"
    by (auto simp: Board_def Matrix_def)
  then have "m_size (m_map b) = sz" "m_init (m_map b) = projr (tileType (CHR ''#''))" "m_entityIndex b = 0"
    "m_entityAtPos b = Map.empty"
    by (auto simp: Board_def res_simps Matrix_Inr_iff)
  then show ?thesis
    using b board_ok_Board [OF b] visions_ok_Board [OF b] by (auto simp: blank_board_def)
qed

lemma initBoard_blank:
  assumes b: "blank_board sz b" and sz: "0 \<le> px sz" "0 \<le> py sz"
  shows "\<exists>b' rng'. initBoard roll b rng = Inr (b', rng') \<and> blank_board sz b' \<and> border_closed b' \<and>
    tiles_known b' \<and> (\<forall>r. initBoard roll b' r = initBoard roll b r)"
proof -
  have b0: "board_ok b" "visions_ok b" "m_entities b = []" "m_vision b = Map.empty"
    "m_entityAtPos b = Map.empty" "m_entityIndex b = 0" "m_size (m_map b) = sz"
    "m_init (m_map b) = projr (tileType (CHR ''#''))" "matrix_wf (m_map b)"
    using b by (auto simp: blank_board_def board_ok_def)
  obtain b' rng' walls grass where *: "initBoard roll b rng = Inr (b', rng')" "board_ok b'" "visions_ok b'"
    "m_entities b' = m_entities b" "m_entityAtPos b' = m_entityAtPos b" "m_vision b' = Map.empty"
    "m_size (m_map b') = sz" "m_init (m_map b') = m_init (m_map b)" "walled sz walls"
    "\<And>p. matrix_contains (m_map b) p \<Longrightarrow> getTile b' p = painted walls grass p"
    using initBoard_ok [OF b0(1,2,4,7) sz, of roll rng] by blast
  have frame: "b' = b\<lparr>m_map := m_map b'\<rparr>" by (rule initBoard_frame [OF b0(3) *(1)])
  have "m_entityIndex b' = m_entityIndex (b\<lparr>m_map := m_map b'\<rparr>)" using frame by (rule arg_cong)
  then have "blank_board sz b'" using * b0 by (simp add: blank_board_def)
  moreover have "border_closed b'"
    unfolding border_closed_def *(7)
  proof (intro allI impI)
    fix p assume p: "on_border sz p"
    then have "matrix_contains (m_map b) p" by (simp add: on_border_def matrix_contains_def b0(7))
    moreover have "matrix_get walls p" using p *(9) by (simp add: walled_def)
    ultimately show "blocked_tile (getTile b' p)" using *(10) blocked_wall by (simp add: painted_def)
  qed
  moreover have "tiles_known b'"
    unfolding tiles_known_def
  proof
    fix p
    show "\<exists>c \<in> set ''.\"#''. tileType c = Inr (getTile b' p)"
    proof (cases "matrix_contains (m_map b) p")
      case True
      then show ?thesis using *(10) by (auto simp: painted_def)
    next
      case False
      then have "getTile b' p = projr (tileType (CHR ''#''))"
        using *(7,8) b0(7,8) by (auto simp: getTile_def matrix_get_def matrix_contains_def)
      then show ?thesis by simp
    qed
  qed
  moreover have "initBoard roll b' r = initBoard roll b r" for r
    by (subst frame, rule initBoard_again [OF b0(3,9)]) (use * b0 in \<open>auto simp: board_ok_def\<close>)
  ultimately show ?thesis using *(1) by blast
qed

text \<open>\<open>draws mt roll clock start b n\<close>: the map drawn from the \<open>n\<close>-th reading leaves the start free.\<close>

definition draws :: "('t \<Rightarrow> 'g) \<Rightarrow> 'g roll \<Rightarrow> (nat \<Rightarrow> 't) \<Rightarrow> point \<Rightarrow> board \<Rightarrow> nat \<Rightarrow> bool" where
  "draws mt roll clock start b n \<longleftrightarrow>
     (\<exists>b' rng'. initBoard roll b (mt (clock n)) = Inr (b', rng') \<and> getStatus b' start = Free)"

lemma gen_board_first:
  assumes "blank_board sz b" "0 \<le> px sz" "0 \<le> py sz" "draws mt roll clock start b n"
    "k \<le> n" "\<And>m. k \<le> m \<Longrightarrow> m < n \<Longrightarrow> \<not> draws mt roll clock start b m"
  shows "gen_board mt roll clock start k b = Some (initBoard roll b (mt (clock n)))"
  using assms(5,1,4,6)
proof (induction arbitrary: b rule: inc_induct)
  case base
  then show ?case by (subst gen_board.simps) (auto simp: draws_def)
next
  case (step k)
  obtain b' rng' where b': "initBoard roll b (mt (clock k)) = Inr (b', rng')" "blank_board sz b'"
    "\<forall>r. initBoard roll b' r = initBoard roll b r"
    using initBoard_blank [OF step.prems(1) assms(2,3), of roll "mt (clock k)"] by blast
  have "\<not> draws mt roll clock start b k" using step by simp
  with b'(1) have "getStatus b' start \<noteq> Free" by (auto simp: draws_def)
  moreover have "gen_board mt roll clock start (Suc k) b' = Some (initBoard roll b' (mt (clock n)))"
    using step.prems b'(2,3) by (intro step.IH) (auto simp: draws_def)
  ultimately show ?case using b'(1,3) by (subst gen_board.simps) simp
qed

text \<open>It returns only what it found: without such a reading the loop runs forever.\<close>

lemma gen_board_only:
  assumes gen: "gen_board (mt :: 't \<Rightarrow> 'g) roll clock start k b = Some r" and "blank_board sz b" "0 \<le> px sz" "0 \<le> py sz"
  shows "\<exists>n \<ge> k. draws mt roll clock start b n"
proof -
  have "blank_board sz b \<longrightarrow> (\<exists>n \<ge> k. draws mt roll clock start b n)"
  proof (rule gen_board.raw_induct [OF _ gen,
        where P = "\<lambda>mt roll clock start k b r. blank_board sz b \<longrightarrow> (\<exists>n \<ge> k. draws mt roll clock start b n)"])
    fix gen and mt :: "'t \<Rightarrow> 'g" and roll clock start k b r
    assume IH: "\<And>mt roll clock start k b r. gen mt roll clock start k b = Some r \<Longrightarrow>
        blank_board sz b \<longrightarrow> (\<exists>n \<ge> k. draws mt roll clock start b n)"
      and body: "(case initBoard roll b (mt (clock k)) of Inl err \<Rightarrow> Some (Inl err)
        | Inr (b', rng) \<Rightarrow> if getStatus b' start = Free then Some (Inr (b', rng))
            else gen mt roll clock start (Suc k) b') = Some r"
    show "blank_board sz b \<longrightarrow> (\<exists>n \<ge> k. draws mt roll clock start b n)"
    proof
      assume b: "blank_board sz b"
      obtain b' rng' where b': "initBoard roll b (mt (clock k)) = Inr (b', rng')" "blank_board sz b'"
        "\<forall>r. initBoard roll b' r = initBoard roll b r"
        using initBoard_blank [OF b assms(3,4), of roll "mt (clock k)"] by blast
      show "\<exists>n \<ge> k. draws mt roll clock start b n"
      proof (cases "getStatus b' start = Free")
        case True
        with b' show ?thesis by (auto simp: draws_def)
      next
        case False
        with body b' have "gen mt roll clock start (Suc k) b' = Some r" by simp
        from IH [OF this] b'(2) obtain n where "Suc k \<le> n" "draws mt roll clock start b' n" by blast
        then show ?thesis using b'(3) by (auto simp: draws_def intro!: exI [of _ n])
      qed
    qed
  qed
  with assms(2) show ?thesis by blast
qed

section \<open>Placing the entities\<close>

text \<open>The initial state under construction: a player and some Pidgeys, all at rest.\<close>

lemma at_rest_add:
  assumes rest: "at_rest s" and free: "getStatus (st_board s) (pos e) = Free"
    and e: "\<not> removed e" "timers_ok e" "\<not> player e" "turn_timer e = 0"
    and al: "alloc (st_board s) e = (i, b1)"
  shows "\<exists>b2. addEntity b1 i = Inr b2 \<and> at_rest (s\<lparr>st_board := b2\<rparr>) \<and> m_map b2 = m_map (st_board s) \<and>
    m_entities b2 = m_entities (st_board s) @ [i] \<and> store b2 = (store (st_board s))(i \<mapsto> e)"
proof -
  note r = at_restD [OF rest]
  have ok: "board_ok (st_board s)" "visions_ok (st_board s)" using state_okD [OF r(1)] by auto
  have emp: "m_entityAtPos (st_board s) (pos e) = None" and open_tile: "\<not> blocked_tile (getTile (st_board s) (pos e))"
    using free by (auto simp: getStatus_Free_iff)
  define b2 where "b2 = b1\<lparr>m_entities := m_entities (st_board s) @ [i],
      m_entityAtPos := (m_entityAtPos (st_board s))(pos e \<mapsto> Some i)\<rparr>"
  note add = alloc_addEntity [OF ok(1) emp al, folded b2_def]
  note vis = addEntity_visions_ok [OF ok(2,1) al add(1)]
  have i: "i = next_id (st_board s)" "b1 = (st_board s)\<lparr>store := (store (st_board s))(i \<mapsto> e), next_id := Suc i\<rparr>"
    using al by (auto simp: alloc_def)
  have new: "i \<notin> set (ents s)" using ok(1) by (auto simp: board_ok_def store_ok_def ents_def i(1))
  have f: "m_entities b2 = ents s @ [i]" "m_map b2 = m_map (st_board s)" "store b2 = (store (st_board s))(i \<mapsto> e)"
    "m_entityIndex b2 = m_entityIndex (st_board s)"
    by (simp_all add: b2_def i(2) ents_def)
  let ?s = "s\<lparr>st_board := b2\<rparr>"
  have ent: "ent ?s j = (if j = i then e else ent s j)" for j by (simp add: ent_def f)
  have pl: "st_player s \<noteq> i" using r(8) new by auto
  have "state_ok ?s"
    unfolding state_ok_def
  proof (intro conjI allI impI)
    fix j e' assume j: "j \<in> set (m_entities (st_board ?s))" "store (st_board ?s) j = Some e'"
    show "entity_ok (st_board ?s) (st_player ?s) j e'"
    proof (cases "j = i")
      case True
      then show ?thesis using j e open_tile pl by (auto simp: entity_ok_def getTile_def f)
    next
      case False
      then show ?thesis using j state_ok_entity [OF r(1), of j e'] by (auto simp: entity_ok_def getTile_def f ents_def)
    qed
  qed (use add(2) vis r state_okD(4) [OF r(1)] in \<open>auto simp: f ents_def state_ok_def\<close>)
  moreover have "getActiveEntity b2 = Inr (st_player s)"
    using getActiveEntity_Inr [OF r(2)] by (simp add: getActiveEntity_def f ents_def nth_append)
  ultimately have "at_rest ?s"
    using rest pl e unfolding at_rest_def by (auto simp: ent ents_def f timers_ok_def)
  then show ?thesis using add(1) f by (auto simp: ents_def)
qed

lemma Pidgey_ok:
  "new_Pokemon ''Pidgey'' p = Inr e \<Longrightarrow> pos e = p \<and> \<not> removed e \<and> timers_ok e \<and> \<not> player e \<and>
     turn_timer e = 0 \<and> charge_of e = 40 \<and> entity_glyph e = Wide1 (CHR ''P'')"
proof -
  assume "new_Pokemon ''Pidgey'' p = Inr e"
  with new_Pokemon_Pidgey [of p] obtain s where e: "pos e = p" "speed e = 1 / 3" "move_timer e = 0"
    "turn_timer e = 0" "\<not> removed e" "etype e = Pokemon s"
    "entity_glyph e = Wide1 (CHR ''P'')" by auto
  then have "charge_of e = 40" unfolding charge_of_def e(2) by (simp add: kTurnTimer_def)
  then show ?thesis using e by (simp add: timers_ok_def player_def match_def kTurnTimer_def)
qed

lemma try_pos_Free: "try_pos roll b n rng = (Some p, rng') \<Longrightarrow> getStatus b p = Free"
  by (induction n arbitrary: rng) (auto simp: Let_def split: prod.splits if_splits)

definition with_board :: "eid \<Rightarrow> board \<times> 'g \<Rightarrow> 'g state" where
  "with_board pl s = \<lparr>st_rng = snd s, st_board = fst s, st_player = pl, st_input = None\<rparr>"

text \<open>A board with the player on its start and only Pidgeys beside it, at most \<open>n\<close>.\<close>

definition populated :: "eid \<Rightarrow> point \<Rightarrow> tile matrix \<Rightarrow> nat \<Rightarrow> board \<times> 'g \<Rightarrow> bool" where
  "populated pl start m n s \<longleftrightarrow> at_rest (with_board pl s) \<and> m_map (fst s) = m \<and>
     pos (ent (with_board pl s) pl) = start \<and> length (m_entities (fst s)) \<le> Suc n \<and>
     (\<forall>i \<in> set (m_entities (fst s)). i \<noteq> pl \<longrightarrow> charge_of (ent (with_board pl s) i) = 40) \<and>
     (\<forall>i \<in> set (m_entities (fst s)). entity_glyph (ent (with_board pl s) i) =
        (if i = pl then Wide1 (CHR ''@'') else Wide1 (CHR ''P'')))"

lemma place_pidgey_ok:
  assumes "populated pl start m n s"
  shows "\<exists>s'. place_pidgey roll s = Inr s' \<and> populated pl start m (Suc n) s'"
proof -
  obtain b rng where s: "s = (b, rng)" by fastforce
  obtain q rng' where q: "try_pos roll b 100 rng = (q, rng')" by fastforce
  note pop = assms [unfolded s populated_def with_board_def, simplified]
  have rest: "at_rest (with_board pl (b, rng'))"
    using pop by (auto simp: at_rest_def state_ok_def with_board_def ent_def ents_def)
  show ?thesis
  proof (cases q)
    case None
    then show ?thesis using pop rest q by (auto simp: place_pidgey_def s populated_def with_board_def ent_def)
  next
    case (Some p)
    have free: "getStatus b p = Free" using try_pos_Free q Some by metis
    obtain e where new: "new_Pokemon ''Pidgey'' p = Inr e" using new_Pokemon_Pidgey by blast
    note e = Pidgey_ok [OF new]
    obtain i b1 where al: "alloc b e = (i, b1)" by fastforce
    obtain b2 where b2: "addEntity b1 i = Inr b2" "at_rest (with_board pl (b2, rng'))" "m_map b2 = m_map b"
      "m_entities b2 = m_entities b @ [i]" "store b2 = (store b)(i \<mapsto> e)"
      using at_rest_add [OF rest, of e i b1] e free al by (auto simp: with_board_def)
    have "pl \<noteq> i"
      using at_restD(1,8) [OF rest] al by (auto simp: state_ok_def with_board_def ents_def board_ok_def store_ok_def alloc_def)
    then have "populated pl start m (Suc n) (b2, rng')"
      using b2 pop e by (auto simp: populated_def with_board_def ent_def)
    then show ?thesis using b2(1) Some q new al by (simp add: place_pidgey_def s)
  qed
qed

section \<open>The constructor\<close>

lemma player_placed:
  assumes b: "blank_board sz b" and free: "getStatus b start = Free"
    and al: "alloc b (new_Trainer [] start True kTrainerHP kTrainerSpeed) = (pl, b1)"
  shows "\<exists>b2. addEntity b1 pl = Inr b2 \<and> populated pl start (m_map b) 0 (b2, rng)"
proof -
  define e where "e = new_Trainer [] start True kTrainerHP kTrainerSpeed"
  have e: "pos e = start" "\<not> removed e" "player e" "turn_timer e = 0" "charge_of e = 12" "timers_ok e"
    "entity_glyph e = Wide1 (CHR ''@'')"
    by (simp_all add: e_def player_def match_def charge_of_def kTrainerSpeed_def kTurnTimer_def timers_ok_def)
  have b0: "board_ok b" "visions_ok b" "m_entities b = []" "m_entityIndex b = 0"
    "blocked_tile (m_init (m_map b))" using b blocked_wall by (auto simp: blank_board_def)
  have emp: "m_entityAtPos b (pos e) = None" and open_tile: "\<not> blocked_tile (getTile b (pos e))"
    using free by (auto simp: getStatus_Free_iff e)
  define b2 where "b2 = b1\<lparr>m_entities := m_entities b @ [pl], m_entityAtPos := (m_entityAtPos b)(pos e \<mapsto> Some pl)\<rparr>"
  note add = alloc_addEntity [OF b0(1) emp al [folded e_def], folded b2_def]
  note vis = addEntity_visions_ok [OF b0(2,1) al [folded e_def] add(1)]
  have f: "m_entities b2 = [pl]" "m_map b2 = m_map b" "store b2 pl = Some e" "m_entityIndex b2 = 0"
    using al b0 by (auto simp: b2_def alloc_def e_def)
  have "state_ok (with_board pl (b2, rng))"
    using add(2) vis b0 e open_tile
    by (auto simp: state_ok_def with_board_def f entity_ok_def getTile_def input_ok_def)
  then have "populated pl start (m_map b) 0 (b2, rng)"
    using e by (simp add: populated_def at_rest_def) (simp add: with_board_def f getActiveEntity_def ent_def ents_def kTurnTimer_def)
  with add(1) show ?thesis by blast
qed

text \<open>
  The player's cell is the middle of the map. The constructor returns exactly when some reading of
  the clock gives a map on which that cell is free, and then with an initial state at rest.
\<close>

definition start_pos :: point where
  "start_pos = Point (kMapSize div 2) (kMapSize div 2)"

definition drawable :: "('t \<Rightarrow> 'g) \<Rightarrow> 'g roll \<Rightarrow> (nat \<Rightarrow> 't) \<Rightarrow> bool" where
  "drawable mt roll clock \<longleftrightarrow>
     (\<exists>n b. Board (Point kMapSize kMapSize) = Inr b \<and> draws mt roll clock start_pos b n)"

definition initial_ok :: "'g state \<Rightarrow> bool" where
  "initial_ok s \<longleftrightarrow> at_rest s \<and> border_closed (st_board s) \<and> tiles_known (st_board s) \<and> getSize (st_board s) = Point kMapSize kMapSize \<and>
     pos (ent s (st_player s)) = start_pos \<and> length (ents s) \<le> 6 \<and>
     (\<forall>i \<in> set (ents s). i \<noteq> st_player s \<longrightarrow> charge_of (ent s i) = 40) \<and>
     (\<forall>i \<in> set (ents s). entity_glyph (ent s i) =
        (if i = st_player s then Wide1 (CHR ''@'') else Wide1 (CHR ''P'')))"

lemma place_pidgeys_ok:
  assumes "populated pl start m n s"
  shows "\<exists>s'. rfold (\<lambda>_. place_pidgey roll) xs s = Inr s' \<and> populated pl start m (n + length xs) s'"
  using assms
proof (induction xs arbitrary: n s)
  case (Cons x xs)
  obtain s1 where s1: "place_pidgey roll s = Inr s1" "populated pl start m (Suc n) s1"
    using place_pidgey_ok [OF Cons.prems] by blast
  from Cons.IH [OF s1(2)] s1(1) show ?case by simp
qed simp

lemma State_at_rest:
  assumes "drawable mt roll clock"
  shows "\<exists>s. State mt roll clock = Some (Inr s) \<and> initial_ok s"
proof -
  let ?sz = "Point kMapSize kMapSize"
  have sz: "0 \<le> px ?sz" "0 \<le> py ?sz" by (simp_all add: kMapSize_def)
  obtain b where b: "Board ?sz = Inr b" "blank_board ?sz b" using blank_board_Board [OF sz] by blast
  define n where "n = (LEAST n. draws mt roll clock start_pos b n)"
  have ex: "\<exists>n. draws mt roll clock start_pos b n" using assms b(1) by (auto simp: drawable_def)
  then have n: "draws mt roll clock start_pos b n" "\<And>m. m < n \<Longrightarrow> \<not> draws mt roll clock start_pos b m"
    unfolding n_def by (auto intro: LeastI_ex dest: not_less_Least)
  have gen: "gen_board mt roll clock start_pos 0 b = Some (initBoard roll b (mt (clock n)))"
    using gen_board_first [OF b(2) sz n(1)] n(2) by simp
  obtain b' rng where b': "initBoard roll b (mt (clock n)) = Inr (b', rng)" "blank_board ?sz b'" "border_closed b'"
    "tiles_known b'"
    using initBoard_blank [OF b(2) sz, of roll "mt (clock n)"] by blast
  then have free: "getStatus b' start_pos = Free" using n(1) by (auto simp: draws_def)
  obtain pl b1 where al: "alloc b' (new_Trainer [] start_pos True kTrainerHP kTrainerSpeed) = (pl, b1)" by fastforce
  obtain b2 where b2: "addEntity b1 pl = Inr b2" "populated pl start_pos (m_map b') 0 (b2, rng)"
    using player_placed [OF b'(2) free al, of rng] by auto
  obtain s' where s': "rfold (\<lambda>_. place_pidgey roll) [0..<5] (b2, rng) = Inr s'" "populated pl start_pos (m_map b') 5 s'"
    using place_pidgeys_ok [OF b2(2), of roll "[0..<5]", unfolded length_upt add_0 diff_zero] by blast
  have start: "Point (px (getSize b) div 2) (py (getSize b) div 2) = start_pos"
    using b(2) by (simp add: blank_board_def getSize_def matrix_size_def start_pos_def)
  have run: "State mt roll clock = Some (Inr (with_board pl s'))"
    using gen b'(1) al b2(1) s'(1) unfolding State_def b(1)
    by (cases s') (simp add: Let_def start with_board_def)
  have "m_map (st_board (with_board pl s')) = m_map b'" using s'(2) by (simp add: populated_def with_board_def)
  then have "border_closed (st_board (with_board pl s'))" "tiles_known (st_board (with_board pl s'))"
    "getSize (st_board (with_board pl s')) = ?sz"
    using b' by (simp_all add: border_closed_def tiles_known_def getTile_def getSize_def matrix_size_def blank_board_def)
  moreover have "length (ents (with_board pl s')) \<le> 6"
    "\<forall>i \<in> set (ents (with_board pl s')). i \<noteq> pl \<longrightarrow> charge_of (ent (with_board pl s') i) = 40"
    "\<forall>i \<in> set (ents (with_board pl s')). entity_glyph (ent (with_board pl s') i) =
        (if i = pl then Wide1 (CHR ''@'') else Wide1 (CHR ''P''))"
    using s'(2) by (simp_all add: populated_def) (simp_all add: with_board_def ents_def)
  ultimately have "initial_ok (with_board pl s')"
    using s'(2) by (simp add: initial_ok_def populated_def) (simp add: with_board_def)
  with run show ?thesis by blast
qed

lemma State_returns_iff: "(\<exists>r. State mt roll clock = Some r) \<longleftrightarrow> drawable mt roll clock"
proof
  assume "\<exists>r. State mt roll clock = Some r"
  then obtain r where r: "State mt roll clock = Some r" by blast
  let ?sz = "Point kMapSize kMapSize"
  have sz: "0 \<le> px ?sz" "0 \<le> py ?sz" by (simp_all add: kMapSize_def)
  obtain b where b: "Board ?sz = Inr b" "blank_board ?sz b" using blank_board_Board [OF sz] by blast
  have start: "Point (px (getSize b) div 2) (py (getSize b) div 2) = start_pos"
    using b(2) by (simp add: blank_board_def getSize_def matrix_size_def start_pos_def)
  obtain g where "gen_board mt roll clock start_pos 0 b = Some g"
    using r unfolding State_def b(1) by (auto simp: Let_def start split: option.splits)
  from gen_board_only [OF this b(2) sz] b(1) show "drawable mt roll clock" by (auto simp: drawable_def)
qed (use State_at_rest in blast)

end
