(* ===== verification/Render.thy ===== *)
theory Render
  imports Start
begin

text \<open>
  The model of \<^verbatim>\<open>render\<close> and of \<^verbatim>\<open>struct IO\<close> of \<^verbatim>\<open>game.cpp\<close>: drawing what the player sees into a
  frame two columns per cell, and the tick that updates the game and redraws. \<open>getVision\<close> fills the
  board's cache, so drawing returns the state as well.
\<close>

section \<open>Definitions\<close>

definition frame_cell :: "point \<Rightarrow> point" where
  "frame_cell p = origin + Point (2 * px p) (py p)"

definition render :: "'g state \<Rightarrow> glyph matrix \<Rightarrow> ('g state \<times> glyph matrix) res" where
  "render s frame =
     rbind (getVision (st_board s) (st_player s)) (\<lambda>(vision, b).
       let s = s\<lparr>st_board := b\<rparr>;
           sz = getSize b;
           frame = fold (\<lambda>y. fold (\<lambda>x frame.
               let p = Point x y;
                   seen = canSee_vision vision p
               in matrix_set frame (frame_cell p) (if seen then tile_glyph (getTile b p) else Empty))
             [0..px sz - 1]) [0..py sz - 1] frame
       in rbind (rfold (\<lambda>i frame.
              rbind (deref b i) (\<lambda>e.
                let seen = canSee_vision vision (pos e)
                in Inr (if seen then matrix_set frame (frame_cell (pos e)) (entity_glyph e) else frame)))
            (getEntities b) frame) (\<lambda>frame. Inr (s, frame)))"

record 'g io =
  io_state :: "'g state"
  io_frame :: "glyph matrix"
  io_inputs :: "input list"

definition glyph_default :: glyph where
  "glyph_default = \<lparr>ch = 0, fg = Color 0, bg = Color 0\<rparr>"

definition IO :: "('t \<Rightarrow> 'g) \<Rightarrow> 'g roll \<Rightarrow> (nat \<Rightarrow> 't) \<Rightarrow> 'g io res option" where
  "IO mt roll clock =
     (case State mt roll clock of
        None \<Rightarrow> None
      | Some r \<Rightarrow> Some (rbind r (\<lambda>s.
          rbind (Matrix (Point (2 * kMapSize) kMapSize) glyph_default) (\<lambda>frame.
            Inr \<lparr>io_state = s, io_frame = frame, io_inputs = []\<rparr>))))"

definition io_tick :: "'g roll \<Rightarrow> 'g io \<Rightarrow> 'g io res option" where
  "io_tick roll io =
     (case update roll (io_state io) (io_inputs io) of
        None \<Rightarrow> None
      | Some r \<Rightarrow> Some (rbind r (\<lambda>(s, inputs).
          rbind (render s (io_frame io)) (\<lambda>(s, frame).
            Inr \<lparr>io_state = s, io_frame = frame, io_inputs = inputs\<rparr>))))"

section \<open>What is drawn\<close>

text \<open>The glyph of a cell: blank where the player does not see, else the occupant, else the tile.\<close>

definition shown :: "'g state \<Rightarrow> vision \<Rightarrow> point \<Rightarrow> glyph" where
  "shown s v p =
     (if \<not> canSee_vision v p then Empty
      else case getEntity (st_board s) p of
          Some i \<Rightarrow> entity_glyph (ent s i)
        | None \<Rightarrow> tile_glyph (getTile (st_board s) p))"

definition player_vision :: "'g state \<Rightarrow> vision" where
  "player_vision s = fresh_vision (st_board s) (ent s (st_player s))"

lemma frame_cell_eq: "frame_cell p = Point (2 * px p) (py p)"
  by (auto simp: frame_cell_def intro: point_eqI)

lemma frame_cell_inj: "frame_cell p = frame_cell q \<longleftrightarrow> p = q"
  by (cases p; cases q) (simp add: frame_cell_eq)

text \<open>The two loops as lists of writes.\<close>

definition drawn :: "'g state \<Rightarrow> vision \<Rightarrow> glyph matrix \<Rightarrow> glyph matrix" where
  "drawn s v frame =
     fold (\<lambda>i f. matrix_set f (frame_cell (pos (ent s i))) (entity_glyph (ent s i)))
       (filter (\<lambda>i. canSee_vision v (pos (ent s i))) (ents s))
       (fold (\<lambda>p f. matrix_set f (frame_cell p)
            (if canSee_vision v p then tile_glyph (getTile (st_board s) p) else Empty))
          (grid_points (getSize (st_board s))) frame)"

lemma rfold_total:
  "(\<And>a s. a \<in> set as \<Longrightarrow> f a s = Inr (g a s)) \<Longrightarrow> rfold f as s = Inr (fold g as s)"
  by (induction as arbitrary: s) auto

lemma render_eq:
  assumes ok: "state_ok s"
  defines "b' \<equiv> (st_board s)\<lparr>m_vision := (m_vision (st_board s))(st_player s \<mapsto> player_vision s)\<rparr>"
  shows "render s frame = Inr (s\<lparr>st_board := b'\<rparr>, drawn s (player_vision s) frame)"
    "visions_ok b'"
proof -
  let ?v = "player_vision s"
  have pl: "st_player s \<in> set (ents s)" using state_okD(3) [OF ok] by (simp add: ents_def)
  note gv = getVision_ok [OF state_okD(2) [OF ok] state_ok_ent(1) [OF ok pl] state_okD(3) [OF ok],
      folded player_vision_def, folded b'_def]
  show "visions_ok b'" by (rule gv(2))
  have same: "getTile b' = getTile (st_board s)" "getSize b' = getSize (st_board s)"
    by (simp_all add: b'_def getTile_def getSize_def fun_eq_iff)
  have ents: "rfold (\<lambda>i frame. rbind (deref b' i) (\<lambda>e. let seen = canSee_vision ?v (pos e)
        in Inr (if seen then matrix_set frame (frame_cell (pos e)) (entity_glyph e) else frame))) (getEntities b') f =
      Inr (fold (\<lambda>i f. if canSee_vision ?v (pos (ent s i))
        then matrix_set f (frame_cell (pos (ent s i))) (entity_glyph (ent s i)) else f) (ents s) f)" for f
    using state_ok_ent(1) [OF ok]
    by (subst rfold_total [where g = "\<lambda>i f. if canSee_vision ?v (pos (ent s i))
        then matrix_set f (frame_cell (pos (ent s i))) (entity_glyph (ent s i)) else f"])
      (simp_all add: getEntities_def b'_def ents_def)
  have grid: "fold (\<lambda>y. fold (\<lambda>x frame. matrix_set frame (frame_cell (Point x y))
        (if canSee_vision ?v (Point x y) then tile_glyph (getTile b' (Point x y)) else Empty))
      [0..px (getSize b') - 1]) [0..py (getSize b') - 1] frame =
    fold (\<lambda>p f. matrix_set f (frame_cell p)
      (if canSee_vision ?v p then tile_glyph (getTile (st_board s) p) else Empty)) (grid_points (getSize (st_board s))) frame"
    unfolding fold_grid [where h = "\<lambda>p f. matrix_set f (frame_cell p)
      (if canSee_vision ?v p then tile_glyph (getTile b' p) else Empty)"]
    unfolding same ..
  show "render s frame = Inr (s\<lparr>st_board := b'\<rparr>, drawn s ?v frame)"
    unfolding render_def gv(1)
    by (simp add: Let_def ents [unfolded Let_def] grid drawn_def matrix_grid.guarded_writes)
qed

text \<open>The frame after drawing, cell by cell.\<close>

lemma drawn_get:
  assumes ok: "state_ok s" and wf: "matrix_wf frame" and p: "matrix_contains (m_map (st_board s)) p"
    and inside: "matrix_contains frame (frame_cell p)"
  shows "matrix_get (drawn s v frame) (frame_cell p) = shown s v p"
proof -
  let ?b = "st_board s"
  define f1 where "f1 = fold (\<lambda>p f. matrix_set f (frame_cell p)
      (if canSee_vision v p then tile_glyph (getTile ?b p) else Empty)) (grid_points (getSize ?b)) frame"
  let ?is = "filter (\<lambda>i. canSee_vision v (pos (ent s i))) (ents s)"
  have wf1: "matrix_wf f1" and in1: "matrix_contains f1 (frame_cell p)"
    unfolding f1_def by (simp_all add: matrix_grid.wf_writes matrix_grid.inside_writes wf inside)
  have f1: "matrix_get f1 (frame_cell p) = (if canSee_vision v p then tile_glyph (getTile ?b p) else Empty)"
    unfolding f1_def using p
    by (intro matrix_grid.get_writes [OF wf inside])
      (auto simp: frame_cell_inj set_grid_points getSize_def matrix_size_def matrix_contains_def)
  have idx: "index_ok ?b" using state_okD(1) [OF ok] by (simp add: board_ok_def)
  show ?thesis
  proof (cases "\<exists>i \<in> set ?is. pos (ent s i) = p")
    case True
    then obtain i where i: "i \<in> set (ents s)" "canSee_vision v p" "pos (ent s i) = p" by auto
    then have at: "m_entityAtPos ?b p = Some (Some i)"
      using idx state_ok_ent(1) [OF ok i(1)] by (auto simp: ents_def elim: index_ok_entity)
    have "matrix_get (drawn s v frame) (frame_cell p) = entity_glyph (ent s i)"
      unfolding drawn_def f1_def [symmetric] using True
    proof (intro matrix_grid.get_writes [OF wf1 in1])
      fix j assume "j \<in> set ?is" "frame_cell (pos (ent s j)) = frame_cell p"
      then have "j = i" using i index_ok_pos_inj [OF idx, of j i "ent s j" "ent s i"]
          state_ok_ent(1) [OF ok, of j] state_ok_ent(1) [OF ok, of i]
        by (simp add: frame_cell_inj ents_def)
      then show "entity_glyph (ent s j) = entity_glyph (ent s i)" by simp
    qed auto
    with at i(2) show ?thesis by (simp add: shown_def getEntity_def)
  next
    case False
    have "matrix_get (drawn s v frame) (frame_cell p) = matrix_get f1 (frame_cell p)"
      unfolding drawn_def f1_def [symmetric] using False
      by (intro matrix_grid.get_writes_other [OF wf1]) (auto simp: frame_cell_inj)
    moreover have "canSee_vision v p \<Longrightarrow> m_entityAtPos ?b p = None"
    proof (rule ccontr)
      assume see: "canSee_vision v p" and "m_entityAtPos ?b p \<noteq> None"
      then obtain i e where "i \<in> set (m_entities ?b)" "store ?b i = Some e" "pos e = p"
        using idx by (auto elim: index_ok_entry)
      then have "i \<in> set ?is" "pos (ent s i) = p" using see by (simp_all add: ents_def ent_def)
      with False show False by blast
    qed
    ultimately show ?thesis by (auto simp: f1 shown_def getEntity_def)
  qed
qed

lemma drawn_other:
  assumes ok: "state_ok s" and wf: "matrix_wf frame" and q: "odd (px q)"
  shows "matrix_get (drawn s v frame) q = matrix_get frame q"
proof -
  have "q \<notin> frame_cell ` A" for A using q by (auto simp: frame_cell_eq)
  then show ?thesis
    unfolding drawn_def
    by (subst matrix_grid.get_writes_other)
      (auto simp: matrix_grid.wf_writes wf matrix_grid.get_writes_other image_iff)
qed

lemma writes_fields:
  "m_size (fold (\<lambda>a m. matrix_set m (f a) (g a)) as m) = m_size m"
  "m_init (fold (\<lambda>a m. matrix_set m (f a) (g a)) as m) = m_init m"
  by (induction as arbitrary: m) simp_all

lemma drawn_fields:
  "m_size (drawn s v frame) = m_size frame" "m_init (drawn s v frame) = m_init frame"
  "matrix_wf frame \<Longrightarrow> matrix_wf (drawn s v frame)"
  by (simp_all add: drawn_def writes_fields matrix_grid.wf_writes)

section \<open>The state between ticks\<close>

text \<open>
  Caching a vision keeps everything that matters to the turn loop.
\<close>

lemma at_rest_cache:
  assumes "at_rest s" "visions_ok ((st_board s)\<lparr>m_vision := (m_vision (st_board s))(st_player s \<mapsto> v)\<rparr>)"
  shows "at_rest (s\<lparr>st_board := (st_board s)\<lparr>m_vision := (m_vision (st_board s))(st_player s \<mapsto> v)\<rparr>\<rparr>)"
proof -
  let ?b = "(st_board s)\<lparr>m_vision := (m_vision (st_board s))(st_player s \<mapsto> v)\<rparr>"
  have ok: "state_ok s" using assms(1) by (simp add: at_rest_def)
  have "st_player s < next_id (st_board s)"
    using state_okD(1,3) [OF ok] by (auto simp: board_ok_def store_ok_def)
  then have "board_ok ?b"
    using state_okD(1) [OF ok] by (auto simp: board_ok_def store_ok_def index_ok_def turn_ok_def)
  then have "state_ok (s\<lparr>st_board := ?b\<rparr>)"
    using ok assms(2) by (auto simp: state_ok_def entity_ok_def getTile_def)
  then show ?thesis
    using assms(1) by (simp add: at_rest_def getActiveEntity_def ents_def ent_def)
qed

text \<open>Everything drawn is a full-width glyph, of the first 64 code points of the block.\<close>

definition wide :: "glyph \<Rightarrow> bool" where
  "wide g \<longleftrightarrow> 0xff00 \<le> ch g \<and> ch g < 0xff40"

definition game_ok :: "'g state \<Rightarrow> bool" where
  "game_ok s \<longleftrightarrow> at_rest s \<and> border_closed (st_board s) \<and> tiles_known (st_board s) \<and>
     getSize (st_board s) = Point kMapSize kMapSize \<and>
     (\<forall>i \<in> set (ents s). wide (entity_glyph (ent s i)) \<and> charge_of (ent s i) \<in> {12, 40})"

definition frame_ok :: "glyph matrix \<Rightarrow> bool" where
  "frame_ok f \<longleftrightarrow> matrix_wf f \<and> m_size f = Point (2 * kMapSize) kMapSize \<and> m_init f = glyph_default \<and>
     (\<forall>q. odd (px q) \<longrightarrow> matrix_get f q = glyph_default)"

definition io_ok :: "'g io \<Rightarrow> bool" where
  "io_ok io \<longleftrightarrow> game_ok (io_state io) \<and> frame_ok (io_frame io)"

lemma wide_Wide: "of_char c < (96 :: nat) \<Longrightarrow> 32 \<le> (of_char c :: nat) \<Longrightarrow> wide (Wide c code)"
  by (simp add: wide_def ch_Wide_ascii word_le_nat_alt word_less_nat_alt unat_word_ariths unat_of_nat)

lemma wide_glyphs: "wide (Wide1 (CHR ''@''))" "wide (Wide1 (CHR ''P''))" "wide Empty"
  "tiles_known b \<Longrightarrow> wide (tile_glyph (getTile b p))"
proof -
  show "wide (Wide1 (CHR ''@''))" "wide (Wide1 (CHR ''P''))" "wide Empty"
    by (simp_all add: Wide1_def Empty_def wide_Wide)
  assume "tiles_known b"
  then obtain c where c: "c \<in> set ''.\"#''" "tileType c = Inr (getTile b p)" unfolding tiles_known_def by blast
  then have "getTile b p = projr (tileType c)" by simp
  moreover have "\<forall>c \<in> set ''.\"#''. wide (tile_glyph (projr (tileType c)))"
    by (simp add: Wide1_def wide_Wide)
  ultimately show "wide (tile_glyph (getTile b p))" using c(1) by metis
qed

lemma shown_wide:
  assumes "game_ok s"
  shows "wide (shown s v p)"
proof -
  have ok: "state_ok s" using assms by (simp add: game_ok_def at_rest_def)
  then have idx: "index_ok (st_board s)" by (simp add: state_ok_def board_ok_def)
  show ?thesis
  proof (cases "getEntity (st_board s) p")
    case (Some i)
    then have "i \<in> set (ents s)"
      using idx by (auto simp: getEntity_def ents_def elim!: index_ok_entry split: option.splits)
    then show ?thesis using assms Some wide_glyphs(3) by (simp add: shown_def game_ok_def)
  next
    case None
    then show ?thesis using assms wide_glyphs(3,4) by (simp add: shown_def game_ok_def)
  qed
qed

lemma render_ok:
  assumes g: "game_ok s" and f: "frame_ok frame"
  shows "\<exists>s' frame'. render s frame = Inr (s', frame') \<and> game_ok s' \<and> frame_ok frame' \<and>
    (\<exists>c. s' = s\<lparr>st_board := (st_board s)\<lparr>m_vision := c\<rparr>\<rparr>) \<and>
    (\<forall>p. matrix_contains (m_map (st_board s)) p \<longrightarrow>
       matrix_get frame' (frame_cell p) = shown s (player_vision s) p)"
proof -
  let ?b = "(st_board s)\<lparr>m_vision := (m_vision (st_board s))(st_player s \<mapsto> player_vision s)\<rparr>"
  let ?s = "s\<lparr>st_board := ?b\<rparr>" and ?f = "drawn s (player_vision s) frame"
  have ok: "state_ok s" "at_rest s" using g by (auto simp: game_ok_def at_rest_def)
  note r = render_eq(1) [OF ok(1), of frame] render_eq(2) [OF ok(1)]
  have "at_rest ?s" by (rule at_rest_cache [OF ok(2) r(2)])
  then have "game_ok ?s"
    using g by (simp add: game_ok_def ents_def ent_def border_closed_def tiles_known_def getTile_def getSize_def)
  moreover have "frame_ok ?f"
    using f drawn_other [OF ok(1), of frame _ "player_vision s"] by (auto simp: frame_ok_def drawn_fields)
  moreover have "matrix_get ?f (frame_cell p) = shown s (player_vision s) p"
    if p: "matrix_contains (m_map (st_board s)) p" for p
  proof (rule drawn_get [OF ok(1) _ p])
    show "matrix_contains frame (frame_cell p)"
      using p f g by (simp add: matrix_contains_def frame_ok_def game_ok_def frame_cell_eq getSize_def matrix_size_def)
  qed (use f in \<open>simp add: frame_ok_def\<close>)
  ultimately show ?thesis using r(1) by auto
qed

lemma game_ok_update:
  assumes g: "game_ok s" and die: "die_ok roll"
  shows "\<exists>s' inputs'. update roll s inputs = Some (Inr (s', inputs')) \<and> game_ok s' \<and>
    tick_outcome s inputs s' inputs'"
proof -
  have rest: "at_rest s" using g by (simp add: game_ok_def)
  obtain s' inputs' where *: "updateState roll s inputs = Some (Inr (s', inputs'))" "at_rest s'"
    "tick_outcome s inputs s' inputs'" using updateState_outcome [OF rest die] by blast
  then have "s' = s \<or> (\<exists>d. tick_of s d s')"
    unfolding tick_outcome_def by (auto simp: Let_def split: list.splits if_splits)
  then have "game_ok s'"
    using g *(2)
    by (auto simp: game_ok_def tick_of_def border_closed_def tiles_known_def getTile_def getSize_def)
  with * show ?thesis by (auto simp: update_def)
qed

lemma io_tick_ok:
  assumes io: "io_ok io" and die: "die_ok roll"
  shows "\<exists>io' s. io_tick roll io = Some (Inr io') \<and> io_ok io' \<and>
    update roll (io_state io) (io_inputs io) = Some (Inr (s, io_inputs io')) \<and> game_ok s \<and>
    tick_outcome (io_state io) (io_inputs io) s (io_inputs io') \<and>
    (\<exists>c. io_state io' = s\<lparr>st_board := (st_board s)\<lparr>m_vision := c\<rparr>\<rparr>) \<and>
    (\<forall>p. matrix_contains (m_map (st_board s)) p \<longrightarrow>
       matrix_get (io_frame io') (frame_cell p) = shown s (player_vision s) p)"
proof -
  obtain s inputs' where s: "update roll (io_state io) (io_inputs io) = Some (Inr (s, inputs'))" "game_ok s"
    "tick_outcome (io_state io) (io_inputs io) s inputs'"
    using game_ok_update [of "io_state io" roll "io_inputs io"] io die by (auto simp: io_ok_def)
  obtain s' frame' c where r: "render s (io_frame io) = Inr (s', frame')" "game_ok s'" "frame_ok frame'"
    "s' = s\<lparr>st_board := (st_board s)\<lparr>m_vision := c\<rparr>\<rparr>"
    "\<And>p. matrix_contains (m_map (st_board s)) p \<Longrightarrow> matrix_get frame' (frame_cell p) = shown s (player_vision s) p"
    using render_ok [OF s(2), of "io_frame io"] io by (auto simp: io_ok_def)
  show ?thesis
    using s r by (intro exI [of _ "\<lparr>io_state = s', io_frame = frame', io_inputs = inputs'\<rparr>"] exI [of _ s])
      (auto simp: io_tick_def io_ok_def)
qed

lemma IO_ok:
  assumes "drawable mt roll clock"
  shows "\<exists>io. IO mt roll clock = Some (Inr io) \<and> io_ok io \<and> initial_ok (io_state io) \<and> io_inputs io = []"
proof -
  obtain s where s: "State mt roll clock = Some (Inr s)" "initial_ok s" using State_at_rest [OF assms] by blast
  have "0 \<le> px (Point (2 * kMapSize) kMapSize) * py (Point (2 * kMapSize) kMapSize)" by (simp add: kMapSize_def)
  then obtain f where f: "Matrix (Point (2 * kMapSize) kMapSize) glyph_default = Inr f" by (auto simp: Matrix_def)
  then have "m_size f = Point (2 * kMapSize) kMapSize" "m_init f = glyph_default" by (auto simp: Matrix_Inr_iff)
  then have "frame_ok f" using Matrix_wf [OF f] Matrix_get [OF f] by (simp add: frame_ok_def)
  moreover have "charge_of (ent s i) \<in> {12, 40} \<and> wide (entity_glyph (ent s i))" if "i \<in> set (ents s)" for i
    using s(2) that wide_glyphs(1,2) by (cases "i = st_player s") (auto simp: initial_ok_def at_rest_def)
  then have "game_ok s" using s(2) by (auto simp: game_ok_def initial_ok_def)
  ultimately show ?thesis using s f by (auto simp: IO_def io_ok_def)
qed

section \<open>All states of a session\<close>

text \<open>The program's states between ticks: keys arrive in any number, then a tick runs.\<close>

inductive io_reachable :: "('t \<Rightarrow> 'g) \<Rightarrow> 'g roll \<Rightarrow> (nat \<Rightarrow> 't) \<Rightarrow> 'g io \<Rightarrow> bool" for mt roll clock where
  started: "IO mt roll clock = Some (Inr io) \<Longrightarrow> io_reachable mt roll clock io"
| keys: "io_reachable mt roll clock io \<Longrightarrow> io_reachable mt roll clock (io\<lparr>io_inputs := io_inputs io @ ks\<rparr>)"
| ticked: "io_reachable mt roll clock io \<Longrightarrow> io_tick roll io = Some (Inr io') \<Longrightarrow> io_reachable mt roll clock io'"

lemma io_reachable_ok:
  assumes "io_reachable mt roll clock io" "die_ok roll"
  shows "io_ok io"
  using assms
proof (induction rule: io_reachable.induct)
  case (started io)
  then have "drawable mt roll clock"
    using State_returns_iff [of mt roll clock] by (auto simp: IO_def split: option.splits)
  with IO_ok [of mt roll clock] started show ?case by auto
next
  case (ticked io io')
  with io_tick_ok [of io roll] show ?case by auto
qed (simp add: io_ok_def)

end
