(* ===== verification/Keys.thy ===== *)
theory Keys
  imports Base
begin

text \<open>
  The model of \<^verbatim>\<open>Terminal::getKeyInputs\<close> of \<^verbatim>\<open>main.cpp\<close>: the bytes that a terminal sends for key
  presses, decoded into the inputs of the game.
\<close>

section \<open>Decoding\<close>

text \<open>
  \<open>getchar\<close> takes the next byte of the input stream, or returns \<^verbatim>\<open>EOF\<close> (\<open>-1\<close>). \<open>count\<close> is what
  \<^verbatim>\<open>FIONREAD\<close> reports.
\<close>

fun getchar :: "int list \<Rightarrow> int \<times> int list" where
  "getchar [] = (-1, [])"
| "getchar (c # cs) = (c, cs)"

function skip_semi :: "int \<Rightarrow> int \<Rightarrow> int \<Rightarrow> int list \<Rightarrow> int \<times> int list" where
  "skip_semi count i semi cs =
     (if semi \<noteq> 59 \<and> i < count then let (c, cs) = getchar cs in skip_semi count (i + 1) c cs
      else (i, cs))"
  by pat_completeness auto
termination by (relation "measure (\<lambda>(count, i, semi, cs). nat (count - i))") auto

declare skip_semi.simps [simp del]

text \<open>\<^verbatim>\<open>i < count ? getch() : '\0'\<close>\<close>

definition getch_or_0 :: "int \<Rightarrow> int \<Rightarrow> int list \<Rightarrow> int \<times> int \<times> int list" where
  "getch_or_0 count i cs = (if i < count then let (c, cs) = getchar cs in (c, i + 1, cs) else (0, i, cs))"

text \<open>The parameters of an escape sequence: \<open>code\<close> is its first byte after the bracket.\<close>

definition key_params :: "int \<Rightarrow> int \<Rightarrow> int \<Rightarrow> int list \<Rightarrow> input list \<Rightarrow> int \<times> int list \<times> input list" where
  "key_params count i code cs inputs =
     (let (i, cs) = skip_semi count i code cs;
          (modifier, i, cs) = getch_or_0 count i cs;
          (final, i, cs) = getch_or_0 count i cs
      in (i, cs,
          if modifier = 50 \<and> 65 \<le> final \<and> final \<le> 68
          then inputs @ [word_of_int (uint Input_ShiftUp + (final - 65))] else inputs))"

text \<open>One round of the loop of \<^verbatim>\<open>getKeyInputs\<close>: the new \<open>i\<close>, the rest of the stream and the queue.\<close>

definition key_step :: "int \<Rightarrow> int \<Rightarrow> int list \<Rightarrow> input list \<Rightarrow> int \<times> int list \<times> input list" where
  "key_step count i cs inputs =
     (let (c, cs) = getchar cs; i = i + 1
      in if c \<noteq> 27 \<or> i \<ge> count then
           (i, cs,
            if 0x20 \<le> c \<and> c < 0x7f then inputs @ [word_of_int c]
            else if c = 9 then inputs @ [Input_Tab]
            else if c = 10 then inputs @ [Input_Enter]
            else if i \<ge> count then inputs @ [Input_Esc]
            else inputs)
         else
           let (nxt, cs) = getchar cs; i = i + 1
           in if nxt = 27 then (i, cs, inputs @ [word_of_int c])
              else if nxt \<noteq> 91 \<or> i \<ge> count then (count, cs, inputs)
              else
                let (code, cs) = getchar cs; i = i + 1
                in if 65 \<le> code \<and> code \<le> 68 then
                     (i, cs, inputs @ [word_of_int (uint Input_Up + (code - 65))])
                   else if code = 90 then (i, cs, inputs @ [Input_ShiftTab])
                   else key_params count i code cs inputs)"

lemma skip_semi_mono: "i \<le> fst (skip_semi count i semi cs)"
  by (induction count i semi cs rule: skip_semi.induct)
    (subst skip_semi.simps, force split: prod.splits)

lemma key_params_mono: "i \<le> fst (key_params count i code cs inputs)"
  using skip_semi_mono [of i count code cs]
  by (auto simp: key_params_def getch_or_0_def split: prod.splits)

lemma key_step_mono: "i < count \<Longrightarrow> i < fst (key_step count i cs inputs)"
  using key_params_mono [of "i + 1 + 1 + 1" count]
  by (auto simp: key_step_def Let_def split: prod.splits intro: order.strict_trans2 [of _ "i + 1 + 1 + 1"])

function key_loop :: "int \<Rightarrow> int \<Rightarrow> int list \<Rightarrow> input list \<Rightarrow> input list \<times> int list" where
  "key_loop count i cs inputs =
     (if i < count then let (i, cs, inputs) = key_step count i cs inputs in key_loop count i cs inputs
      else (inputs, cs))"
  by pat_completeness auto
termination
proof (relation "measure (\<lambda>(count, i, cs, inputs). nat (count - i))")
  fix count i cs inputs x i' y cs' inputs'
  assume *: "i < count" "x = key_step count i cs inputs" "(i', y) = x" "(cs', inputs') = y"
  then have "i' = fst (key_step count i cs inputs)" by (metis fst_conv)
  then have "i < i'" using key_step_mono [OF *(1), of cs inputs] by simp
  with *(1) show "((count, i', cs', inputs'), count, i, cs, inputs) \<in> measure (\<lambda>(count, i, cs, inputs). nat (count - i))"
    by simp
qed simp

declare key_loop.simps [simp del]

definition getKeyInputs :: "int \<Rightarrow> int list \<Rightarrow> input list \<Rightarrow> input list \<times> int list" where
  "getKeyInputs count cs inputs = key_loop count 0 cs inputs"

section \<open>Keys and their bytes\<close>

text \<open>
  The keys the decoder knows, with what a terminal sends for each: printable characters and the
  control characters of Tab and Enter stand for themselves, the others are escape sequences.
\<close>

datatype key = KChar int | KTab | KEnter | KArrow int | KShiftTab | KShiftArrow int

fun key_valid :: "key \<Rightarrow> bool" where
  "key_valid (KChar c) \<longleftrightarrow> 0x20 \<le> c \<and> c < 0x7f"
| "key_valid (KArrow n) \<longleftrightarrow> 0 \<le> n \<and> n < 4"
| "key_valid (KShiftArrow n) \<longleftrightarrow> 0 \<le> n \<and> n < 4"
| "key_valid _ \<longleftrightarrow> True"

fun key_bytes :: "key \<Rightarrow> int list" where
  "key_bytes (KChar c) = [c]"
| "key_bytes KTab = [9]"
| "key_bytes KEnter = [10]"
| "key_bytes (KArrow n) = [27, 91, 65 + n]"
| "key_bytes KShiftTab = [27, 91, 90]"
| "key_bytes (KShiftArrow n) = [27, 91, 49, 59, 50, 65 + n]"

fun key_input :: "key \<Rightarrow> input" where
  "key_input (KChar c) = word_of_int c"
| "key_input KTab = Input_Tab"
| "key_input KEnter = Input_Enter"
| "key_input (KArrow n) = word_of_int (uint Input_Up + n)"
| "key_input KShiftTab = Input_ShiftTab"
| "key_input (KShiftArrow n) = word_of_int (uint Input_ShiftUp + n)"

lemma key_step_key:
  assumes "key_valid k" "i + int (length (key_bytes k)) \<le> count"
  shows "key_step count i (key_bytes k @ cs) inputs =
    (i + int (length (key_bytes k)), cs, inputs @ [key_input k])"
  using assms
  by (cases k) (auto simp: key_step_def key_params_def getch_or_0_def skip_semi.simps Let_def)

lemma key_loop_keys:
  assumes "\<forall>k \<in> set ks. key_valid k" "i + int (length (concat (map key_bytes ks))) \<le> count"
  shows "key_loop count i (concat (map key_bytes ks) @ cs) inputs =
    key_loop count (i + int (length (concat (map key_bytes ks)))) cs (inputs @ map key_input ks)"
  using assms
proof (induction ks arbitrary: i inputs)
  case (Cons k ks)
  have "1 \<le> int (length (key_bytes k))" by (cases k) auto
  then have "i < count" using Cons.prems(2) by simp
  moreover have "key_step count i (key_bytes k @ concat (map key_bytes ks) @ cs) inputs =
      (i + int (length (key_bytes k)), concat (map key_bytes ks) @ cs, inputs @ [key_input k])"
    using Cons.prems by (intro key_step_key) auto
  ultimately show ?case
    using Cons by (subst key_loop.simps) (simp add: algebra_simps)
qed simp

section \<open>What is read\<close>

text \<open>
  \<open>reads n count i cs inputs r\<close>: the result \<open>r\<close> of a round or of the loop that starts at \<open>i\<close>: a
  prefix of the stream is consumed, never more than the count allows, and at most one input per
  byte is queued.
\<close>

definition reads :: "int \<Rightarrow> int \<Rightarrow> int list \<Rightarrow> input list \<Rightarrow> int \<Rightarrow> int list \<Rightarrow> input list \<Rightarrow> bool" where
  "reads count i cs inputs i' cs' inputs' \<longleftrightarrow> i' \<le> count \<and>
     (\<exists>used new. cs = used @ cs' \<and> int (length used) \<le> i' - i \<and> inputs' = inputs @ new \<and> length new \<le> length used)"

lemma getchar_long: "0 < n \<Longrightarrow> n \<le> int (length cs) \<Longrightarrow> \<exists>c cs'. cs = c # cs' \<and> getchar cs = (c, cs') \<and> n - 1 \<le> int (length cs')"
  by (cases cs) auto

lemma skip_semi_reads:
  assumes "i \<le> count" "count - i \<le> int (length cs)" "skip_semi count i semi cs = (i', cs')"
  shows "i \<le> i' \<and> i' \<le> count \<and> count - i' \<le> int (length cs') \<and> (\<exists>used. cs = used @ cs' \<and> int (length used) = i' - i)"
  using assms
proof (induction count i semi cs rule: skip_semi.induct)
  case (1 count i semi cs)
  show ?case
  proof (cases "semi \<noteq> 59 \<and> i < count")
    case True
    then obtain c cs1 where c: "cs = c # cs1" using getchar_long [of "count - i" cs] 1(3) by auto
    have "skip_semi count (i + 1) c cs1 = (i', cs')"
      using 1(4) True by (subst (asm) skip_semi.simps) (simp add: c)
    with 1(1) [OF True, of "(c, cs1)" c cs1] 1(3) True obtain used where
      "i + 1 \<le> i'" "i' \<le> count" "count - i' \<le> int (length cs')" "cs1 = used @ cs'" "int (length used) = i' - (i + 1)"
      by (auto simp: c)
    then show ?thesis by (auto simp: c intro!: exI [of _ "c # used"])
  next
    case False
    then show ?thesis using 1(2-4) by (subst (asm) skip_semi.simps) auto
  qed
qed

lemma getch_or_0_reads:
  assumes "i \<le> count" "count - i \<le> int (length cs)" "getch_or_0 count i cs = (c, i', cs')"
  shows "i \<le> i' \<and> i' \<le> count \<and> count - i' \<le> int (length cs') \<and> (\<exists>used. cs = used @ cs' \<and> int (length used) = i' - i)"
  using assms getchar_long [of "count - i" cs]
  by (auto simp: getch_or_0_def split: if_splits)

lemma key_params_reads:
  assumes "i \<le> count" "count - i \<le> int (length cs)" "key_params count i code cs inputs = (i', cs', inputs')"
  shows "i' \<le> count \<and> count - i' \<le> int (length cs') \<and>
    (\<exists>used. cs = used @ cs' \<and> int (length used) = i' - i) \<and> (inputs' = inputs \<or> (\<exists>x. inputs' = inputs @ [x]))"
proof -
  obtain i1 cs1 m i2 cs2 l where *: "skip_semi count i code cs = (i1, cs1)"
    "getch_or_0 count i1 cs1 = (m, i2, cs2)" "getch_or_0 count i2 cs2 = (l, i', cs')"
    using assms(3) by (auto simp: key_params_def split: prod.splits)
  note a = skip_semi_reads [OF assms(1,2) *(1)]
  note b = getch_or_0_reads [OF _ _ *(2)]
  note c = getch_or_0_reads [OF _ _ *(3)]
  from a b c obtain u1 u2 u3 where "cs = u1 @ cs1" "cs1 = u2 @ cs2" "cs2 = u3 @ cs'"
    "int (length u1) = i1 - i" "int (length u2) = i2 - i1" "int (length u3) = i' - i2"
    "i' \<le> count" "count - i' \<le> int (length cs')" by blast
  moreover have "inputs' = inputs \<or> (\<exists>x. inputs' = inputs @ [x])"
    using assms(3) * by (auto simp: key_params_def split: if_splits)
  ultimately show ?thesis by (auto intro!: exI [of _ "u1 @ u2 @ u3"])
qed

lemma readsI:
  assumes "cs = used @ cs'" "int (length used) \<le> i' - i" "i' \<le> count" "inputs' = inputs @ new"
    "length new \<le> length used"
  shows "reads count i cs inputs i' cs' inputs'"
  using assms by (auto simp: reads_def)

lemma key_step_reads:
  assumes i: "i < count" and len: "count - i \<le> int (length cs)"
    and step: "key_step count i cs inputs = (i', cs', inputs')"
  shows "reads count i cs inputs i' cs' inputs' \<and> count - i' \<le> int (length cs')"
proof -
  obtain c cs1 where c: "cs = c # cs1" using getchar_long [of "count - i" cs] i len by auto
  show ?thesis
  proof (cases "c \<noteq> 27 \<or> i + 1 \<ge> count")
    case True
    then have "i' = i + 1" "cs' = cs1" "inputs' = inputs \<or> (\<exists>x. inputs' = inputs @ [x])"
      using step by (auto simp: key_step_def Let_def c split: if_splits)
    then show ?thesis using i len c readsI [of cs "[c]" cs' i' i count inputs' inputs "[]"]
        readsI [of cs "[c]" cs' i' i count inputs' inputs "[_]"] by auto
  next
    case esc: False
    then obtain n cs2 where n: "cs1 = n # cs2" using getchar_long [of "count - i - 1" cs1] len c by auto
    consider "n = 27" | "n \<noteq> 27" "n \<noteq> 91 \<or> i + 2 \<ge> count" | "n = 91" "i + 2 < count" by fastforce
    then show ?thesis
    proof cases
      case 1
      then have "i' = i + 2" "cs' = cs2" "inputs' = inputs @ [word_of_int c]"
        using step esc by (auto simp: key_step_def Let_def c n)
      then show ?thesis using esc len c n readsI [of cs "[c, n]" cs' i' i count inputs' inputs "[word_of_int c]"] by auto
    next
      case 2
      then have "i' = count" "cs' = cs2" "inputs' = inputs"
        using step esc by (auto simp: key_step_def Let_def c n)
      then show ?thesis using esc c n readsI [of cs "[c, n]" cs' i' i count inputs' inputs "[]"] by auto
    next
      case 3
      then obtain k cs3 where k: "cs2 = k # cs3" using getchar_long [of "count - i - 2" cs2] len c n by auto
      show ?thesis
      proof (cases "65 \<le> k \<and> k \<le> 68 \<or> k = 90")
        case True
        then have "i' = i + 3" "cs' = cs3" "\<exists>x. inputs' = inputs @ [x]"
          using step esc 3 by (auto simp: key_step_def Let_def c n k split: if_splits)
        then show ?thesis using 3 len c n k readsI [of cs "[c, n, k]" cs' i' i count inputs' inputs "[_]"] by auto
      next
        case False
        then have "key_params count (i + 3) k cs3 inputs = (i', cs', inputs')"
          using step esc 3 by (auto simp: key_step_def Let_def c n k add.commute)
        from key_params_reads [OF _ _ this] 3 len obtain used where "i' \<le> count" "count - i' \<le> int (length cs')"
          "cs3 = used @ cs'" "int (length used) = i' - (i + 3)" "inputs' = inputs \<or> (\<exists>x. inputs' = inputs @ [x])"
          by (auto simp: c n k)
        then show ?thesis using c n k readsI [of cs "c # n # k # used" cs' i' i count inputs' inputs "[]"]
          readsI [of cs "c # n # k # used" cs' i' i count inputs' inputs "[_]"] by auto
      qed
    qed
  qed
qed

lemma key_loop_reads:
  assumes "i \<le> count" "count - i \<le> int (length cs)" "key_loop count i cs inputs = (inputs', cs')"
  shows "reads count i cs inputs count cs' inputs'"
  using assms
proof (induction count i cs inputs rule: key_loop.induct)
  case (1 count i cs inputs)
  show ?case
  proof (cases "i < count")
    case True
    obtain i1 cs1 inputs1 where step: "key_step count i cs inputs = (i1, cs1, inputs1)" by (metis prod_cases3)
    note r = key_step_reads [OF True 1(3) step]
    have "key_loop count i1 cs1 inputs1 = (inputs', cs')"
      using 1(4) True by (subst (asm) key_loop.simps) (simp add: step)
    then have "reads count i1 cs1 inputs1 count cs' inputs'"
      using 1(1) [OF True step [symmetric] refl refl] r by (simp add: reads_def)
    then obtain u n where a: "cs1 = u @ cs'" "int (length u) \<le> count - i1" "inputs' = inputs1 @ n" "length n \<le> length u"
      unfolding reads_def by blast
    from r obtain u' n' where b: "cs = u' @ cs1" "int (length u') \<le> i1 - i" "inputs1 = inputs @ n'" "length n' \<le> length u'"
      unfolding reads_def by blast
    show ?thesis by (rule readsI [of _ "u' @ u" _ _ _ _ _ _ "n' @ n"]) (use a b in auto)
  next
    case False
    then show ?thesis using 1(2,4) by (subst (asm) key_loop.simps) (auto simp: reads_def)
  qed
qed

end
