(* ===== verification/Terminal.thy ===== *)
theory Terminal
  imports Render Keys
begin

text \<open>
  The model of \<^verbatim>\<open>struct Terminal\<close> of \<^verbatim>\<open>main.cpp\<close>: the escape sequences it writes, the drawing of the
  changed part of a frame, the decoding of key presses and the tick that ties them to the game.
  Output is the list of items written to \<^verbatim>\<open>std::cout\<close>; \<open>emit\<close> gives the bytes of an item.
\<close>

section \<open>Output\<close>

definition ColorIndex :: "8 word \<Rightarrow> 8 word \<Rightarrow> 16 word" where
  "ColorIndex f b = ucast ((push_bit 8 (ucast f) OR ucast b) + 1 :: 32 word)"

fun show_nat :: "nat \<Rightarrow> string" where
  "show_nat n = (if n < 10 then [char_of (48 + n)] else show_nat (n div 10) @ [char_of (48 + n mod 10)])"

declare show_nat.simps [simp del]

definition show_int :: "int \<Rightarrow> string" where
  "show_int i = (if i < 0 then CHR ''-'' # show_nat (nat (- i)) else show_nat (nat i))"

text \<open>\<open>CursorTo\<close> takes the row and the column, counted from 1.\<close>

datatype out =
    CursorTo int int
  | FgDefault | Fg256 "8 word" | BgDefault | Bg256 "8 word"
  | Spaces2 | Wide3 char char char | Narrow char
  | EraseLine | Text string

definition ESC :: char where "ESC = CHR 0x1B"

fun emit :: "out \<Rightarrow> string" where
  "emit (CursorTo r c) = [ESC, CHR ''[''] @ show_int r @ '';'' @ show_int c @ ''H''"
| "emit FgDefault = ESC # ''[39m''"
| "emit (Fg256 v) = ESC # ''[38;5;'' @ show_int (uint v) @ ''m''"
| "emit BgDefault = ESC # ''[49m''"
| "emit (Bg256 v) = ESC # ''[48;5;'' @ show_int (uint v) @ ''m''"
| "emit Spaces2 = ''  ''"
| "emit (Wide3 c2 c1 c0) = [c2, c1, c0]"
| "emit (Narrow c) = [c]"
| "emit EraseLine = ESC # ''[2K''"
| "emit (Text s) = s"

definition moveCursor :: "point \<Rightarrow> out list" where
  "moveCursor p = [CursorTo (py p + 1) (px p + 1)]"

definition setForegroundColor :: "color \<Rightarrow> out list" where
  "setForegroundColor c = (if color_eq c kNone then [FgDefault] else [Fg256 (color_value c)])"

definition setBackgroundColor :: "color \<Rightarrow> out list" where
  "setBackgroundColor c = (if color_eq c kNone then [BgDefault] else [Bg256 (color_value c)])"

definition setColors :: "color \<Rightarrow> color \<Rightarrow> out list" where
  "setColors f b = setForegroundColor f @ setBackgroundColor b"

text \<open>The glyph as it is written, with the number of columns the loop moves on.\<close>

definition put_glyph :: "glyph \<Rightarrow> out \<times> int" where
  "put_glyph g =
     (if ch g = 0xff00 then (Spaces2, 2)
      else if ch g > 0xff00 then
        (Wide3 (CHR 0xEF) (CHR 0xBC) (char_of (unat ((ch g AND 0x3f) OR 0x80))), 2)
      else (Narrow (char_of (unat (ucast (ch g) :: 8 word))), 1))"

section \<open>Drawing the difference\<close>

definition diff_span :: "glyph matrix \<Rightarrow> glyph matrix \<Rightarrow> int \<Rightarrow> int \<times> int" where
  "diff_span old frame row =
     fold (\<lambda>col (min_col, max_col).
         let point = Point col row
         in if glyph_eq (matrix_get old point) (matrix_get frame point) then (min_col, max_col)
            else (min min_col col, max max_col col))
       [0..px (m_size old) - 1] (px (m_size old), 0)"

function draw_cols :: "glyph matrix \<Rightarrow> int \<Rightarrow> int \<Rightarrow> int \<Rightarrow> glyph \<Rightarrow> glyph matrix \<Rightarrow> out list \<times> glyph matrix" where
  "draw_cols frame row max_col col prev old =
     (if col \<le> max_col then
        let point = Point col row;
            glyph = matrix_get frame point;
            colors = (if color_neq (fg glyph) (fg prev) then setForegroundColor (fg glyph) else []) @
              (if color_neq (bg glyph) (bg prev) then setBackgroundColor (bg glyph) else []);
            old = matrix_set old point glyph;
            (out, width) = put_glyph glyph;
            (rest, old) = draw_cols frame row max_col (col + width) glyph old
        in (colors @ out # rest, old)
      else ([], old))"
  by pat_completeness auto
termination
  by (relation "measure (\<lambda>(frame, row, max_col, col, prev, old). nat (max_col + 1 - col))")
    (auto simp: put_glyph_def split: if_splits)

declare draw_cols.simps [simp del]

definition draw_row :: "glyph matrix \<Rightarrow> point \<Rightarrow> int \<Rightarrow> glyph matrix \<Rightarrow> out list \<times> glyph matrix" where
  "draw_row frame off row old =
     (let (min_col, max_col) = diff_span old frame row
      in if min_col > max_col then ([], old)
         else
           let point = Point min_col row;
               glyph = matrix_get frame point;
               (out, old) = draw_cols frame row max_col min_col glyph old
           in (moveCursor (off + point) @ setColors (fg glyph) (bg glyph) @ out, old))"

definition draw_frame :: "glyph matrix \<Rightarrow> point \<Rightarrow> glyph matrix \<Rightarrow> out list \<times> glyph matrix" where
  "draw_frame frame off old =
     fold (\<lambda>row (out, old). let (o', old) = draw_row frame off row old in (out @ o', old))
       [0..py (m_size old) - 1] ([], old)"

definition draw_status :: "point \<Rightarrow> string \<Rightarrow> out list" where
  "draw_status sz status =
     (let col = px sz - int (length status)
      in moveCursor (Point (col - 1) (py sz - 1)) @ setColors kNone kNone @ [EraseLine, Text status])"

section \<open>The terminal\<close>

record 'g terminal =
  t_io :: "'g io"
  terminalSize :: point
  lastFrame :: "glyph matrix"

text \<open>\<open>flags\<close> stands for \<^verbatim>\<open>ICANON | ECHO\<close>; the second component is the new \<^verbatim>\<open>c_lflag\<close>.\<close>

definition initTerminal :: "32 word \<Rightarrow> bool \<Rightarrow> 32 word \<Rightarrow> out list \<times> 32 word" where
  "initTerminal flags enabled c_lflag =
     ([Text (if enabled then [ESC] @ ''[?1049h'' @ [ESC] @ ''[?25l'' else [ESC] @ ''[?1049l'' @ [ESC] @ ''[?25h'')],
      if enabled then c_lflag AND NOT flags else c_lflag OR flags)"

definition Terminal :: "('t \<Rightarrow> 'g) \<Rightarrow> 'g roll \<Rightarrow> (nat \<Rightarrow> 't) \<Rightarrow> 32 word \<Rightarrow> 32 word \<Rightarrow> point \<Rightarrow>
    (out list \<times> 32 word \<times> 'g terminal) res option" where
  "Terminal mt roll clock flags c_lflag winsize =
     map_option (\<lambda>r. rbind r (\<lambda>io.
         let (out, c_lflag) = initTerminal flags True c_lflag
         in Inr (out, c_lflag, \<lparr>t_io = io, terminalSize = winsize, lastFrame = io_frame io\<rparr>)))
       (IO mt roll clock)"

definition exit :: "32 word \<Rightarrow> 32 word \<Rightarrow> out list \<times> 32 word" where
  "exit flags c_lflag = initTerminal flags False c_lflag"

definition term_tick :: "'g roll \<Rightarrow> int \<Rightarrow> int list \<Rightarrow> string \<Rightarrow> 'g terminal \<Rightarrow>
    (out list \<times> int list \<times> 'g terminal) res option" where
  "term_tick roll count cs status t =
     (let (inputs, cs) = getKeyInputs count cs (io_inputs (t_io t))
      in map_option (\<lambda>r. rbind r (\<lambda>io.
           let sz = m_size (lastFrame t)
           in assert (sz = m_size (io_frame io))
             (let off = Point ((px (terminalSize t) - px sz) sdiv 2) ((py (terminalSize t) - py sz) sdiv 2);
                  (out, old) = draw_frame (io_frame io) off (lastFrame t)
              in Inr (out @ draw_status (terminalSize t) status, cs, t\<lparr>t_io := io, lastFrame := old\<rparr>))))
         (io_tick roll ((t_io t)\<lparr>io_inputs := inputs\<rparr>)))"

end
