(* ===== verification/Screen.thy ===== *)
theory Screen
  imports Terminal
begin

text \<open>
  Drawing is correct: after \<open>draw_frame\<close> the remembered frame is the new frame, and the items it wrote,
  read by the standard meaning of the escape sequences, turn a screen that showed the old frame into
  one that shows the new frame. A screen keeps a code point with its colours per cell; a full-width
  character belongs to the left one of its two cells.
\<close>

section \<open>The meaning of the output\<close>

record screen =
  cur :: point
  sfg :: color
  sbg :: color
  cells :: "point \<Rightarrow> nat \<times> color \<times> color"

definition utf8_3 :: "char \<Rightarrow> char \<Rightarrow> char \<Rightarrow> nat" where
  "utf8_3 c2 c1 c0 = (of_char c2 mod 16) * 4096 + (of_char c1 mod 64) * 64 + of_char c0 mod 64"

definition put_cell :: "nat \<Rightarrow> int \<Rightarrow> screen \<Rightarrow> screen" where
  "put_cell code width s =
     s\<lparr>cells := (cells s)(cur s := (code, sfg s, sbg s)), cur := cur s + Point width 0\<rparr>"

fun show_out :: "out \<Rightarrow> screen \<Rightarrow> screen" where
  "show_out (CursorTo r c) s = s\<lparr>cur := Point (c - 1) (r - 1)\<rparr>"
| "show_out FgDefault s = s\<lparr>sfg := kNone\<rparr>"
| "show_out (Fg256 v) s = s\<lparr>sfg := Color v\<rparr>"
| "show_out BgDefault s = s\<lparr>sbg := kNone\<rparr>"
| "show_out (Bg256 v) s = s\<lparr>sbg := Color v\<rparr>"
| "show_out Spaces2 s = put_cell 0xff00 2 s"
| "show_out (Wide3 c2 c1 c0) s = put_cell (utf8_3 c2 c1 c0) 2 s"
| "show_out (Narrow c) s = put_cell (of_char c) 1 s"
| "show_out EraseLine s = s\<lparr>cells := (\<lambda>p. if py p = py (cur s) then (0, kNone, sbg s) else cells s p)\<rparr>"
| "show_out (Text t) s = fold (\<lambda>c. put_cell (of_char c) 1) t s"

definition cell_of :: "glyph \<Rightarrow> nat \<times> color \<times> color" where
  "cell_of g = (unat (ch g), fg g, bg g)"

lemma show_setColors [simp]:
  "fold show_out (setForegroundColor c) s = s\<lparr>sfg := c\<rparr>"
  "fold show_out (setBackgroundColor c) s = s\<lparr>sbg := c\<rparr>"
  by (cases c; auto simp: setForegroundColor_def setBackgroundColor_def color_eq_def kNone_def)+

text \<open>The three bytes written for a full-width glyph are the UTF-8 encoding of its code point.\<close>

lemma low6: "unat ((w AND 0x3f) OR 0x80 :: 16 word) mod 64 = unat w mod 64"
proof -
  have "take_bit 6 ((w AND 0x3f) OR 0x80) = take_bit 6 w"
    by (simp add: take_bit_or take_bit_and) (simp add: take_bit_eq_mask mask_eq_exp_minus_1)
  then have "unat (take_bit 6 ((w AND 0x3f) OR 0x80)) = unat (take_bit 6 w)" by simp
  then have "take_bit 6 (unat ((w AND 0x3f) OR 0x80)) = take_bit 6 (unat w)"
    by (simp only: unsigned_take_bit_eq)
  then show ?thesis by (simp only: take_bit_eq_mod) simp
qed

lemma utf8_wide:
  assumes "wide g" "ch g \<noteq> 0xff00"
  shows "put_glyph g = (Wide3 (CHR 0xEF) (CHR 0xBC) (char_of (unat ((ch g AND 0x3f) OR 0x80))), 2)"
    "utf8_3 (CHR 0xEF) (CHR 0xBC) (char_of (unat ((ch g AND 0x3f) OR 0x80))) = unat (ch g)"
proof -
  have "unat (ch g) \<ge> 0xff00" "unat (ch g) < 0xff40"
    using assms(1) by (simp_all add: wide_def word_le_nat_alt word_less_nat_alt)
  then obtain k where "unat (ch g) = 0xff00 + k" "k < 64" by (auto simp: le_iff_add)
  moreover have "(65280 + k) mod 64 = k" if "k < 64" for k :: nat
    using that mod_mult_self4 [of 64 1020 k] by simp
  ultimately have r: "0xff00 + unat (ch g) mod 64 = unat (ch g)" by simp
  have "of_char (char_of (unat ((ch g AND 0x3f) OR 0x80))) mod 64 = unat (ch g) mod 64"
    using low6 [of "ch g"] by (simp add: mod_mod_cancel)
  then show "utf8_3 (CHR 0xEF) (CHR 0xBC) (char_of (unat ((ch g AND 0x3f) OR 0x80))) = unat (ch g)"
    using r by (simp add: utf8_3_def)
  show "put_glyph g = (Wide3 (CHR 0xEF) (CHR 0xBC) (char_of (unat ((ch g AND 0x3f) OR 0x80))), 2)"
    using assms by (auto simp: put_glyph_def wide_def)
qed

lemma show_glyph:
  assumes "wide g"
  shows "show_out (fst (put_glyph g)) s = put_cell (unat (ch g)) 2 s" "snd (put_glyph g) = 2"
proof -
  have "show_out (fst (put_glyph g)) s = put_cell (unat (ch g)) 2 s \<and> snd (put_glyph g) = 2"
  proof (cases "ch g = 0xff00")
    case True
    then show ?thesis by (simp add: put_glyph_def)
  next
    case False
    from utf8_wide [OF assms this] show ?thesis by simp
  qed
  then show "show_out (fst (put_glyph g)) s = put_cell (unat (ch g)) 2 s" "snd (put_glyph g) = 2" by auto
qed

section \<open>One row\<close>

text \<open>The cells that \<open>draw_cols\<close> writes: every second column from \<open>col\<close> to \<open>max_col\<close>.\<close>

definition stride :: "int \<Rightarrow> int \<Rightarrow> int \<Rightarrow> point \<Rightarrow> bool" where
  "stride row col max_col q \<longleftrightarrow> py q = row \<and> col \<le> px q \<and> px q \<le> max_col \<and> even (px q - col)"

lemma stride_step:
  assumes "col \<le> max_col"
  shows "stride row col max_col q \<longleftrightarrow> q = Point col row \<or> stride row (col + 2) max_col q"
proof (cases q)
  case (Point x y)
  have "x = col" if "col \<le> x" "\<not> col + 2 \<le> x" "even (x - col)"
  proof -
    have "x = col \<or> x = col + 1" using that by linarith
    with that(3) show ?thesis by auto
  qed
  with assms Point show ?thesis by (auto simp: stride_def)
qed

lemma draw_cols_writes:
  assumes "matrix_wf old" "m_size old = m_size frame" "m_init old = m_init frame"
    "0 \<le> col" "max_col < px (m_size frame)" "0 \<le> row" "row < py (m_size frame)"
    "\<And>q. stride row col max_col q \<Longrightarrow> wide (matrix_get frame q)"
    "draw_cols frame row max_col col prev old = (out, new)"
  shows "matrix_wf new \<and> m_size new = m_size frame \<and> m_init new = m_init frame \<and>
    (\<forall>q. matrix_get new q = (if stride row col max_col q then matrix_get frame q else matrix_get old q))"
  using assms
proof (induction frame row max_col col prev old arbitrary: out rule: draw_cols.induct)
  case (1 frame row max_col col prev old)
  show ?case
  proof (cases "col \<le> max_col")
    case True
    let ?p = "Point col row" and ?g = "matrix_get frame (Point col row)"
    have g: "wide ?g" using 1(9) stride_step [OF True] by blast
    have inside: "matrix_contains old ?p" using 1(2-8) True by (simp add: matrix_contains_def)
    obtain out' where rest: "draw_cols frame row max_col (col + 2) ?g (matrix_set old ?p ?g) = (out', new)"
      using 1(10) True show_glyph(2) [OF g]
      by (subst (asm) draw_cols.simps) (auto simp: Let_def split: prod.splits)
    have "matrix_wf new \<and> m_size new = m_size frame \<and> m_init new = m_init frame \<and>
      (\<forall>q. matrix_get new q = (if stride row (col + 2) max_col q then matrix_get frame q
        else matrix_get (matrix_set old ?p ?g) q))"
    proof (rule 1(1) [OF True refl refl refl refl])
      show "(fst (put_glyph ?g), 2) = put_glyph ?g" using show_glyph(2) [OF g] by (metis prod.collapse)
      show "\<And>q. stride row (col + 2) max_col q \<Longrightarrow> wide (matrix_get frame q)"
        using 1(9) stride_step [OF True] by blast
      show "matrix_wf (matrix_set old ?p ?g)" using 1(2) by (rule matrix_grid.wf_set)
    qed (use 1(3-8) rest in simp_all)
    then show ?thesis
      using inside stride_step [OF True, of row] 1(2) by (auto simp: matrix_get_set)
  next
    case False
    then have "new = old" "\<And>q. \<not> stride row col max_col q"
      using 1(10) by (auto simp: draw_cols.simps stride_def)
    then show ?thesis using 1(2-4) by simp
  qed
qed

lemma draw_cols_shows:
  assumes "\<And>q. stride row col max_col q \<Longrightarrow> wide (matrix_get frame q)"
    "draw_cols frame row max_col col prev old = (out, new)"
    "sfg s = fg prev" "sbg s = bg prev" "cur s = off + Point col row"
  shows "cells (fold show_out out s) p =
    (if stride row col max_col (p - off) then cell_of (matrix_get frame (p - off)) else cells s p)"
  using assms
proof (induction frame row max_col col prev old arbitrary: out s rule: draw_cols.induct)
  case (1 frame row max_col col prev old)
  show ?case
  proof (cases "col \<le> max_col")
    case True
    let ?p = "Point col row" and ?g = "matrix_get frame (Point col row)"
    let ?colors = "(if color_neq (fg ?g) (fg prev) then setForegroundColor (fg ?g) else []) @
      (if color_neq (bg ?g) (bg prev) then setBackgroundColor (bg ?g) else [])"
    have g: "wide ?g" using 1(2) stride_step [OF True] by blast
    have pg: "put_glyph ?g = (fst (put_glyph ?g), 2)" using show_glyph(2) [OF g] by (metis prod.collapse)
    obtain out' where rest: "draw_cols frame row max_col (col + 2) ?g (matrix_set old ?p ?g) = (out', new)"
      and out: "out = ?colors @ fst (put_glyph ?g) # out'"
      using 1(3) True pg by (subst (asm) draw_cols.simps) (auto simp: Let_def split: prod.splits)
    define s' where "s' = put_cell (unat (ch ?g)) 2 (s\<lparr>sfg := fg ?g, sbg := bg ?g\<rparr>)"
    have "fold show_out ?colors s = s\<lparr>sfg := fg ?g, sbg := bg ?g\<rparr>"
      using 1(4,5) by (simp add: color_neq_iff)
    then have first: "fold show_out out s = fold show_out out' s'"
      by (simp add: out s'_def show_glyph(1) [OF g])
    have s': "sfg s' = fg ?g" "sbg s' = bg ?g" "cur s' = off + Point (col + 2) row"
      "cells s' = (cells s)(off + ?p := cell_of ?g)"
      using 1(6) by (simp_all add: s'_def put_cell_def cell_of_def point_eqI)
    have "cells (fold show_out out' s') p = (if stride row (col + 2) max_col (p - off)
        then cell_of (matrix_get frame (p - off)) else cells s' p)"
    proof (rule 1(1) [OF True refl refl refl refl refl pg [symmetric] _ rest s'(1-3)])
      show "\<And>q. stride row (col + 2) max_col q \<Longrightarrow> wide (matrix_get frame q)"
        using 1(2) stride_step [OF True] by blast
    qed
    moreover have "p = off + ?p \<longleftrightarrow> p - off = ?p" by (simp add: algebra_simps)
    ultimately show ?thesis
      unfolding first using stride_step [OF True, of row "p - off"] by (auto simp: s'(4))
  next
    case False
    then have "out = []" "\<not> stride row col max_col (p - off)"
      using 1(3) by (auto simp: draw_cols.simps stride_def)
    then show ?thesis by simp
  qed
qed

text \<open>The span of the changed columns.\<close>

lemma span_fold:
  fixes D :: "int \<Rightarrow> bool"
  defines "f \<equiv> \<lambda>col (mn, mx). if D col then (min mn col, max mx col) else (mn, mx)"
  assumes "fold f xs (a, b) = (mn, mx)"
  shows "mn \<le> a \<and> b \<le> mx \<and> (\<forall>c \<in> set xs. D c \<longrightarrow> mn \<le> c \<and> c \<le> mx) \<and>
    (mn = a \<or> mn \<in> set xs \<and> D mn) \<and> (mx = b \<or> mx \<in> set xs \<and> D mx)"
  using assms(2)
proof (induction xs arbitrary: a b)
  case (Cons c xs)
  show ?case
  proof (cases "D c")
    case True
    then have "fold f xs (min a c, max b c) = (mn, mx)" using Cons.prems by (simp add: f_def)
    from Cons.IH [OF this] show ?thesis using True by (auto simp: min_def max_def split: if_splits)
  next
    case False
    then have "fold f xs (a, b) = (mn, mx)" using Cons.prems by (simp add: f_def)
    from Cons.IH [OF this] show ?thesis using False by auto
  qed
qed simp

lemma diff_span_eq:
  "diff_span old frame row = fold (\<lambda>col (mn, mx).
     if matrix_get old (Point col row) \<noteq> matrix_get frame (Point col row) then (min mn col, max mx col) else (mn, mx))
   [0..px (m_size old) - 1] (px (m_size old), 0)"
proof -
  have "glyph_eq g h \<longleftrightarrow> g = h" for g h
    by (cases "fg g"; cases "bg g"; cases "fg h"; cases "bg h") (auto simp: glyph_eq_def color_eq_def)
  then show ?thesis
    unfolding diff_span_def Let_def by (intro fold_cong_set) (auto split: prod.splits)
qed

lemma diff_span_cover:
  assumes "diff_span old frame row = (mn, mx)" "m_size old = m_size frame"
  shows "\<And>c. 0 \<le> c \<Longrightarrow> c < px (m_size frame) \<Longrightarrow>
      matrix_get old (Point c row) \<noteq> matrix_get frame (Point c row) \<Longrightarrow> mn \<le> c \<and> c \<le> mx"
    "mn \<le> mx \<Longrightarrow> 0 < px (m_size frame) \<Longrightarrow> 0 \<le> mn \<and> mx < px (m_size frame) \<and>
      matrix_get old (Point mn row) \<noteq> matrix_get frame (Point mn row)"
  using span_fold [of "\<lambda>c. matrix_get old (Point c row) \<noteq> matrix_get frame (Point c row)"
      "[0..px (m_size old) - 1]" "px (m_size old)" 0 mn mx] assms
  by (auto simp: diff_span_eq)

section \<open>The whole frame\<close>

text \<open>
  \<open>drawable_frame\<close> is the shape of the frames that the game draws: full-width glyphs in the even
  columns, nothing in the odd ones. A screen \<open>shows\<close> a frame when every glyph of it that was ever
  drawn is on the screen.
\<close>

definition full_frame :: "glyph matrix \<Rightarrow> bool" where
  "full_frame f \<longleftrightarrow> frame_ok f \<and> (\<forall>q. matrix_contains f q \<longrightarrow> even (px q) \<longrightarrow> wide (matrix_get f q))"

definition shows_frame :: "point \<Rightarrow> screen \<Rightarrow> glyph matrix \<Rightarrow> bool" where
  "shows_frame off s f \<longleftrightarrow> (\<forall>q. matrix_contains f q \<longrightarrow> even (px q) \<longrightarrow> matrix_get f q \<noteq> glyph_default \<longrightarrow>
     cells s (off + q) = cell_of (matrix_get f q))"

text \<open>What drawing one row does to the remembered frame and to the screen.\<close>

lemma draw_row_effect:
  assumes old: "frame_ok old" and frame: "full_frame frame" and row: "0 \<le> row" "row < kMapSize"
    and draw: "draw_row frame off row old = (out, new)" and shown: "shows_frame off s old"
  shows "frame_ok new \<and> (\<forall>q. matrix_get new q = (if py q = row then matrix_get frame q else matrix_get old q)) \<and>
    shows_frame off (fold show_out out s) new \<and>
    (\<forall>p. \<not> (matrix_contains frame (p - off)) \<longrightarrow> cells (fold show_out out s) p = cells s p)"
proof -
  have ok: "frame_ok frame" using frame by (simp add: full_frame_def)
  have size: "m_size old = m_size frame" "px (m_size frame) = 2 * kMapSize" "py (m_size frame) = kMapSize"
    "0 < px (m_size frame)" "m_init old = m_init frame" "matrix_wf old" "matrix_wf frame"
    using old ok by (auto simp: frame_ok_def kMapSize_def)
  obtain mn mx where span: "diff_span old frame row = (mn, mx)" by fastforce
  note cover = diff_span_cover [OF span size(1)]
  have same: "matrix_get old q = matrix_get frame q" if "py q = row" "\<not> (mn \<le> px q \<and> px q \<le> mx) \<or> odd (px q)" for q
  proof (cases "matrix_contains frame q")
    case True
    then have "0 \<le> px q" "px q < px (m_size frame)" by (simp_all add: matrix_contains_def)
    moreover have "q = Point (px q) row" using that(1) by (simp add: point_eqI)
    moreover have "odd (px q) \<Longrightarrow> matrix_get old q = glyph_default \<and> matrix_get frame q = glyph_default"
      using old ok by (simp add: frame_ok_def)
    ultimately show ?thesis using that(2) cover(1) [of "px q"] by metis
  next
    case False
    moreover from this have "\<not> matrix_contains old q" using size(1) by (simp add: matrix_contains_def)
    ultimately show ?thesis using size(5) by (simp add: matrix_get_def)
  qed
  show ?thesis
  proof (cases "mn > mx")
    case True
    then have "out = []" "new = old" using draw by (simp_all add: draw_row_def span)
    then show ?thesis using True old shown same by auto
  next
    case False
    then have mm: "0 \<le> mn" "mx < px (m_size frame)" "matrix_get old (Point mn row) \<noteq> matrix_get frame (Point mn row)"
      using cover(2) size(4) by auto
    then have "even mn" using same [of "Point mn row"] by auto
    then have st: "stride row mn mx q \<longleftrightarrow> py q = row \<and> mn \<le> px q \<and> px q \<le> mx \<and> even (px q)" for q
      by (auto simp: stride_def)
    have wide: "wide (matrix_get frame q)" if "stride row mn mx q" for q
      using that frame mm row size(2,3) by (auto simp: st full_frame_def matrix_contains_def)
    let ?g = "matrix_get frame (Point mn row)"
    obtain out' where cols: "draw_cols frame row mx mn ?g old = (out', new)"
      and out: "out = moveCursor (off + Point mn row) @ setColors (fg ?g) (bg ?g) @ out'"
      using draw False by (auto simp: draw_row_def span Let_def split: prod.splits)
    have new: "matrix_wf new \<and> m_size new = m_size frame \<and> m_init new = m_init frame \<and>
        (\<forall>q. matrix_get new q = (if stride row mn mx q then matrix_get frame q else matrix_get old q))"
      by (rule draw_cols_writes [OF size(6,1,5) mm(1,2) row(1) _ wide cols]) (use row size in simp)
    then have get: "matrix_get new q = (if py q = row then matrix_get frame q else matrix_get old q)" for q
      using same [of q] by (auto simp: st)
    let ?s = "s\<lparr>cur := off + Point mn row, sfg := fg ?g, sbg := bg ?g\<rparr>"
    have "fold show_out out s = fold show_out out' ?s"
      using point_eqI [of "Point (px off + mn) (py off + row)" "off + Point mn row"]
      by (simp add: out moveCursor_def setColors_def)
    then have cells: "cells (fold show_out out s) p =
        (if stride row mn mx (p - off) then cell_of (matrix_get frame (p - off)) else cells s p)" for p
      using draw_cols_shows [OF wide cols, of ?s off p] by simp
    have "frame_ok new" using new get old ok by (simp add: frame_ok_def)
    moreover have "shows_frame off (fold show_out out s) new"
      unfolding shows_frame_def
    proof (intro allI impI)
      fix q assume q: "matrix_contains new q" "even (px q)" "matrix_get new q \<noteq> glyph_default"
      then have "matrix_contains old q" using new size(1) by (simp add: matrix_contains_def)
      then show "cells (fold show_out out s) (off + q) = cell_of (matrix_get new q)"
        using q shown same [of q] by (auto simp: cells get st shows_frame_def)
    qed
    moreover have "\<not> stride row mn mx (p - off)" if "\<not> matrix_contains frame (p - off)" for p
      using that mm row size(2,3) by (auto simp: st matrix_contains_def)
    ultimately show ?thesis using get by (simp add: cells)
  qed
qed

definition rows_done :: "int \<Rightarrow> glyph matrix \<Rightarrow> glyph matrix \<Rightarrow> glyph matrix \<Rightarrow> bool" where
  "rows_done k frame old new \<longleftrightarrow> frame_ok new \<and>
     (\<forall>q. matrix_get new q = (if 0 \<le> py q \<and> py q < k then matrix_get frame q else matrix_get old q))"

definition drawn_rows :: "glyph matrix \<Rightarrow> point \<Rightarrow> int \<Rightarrow> glyph matrix \<Rightarrow> out list \<times> glyph matrix" where
  "drawn_rows frame off k old =
     fold (\<lambda>row (out, old). let (o', old) = draw_row frame off row old in (out @ o', old)) [0..k - 1] ([], old)"

lemma drawn_rows_Suc:
  assumes "0 \<le> k" "drawn_rows frame off k old = (out, new)" "draw_row frame off k new = (out', new')"
  shows "drawn_rows frame off (k + 1) old = (out @ out', new')"
proof -
  have "[0..k + 1 - 1] = [0..k - 1] @ [k]" using assms(1) by (simp add: upto_rec2)
  then show ?thesis using assms(2,3) by (simp add: drawn_rows_def)
qed

lemma draw_rows_effect:
  assumes old: "frame_ok old" and frame: "full_frame frame" and shown: "shows_frame off s old"
    and k: "0 \<le> k" "k \<le> kMapSize" and r: "drawn_rows frame off k old = (out, new)"
  shows "rows_done k frame old new \<and> shows_frame off (fold show_out out s) new \<and>
    (\<forall>p. \<not> matrix_contains frame (p - off) \<longrightarrow> cells (fold show_out out s) p = cells s p)"
  using k r
proof (induction k arbitrary: out new rule: int_ge_induct)
  case base
  then show ?case using old shown by (auto simp: rows_done_def drawn_rows_def)
next
  case (step k)
  obtain out1 new1 where r: "drawn_rows frame off k old = (out1, new1)" by fastforce
  obtain out2 new2 where dr: "draw_row frame off k new1 = (out2, new2)" by fastforce
  have IH: "rows_done k frame old new1" "shows_frame off (fold show_out out1 s) new1"
    "\<forall>p. \<not> matrix_contains frame (p - off) \<longrightarrow> cells (fold show_out out1 s) p = cells s p"
    using step.IH [OF _ r] step.prems(1) by auto
  then have "frame_ok new1" "k < kMapSize" using step.prems(1) by (auto simp: rows_done_def)
  note eff = draw_row_effect [OF this(1) frame step.hyps this(2) dr IH(2)]
  have "out = out1 @ out2" "new = new2"
    using drawn_rows_Suc [OF step.hyps r dr] step.prems(2) by auto
  moreover have "rows_done (k + 1) frame old new2"
    using eff IH(1) step.hyps by (auto simp: rows_done_def)
  ultimately show ?case using eff IH(3) by simp
qed

text \<open>After drawing, the remembered frame is the new one and the screen shows it.\<close>

lemma draw_frame_effect:
  assumes old: "frame_ok old" and frame: "full_frame frame" and shown: "shows_frame off s old"
    and draw: "draw_frame frame off old = (out, new)"
  shows "new = frame" "shows_frame off (fold show_out out s) frame"
    "\<not> matrix_contains frame (p - off) \<Longrightarrow> cells (fold show_out out s) p = cells s p"
proof -
  have ok: "frame_ok frame" using frame by (simp add: full_frame_def)
  have "py (m_size old) = kMapSize" using old by (simp add: frame_ok_def)
  then have r: "drawn_rows frame off kMapSize old = (out, new)"
    using draw by (simp add: draw_frame_def drawn_rows_def)
  have eff: "rows_done kMapSize frame old new" "shows_frame off (fold show_out out s) new"
    "\<And>p. \<not> matrix_contains frame (p - off) \<Longrightarrow> cells (fold show_out out s) p = cells s p"
    using draw_rows_effect [OF old frame shown _ _ r] by (auto simp: kMapSize_def)
  have "matrix_get new q = matrix_get frame q" for q
  proof (cases "0 \<le> py q \<and> py q < kMapSize")
    case False
    then show ?thesis using eff(1) old ok by (auto simp: rows_done_def matrix_get_def matrix_contains_def frame_ok_def)
  qed (use eff(1) in \<open>auto simp: rows_done_def\<close>)
  then show new: "new = frame"
    using eff(1) ok by (intro matrix_eqI) (auto simp: rows_done_def frame_ok_def kMapSize_def)
  show "shows_frame off (fold show_out out s) frame" using eff(2) new by simp
  show "\<not> matrix_contains frame (p - off) \<Longrightarrow> cells (fold show_out out s) p = cells s p" by (rule eff(3))
qed

section \<open>A tick of the terminal\<close>

text \<open>The status line is written on the last row of the terminal and nowhere else.\<close>

lemma text_cells:
  assumes "py p \<noteq> py (cur s)"
  shows "cells (fold (\<lambda>c. put_cell (of_char c) 1) t s) p = cells s p"
  using assms by (induction t arbitrary: s) (auto simp: put_cell_def)

lemma draw_status_cells:
  assumes "py p \<noteq> py sz - 1"
  shows "cells (fold show_out (draw_status sz status) s) p = cells s p"
  using assms by (simp add: draw_status_def moveCursor_def setColors_def Let_def text_cells)

definition frame_offset :: "point \<Rightarrow> point" where
  "frame_offset w = Point ((px w - 2 * kMapSize) sdiv 2) ((py w - kMapSize) sdiv 2)"

text \<open>A terminal that is tall enough has a row below the frame for the status line.\<close>

lemma frame_above_status:
  assumes "32 \<le> py w" "frame_ok f" "matrix_contains f q"
  shows "py (frame_offset w + q) < py w - 1"
proof -
  have "(py w - 31) sdiv 2 = (py w - 31) div 2"
    using assms(1) by (simp add: signed_divide_int_def)
  moreover have "py q < 31" using assms(2,3) by (simp add: frame_ok_def matrix_contains_def kMapSize_def)
  ultimately show ?thesis using assms(1) by (simp add: frame_offset_def kMapSize_def)
qed

definition term_ok :: "'g terminal \<Rightarrow> bool" where
  "term_ok t \<longleftrightarrow> io_ok (t_io t) \<and> lastFrame t = io_frame (t_io t)"

lemma io_tick_full:
  fixes io :: "'g io"
  assumes "io_ok io" "die_ok roll" "io_tick roll io = Some (Inr io')"
  shows "io_ok io'" "full_frame (io_frame io')"
proof -
  obtain s :: "'g state" where s: "io_ok io'" "game_ok s"
    "\<forall>p. matrix_contains (m_map (st_board s)) p \<longrightarrow>
       matrix_get (io_frame io') (frame_cell p) = shown s (player_vision s) p"
    using io_tick_ok [OF assms(1,2)] assms(3) by auto
  then have f: "frame_ok (io_frame io')" by (simp add: io_ok_def)
  have "wide (matrix_get (io_frame io') q)" if q0: "matrix_contains (io_frame io') q" "even (px q)" for q
  proof -
    obtain x where x: "px q = 2 * x" using q0(2) by (elim evenE)
    then have q: "q = frame_cell (Point x (py q))" by (cases q) (simp add: frame_cell_eq)
    have "matrix_contains (m_map (st_board s)) (Point x (py q))"
      using q0(1) s(2) f x by (simp add: matrix_contains_def frame_ok_def game_ok_def getSize_def matrix_size_def)
    then show ?thesis using s(3) shown_wide [OF s(2)] q by metis
  qed
  then show "io_ok io'" "full_frame (io_frame io')" using s(1) f by (auto simp: full_frame_def)
qed

lemma term_tick_ok:
  assumes t: "term_ok t" and die: "die_ok roll"
  shows "\<exists>out cs' t'. term_tick roll count cs status t = Some (Inr (out, cs', t')) \<and> term_ok t' \<and>
    terminalSize t' = terminalSize t \<and>
    io_tick roll ((t_io t)\<lparr>io_inputs := fst (getKeyInputs count cs (io_inputs (t_io t)))\<rparr>) = Some (Inr (t_io t')) \<and>
    (32 \<le> py (terminalSize t) \<longrightarrow> (\<forall>s. shows_frame (frame_offset (terminalSize t)) s (lastFrame t) \<longrightarrow>
       shows_frame (frame_offset (terminalSize t)) (fold show_out out s) (lastFrame t')))"
proof -
  obtain inputs cs' where keys: "getKeyInputs count cs (io_inputs (t_io t)) = (inputs, cs')" by fastforce
  let ?io = "(t_io t)\<lparr>io_inputs := inputs\<rparr>" and ?off = "frame_offset (terminalSize t)"
  have io: "io_ok ?io" using t by (simp add: term_ok_def io_ok_def)
  then obtain io' where tick: "io_tick roll ?io = Some (Inr io')" using io_tick_ok [OF io die] by blast
  note full = io_tick_full [OF io die tick]
  have last: "frame_ok (lastFrame t)" "lastFrame t = io_frame (t_io t)" using t by (simp_all add: term_ok_def io_ok_def)
  have size: "m_size (lastFrame t) = Point (2 * kMapSize) kMapSize" "m_size (io_frame io') = m_size (lastFrame t)"
    using last(1) full(2) by (auto simp: frame_ok_def full_frame_def)
  obtain out new where draw: "draw_frame (io_frame io') ?off (lastFrame t) = (out, new)" by fastforce
  have off: "Point ((px (terminalSize t) - px (m_size (lastFrame t))) sdiv 2)
      ((py (terminalSize t) - py (m_size (lastFrame t))) sdiv 2) = ?off" by (simp add: frame_offset_def size)
  have "\<exists>s. shows_frame ?off s (lastFrame t)"
    by (rule exI [of _ "\<lparr>cur = 0, sfg = kNone, sbg = kNone, cells = (\<lambda>p. cell_of (matrix_get (lastFrame t) (p - ?off)))\<rparr>"])
      (simp add: shows_frame_def)
  then have new: "new = io_frame io'" using draw_frame_effect(1) [OF last(1) full(2) _ draw] by blast
  let ?out = "out @ draw_status (terminalSize t) status" and ?t = "t\<lparr>t_io := io', lastFrame := new\<rparr>"
  have run: "term_tick roll count cs status t = Some (Inr (?out, cs', ?t))"
    unfolding term_tick_def keys using tick draw size(2) off by (simp add: Let_def)
  have "shows_frame ?off (fold show_out ?out s) (io_frame io')"
    if h: "32 \<le> py (terminalSize t)" and s: "shows_frame ?off s (lastFrame t)" for s
  proof -
    have "shows_frame ?off (fold show_out out s) (io_frame io')"
      by (rule draw_frame_effect(2) [OF last(1) full(2) s draw])
    moreover have "cells (fold show_out ?out s) (?off + q) = cells (fold show_out out s) (?off + q)"
      if "matrix_contains (io_frame io') q" for q
      using frame_above_status [OF h _ that] full(2) by (simp add: full_frame_def draw_status_cells)
    ultimately show ?thesis by (simp add: shows_frame_def)
  qed
  then show ?thesis
    using run full(1) tick new keys by (intro exI [of _ ?out] exI [of _ cs'] exI [of _ ?t]) (simp add: term_ok_def)
qed

end
