(* ===== verification/Timing.thy ===== *)
theory Timing
  imports Prelude
begin

text \<open>
  The model of \<^verbatim>\<open>struct Timing\<close> of \<^verbatim>\<open>main.cpp\<close>: a ring of the last 60 frames with their start and end
  times, from which the frame limiter and the load display are computed. Times are unsigned 64-bit
  nanosecond counts, and the index is a \<^verbatim>\<open>size_t\<close>. Readings of the clock are arguments.
\<close>

section \<open>Definitions\<close>

definition kFPS :: nat where "kFPS = 60"
definition kNanosPerSecond :: "64 word" where "kNanosPerSecond = 1000000000"
definition kNanosPerFrame :: "64 word" where "kNanosPerFrame = kNanosPerSecond div of_nat kFPS"

text \<open>\<^verbatim>\<open>int(0.9 * kNanosPerFrame)\<close> truncates.\<close>

definition kNanosMinDelay :: "64 word" where
  "kNanosMinDelay = word_of_int \<lfloor>9 / 10 * (of_int (uint kNanosPerFrame) :: rat)\<rfloor>"

record timing =
  tframes :: "(64 word \<times> 64 word) list"
  tused :: "64 word"
  tindex :: "64 word"

record stats =
  cpu :: rat
  fps :: rat

definition Timing :: "64 word \<Rightarrow> timing" where
  "Timing ts = \<lparr>tframes = replicate kFPS (ts, ts), tused = 0, tindex = 0\<rparr>"

definition cur_slot :: "timing \<Rightarrow> nat" where
  "cur_slot t = unat (tindex t mod of_nat kFPS)"

definition prev_slot :: "timing \<Rightarrow> nat" where
  "prev_slot t = unat ((tindex t + of_nat kFPS - 1) mod of_nat kFPS)"

text \<open>The time that \<^verbatim>\<open>block\<close> sleeps, if it does; \<open>now\<close> is its reading of the clock.\<close>

definition block :: "timing \<Rightarrow> 64 word \<Rightarrow> 64 word option" where
  "block t now =
     (let a = tframes t ! cur_slot t;
          b = tframes t ! prev_slot t;
          nxt = max (fst a + kNanosPerSecond) (fst b + kNanosMinDelay)
      in if nxt \<le> now then None else Some (min (nxt - now) kNanosPerFrame))"

definition stats_total :: "timing \<Rightarrow> 64 word" where
  "stats_total t = max (snd (tframes t ! prev_slot t) - fst (tframes t ! cur_slot t)) 1"

definition stats :: "timing \<Rightarrow> stats" where
  "stats t =
     (let total = of_nat (unat (stats_total t))
      in \<lparr>cpu = of_nat (unat (tused t)) * 100 / total,
          fps = of_nat kFPS * of_nat (unat kNanosPerSecond) / total\<rparr>)"

definition start_frame :: "timing \<Rightarrow> 64 word \<Rightarrow> timing" where
  "start_frame t now =
     (let i = cur_slot t; frame = tframes t ! i
      in t\<lparr>tused := tused t - (snd frame - fst frame), tframes := (tframes t)[i := (now, snd frame)]\<rparr>)"

definition end_frame :: "timing \<Rightarrow> 64 word \<Rightarrow> timing" where
  "end_frame t now =
     (let i = cur_slot t; frame = tframes t ! i
      in t\<lparr>tframes := (tframes t)[i := (fst frame, now)], tused := tused t + (now - fst frame),
           tindex := tindex t + 1\<rparr>)"

section \<open>The ring\<close>

definition durations :: "(64 word \<times> 64 word) list \<Rightarrow> 64 word" where
  "durations fs = sum_list (map (\<lambda>(a, b). b - a) fs)"

definition timing_ok :: "timing \<Rightarrow> bool" where
  "timing_ok t \<longleftrightarrow> length (tframes t) = kFPS \<and> tused t = durations (tframes t)"

lemma cur_slot_less: "cur_slot t < kFPS"
proof -
  have "unat (tindex t mod 60) < unat (60 :: 64 word)"
    by (simp add: unat_mod_distrib)
  then show ?thesis by (simp add: cur_slot_def kFPS_def)
qed

lemma prev_slot_less: "prev_slot t < kFPS"
proof -
  have "unat (w mod 60) < 60" for w :: "64 word" by (simp add: unat_mod_distrib)
  then show ?thesis by (simp add: prev_slot_def kFPS_def)
qed

lemma durations_update:
  "i < length fs \<Longrightarrow> durations (fs[i := (a, b)]) = durations fs - (snd (fs ! i) - fst (fs ! i)) + (b - a)"
  by (induction fs arbitrary: i) (auto simp: durations_def split: nat.splits prod.splits)

text \<open>The running total stays the sum of the durations of the ring, wrap-around included.\<close>

lemma frame_timing_ok:
  assumes "timing_ok t"
  shows "timing_ok (end_frame (start_frame t t0) t1)"
proof -
  have "cur_slot t < length (tframes t)" using assms cur_slot_less by (simp add: timing_ok_def)
  moreover have "cur_slot (start_frame t t0) = cur_slot t" by (simp add: start_frame_def cur_slot_def Let_def)
  ultimately show ?thesis
    using assms by (simp add: end_frame_def start_frame_def Let_def timing_ok_def durations_update)
qed

lemma Timing_ok: "timing_ok (Timing ts)"
  by (simp add: timing_ok_def Timing_def durations_def sum_list_replicate)

section \<open>A monotonic clock\<close>

text \<open>
  The ring, oldest frame first, and the order of its times when the clock never goes back. \<open>short\<close>
  says that the frame counter has not come near its wrap-around, \<open>2 ^ 64\<close> frames.
\<close>

definition ring :: "timing \<Rightarrow> (64 word \<times> 64 word) list" where
  "ring t = rotate (cur_slot t) (tframes t)"

definition times :: "(64 word \<times> 64 word) list \<Rightarrow> nat list" where
  "times fs = concat (map (\<lambda>(a, b). [unat a, unat b]) fs)"

definition chained :: "timing \<Rightarrow> bool" where
  "chained t \<longleftrightarrow> length (tframes t) = kFPS \<and> sorted (times (ring t))"

definition short :: "timing \<Rightarrow> bool" where
  "short t \<longleftrightarrow> unat (tindex t) < 2 ^ 64 - 60"

lemma cur_slot_eq: "cur_slot t = unat (tindex t) mod 60"
  by (simp add: cur_slot_def kFPS_def unat_mod_distrib)

lemma prev_slot_eq:
  assumes "short t"
  shows "prev_slot t = (cur_slot t + 59) mod 60"
proof -
  have "prev_slot t = unat (tindex t + 59) mod 60"
    by (simp add: prev_slot_def kFPS_def unat_mod_distrib add_diff_eq [symmetric])
  moreover have "unat (tindex t + 59) = unat (tindex t) + 59"
    using assms by (subst unat_add_lem [THEN iffD1]) (simp_all add: short_def)
  ultimately show ?thesis by (simp add: cur_slot_eq mod_add_left_eq)
qed

lemma ring_ends:
  assumes "length (tframes t) = kFPS" "short t"
  shows "ring t \<noteq> []" "hd (ring t) = tframes t ! cur_slot t" "last (ring t) = tframes t ! prev_slot t"
proof -
  have len: "length (ring t) = 60" using assms by (simp add: ring_def kFPS_def)
  then show ne: "ring t \<noteq> []" by auto
  have nth: "ring t ! i = tframes t ! ((cur_slot t + i) mod 60)" if "i < 60" for i
    using that assms by (simp add: ring_def nth_rotate kFPS_def)
  show "hd (ring t) = tframes t ! cur_slot t"
    using nth [of 0] ne cur_slot_less [of t] by (simp add: hd_conv_nth kFPS_def)
  show "last (ring t) = tframes t ! prev_slot t"
    using nth [of 59] ne len by (simp add: last_conv_nth prev_slot_eq [OF assms(2)])
qed

text \<open>Disjoint intervals in order take no longer than the time they span.\<close>

lemma sorted_times_Cons:
  "sorted (times ((a, b) # fs)) \<longleftrightarrow> unat a \<le> unat b \<and> sorted (times fs) \<and>
     (fs \<noteq> [] \<longrightarrow> unat b \<le> unat (fst (hd fs)))"
proof (cases fs)
  case (Cons f gs)
  obtain c d where f: "f = (c, d)" by fastforce
  show ?thesis unfolding Cons f by (auto simp: times_def sorted2 simp del: sorted_wrt.simps)
qed (auto simp: times_def)

lemma durations_span:
  assumes "sorted (times fs)" "fs \<noteq> []"
  shows "unat (fst (hd fs)) \<le> unat (snd (last fs)) \<and>
    unat (durations fs) \<le> unat (snd (last fs)) - unat (fst (hd fs))"
  using assms
proof (induction fs)
  case (Cons f fs)
  obtain a b where f: "f = (a, b)" by fastforce
  have ab: "unat a \<le> unat b" and rest: "sorted (times fs)" and le: "fs \<noteq> [] \<Longrightarrow> unat b \<le> unat (fst (hd fs))"
    using Cons.prems(1) by (auto simp: f sorted_times_Cons)
  have dur: "unat (durations (f # fs)) \<le> (unat b - unat a) + unat (durations fs)"
  proof -
    have "unat (b - a) = unat b - unat a" using ab by (simp add: unat_sub word_le_nat_alt)
    then show ?thesis by (simp add: durations_def f unat_word_ariths(1))
  qed
  show ?case
  proof (cases "fs = []")
    case True
    then show ?thesis using dur ab by (simp add: f durations_def)
  next
    case False
    then have "hd (f # fs) = (a, b)" "last (f # fs) = last fs" by (simp_all add: f)
    with Cons.IH [OF rest False] le [OF False] ab dur show ?thesis by (simp only: fst_conv) linarith
  qed
qed simp

lemma durations_rotate: "durations (rotate n fs) = durations fs"
proof -
  have "durations (xs @ ys) = durations (ys @ xs)" for xs ys by (simp add: durations_def add.commute)
  then show ?thesis by (metis append_take_drop_id rotate_drop_take)
qed

lemma load_le_100:
  assumes "timing_ok t" "chained t" "short t"
  shows "cpu (stats t) \<le> 100"
proof -
  have len: "length (tframes t) = kFPS" "sorted (times (ring t))" using assms by (auto simp: chained_def)
  note ends = ring_ends [OF len(1) assms(3)]
  have "durations (ring t) = tused t"
    using assms(1) by (simp add: ring_def timing_ok_def durations_rotate)
  with durations_span [OF len(2) ends(1)]
  have "unat (tused t) \<le> unat (snd (tframes t ! prev_slot t)) - unat (fst (tframes t ! cur_slot t))"
    "unat (fst (tframes t ! cur_slot t)) \<le> unat (snd (tframes t ! prev_slot t))"
    using ends(2,3) by auto
  then have "unat (tused t) \<le> unat (snd (tframes t ! prev_slot t) - fst (tframes t ! cur_slot t))"
    by (simp add: unat_sub word_le_nat_alt)
  then have "unat (tused t) \<le> unat (stats_total t)" "0 < unat (stats_total t)"
    by (auto simp: stats_total_def max_def word_le_nat_alt)
  moreover have "of_nat u * 100 / of_nat n \<le> (100 :: rat)" if "u \<le> n" "0 < n" for u n :: nat
    using that by (simp add: divide_le_eq)
  ultimately show ?thesis unfolding stats_def Let_def by (simp only: stats.simps)
qed

text \<open>A frame replaces the oldest entry of the ring by a new youngest one.\<close>

lemma ring_frame:
  assumes "length (tframes t) = kFPS" "short t"
  shows "ring (end_frame (start_frame t t0) t1) = tl (ring t) @ [(t0, t1)]"
proof -
  let ?t = "end_frame (start_frame t t0) t1" and ?i = "cur_slot t"
  have i: "?i < length (tframes t)" using assms(1) cur_slot_less [of t] by simp
  have same: "cur_slot (start_frame t t0) = ?i" by (simp add: start_frame_def cur_slot_def Let_def)
  have fr: "tframes ?t = (tframes t)[?i := (t0, t1)]"
    using i by (simp add: end_frame_def same Let_def) (simp add: start_frame_def Let_def)
  have idx: "tindex ?t = tindex t + 1" by (simp add: end_frame_def start_frame_def Let_def)
  have "unat (tindex t + 1) = unat (tindex t) + 1"
    using assms(2) by (subst unat_add_lem [THEN iffD1]) (simp_all add: short_def)
  then have slot: "cur_slot ?t = Suc ?i mod 60" by (simp add: cur_slot_eq idx mod_Suc_eq)
  have rot: "rotate ?i (tframes ?t) = (t0, t1) # tl (ring t)"
    using i by (simp add: fr ring_def rotate_drop_take drop_update_swap upd_conv_take_nth_drop
        Cons_nth_drop_Suc [symmetric] nth_append)
  have "rotate (Suc ?i mod 60) (tframes ?t) = rotate (Suc ?i) (tframes ?t)"
    using assms(1) rotate_conv_mod [of "Suc ?i" "tframes ?t"] by (simp only: fr length_list_update kFPS_def)
  also have "\<dots> = rotate1 (rotate ?i (tframes ?t))" by simp
  also have "\<dots> = tl (ring t) @ [(t0, t1)]" by (simp add: rot)
  finally show ?thesis by (simp add: ring_def slot)
qed

lemma times_append: "times (xs @ ys) = times xs @ times ys"
  by (simp add: times_def)

lemma chained_frame:
  assumes c: "chained t" and s: "short t" and t0: "snd (tframes t ! prev_slot t) \<le> t0" and t1: "t0 \<le> t1"
  shows "chained (end_frame (start_frame t t0) t1)"
proof -
  have len: "length (tframes t) = kFPS" "sorted (times (ring t))" using c by (auto simp: chained_def)
  note ends = ring_ends [OF len(1) s]
  obtain f fs where fs: "ring t = f # fs" using ends(1) by (cases "ring t") auto
  have "length (ring t) = 60" using len(1) by (simp add: ring_def kFPS_def)
  then have "fs \<noteq> []" by (auto simp: fs)
  then have last: "snd (last fs) \<le> t0" using ends(3) t0 by (simp add: fs)
  have "sorted (times fs)" using len(2) by (cases f) (simp add: fs sorted_times_Cons)
  moreover from \<open>fs \<noteq> []\<close> obtain gs a b where gs: "fs = gs @ [(a, b)]" by (metis rev_exhaust surj_pair)
  ultimately have "\<forall>x \<in> set (times fs). x \<le> unat (snd (last fs))"
    by (auto simp: times_append times_def sorted_append)
  moreover have "times [(t0, t1)] = [unat t0, unat t1]" by (simp add: times_def)
  ultimately have "sorted (times (fs @ [(t0, t1)]))"
    using \<open>sorted (times fs)\<close> last t1
    by (auto simp: times_append sorted_append word_le_nat_alt intro: order_trans)
  moreover have "length (tframes (end_frame (start_frame t t0) t1)) = kFPS"
    using len(1) by (simp add: end_frame_def start_frame_def Let_def)
  ultimately show ?thesis using ring_frame [OF len(1) s] by (simp add: chained_def fs)
qed

lemma Timing_chained: "chained (Timing ts)"
proof -
  have "sorted (times (replicate n (ts, ts)))" for n
    by (induction n) (auto simp: sorted_times_Cons times_def hd_replicate)
  moreover have "cur_slot (Timing ts) = 0" by (simp add: cur_slot_eq) (simp add: Timing_def)
  ultimately show ?thesis by (simp add: chained_def ring_def) (simp add: Timing_def)
qed

text \<open>The limiter sleeps for at most a frame and never beyond the time it waits for.\<close>

lemma block_bounds:
  assumes "block t now = Some d"
  defines "nxt \<equiv> max (fst (tframes t ! cur_slot t) + kNanosPerSecond) (fst (tframes t ! prev_slot t) + kNanosMinDelay)"
  shows "0 < d" "d \<le> kNanosPerFrame" "unat (now + d) = unat now + unat d" "now + d \<le> nxt"
    "nxt - now \<le> kNanosPerFrame \<Longrightarrow> now + d = nxt"
proof -
  have lt: "now < nxt" and d: "d = min (nxt - now) kNanosPerFrame"
    using assms(1) unfolding block_def nxt_def [symmetric] Let_def by (simp_all add: not_le split: if_splits)
  have pos: "0 < nxt - now" using lt by (simp add: word_neq_0_conv [symmetric])
  have "0 < kNanosPerFrame" by (simp add: kNanosPerFrame_def kNanosPerSecond_def kFPS_def)
  with pos show "0 < d" by (simp add: d min_def)
  show "d \<le> kNanosPerFrame" by (simp add: d)
  have sub: "unat (nxt - now) = unat nxt - unat now" using lt by (simp add: unat_sub)
  have le: "unat d \<le> unat nxt - unat now"
    unfolding sub [symmetric] by (simp add: d word_le_nat_alt [symmetric])
  then have "unat now + unat d < 2 ^ LENGTH(64)"
    using lt unsigned_less [of nxt, where 'a = nat] by (simp add: word_less_nat_alt)
  then show add: "unat (now + d) = unat now + unat d" by (subst unat_add_lem [symmetric])
  show "now + d \<le> nxt" using le lt by (simp add: word_le_nat_alt add word_less_nat_alt)
  show "nxt - now \<le> kNanosPerFrame \<Longrightarrow> now + d = nxt" by (simp add: d min_def)
qed

end
