(* ===== verification/Program.thy ===== *)
theory Program
  imports Screen Timing
begin

text \<open>
  The model of \<^verbatim>\<open>main\<close> of \<^verbatim>\<open>main.cpp\<close>: the status line, one round of the main loop and the whole
  session. What the outside world gives a round (three readings of the clock, the pending byte count
  and the bytes that arrive) is a record; the session ends when the list of rounds does, which is
  when the interrupt handler has set \<^verbatim>\<open>g_done\<close>.
\<close>

section \<open>Definitions\<close>

text \<open>
  \<^verbatim>\<open>std::fixed << std::setprecision(2)\<close> of a non-negative number, read as the exact quotient.
\<close>

definition show_fixed2 :: "rat \<Rightarrow> string" where
  "show_fixed2 r =
     (let n = nat (c_round (r * 100))
      in show_nat (n div 100) @ ''.'' @ [char_of (48 + n div 10 mod 10), char_of (48 + n mod 10)])"

definition status_line :: "stats \<Rightarrow> string" where
  "status_line s = ''CPU: '' @ show_fixed2 (cpu s) @ ''%; FPS: '' @ show_fixed2 (fps s)"

record round =
  r_block :: "64 word"
  r_start :: "64 word"
  r_end :: "64 word"
  r_count :: int
  r_bytes :: "int list"

record 'g session =
  s_terminal :: "'g terminal"
  s_timing :: timing
  s_stdin :: "int list"

definition main_step :: "'g roll \<Rightarrow> round \<Rightarrow> 'g session \<Rightarrow> (64 word option \<times> out list \<times> 'g session) res option" where
  "main_step roll r s =
     (let st = stats (s_timing s);
          delay = block (s_timing s) (r_block r);
          timing = start_frame (s_timing s) (r_start r)
      in map_option (\<lambda>res. rbind res (\<lambda>(out, cs, t).
           Inr (delay, out, \<lparr>s_terminal = t, s_timing = end_frame timing (r_end r), s_stdin = cs\<rparr>)))
         (term_tick roll (r_count r) (s_stdin s @ r_bytes r) (status_line st) (s_terminal s)))"

fun main_loop :: "'g roll \<Rightarrow> round list \<Rightarrow> 'g session \<Rightarrow> (out list \<times> 'g session) res option" where
  "main_loop roll [] s = Some (Inr ([], s))"
| "main_loop roll (r # rs) s =
     (case main_step roll r s of
        None \<Rightarrow> None
      | Some (Inl err) \<Rightarrow> Some (Inl err)
      | Some (Inr (delay, out, s)) \<Rightarrow>
          map_option (\<lambda>res. rbind res (\<lambda>(out', s). Inr (out @ out', s))) (main_loop roll rs s))"

definition main :: "('t \<Rightarrow> 'g) \<Rightarrow> 'g roll \<Rightarrow> (nat \<Rightarrow> 't) \<Rightarrow> 32 word \<Rightarrow> 32 word \<Rightarrow> point \<Rightarrow> 64 word \<Rightarrow>
    round list \<Rightarrow> (out list \<times> 32 word) res option" where
  "main mt roll clock flags c_lflag winsize ts rounds =
     (case Terminal mt roll clock flags c_lflag winsize of
        None \<Rightarrow> None
      | Some (Inl err) \<Rightarrow> Some (Inl err)
      | Some (Inr (out, c_lflag, t)) \<Rightarrow>
          map_option (\<lambda>res. rbind res (\<lambda>(out', s).
              let (out'', c_lflag) = exit flags c_lflag
              in Inr (out @ out' @ out'', c_lflag)))
            (main_loop roll rounds \<lparr>s_terminal = t, s_timing = Timing ts, s_stdin = []\<rparr>))"

section \<open>A session runs\<close>

definition session_ok :: "'g session \<Rightarrow> bool" where
  "session_ok s \<longleftrightarrow> term_ok (s_terminal s) \<and> timing_ok (s_timing s)"

definition on_screen :: "'g session \<Rightarrow> screen \<Rightarrow> bool" where
  "on_screen s scr \<longleftrightarrow>
     shows_frame (frame_offset (terminalSize (s_terminal s))) scr (io_frame (t_io (s_terminal s)))"

lemma main_step_ok:
  assumes s: "session_ok s" and die: "die_ok roll"
  shows "\<exists>out s'. main_step roll r s = Some (Inr (block (s_timing s) (r_block r), out, s')) \<and> session_ok s' \<and>
    terminalSize (s_terminal s') = terminalSize (s_terminal s) \<and>
    (32 \<le> py (terminalSize (s_terminal s)) \<longrightarrow> (\<forall>scr. on_screen s scr \<longrightarrow> on_screen s' (fold show_out out scr)))"
proof -
  have t: "term_ok (s_terminal s)" using s by (simp add: session_ok_def)
  obtain out cs' t' where *:
    "term_tick roll (r_count r) (s_stdin s @ r_bytes r) (status_line (stats (s_timing s))) (s_terminal s) =
      Some (Inr (out, cs', t'))" "term_ok t'" "terminalSize t' = terminalSize (s_terminal s)"
    "32 \<le> py (terminalSize (s_terminal s)) \<longrightarrow>
      (\<forall>scr. shows_frame (frame_offset (terminalSize (s_terminal s))) scr (lastFrame (s_terminal s)) \<longrightarrow>
        shows_frame (frame_offset (terminalSize (s_terminal s))) (fold show_out out scr) (lastFrame t'))"
    using term_tick_ok [OF t die, of "r_count r" "s_stdin s @ r_bytes r" "status_line (stats (s_timing s))"] by blast
  have last: "lastFrame (s_terminal s) = io_frame (t_io (s_terminal s))" "lastFrame t' = io_frame (t_io t')"
    using t *(2) by (simp_all add: term_ok_def)
  let ?s = "\<lparr>s_terminal = t', s_timing = end_frame (start_frame (s_timing s) (r_start r)) (r_end r), s_stdin = cs'\<rparr>"
  have "main_step roll r s = Some (Inr (block (s_timing s) (r_block r), out, ?s))"
    by (simp add: main_step_def Let_def *(1))
  moreover have "session_ok ?s" using s *(2) frame_timing_ok by (simp add: session_ok_def)
  ultimately show ?thesis using *(3,4) last by (auto simp: on_screen_def)
qed

lemma main_loop_ok:
  assumes "session_ok s" "die_ok roll"
  shows "\<exists>out s'. main_loop roll rs s = Some (Inr (out, s')) \<and> session_ok s' \<and>
    terminalSize (s_terminal s') = terminalSize (s_terminal s) \<and>
    (32 \<le> py (terminalSize (s_terminal s)) \<longrightarrow> (\<forall>scr. on_screen s scr \<longrightarrow> on_screen s' (fold show_out out scr)))"
  using assms(1)
proof (induction rs arbitrary: s)
  case (Cons r rs)
  obtain out1 s1 where 1: "main_step roll r s = Some (Inr (block (s_timing s) (r_block r), out1, s1))" "session_ok s1"
    "terminalSize (s_terminal s1) = terminalSize (s_terminal s)"
    "32 \<le> py (terminalSize (s_terminal s)) \<longrightarrow> (\<forall>scr. on_screen s scr \<longrightarrow> on_screen s1 (fold show_out out1 scr))"
    using main_step_ok [OF Cons.prems assms(2)] by blast
  obtain out2 s2 where 2: "main_loop roll rs s1 = Some (Inr (out2, s2))" "session_ok s2"
    "terminalSize (s_terminal s2) = terminalSize (s_terminal s1)"
    "32 \<le> py (terminalSize (s_terminal s1)) \<longrightarrow> (\<forall>scr. on_screen s1 scr \<longrightarrow> on_screen s2 (fold show_out out2 scr))"
    using Cons.IH [OF 1(2)] by blast
  show ?case using 1 2 by (intro exI [of _ "out1 @ out2"] exI [of _ s2]) auto
qed simp

lemma Terminal_ok:
  assumes "drawable mt roll clock"
  shows "\<exists>t. Terminal mt roll clock flags c_lflag winsize =
      Some (Inr (fst (initTerminal flags True c_lflag), c_lflag AND NOT flags, t)) \<and> term_ok t \<and> terminalSize t = winsize \<and>
      initial_ok (io_state (t_io t)) \<and> (\<forall>off scr. shows_frame off scr (lastFrame t))"
proof -
  obtain io where io: "IO mt roll clock = Some (Inr io)" "io_ok io" "initial_ok (io_state io)"
    using IO_ok [OF assms] by blast
  have "matrix_get (io_frame io) p = glyph_default" for p
    using io(1) Matrix_get by (auto simp: IO_def res_simps split: option.splits)
  then show ?thesis
    using io by (simp add: Terminal_def initTerminal_def term_ok_def shows_frame_def)
qed

end
