(* ===== verification/Scenario.thy ===== *)
theory Scenario
  imports Program
begin

text \<open>
  A concrete session, used to show that the hypotheses of the properties can hold together: a die
  that first rolls 0 and then its highest face, under which the generator leaves a corridor through
  the middle of the map. The state of the engine is the number of rolls made.
\<close>

definition demo_roll :: "nat roll" where
  "demo_roll n c = (if c < 434 then 0 else if n = 0 then 0 else int n - 1, Suc c)"

definition demo_mt :: "nat \<Rightarrow> nat" where "demo_mt t = 0"
definition demo_clock :: "nat \<Rightarrow> nat" where "demo_clock n = n"

lemma demo_die: "die_ok demo_roll"
  by (auto simp: die_ok_def demo_roll_def)

abbreviation map_size :: point where "map_size \<equiv> Point kMapSize kMapSize"

section \<open>The filled map\<close>

lemma demo_fill_fold:
  "fst (fold (\<lambda>p (result, rng). let (d, rng) = demo_roll 100 rng
      in (if d < 45 then matrix_set result p True else result, rng)) ps (m, c)) =
   fold (\<lambda>p m. matrix_set m p True) (take (434 - c) ps) m"
proof (induction ps arbitrary: m c)
  case (Cons p ps)
  show ?case
  proof (cases "c < 434")
    case True
    then have "434 - c = Suc (434 - Suc c)" by simp
    then show ?thesis using True Cons by (simp add: demo_roll_def)
  qed (use Cons in \<open>simp add: demo_roll_def\<close>)
qed simp

lemma demo_rows: "take 434 (grid_points map_size) = grid_points (Point 31 14)"
proof -
  have rows: "[0..30] = [0..13] @ [14..30::int]" using upto_split2 [of 0 13 30] by simp
  have "grid_points map_size = grid_points (Point 31 14) @
      concat (map (\<lambda>y. map (\<lambda>x. Point x y) [0..30]) [14..30])"
    by (simp add: grid_points_def kMapSize_def rows)
  moreover have "length (grid_points (Point 31 14)) = 434"
    by (simp add: grid_points_def length_concat comp_def sum_list_triv)
  ultimately show ?thesis by simp
qed

lemma demo_aut_fill:
  assumes "matrix_wf m" "m_size m = map_size" "0 < px p" "px p < 30" "0 < py p" "py p < 30" "\<not> matrix_get m p"
  shows "matrix_get (fst (aut_fill demo_roll map_size (m, 0))) p \<longleftrightarrow> py p < 14"
proof -
  have eq: "fst (aut_fill demo_roll map_size (m, 0)) =
      fold (\<lambda>p m. matrix_set m p True) (grid_points (Point 31 14)) m"
    using demo_fill_fold [of "grid_points map_size" m 0] demo_rows
    unfolding aut_fill_def fold_grid [where h = "\<lambda>p (result, rng). let (d, rng) = demo_roll 100 rng
      in (if d < 45 then matrix_set result p True else result, rng)"] by simp
  have inside: "matrix_contains m p" using assms by (simp add: matrix_contains_def kMapSize_def)
  show ?thesis
  proof (cases "py p < 14")
    case True
    then have "p \<in> (\<lambda>p. p) ` set (grid_points (Point 31 14))" using assms by (simp add: set_grid_points)
    then show ?thesis using True matrix_grid.get_writes [OF assms(1) inside, of "\<lambda>p. p" _ "\<lambda>_. True" True]
      by (simp add: eq)
  next
    case False
    then have "p \<notin> (\<lambda>p. p) ` set (grid_points (Point 31 14))" by (simp add: set_grid_points)
    then show ?thesis using False assms(7) matrix_grid.get_writes_other [OF assms(1), of p "\<lambda>p. p" _ "\<lambda>_. True"]
      by (simp add: eq)
  qed
qed

section \<open>Three rounds of smoothing\<close>

text \<open>What a round computes for a cell off the border.\<close>

lemma aut_smooth_get:
  assumes "matrix_wf m" "m_size m = sz" "0 < px p" "px p < px sz - 1" "0 < py p" "py p < py sz - 1"
  shows "matrix_get (aut_smooth sz i m) p = (let (adj1, adj2) = aut_count m (px p) (py p)
    in adj1 \<ge> 5 \<or> (i < 2 \<and> adj2 \<le> 1))"
proof -
  define g where "g q = (let (adj1, adj2) = aut_count m (px q) (py q) in adj1 \<ge> 5 \<or> (i < 2 \<and> adj2 \<le> 1))" for q
  define ps where "ps = concat (map (\<lambda>y. map (\<lambda>x. Point x y) [1..px sz - 2]) [1..py sz - 2])"
  have "aut_smooth sz i m = fold (\<lambda>y. fold (\<lambda>x nxt. matrix_set nxt (Point x y) (g (Point x y))) [1..px sz - 2]) [1..py sz - 2] m"
    by (simp add: aut_smooth_def g_def Let_def case_prod_unfold)
  also have "\<dots> = fold (\<lambda>q n. matrix_set n q (g q)) ps m"
  proof -
    have row: "fold (\<lambda>x nxt. matrix_set nxt (Point x y) (g (Point x y))) xs =
        fold (\<lambda>q n. matrix_set n q (g q)) (map (\<lambda>x. Point x y) xs)" for y xs
      by (simp add: fold_map comp_def)
    have "fold (\<lambda>y. fold (\<lambda>q n. matrix_set n q (g q)) (f y)) ys n = fold (\<lambda>q n. matrix_set n q (g q)) (concat (map f ys)) n"
      for f :: "int \<Rightarrow> point list" and ys n by (induction ys arbitrary: n) simp_all
    then show ?thesis unfolding row ps_def .
  qed
  finally have eq: "aut_smooth sz i m = fold (\<lambda>q n. matrix_set n q (g q)) ps m" .
  have "p \<in> set ps" using assms by (cases p) (fastforce simp: ps_def)
  moreover have "matrix_contains m p" using assms by (simp add: matrix_contains_def)
  ultimately show ?thesis
    using matrix_grid.get_writes [OF assms(1), of p "\<lambda>q. q" ps g "g p"] by (simp add: eq g_def)
qed

lemma fold_add2:
  fixes f g :: "'a \<Rightarrow> int"
  shows "fold (\<lambda>d (a, b). (a + f d, b + g d)) ds (a, b) = (a + sum_list (map f ds), b + sum_list (map g ds))"
  by (induction ds arbitrary: a b) (simp_all add: add.assoc)

text \<open>Around a cell whose rows are uniform, the counts depend on the five rows only.\<close>

definition row_pattern :: "bool matrix \<Rightarrow> int \<Rightarrow> (int \<Rightarrow> bool) \<Rightarrow> bool" where
  "row_pattern m k w \<longleftrightarrow> matrix_wf m \<and> m_size m = map_size \<and>
     (\<forall>x y. \<bar>x - 15\<bar> \<le> k \<longrightarrow> \<bar>y - 15\<bar> \<le> k \<longrightarrow> matrix_get m (Point x y) = w y)"

lemma aut_count_rows:
  assumes "row_pattern m k w" "\<bar>x - 15\<bar> \<le> k - 2" "\<bar>y - 15\<bar> \<le> k - 2" "k \<le> 15"
  shows "aut_count m x y =
    (3 * of_bool (w (y - 1)) + 2 * of_bool (w y) + 3 * of_bool (w (y + 1)),
     3 * of_bool (w (y - 2)) + 5 * of_bool (w (y - 1)) + 4 * of_bool (w y) + 5 * of_bool (w (y + 1)) + 3 * of_bool (w (y + 2)))"
proof -
  have *: "matrix_contains m (Point (x + dx) (y + dy)) \<and> matrix_get m (Point (x + dx) (y + dy)) = w (y + dy)"
    if "\<bar>dx\<bar> \<le> 2" "\<bar>dy\<bar> \<le> 2" for dx dy
  proof -
    have "\<bar>x + dx - 15\<bar> \<le> k" "\<bar>y + dy - 15\<bar> \<le> k" using assms(2,3) that by linarith+
    then show ?thesis using assms(1,4) by (auto simp: row_pattern_def matrix_contains_def kMapSize_def)
  qed
  define c where "c n dx dy = (of_bool (\<not> (dx = 0 \<and> dy = 0) \<and> min \<bar>dx\<bar> \<bar>dy\<bar> \<noteq> 2 \<and> max \<bar>dx\<bar> \<bar>dy\<bar> \<le> n) * of_bool (w (y + dy)) :: int)"
    for n dx dy
  have up: "[-2..2] = [-2, -1, 0, 1, 2::int]" by (simp add: upto.simps)
  define st where "st dx dy = (\<lambda>(adj1, adj2). if dx = 0 \<and> dy = 0 then (adj1, adj2)
         else if min \<bar>dx\<bar> \<bar>dy\<bar> = 2 then (adj1, adj2)
         else let nxt = Point (x + dx) (y + dy)
           in if \<not> (matrix_contains m nxt \<and> matrix_get m nxt) then (adj1, adj2)
              else let distance = max \<bar>dx\<bar> \<bar>dy\<bar>
                in (if distance \<le> 1 then adj1 + 1 else adj1 :: int, if distance \<le> 2 then adj2 + 1 else adj2 :: int))"
    for dx dy
  have st: "st dx dy s = (case s of (a, b) \<Rightarrow> (a + c 1 dx dy, b + c 2 dx dy))"
    if "dx \<in> set [-2..2]" "dy \<in> set [-2..2]" for dx dy s
  proof -
    have d: "\<bar>dx\<bar> \<le> 2" "\<bar>dy\<bar> \<le> 2" using that by auto
    then have m2: "max \<bar>dx\<bar> \<bar>dy\<bar> \<le> 2" by simp
    obtain a b where s: "s = (a, b)" by fastforce
    show ?thesis
    proof (cases "w (y + dy)")
      case True
      then show ?thesis using m2 * [OF d] unfolding s st_def c_def by (simp add: Let_def)
    next
      case False
      then show ?thesis using * [OF d] unfolding s st_def c_def by (simp add: Let_def)
    qed
  qed
  have "aut_count m x y = fold (\<lambda>dy. fold (\<lambda>dx. st dx dy) [-2..2]) [-2..2] (0, 0)"
    unfolding aut_count_def st_def ..
  also have "\<dots> = fold (\<lambda>dy. fold (\<lambda>dx (a, b). (a + c 1 dx dy, b + c 2 dx dy)) [-2..2]) [-2..2] (0, 0)"
    by (intro fold_cong_set st)
  also have "\<dots> = fold (\<lambda>dy (a, b). (a + sum_list (map (\<lambda>dx. c 1 dx dy) [-2..2]), b + sum_list (map (\<lambda>dx. c 2 dx dy) [-2..2]))) [-2..2] (0, 0)"
    by (intro fold_cong_set) (simp add: fold_add2 split: prod.splits)
  finally show ?thesis
    unfolding fold_add2 up by (simp add: c_def)
qed

lemma aut_smooth_rows:
  assumes "row_pattern m k w" "2 \<le> k" "k \<le> 14"
    and "\<And>y. \<bar>y - 15\<bar> \<le> k - 2 \<Longrightarrow> w' y \<longleftrightarrow>
      3 * of_bool (w (y - 1)) + 2 * of_bool (w y) + 3 * of_bool (w (y + 1)) \<ge> (5::int) \<or>
      (i < 2 \<and> 3 * of_bool (w (y - 2)) + 5 * of_bool (w (y - 1)) + 4 * of_bool (w y) + 5 * of_bool (w (y + 1)) +
        3 * of_bool (w (y + 2)) \<le> (1::int))"
  shows "row_pattern (aut_smooth map_size i m) (k - 2) w'"
proof -
  have m: "matrix_wf m" "m_size m = map_size" using assms(1) by (auto simp: row_pattern_def)
  have "matrix_wf (aut_smooth map_size i m) \<and> m_size (aut_smooth map_size i m) = map_size"
    unfolding aut_smooth_def
    by (intro fold_invariant [where P = "\<lambda>n. matrix_wf n \<and> m_size n = map_size"])
      (auto simp: m matrix_grid.wf_set split: prod.splits)
  moreover have "matrix_get (aut_smooth map_size i m) (Point x y) = w' y"
    if "\<bar>x - 15\<bar> \<le> k - 2" "\<bar>y - 15\<bar> \<le> k - 2" for x y
    using that assms(2-4) aut_count_rows [OF assms(1) that]
    by (subst aut_smooth_get [OF m]) (auto simp: kMapSize_def)
  ultimately show ?thesis by (auto simp: row_pattern_def)
qed

section \<open>The start is free\<close>

lemma aut_border_inner:
  assumes "matrix_wf m" "\<not> matrix_get m p" "0 < px p" "px p < px sz - 1" "0 < py p" "py p < py sz - 1"
  shows "\<not> matrix_get (aut_border sz m) p"
proof -
  have "p \<notin> (\<lambda>p. p) ` set (border_points sz)" using assms(3-6) by (auto simp: border_points_def)
  then show ?thesis
    using matrix_grid.get_writes_other [OF assms(1), of p "\<lambda>p. p" "border_points sz" "\<lambda>_. True"] assms(2)
    by (simp add: aut_border_writes)
qed

lemma demo_walls:
  assumes "automata demo_roll map_size 0 = Inr (walls, rng)"
  shows "\<not> matrix_get walls start_pos"
proof -
  obtain m0 where m0: "Matrix map_size False = Inr m0" by (auto simp: Matrix_def kMapSize_def)
  define m1 where "m1 = aut_border map_size m0"
  define m2 where "m2 = fst (aut_fill demo_roll map_size (m1, 0))"
  have "walled map_size m1"
    unfolding m1_def using m0 Matrix_wf [OF m0] by (intro aut_border_walled) (auto simp: Matrix_Inr_iff)
  then have w1: "matrix_wf m1" "m_size m1 = map_size" and w2: "walled map_size m2"
    using aut_fill_walled [of map_size "(m1, 0)" demo_roll] by (auto simp: walled_def m2_def)
  have "row_pattern m2 14 (\<lambda>y. y < 14)"
    unfolding row_pattern_def
  proof (intro conjI allI impI)
    fix x y :: int assume "\<bar>x - 15\<bar> \<le> 14" "\<bar>y - 15\<bar> \<le> 14"
    then have r: "0 < x" "x < 30" "0 < y" "y < 30" by auto
    then have "\<not> matrix_get m1 (Point x y)"
      unfolding m1_def using Matrix_get [OF m0] by (intro aut_border_inner Matrix_wf [OF m0]) (auto simp: kMapSize_def)
    then show "matrix_get m2 (Point x y) = (y < 14)"
      unfolding m2_def using demo_aut_fill [OF w1, of "Point x y"] r by simp
  qed (use w2 in \<open>auto simp: walled_def\<close>)
  then have "row_pattern (aut_smooth map_size 0 m2) (14 - 2) (\<lambda>y. y < 14 \<or> 16 \<le> y)"
    by (rule aut_smooth_rows) auto
  then have "row_pattern (aut_smooth map_size 1 (aut_smooth map_size 0 m2)) (14 - 2 - 2) (\<lambda>y. y < 14 \<or> 16 \<le> y)"
    by (rule aut_smooth_rows) auto
  then have "row_pattern (aut_smooth map_size 2 (aut_smooth map_size 1 (aut_smooth map_size 0 m2))) (14 - 2 - 2 - 2) (\<lambda>y. y < 14 \<or> 16 \<le> y)"
    by (rule aut_smooth_rows) auto
  moreover have "walls = aut_smooth map_size 2 (aut_smooth map_size 1 (aut_smooth map_size 0 m2))"
    using assms unfolding automata_def m0
    by (simp add: m2_def m1_def Let_def case_prod_unfold upto.simps)
  ultimately show ?thesis by (simp add: row_pattern_def start_pos_def kMapSize_def)
qed

lemma demo_drawable: "drawable demo_mt demo_roll demo_clock"
proof -
  have sz: "0 \<le> px map_size" "0 \<le> py map_size" by (simp_all add: kMapSize_def)
  obtain b where b: "Board map_size = Inr b" "blank_board map_size b" using blank_board_Board [OF sz] by blast
  obtain b' rng' where b': "initBoard demo_roll b 0 = Inr (b', rng')"
    using initBoard_blank [OF b(2) sz, of demo_roll 0] by blast
  obtain walls rng1 grass where *: "automata demo_roll map_size 0 = Inr (walls, rng1)"
    "\<forall>p. matrix_contains (m_map b) p \<longrightarrow> getTile b' p = painted walls grass p" "m_entityAtPos b' = m_entityAtPos b"
    using initBoard_tiles [OF b(2) sz b'] by blast
  have "matrix_contains (m_map b) start_pos"
    using b(2) by (simp add: blank_board_def matrix_contains_def start_pos_def kMapSize_def)
  then have "\<not> blocked_tile (getTile b' start_pos)"
    using *(2) demo_walls [OF *(1)] by (simp add: painted_def blocked_tile_def FlagNone_def FlagObscure_def FlagBlocked_def)
  then have "getStatus b' start_pos = Free"
    using *(3) b(2) by (simp add: getStatus_Free_iff blank_board_def)
  then show ?thesis
    using b b' by (auto simp: drawable_def draws_def demo_mt_def)
qed

text \<open>The states of the concrete session.\<close>

definition demo_state :: "nat state" where
  "demo_state = projr (the (State demo_mt demo_roll demo_clock))"

definition demo_io :: "nat io" where
  "demo_io = projr (the (IO demo_mt demo_roll demo_clock))"

lemma demo_initial: "State demo_mt demo_roll demo_clock = Some (Inr demo_state)" "initial_ok demo_state"
  using State_at_rest [OF demo_drawable] by (auto simp: demo_state_def)

lemma demo_io_ok: "IO demo_mt demo_roll demo_clock = Some (Inr demo_io)" "io_ok demo_io"
    "io_state demo_io = demo_state" "io_inputs demo_io = []"
  using IO_ok [OF demo_drawable] demo_initial(1)
  by (auto simp: demo_io_def IO_def res_simps)

lemma demo_at_rest: "at_rest demo_state" "state_ok demo_state" "game_ok demo_state"
  using demo_initial(2) demo_io_ok(2,3) by (auto simp: initial_ok_def io_ok_def at_rest_def)

lemma demo_frame: "matrix_get (io_frame demo_io) p = glyph_default"
proof -
  obtain f where "Matrix (Point (2 * kMapSize) kMapSize) glyph_default = Inr f" "io_frame demo_io = f"
    using demo_io_ok(1) demo_initial(1) by (auto simp: IO_def res_simps) (metis io.select_convs(2))
  then show ?thesis using Matrix_get by metis
qed

definition demo_screen :: screen where
  "demo_screen = \<lparr>cur = Point 0 0, sfg = kNone, sbg = kNone, cells = (\<lambda>_. (32, kNone, kNone))\<rparr>"

lemma demo_screen_blank: "shows_frame off demo_screen (io_frame demo_io)"
  by (simp add: shows_frame_def demo_frame)

definition demo_session :: "nat session" where
  "demo_session = \<lparr>s_terminal = \<lparr>t_io = demo_io, terminalSize = Point 80 40, lastFrame = io_frame demo_io\<rparr>,
     s_timing = Timing 5, s_stdin = []\<rparr>"

lemma demo_session_ok: "session_ok demo_session" "on_screen demo_session demo_screen"
  "32 \<le> py (terminalSize (s_terminal demo_session))"
  using demo_io_ok(2) Timing_ok demo_screen_blank
  by (simp_all add: demo_session_def session_ok_def term_ok_def on_screen_def)

text \<open>The state in which the player has pressed the key for waiting a turn.\<close>

definition demo_waiting :: "nat state" where
  "demo_waiting = demo_state\<lparr>st_input := Some (MoveAction 0)\<rparr>"

lemma demo_waiting_ok: "state_ok demo_waiting" "st_player demo_state \<in> set (ents demo_waiting)"
  using demo_at_rest(2) state_okD(3) [OF demo_at_rest(2)]
  by (auto simp: demo_waiting_def state_ok_def input_ok_def ents_def lenWalking_def)

section \<open>A small board\<close>

lemma Matrix_default_get [simp]: "matrix_get (Matrix_default v) p = v"
  by (auto simp: Matrix_default_def matrix_get_def matrix_contains_def)

text \<open>Three open cells in a row with a Pidgey on the first two.\<close>

lemma demo_row:
  "\<exists>b i j e. board_ok b \<and> visions_ok b \<and> i \<in> set (m_entities b) \<and> store b i = Some e \<and> pos e = Point 0 0 \<and>
     getEntity b (Point 1 0) = Some j \<and> j \<noteq> i \<and> getStatus b (Point 2 0) = Free"
proof -
  let ?sz = "Point 3 1"
  obtain b0 where b0: "Board ?sz = Inr b0" "blank_board ?sz b0" using blank_board_Board [of ?sz] by auto
  define b where "b = b0\<lparr>m_map := matrix_fill (m_map b0) (projr (tileType (CHR ''.'')))\<rparr>"
  have ok: "board_ok b" "visions_ok b" "m_entityAtPos b = Map.empty" "m_entities b = []"
    using b0(2) by (auto simp: b_def blank_board_def board_ok_def index_ok_def turn_ok_def store_ok_def visions_ok_def)
  obtain e :: entity where e: "pos e = Point 0 0" using new_Pokemon_Pidgey [of "Point 0 0"] by auto
  obtain e' :: entity where e': "pos e' = Point 1 0" using new_Pokemon_Pidgey [of "Point 1 0"] by auto
  obtain i b1 where al: "alloc b e = (i, b1)" by fastforce
  define b2 where "b2 = b1\<lparr>m_entities := m_entities b @ [i], m_entityAtPos := (m_entityAtPos b)(pos e \<mapsto> Some i)\<rparr>"
  have a2: "addEntity b1 i = Inr b2" "board_ok b2"
    using alloc_addEntity [OF ok(1) _ al] ok(3) by (simp_all add: b2_def)
  have v2: "visions_ok b2" by (rule addEntity_visions_ok [OF ok(2,1) al a2(1)])
  have n2: "m_entityAtPos b2 (pos e') = None" using ok(3) e e' by (simp add: b2_def)
  obtain j b3 where al': "alloc b2 e' = (j, b3)" by fastforce
  define b4 where "b4 = b3\<lparr>m_entities := m_entities b2 @ [j], m_entityAtPos := (m_entityAtPos b2)(pos e' \<mapsto> Some j)\<rparr>"
  have a4: "addEntity b3 j = Inr b4" "board_ok b4" using alloc_addEntity [OF a2(2) n2 al'] by (simp_all add: b4_def)
  have v4: "visions_ok b4" by (rule addEntity_visions_ok [OF v2 a2(2) al' a4(1)])
  have ij: "i = next_id b" "j = Suc (next_id b)" "b1 = b\<lparr>store := (store b)(i \<mapsto> e), next_id := Suc i\<rparr>"
    "b3 = b2\<lparr>store := (store b2)(j \<mapsto> e'), next_id := Suc j\<rparr>"
    using al al' by (auto simp: alloc_def b2_def)
  have tile: "getTile b4 p = getTile b p" for p by (simp add: getTile_def b4_def ij b2_def)
  have "matrix_contains (m_map b0) (Point 2 0)" using b0(2) by (simp add: blank_board_def matrix_contains_def)
  moreover have "matrix_wf (m_map b0)" using b0(2) by (simp add: blank_board_def board_ok_def)
  ultimately have "getTile b4 (Point 2 0) = projr (tileType (CHR ''.''))"
    unfolding tile by (simp add: getTile_def b_def matrix_get_fill)
  then have "getStatus b4 (Point 2 0) = Free"
    using e e' ok(3) by (simp add: getStatus_def FlagNone_def b4_def b2_def)
  moreover have "store b4 i = Some e" "i \<in> set (m_entities b4)" "getEntity b4 (Point 1 0) = Some j" "j \<noteq> i"
    using e' ij by (auto simp: b4_def b2_def getEntity_def)
  ultimately show ?thesis using a4(2) v4 e by blast
qed

end
