(* ===== verification/Signals.thy ===== *)
theory Signals
  imports Program
begin

text \<open>
  The signal handlers of \<^verbatim>\<open>main.cpp\<close> and the main loop under them. The world gives a list of events: what a round
  reads, and the signals that are delivered while the round runs. The handler of \<^verbatim>\<open>SIGINT\<close> sets \<^verbatim>\<open>g_done\<close>, which the
  loop tests before each round; the handler of \<^verbatim>\<open>SIGSEGV\<close> writes a backtrace and calls \<^verbatim>\<open>exit(1)\<close>, which ends the process without
  running the destructor of the terminal, a local object of \<^verbatim>\<open>main\<close>.
\<close>

section \<open>Definitions\<close>

text \<open>A segmentation fault comes after some number of output items of the round it interrupts.\<close>

datatype signal = SIGINT | SIGSEGV nat

record event =
  e_round :: round
  e_signals :: "signal list"

definition sigintHandler :: "bool \<Rightarrow> bool" where
  "sigintHandler g_done = True"

definition kNumFrames :: nat where "kNumFrames = 64"

text \<open>The lines on the error stream and the exit status; \<open>stack\<close> lists the frames of the call stack, by symbol.\<close>

definition segfaultHandler :: "string list \<Rightarrow> string list \<times> int" where
  "segfaultHandler stack = (take kNumFrames stack, 1)"

fun deliver :: "string list \<Rightarrow> signal list \<Rightarrow> bool \<Rightarrow> bool + nat \<times> string list \<times> int" where
  "deliver stack [] g_done = Inl g_done"
| "deliver stack (SIGINT # sigs) g_done = deliver stack sigs (sigintHandler g_done)"
| "deliver stack (SIGSEGV n # sigs) g_done = Inr (n, segfaultHandler stack)"

datatype 'g loop_end = Stopped "'g session" | Waiting "'g session" | Crashed "string list" int

text \<open>When the events run out with \<^verbatim>\<open>g_done\<close> unset, the loop is still running (\<open>Waiting\<close>).\<close>

fun signal_loop :: "'g roll \<Rightarrow> string list \<Rightarrow> event list \<Rightarrow> bool \<Rightarrow> 'g session \<Rightarrow> (out list \<times> 'g loop_end) res option" where
  "signal_loop roll stack [] g_done s = Some (Inr ([], if g_done then Stopped s else Waiting s))"
| "signal_loop roll stack (e # es) g_done s =
     (if g_done then Some (Inr ([], Stopped s))
      else
        case main_step roll (e_round e) s of
          None \<Rightarrow> None
        | Some (Inl err) \<Rightarrow> Some (Inl err)
        | Some (Inr (delay, out, s)) \<Rightarrow>
            (case deliver stack (e_signals e) g_done of
               Inr (n, trace, status) \<Rightarrow> Some (Inr (take n out, Crashed trace status))
             | Inl g_done \<Rightarrow>
                 map_option (\<lambda>res. rbind res (\<lambda>(out', r). Inr (out @ out', r))) (signal_loop roll stack es g_done s)))"

datatype process_end =
    Running "out list"
  | Returned "out list" "32 word"
  | Exited int "string list" "out list" "32 word"

definition signal_main :: "('t \<Rightarrow> 'g) \<Rightarrow> 'g roll \<Rightarrow> (nat \<Rightarrow> 't) \<Rightarrow> 32 word \<Rightarrow> 32 word \<Rightarrow> point \<Rightarrow> 64 word \<Rightarrow>
    string list \<Rightarrow> event list \<Rightarrow> process_end res option" where
  "signal_main mt roll clock flags c_lflag winsize ts stack events =
     (case Terminal mt roll clock flags c_lflag winsize of
        None \<Rightarrow> None
      | Some (Inl err) \<Rightarrow> Some (Inl err)
      | Some (Inr (out, c_lflag, t)) \<Rightarrow>
          map_option (\<lambda>res. rbind res (\<lambda>(out', r).
              case r of
                Waiting s \<Rightarrow> Inr (Running (out @ out'))
              | Stopped s \<Rightarrow>
                  (let (out'', c_lflag) = exit flags c_lflag in Inr (Returned (out @ out' @ out'') c_lflag))
              | Crashed trace status \<Rightarrow> Inr (Exited status trace (out @ out') c_lflag)))
            (signal_loop roll stack events False \<lparr>s_terminal = t, s_timing = Timing ts, s_stdin = []\<rparr>))"

section \<open>The loop under signals\<close>

definition interrupted :: "event \<Rightarrow> bool" where
  "interrupted e \<longleftrightarrow> e_signals e \<noteq> [] \<and> (\<forall>sig\<in>set (e_signals e). sig = SIGINT)"

lemma deliver_interrupted:
  assumes "interrupted e"
  shows "deliver stack (e_signals e) g_done = Inl True"
proof -
  have "(\<forall>sig\<in>set sigs. sig = SIGINT) \<Longrightarrow> deliver stack sigs True = Inl True" for sigs
    by (induction sigs) (auto simp: sigintHandler_def)
  then show ?thesis using assms by (cases "e_signals e") (auto simp: interrupted_def sigintHandler_def)
qed

lemma signal_loop_done: "signal_loop roll stack es True s = Some (Inr ([], Stopped s))"
  by (cases es) simp_all

lemma signal_loop_quiet:
  assumes "\<forall>x\<in>set pre. e_signals x = []"
    and "main_loop roll (map e_round pre) s = Some (Inr (out, s'))"
  shows "signal_loop roll stack (pre @ es) False s =
    map_option (\<lambda>res. rbind res (\<lambda>(out', r). Inr (out @ out', r))) (signal_loop roll stack es False s')"
  using assms
proof (induction pre arbitrary: s out)
  case Nil
  then show ?case by (simp add: split_def option.map_ident)
next
  case (Cons x pre)
  then obtain delay out1 s1 out2 where
    1: "main_step roll (e_round x) s = Some (Inr (delay, out1, s1))"
      "main_loop roll (map e_round pre) s1 = Some (Inr (out2, s'))" "out = out1 @ out2"
    by (auto split: option.splits sum.splits simp: res_simps)
  then show ?case using Cons.IH [of s1 out2] Cons.prems(1)
    by (cases "signal_loop roll stack es False s'") (auto simp: rbind_assoc split_def)
qed

lemma session_starts:
  assumes "drawable mt roll clock"
  obtains t where "Terminal mt roll clock flags c_lflag winsize =
      Some (Inr (fst (initTerminal flags True c_lflag), c_lflag AND NOT flags, t))"
    "session_ok \<lparr>s_terminal = t, s_timing = Timing ts, s_stdin = []\<rparr>"
  using Terminal_ok [OF assms, of flags c_lflag winsize] Timing_ok by (auto simp: session_ok_def)

lemma signal_main_ends:
  assumes "drawable mt roll clock" "die_ok roll" "\<forall>x\<in>set pre. e_signals x = []"
  shows "\<exists>out0 t out s delay out' s'.
    Terminal mt roll clock flags c_lflag winsize = Some (Inr (out0, c_lflag AND NOT flags, t)) \<and>
    main_loop roll (map e_round pre) \<lparr>s_terminal = t, s_timing = Timing ts, s_stdin = []\<rparr> = Some (Inr (out, s)) \<and>
    main_step roll r s = Some (Inr (delay, out', s')) \<and>
    (\<forall>es. signal_loop roll stack (pre @ es) False \<lparr>s_terminal = t, s_timing = Timing ts, s_stdin = []\<rparr> =
      map_option (\<lambda>res. rbind res (\<lambda>(out', r). Inr (out @ out', r))) (signal_loop roll stack es False s))"
proof -
  obtain t where t: "Terminal mt roll clock flags c_lflag winsize =
      Some (Inr (fst (initTerminal flags True c_lflag), c_lflag AND NOT flags, t))"
    "session_ok \<lparr>s_terminal = t, s_timing = Timing ts, s_stdin = []\<rparr>"
    using session_starts [OF assms(1)] .
  obtain out s where l: "main_loop roll (map e_round pre) \<lparr>s_terminal = t, s_timing = Timing ts, s_stdin = []\<rparr> = Some (Inr (out, s))"
    "session_ok s" using main_loop_ok [OF t(2) assms(2), of "map e_round pre"] by blast
  obtain delay out' s' where "main_step roll r s = Some (Inr (delay, out', s'))"
    using main_step_ok [OF l(2) assms(2), of r] by blast
  then show ?thesis using t(1) l(1) signal_loop_quiet [OF assms(3) l(1)] by blast
qed

lemma main_loop_snoc:
  "main_loop roll rs s = Some (Inr (out, s')) \<Longrightarrow> main_step roll r s' = Some (Inr (delay, out', s'')) \<Longrightarrow>
     main_loop roll (rs @ [r]) s = Some (Inr (out @ out', s''))"
  by (induction rs arbitrary: s out) (auto split: option.splits sum.splits simp: res_simps)

lemma sigint_returns:
  assumes "drawable mt roll clock" "die_ok roll" "\<forall>x\<in>set pre. e_signals x = []" "interrupted e"
  shows "\<exists>out. signal_main mt roll clock flags c_lflag winsize ts stack (pre @ e # post) =
      Some (Inr (Returned out (c_lflag OR flags))) \<and>
    main mt roll clock flags c_lflag winsize ts (map e_round (pre @ [e])) = Some (Inr (out, c_lflag OR flags))"
proof -
  obtain out0 t out s delay out' s' where r:
    "Terminal mt roll clock flags c_lflag winsize = Some (Inr (out0, c_lflag AND NOT flags, t))"
    "main_loop roll (map e_round pre) \<lparr>s_terminal = t, s_timing = Timing ts, s_stdin = []\<rparr> = Some (Inr (out, s))"
    "main_step roll (e_round e) s = Some (Inr (delay, out', s'))"
    "\<And>es. signal_loop roll stack (pre @ es) False \<lparr>s_terminal = t, s_timing = Timing ts, s_stdin = []\<rparr> =
      map_option (\<lambda>res. rbind res (\<lambda>(out', r). Inr (out @ out', r))) (signal_loop roll stack es False s)"
    using signal_main_ends [OF assms(1-3), where r = "e_round e"] by blast
  have "c_lflag AND NOT flags OR flags = c_lflag OR flags" by (simp add: bit_eq_iff bit_simps) blast
  then show ?thesis
    using r main_loop_snoc [OF r(2,3)] deliver_interrupted [OF assms(4)]
    by (simp add: signal_main_def main_def signal_loop_done exit_def initTerminal_def)
qed

lemma sigsegv_exits:
  assumes "drawable mt roll clock" "die_ok roll" "\<forall>x\<in>set pre. e_signals x = []" "e_signals e = SIGSEGV n # sigs"
  shows "\<exists>out. signal_main mt roll clock flags c_lflag winsize ts stack (pre @ e # post) =
      Some (Inr (Exited 1 (take 64 stack) out (c_lflag AND NOT flags)))"
proof -
  obtain out0 t out s delay out' s' where r:
    "Terminal mt roll clock flags c_lflag winsize = Some (Inr (out0, c_lflag AND NOT flags, t))"
    "main_loop roll (map e_round pre) \<lparr>s_terminal = t, s_timing = Timing ts, s_stdin = []\<rparr> = Some (Inr (out, s))"
    "main_step roll (e_round e) s = Some (Inr (delay, out', s'))"
    "\<And>es. signal_loop roll stack (pre @ es) False \<lparr>s_terminal = t, s_timing = Timing ts, s_stdin = []\<rparr> =
      map_option (\<lambda>res. rbind res (\<lambda>(out', r). Inr (out @ out', r))) (signal_loop roll stack es False s)"
    using signal_main_ends [OF assms(1-3), where r = "e_round e"] by blast
  then show ?thesis using assms(4) by (simp add: signal_main_def segfaultHandler_def kNumFrames_def)
qed

end
