(* ===== verification/Machine.thy ===== *)
theory Machine
  imports Prelude
begin

text \<open>
  What the vendored Abseil sources take from the machine and the compiler: the toolchain the
  preprocessor sees (\<open>toolchain\<close>), the byte order of the host (\<open>byte_order\<close>), memory as an array of
  bytes with bounds-checked unaligned access (\<^verbatim>\<open>base/internal/unaligned_access.h\<close>), and the meaning
  of the compiler intrinsics for byte swapping and bit scanning, by which the builds of a function for
  different toolchains are compared. A source line under \<^verbatim>\<open>#if\<close> is a branch on these parameters.
\<close>

section \<open>Computations that return\<close>

definition returns :: "'a res \<Rightarrow> bool" where
  "returns m \<longleftrightarrow> (\<exists>a. m = Inr a)"

lemma returns_Inr [simp, intro!]: "returns (Inr a)"
  by (simp add: returns_def)

lemma returns_rbind: "returns m \<Longrightarrow> (\<And>a. returns (f a)) \<Longrightarrow> returns (rbind m f)"
  by (auto simp: returns_def)

lemma returns_let: "(\<And>a. a = x \<Longrightarrow> returns (f a)) \<Longrightarrow> returns (let a = x in f a)"
  by simp

lemma rbind_cong: "m = m' \<Longrightarrow> (\<And>a. f a = g a) \<Longrightarrow> rbind m f = rbind m' g"
  by (cases m') auto

section \<open>Toolchains and byte order\<close>

datatype toolchain = Gnu | Msvc64 | Msvc32 | Generic

datatype byte_order = LittleEndian | BigEndian

type_synonym memory = "8 word list"

section \<open>Words as bytes\<close>

definition le_bytes :: "'a::len word \<Rightarrow> 8 word list" where
  "le_bytes x = map (\<lambda>i. ucast (drop_bit (8 * i) x)) [0..<LENGTH('a) div 8]"

fun le_word :: "8 word list \<Rightarrow> 'a::len word" where
  "le_word [] = 0"
| "le_word (b # bs) = ucast b OR push_bit 8 (le_word bs)"

lemma length_le_bytes [simp]: "length (le_bytes (x :: 'a::len word)) = LENGTH('a) div 8"
  by (simp add: le_bytes_def)

lemma bit_byte: "bit (b :: 8 word) n \<Longrightarrow> n < 8"
  using bit_imp_le_length by fastforce

lemma bit_le_word:
  "bit (le_word bs :: 'a::len word) n \<longleftrightarrow>
     n < LENGTH('a) \<and> n div 8 < length bs \<and> bit (bs ! (n div 8)) (n mod 8)"
proof (induction bs arbitrary: n)
  case (Cons b bs)
  show ?case
  proof (cases "n < 8")
    case True
    then show ?thesis by (auto simp: bit_simps dest: bit_imp_le_length)
  next
    case False
    then have eq: "n div 8 = Suc ((n - 8) div 8)" "n mod 8 = (n - 8) mod 8"
      by (simp_all add: le_div_geq le_mod_geq)
    then have "bit (ucast b :: 'a word) n \<longleftrightarrow> False" by (auto simp: bit_simps dest: bit_byte)
    then show ?thesis using False Cons [of "n - 8"] eq by (auto simp: bit_or_iff bit_push_bit_iff)
  qed
qed simp

lemma bit_le_bytes:
  "k < LENGTH('a) div 8 \<Longrightarrow> bit (le_bytes (x :: 'a::len word) ! k) j \<longleftrightarrow> j < 8 \<and> bit x (8 * k + j)"
  by (auto simp: le_bytes_def bit_simps dest: bit_byte)

lemma le_word_bytes [simp]:
  assumes "8 dvd LENGTH('a)"
  shows "le_word (le_bytes (x :: 'a::len word)) = x"
proof (rule bit_word_eqI)
  fix n assume n: "n < LENGTH('a)"
  then have "n div 8 < LENGTH('a) div 8" using assms by (auto simp: dvd_def)
  with n show "bit (le_word (le_bytes x) :: 'a word) n = bit x n"
    by (simp add: bit_le_word bit_le_bytes)
qed

lemma le_bytes_word [simp]:
  assumes "8 * length bs = LENGTH('a)"
  shows "le_bytes (le_word bs :: 'a::len word) = bs"
proof (rule nth_equalityI)
  show len: "length (le_bytes (le_word bs :: 'a word)) = length bs" using assms [symmetric] by simp
  fix k assume "k < length (le_bytes (le_word bs :: 'a word))"
  with len have k: "k < length bs" by simp
  show "le_bytes (le_word bs :: 'a word) ! k = bs ! k"
  proof (rule bit_word_eqI)
    fix j :: nat assume "j < LENGTH(8)"
    then have j: "j < 8" by simp
    then have "8 * k + j < LENGTH('a)" using k assms by linarith
    then show "bit (le_bytes (le_word bs :: 'a word) ! k) j = bit (bs ! k) j"
      using bit_le_bytes [where 'a = 'a, of k "le_word bs" j] k j assms [symmetric] by (simp add: bit_le_word)
  qed
qed

text \<open>A byte swap (\<^verbatim>\<open>__builtin_bswap64\<close>, \<^verbatim>\<open>_byteswap_uint64\<close> and their narrow versions).\<close>

definition bswap :: "'a::len word \<Rightarrow> 'a word" where
  "bswap x = le_word (rev (le_bytes x))"

lemma bit_bswap:
  assumes "8 dvd LENGTH('a)" "n < LENGTH('a)"
  shows "bit (bswap (x :: 'a::len word)) n = bit x (LENGTH('a) - 8 - 8 * (n div 8) + n mod 8)"
proof -
  obtain m where m: "LENGTH('a) = 8 * m" using assms(1) by (auto simp: dvd_def)
  have k: "n div 8 < m" using assms(2) m by (simp add: less_mult_imp_div_less mult.commute)
  then have "bit (bswap x) n = bit (le_bytes x ! (m - Suc (n div 8))) (n mod 8)"
    using assms(2) m by (simp add: bswap_def bit_le_word rev_nth)
  also have "\<dots> = bit x (8 * (m - Suc (n div 8)) + n mod 8)"
    using k m by (subst bit_le_bytes) auto
  also have "8 * (m - Suc (n div 8)) = LENGTH('a) - 8 - 8 * (n div 8)" using m k by simp
  finally show ?thesis .
qed

lemma bswap_bswap [simp]:
  assumes "8 dvd LENGTH('a)"
  shows "bswap (bswap x) = (x :: 'a::len word)"
proof -
  have "8 * length (rev (le_bytes x)) = LENGTH('a)" using assms by simp
  then have "le_bytes (bswap x) = rev (le_bytes x)" unfolding bswap_def by (rule le_bytes_word)
  then show ?thesis using assms by (simp add: bswap_def [of "bswap x"])
qed

section \<open>Memory\<close>

text \<open>
  The bytes of a word as the host lays them out, and \<^verbatim>\<open>memcpy\<close> between a word and an array; a
  pointer into the array is an offset, and an access that does not lie in the array is an error.
\<close>

definition host_bytes :: "byte_order \<Rightarrow> 'a::len word \<Rightarrow> 8 word list" where
  "host_bytes ord x = (case ord of LittleEndian \<Rightarrow> le_bytes x | BigEndian \<Rightarrow> rev (le_bytes x))"

definition host_word :: "byte_order \<Rightarrow> 8 word list \<Rightarrow> 'a::len word" where
  "host_word ord bs = (case ord of LittleEndian \<Rightarrow> le_word bs | BigEndian \<Rightarrow> le_word (rev bs))"

definition in_bounds :: "memory \<Rightarrow> int \<Rightarrow> nat \<Rightarrow> bool" where
  "in_bounds mem p n \<longleftrightarrow> 0 \<le> p \<and> p + int n \<le> int (length mem)"

definition mem_load :: "byte_order \<Rightarrow> memory \<Rightarrow> int \<Rightarrow> 'a::len word res" where
  "mem_load ord mem p =
     (if in_bounds mem p (LENGTH('a) div 8) then Inr (host_word ord (take (LENGTH('a) div 8) (drop (nat p) mem)))
      else Inl BadAccess)"

definition mem_store :: "byte_order \<Rightarrow> memory \<Rightarrow> int \<Rightarrow> 'a::len word \<Rightarrow> memory res" where
  "mem_store ord mem p v =
     (if in_bounds mem p (LENGTH('a) div 8) then
        Inr (take (nat p) mem @ host_bytes ord v @ drop (nat p + LENGTH('a) div 8) mem)
      else Inl BadAccess)"

definition UnalignedLoad16 :: "byte_order \<Rightarrow> memory \<Rightarrow> int \<Rightarrow> 16 word res" where "UnalignedLoad16 = mem_load"
definition UnalignedLoad32 :: "byte_order \<Rightarrow> memory \<Rightarrow> int \<Rightarrow> 32 word res" where "UnalignedLoad32 = mem_load"
definition UnalignedLoad64 :: "byte_order \<Rightarrow> memory \<Rightarrow> int \<Rightarrow> 64 word res" where "UnalignedLoad64 = mem_load"
definition UnalignedStore16 :: "byte_order \<Rightarrow> memory \<Rightarrow> int \<Rightarrow> 16 word \<Rightarrow> memory res" where "UnalignedStore16 = mem_store"
definition UnalignedStore32 :: "byte_order \<Rightarrow> memory \<Rightarrow> int \<Rightarrow> 32 word \<Rightarrow> memory res" where "UnalignedStore32 = mem_store"
definition UnalignedStore64 :: "byte_order \<Rightarrow> memory \<Rightarrow> int \<Rightarrow> 64 word \<Rightarrow> memory res" where "UnalignedStore64 = mem_store"

lemmas access_defs = UnalignedLoad16_def UnalignedLoad32_def UnalignedLoad64_def
  UnalignedStore16_def UnalignedStore32_def UnalignedStore64_def

lemma length_host_bytes [simp]: "length (host_bytes ord (x :: 'a::len word)) = LENGTH('a) div 8"
  by (simp add: host_bytes_def split: byte_order.splits)

lemma host_word_bytes [simp]: "8 dvd LENGTH('a) \<Longrightarrow> host_word ord (host_bytes ord (x :: 'a::len word)) = x"
  by (simp add: host_bytes_def host_word_def split: byte_order.splits)

lemma load_total: "in_bounds mem p (LENGTH('a) div 8) \<Longrightarrow> \<exists>v. mem_load ord mem p = Inr (v :: 'a::len word)"
  by (simp add: mem_load_def)

lemma load_store:
  assumes "mem_store ord mem p (v :: 'a::len word) = Inr mem'" "8 dvd LENGTH('a)"
  shows "mem_load ord mem' p = Inr v \<and> length mem' = length mem"
proof -
  let ?n = "LENGTH('a) div 8"
  have b: "in_bounds mem p ?n" "mem' = take (nat p) mem @ host_bytes ord v @ drop (nat p + ?n) mem"
    using assms(1) by (auto simp: mem_store_def split: if_splits)
  have p: "nat p + ?n \<le> length mem" using b(1) by (auto simp: in_bounds_def)
  then have len: "length mem' = length mem" using b(2) by simp
  then have "in_bounds mem' p ?n" using b(1) by (simp add: in_bounds_def)
  moreover have "take ?n (drop (nat p) mem') = host_bytes ord v" using b(2) p by simp
  ultimately show ?thesis using assms(2) len by (simp add: mem_load_def)
qed

section \<open>Bit scanning\<close>

text \<open>
  The width of a number (the position of its highest set bit, plus one) and the number of trailing
  zeros: what \<^verbatim>\<open>__builtin_clz\<close>, \<^verbatim>\<open>__builtin_ctz\<close>, \<^verbatim>\<open>_BitScanReverse\<close> and \<^verbatim>\<open>_BitScanForward\<close> compute.
\<close>

fun nat_width :: "nat \<Rightarrow> nat" where
  "nat_width n = (if n = 0 then 0 else Suc (nat_width (n div 2)))"

declare nat_width.simps [simp del]

lemma nat_width_0 [simp]: "nat_width 0 = 0"
  by (simp add: nat_width.simps)

lemma nat_width_le_iff: "nat_width n \<le> k \<longleftrightarrow> n < 2 ^ k"
proof (induction n arbitrary: k rule: nat_width.induct)
  case (1 n)
  show ?case
  proof (cases "n = 0")
    case False
    show ?thesis
    proof (cases k)
      case 0
      with False show ?thesis by (simp add: nat_width.simps)
    next
      case (Suc j)
      have "n div 2 < 2 ^ j \<longleftrightarrow> n < 2 ^ Suc j" by (auto simp: less_mult_imp_div_less mult.commute)
      with 1 [OF False, of j] Suc False show ?thesis by (simp add: nat_width.simps [of n])
    qed
  qed simp
qed

lemma nat_width_bounds: "0 < n \<Longrightarrow> 2 ^ (nat_width n - 1) \<le> n \<and> n < 2 ^ nat_width n"
  using nat_width_le_iff [of n "nat_width n"] nat_width_le_iff [of n "nat_width n - 1"] by (cases "nat_width n") (auto simp: nat_width.simps [of n])

lemma nat_width_eqI: "2 ^ k \<le> n \<Longrightarrow> n < 2 ^ Suc k \<Longrightarrow> nat_width n = Suc k"
  using nat_width_le_iff [of n "Suc k"] nat_width_le_iff [of n k] by simp

lemma nat_width_div: "2 ^ k \<le> n \<Longrightarrow> nat_width n = k + nat_width (n div 2 ^ k)"
proof (induction k arbitrary: n)
  case (Suc k)
  from Suc.prems have n: "2 ^ k \<le> n div 2" by (simp add: less_eq_div_iff_mult_less_eq mult.commute)
  then have "n div 2 \<noteq> 0" by (metis le_zero_eq power_not_zero zero_neq_numeral)
  with n have n: "n \<noteq> 0" "2 ^ k \<le> n div 2" by auto
  then have "nat_width n = Suc (k + nat_width (n div 2 div 2 ^ k))" using Suc.IH by (simp add: nat_width.simps [of n])
  then show ?case by (simp add: div_mult2_eq)
qed simp

lemma nat_width_word: "nat_width (unat (x :: 'a::len word)) \<le> LENGTH('a)"
  by (simp add: nat_width_le_iff)

fun nat_trailing :: "nat \<Rightarrow> nat" where
  "nat_trailing n = (if n = 0 \<or> odd n then 0 else Suc (nat_trailing (n div 2)))"

declare nat_trailing.simps [simp del]

lemma nat_trailing_dvd: "0 < n \<Longrightarrow> \<exists>m. n = 2 ^ nat_trailing n * (2 * m + 1)"
proof (induction n rule: nat_trailing.induct)
  case (1 n)
  show ?case
  proof (cases "odd n")
    case True
    then show ?thesis by (auto simp: nat_trailing.simps [of n] elim: oddE)
  next
    case False
    with 1(2) have "0 < n div 2" by (auto elim!: evenE)
    with False 1 obtain m where "n div 2 = 2 ^ nat_trailing (n div 2) * (2 * m + 1)" by auto
    moreover have "n = 2 * (n div 2)" using False by simp
    ultimately have "n = 2 * (2 ^ nat_trailing (n div 2) * (2 * m + 1))" by simp
    with False 1(2) show ?thesis by (intro exI [of _ m]) (simp add: nat_trailing.simps [of n])
  qed
qed

lemma nat_trailing_eqI: "n = 2 ^ k * (2 * m + 1) \<Longrightarrow> nat_trailing n = k"
proof (induction k arbitrary: n)
  case (Suc k)
  then have "even n" "n \<noteq> 0" "n div 2 = 2 ^ k * (2 * m + 1)" by auto
  with Suc.IH show ?case by (simp add: nat_trailing.simps [of n])
qed (simp add: nat_trailing.simps)

lemma nat_trailing_less:
  assumes "n < 2 ^ k" "0 < n"
  shows "nat_trailing n < k"
proof -
  obtain m where "n = 2 ^ nat_trailing n * (2 * m + 1)" using nat_trailing_dvd [OF assms(2)] by blast
  then have "2 ^ nat_trailing n \<le> n" by (metis le_add2 mult_le_mono2 mult.right_neutral)
  with assms(1) have "(2::nat) ^ nat_trailing n < 2 ^ k" by linarith
  then show ?thesis by simp
qed

text \<open>The intrinsics on a nonzero word; \<^verbatim>\<open>_BitScanReverse\<close> and \<^verbatim>\<open>_BitScanForward\<close> report failure on 0.\<close>

definition builtin_clz :: "'a::len word \<Rightarrow> int" where
  "builtin_clz x = int LENGTH('a) - int (nat_width (unat x))"

definition builtin_ctz :: "'a::len word \<Rightarrow> int" where
  "builtin_ctz x = int (nat_trailing (unat x))"

definition bit_scan_reverse :: "'a::len word \<Rightarrow> int option" where
  "bit_scan_reverse x = (if x = 0 then None else Some (int (nat_width (unat x)) - 1))"

definition bit_scan_forward :: "'a::len word \<Rightarrow> int" where
  "bit_scan_forward x = int (nat_trailing (unat x))"

definition builtin_popcount :: "'a::len word \<Rightarrow> int" where
  "builtin_popcount x = (\<Sum>i<LENGTH('a). of_bool (bit x i))"

end
