(* ===== verification/Endian.thy ===== *)
theory Endian
  imports Machine
begin

text \<open>
  \<^verbatim>\<open>absl/base/internal/endian.h\<close>: byte swapping for every toolchain, the conversions between host,
  network, little-endian and big-endian order for both byte orders of the host, and the unaligned
  loads and stores in a given order. The lemmas show that the portable swaps compute what the
  compiler intrinsics do, and that the stores lay out bytes independently of the host.
\<close>

section \<open>Byte swapping\<close>

definition gbswap_64 :: "toolchain \<Rightarrow> 64 word \<Rightarrow> 64 word" where
  "gbswap_64 tc host_int = (case tc of
       Gnu \<Rightarrow> bswap host_int
     | Msvc64 \<Rightarrow> bswap host_int
     | Msvc32 \<Rightarrow> bswap host_int
     | Generic \<Rightarrow>
         push_bit 56 (host_int AND 0xFF) OR
         push_bit 40 (host_int AND 0xFF00) OR
         push_bit 24 (host_int AND 0xFF0000) OR
         push_bit 8 (host_int AND 0xFF000000) OR
         drop_bit 8 (host_int AND 0xFF00000000) OR
         drop_bit 24 (host_int AND 0xFF0000000000) OR
         drop_bit 40 (host_int AND 0xFF000000000000) OR
         drop_bit 56 (host_int AND 0xFF00000000000000))"

definition gbswap_32 :: "toolchain \<Rightarrow> 32 word \<Rightarrow> 32 word" where
  "gbswap_32 tc host_int = (case tc of
       Gnu \<Rightarrow> bswap host_int
     | Msvc64 \<Rightarrow> bswap host_int
     | Msvc32 \<Rightarrow> bswap host_int
     | Generic \<Rightarrow>
         push_bit 24 (host_int AND 0xFF) OR
         push_bit 8 (host_int AND 0xFF00) OR
         drop_bit 8 (host_int AND 0xFF0000) OR
         drop_bit 24 (host_int AND 0xFF000000))"

definition gbswap_16 :: "toolchain \<Rightarrow> 16 word \<Rightarrow> 16 word" where
  "gbswap_16 tc host_int = (case tc of
       Gnu \<Rightarrow> bswap host_int
     | Msvc64 \<Rightarrow> bswap host_int
     | Msvc32 \<Rightarrow> bswap host_int
     | Generic \<Rightarrow> push_bit 8 (host_int AND 0xFF) OR drop_bit 8 (host_int AND 0xFF00))"

section \<open>Network order\<close>

definition ghtons :: "toolchain \<Rightarrow> byte_order \<Rightarrow> 16 word \<Rightarrow> 16 word" where
  "ghtons tc ord x = (case ord of LittleEndian \<Rightarrow> gbswap_16 tc x | BigEndian \<Rightarrow> x)"
definition ghtonl :: "toolchain \<Rightarrow> byte_order \<Rightarrow> 32 word \<Rightarrow> 32 word" where
  "ghtonl tc ord x = (case ord of LittleEndian \<Rightarrow> gbswap_32 tc x | BigEndian \<Rightarrow> x)"
definition ghtonll :: "toolchain \<Rightarrow> byte_order \<Rightarrow> 64 word \<Rightarrow> 64 word" where
  "ghtonll tc ord x = (case ord of LittleEndian \<Rightarrow> gbswap_64 tc x | BigEndian \<Rightarrow> x)"

definition gntohs :: "toolchain \<Rightarrow> byte_order \<Rightarrow> 16 word \<Rightarrow> 16 word" where "gntohs tc ord x = ghtons tc ord x"
definition gntohl :: "toolchain \<Rightarrow> byte_order \<Rightarrow> 32 word \<Rightarrow> 32 word" where "gntohl tc ord x = ghtonl tc ord x"
definition gntohll :: "toolchain \<Rightarrow> byte_order \<Rightarrow> 64 word \<Rightarrow> 64 word" where "gntohll tc ord x = ghtonll tc ord x"

section \<open>The namespaces little_endian and big_endian\<close>

text \<open>
  Conversions of the two namespaces, whose functions have the same names in the source. The overloads
  \<^verbatim>\<open>FromHost\<close> and \<^verbatim>\<open>ToHost\<close> select the function of the argument's width; those for signed integers
  \<^verbatim>\<open>bit_cast\<close> to the unsigned type of that width and back, so a word stands for both.
\<close>

definition LE_FromHost16 :: "toolchain \<Rightarrow> byte_order \<Rightarrow> 16 word \<Rightarrow> 16 word" where
  "LE_FromHost16 tc ord x = (case ord of LittleEndian \<Rightarrow> x | BigEndian \<Rightarrow> gbswap_16 tc x)"
definition LE_ToHost16 :: "toolchain \<Rightarrow> byte_order \<Rightarrow> 16 word \<Rightarrow> 16 word" where
  "LE_ToHost16 tc ord x = (case ord of LittleEndian \<Rightarrow> x | BigEndian \<Rightarrow> gbswap_16 tc x)"
definition LE_FromHost32 :: "toolchain \<Rightarrow> byte_order \<Rightarrow> 32 word \<Rightarrow> 32 word" where
  "LE_FromHost32 tc ord x = (case ord of LittleEndian \<Rightarrow> x | BigEndian \<Rightarrow> gbswap_32 tc x)"
definition LE_ToHost32 :: "toolchain \<Rightarrow> byte_order \<Rightarrow> 32 word \<Rightarrow> 32 word" where
  "LE_ToHost32 tc ord x = (case ord of LittleEndian \<Rightarrow> x | BigEndian \<Rightarrow> gbswap_32 tc x)"
definition LE_FromHost64 :: "toolchain \<Rightarrow> byte_order \<Rightarrow> 64 word \<Rightarrow> 64 word" where
  "LE_FromHost64 tc ord x = (case ord of LittleEndian \<Rightarrow> x | BigEndian \<Rightarrow> gbswap_64 tc x)"
definition LE_ToHost64 :: "toolchain \<Rightarrow> byte_order \<Rightarrow> 64 word \<Rightarrow> 64 word" where
  "LE_ToHost64 tc ord x = (case ord of LittleEndian \<Rightarrow> x | BigEndian \<Rightarrow> gbswap_64 tc x)"

definition LE_FromHost :: "toolchain \<Rightarrow> byte_order \<Rightarrow> 'a::len word \<Rightarrow> 'a word" where
  "LE_FromHost tc ord x =
     (if LENGTH('a) = 8 then x
      else if LENGTH('a) = 16 then ucast (LE_FromHost16 tc ord (ucast x))
      else if LENGTH('a) = 32 then ucast (LE_FromHost32 tc ord (ucast x))
      else ucast (LE_FromHost64 tc ord (ucast x)))"

definition LE_ToHost :: "toolchain \<Rightarrow> byte_order \<Rightarrow> 'a::len word \<Rightarrow> 'a word" where
  "LE_ToHost tc ord x =
     (if LENGTH('a) = 8 then x
      else if LENGTH('a) = 16 then ucast (LE_ToHost16 tc ord (ucast x))
      else if LENGTH('a) = 32 then ucast (LE_ToHost32 tc ord (ucast x))
      else ucast (LE_ToHost64 tc ord (ucast x)))"

definition LE_Load16 :: "toolchain \<Rightarrow> byte_order \<Rightarrow> memory \<Rightarrow> int \<Rightarrow> 16 word res" where
  "LE_Load16 tc ord mem p = rbind (UnalignedLoad16 ord mem p) (\<lambda>v. Inr (LE_ToHost16 tc ord v))"
definition LE_Store16 :: "toolchain \<Rightarrow> byte_order \<Rightarrow> memory \<Rightarrow> int \<Rightarrow> 16 word \<Rightarrow> memory res" where
  "LE_Store16 tc ord mem p v = UnalignedStore16 ord mem p (LE_FromHost16 tc ord v)"
definition LE_Load32 :: "toolchain \<Rightarrow> byte_order \<Rightarrow> memory \<Rightarrow> int \<Rightarrow> 32 word res" where
  "LE_Load32 tc ord mem p = rbind (UnalignedLoad32 ord mem p) (\<lambda>v. Inr (LE_ToHost32 tc ord v))"
definition LE_Store32 :: "toolchain \<Rightarrow> byte_order \<Rightarrow> memory \<Rightarrow> int \<Rightarrow> 32 word \<Rightarrow> memory res" where
  "LE_Store32 tc ord mem p v = UnalignedStore32 ord mem p (LE_FromHost32 tc ord v)"
definition LE_Load64 :: "toolchain \<Rightarrow> byte_order \<Rightarrow> memory \<Rightarrow> int \<Rightarrow> 64 word res" where
  "LE_Load64 tc ord mem p = rbind (UnalignedLoad64 ord mem p) (\<lambda>v. Inr (LE_ToHost64 tc ord v))"
definition LE_Store64 :: "toolchain \<Rightarrow> byte_order \<Rightarrow> memory \<Rightarrow> int \<Rightarrow> 64 word \<Rightarrow> memory res" where
  "LE_Store64 tc ord mem p v = UnalignedStore64 ord mem p (LE_FromHost64 tc ord v)"

definition BE_FromHost16 :: "toolchain \<Rightarrow> byte_order \<Rightarrow> 16 word \<Rightarrow> 16 word" where
  "BE_FromHost16 tc ord x = (case ord of LittleEndian \<Rightarrow> gbswap_16 tc x | BigEndian \<Rightarrow> x)"
definition BE_ToHost16 :: "toolchain \<Rightarrow> byte_order \<Rightarrow> 16 word \<Rightarrow> 16 word" where
  "BE_ToHost16 tc ord x = (case ord of LittleEndian \<Rightarrow> gbswap_16 tc x | BigEndian \<Rightarrow> x)"
definition BE_FromHost32 :: "toolchain \<Rightarrow> byte_order \<Rightarrow> 32 word \<Rightarrow> 32 word" where
  "BE_FromHost32 tc ord x = (case ord of LittleEndian \<Rightarrow> gbswap_32 tc x | BigEndian \<Rightarrow> x)"
definition BE_ToHost32 :: "toolchain \<Rightarrow> byte_order \<Rightarrow> 32 word \<Rightarrow> 32 word" where
  "BE_ToHost32 tc ord x = (case ord of LittleEndian \<Rightarrow> gbswap_32 tc x | BigEndian \<Rightarrow> x)"
definition BE_FromHost64 :: "toolchain \<Rightarrow> byte_order \<Rightarrow> 64 word \<Rightarrow> 64 word" where
  "BE_FromHost64 tc ord x = (case ord of LittleEndian \<Rightarrow> gbswap_64 tc x | BigEndian \<Rightarrow> x)"
definition BE_ToHost64 :: "toolchain \<Rightarrow> byte_order \<Rightarrow> 64 word \<Rightarrow> 64 word" where
  "BE_ToHost64 tc ord x = (case ord of LittleEndian \<Rightarrow> gbswap_64 tc x | BigEndian \<Rightarrow> x)"

definition BE_FromHost :: "toolchain \<Rightarrow> byte_order \<Rightarrow> 'a::len word \<Rightarrow> 'a word" where
  "BE_FromHost tc ord x =
     (if LENGTH('a) = 8 then x
      else if LENGTH('a) = 16 then ucast (BE_FromHost16 tc ord (ucast x))
      else if LENGTH('a) = 32 then ucast (BE_FromHost32 tc ord (ucast x))
      else ucast (BE_FromHost64 tc ord (ucast x)))"

definition BE_ToHost :: "toolchain \<Rightarrow> byte_order \<Rightarrow> 'a::len word \<Rightarrow> 'a word" where
  "BE_ToHost tc ord x =
     (if LENGTH('a) = 8 then x
      else if LENGTH('a) = 16 then ucast (BE_ToHost16 tc ord (ucast x))
      else if LENGTH('a) = 32 then ucast (BE_ToHost32 tc ord (ucast x))
      else ucast (BE_ToHost64 tc ord (ucast x)))"

definition BE_Load16 :: "toolchain \<Rightarrow> byte_order \<Rightarrow> memory \<Rightarrow> int \<Rightarrow> 16 word res" where
  "BE_Load16 tc ord mem p = rbind (UnalignedLoad16 ord mem p) (\<lambda>v. Inr (BE_ToHost16 tc ord v))"
definition BE_Store16 :: "toolchain \<Rightarrow> byte_order \<Rightarrow> memory \<Rightarrow> int \<Rightarrow> 16 word \<Rightarrow> memory res" where
  "BE_Store16 tc ord mem p v = UnalignedStore16 ord mem p (BE_FromHost16 tc ord v)"
definition BE_Load32 :: "toolchain \<Rightarrow> byte_order \<Rightarrow> memory \<Rightarrow> int \<Rightarrow> 32 word res" where
  "BE_Load32 tc ord mem p = rbind (UnalignedLoad32 ord mem p) (\<lambda>v. Inr (BE_ToHost32 tc ord v))"
definition BE_Store32 :: "toolchain \<Rightarrow> byte_order \<Rightarrow> memory \<Rightarrow> int \<Rightarrow> 32 word \<Rightarrow> memory res" where
  "BE_Store32 tc ord mem p v = UnalignedStore32 ord mem p (BE_FromHost32 tc ord v)"
definition BE_Load64 :: "toolchain \<Rightarrow> byte_order \<Rightarrow> memory \<Rightarrow> int \<Rightarrow> 64 word res" where
  "BE_Load64 tc ord mem p = rbind (UnalignedLoad64 ord mem p) (\<lambda>v. Inr (BE_ToHost64 tc ord v))"
definition BE_Store64 :: "toolchain \<Rightarrow> byte_order \<Rightarrow> memory \<Rightarrow> int \<Rightarrow> 64 word \<Rightarrow> memory res" where
  "BE_Store64 tc ord mem p v = UnalignedStore64 ord mem p (BE_FromHost64 tc ord v)"

section \<open>Every toolchain swaps the same way\<close>

text \<open>A byte taken out by its mask, bit by bit.\<close>

definition byte_mask :: "nat \<Rightarrow> 'a::len word" where
  "byte_mask k = push_bit (8 * k) (mask 8)"

lemma bit_and_byte_mask:
  "bit (x AND byte_mask k :: 'a::len word) n \<longleftrightarrow> bit x n \<and> n div 8 = k"
proof -
  have "8 * k \<le> n \<and> n - 8 * k < 8 \<longleftrightarrow> n div 8 = k" by (auto simp: div_nat_eqI)
  then show ?thesis by (auto simp: byte_mask_def bit_simps possible_bit_word dest: bit_imp_le_length)
qed

lemma byte_masks_64:
  "(0xFF :: 64 word) = byte_mask 0" "(0xFF00 :: 64 word) = byte_mask 1" "(0xFF0000 :: 64 word) = byte_mask 2"
  "(0xFF000000 :: 64 word) = byte_mask 3" "(0xFF00000000 :: 64 word) = byte_mask 4"
  "(0xFF0000000000 :: 64 word) = byte_mask 5" "(0xFF000000000000 :: 64 word) = byte_mask 6"
  "(0xFF00000000000000 :: 64 word) = byte_mask 7"
  by (simp_all add: byte_mask_def mask_eq_exp_minus_1 push_bit_eq_mult)

lemma byte_masks_32:
  "(0xFF :: 32 word) = byte_mask 0" "(0xFF00 :: 32 word) = byte_mask 1" "(0xFF0000 :: 32 word) = byte_mask 2"
  "(0xFF000000 :: 32 word) = byte_mask 3"
  by (simp_all add: byte_mask_def mask_eq_exp_minus_1 push_bit_eq_mult)

lemma byte_masks_16: "(0xFF :: 16 word) = byte_mask 0" "(0xFF00 :: 16 word) = byte_mask 1"
  by (simp_all add: byte_mask_def mask_eq_exp_minus_1 push_bit_eq_mult)

lemma bit_push_byte:
  assumes "n < LENGTH('a)"
  shows "bit (push_bit (8 * d) (x AND byte_mask k) :: 'a::len word) n \<longleftrightarrow> n div 8 = k + d \<and> bit x (n - 8 * d)"
proof (cases "8 * d \<le> n")
  case True
  then obtain m where "n = 8 * d + m" using le_Suc_ex by blast
  with assms show ?thesis unfolding bit_push_bit_iff bit_and_byte_mask by (auto simp: possible_bit_word)
next
  case False
  then have "n div 8 < d" by auto
  with False show ?thesis unfolding bit_push_bit_iff by simp
qed

lemma bit_drop_byte:
  "bit (drop_bit (8 * d) (x AND byte_mask k) :: 'a::len word) n \<longleftrightarrow> n div 8 + d = k \<and> bit x (n + 8 * d)"
  unfolding bit_drop_bit_eq comp_def bit_and_byte_mask by (auto simp: add.commute)

lemmas byte_shifts =
  bit_push_byte [where d = 7, simplified] bit_push_byte [where d = 5, simplified]
  bit_push_byte [where d = 3, simplified] bit_push_byte [where d = 1, simplified]
  bit_drop_byte [where d = 7, simplified] bit_drop_byte [where d = 5, simplified]
  bit_drop_byte [where d = 3, simplified] bit_drop_byte [where d = 1, simplified]

lemma byte_position:
  assumes "n < 8 * m" "\<And>k j. k < m \<Longrightarrow> j < 8 \<Longrightarrow> P (8 * k + j)"
  shows "P (n :: nat)"
  using assms(2) [of "n div 8" "n mod 8"] assms(1) by (simp add: less_mult_imp_div_less mult.commute)

lemma gbswap_64_eq [simp]: "gbswap_64 tc x = bswap x"
proof (cases tc)
  case Generic
  show ?thesis
  proof (rule bit_word_eqI)
    fix n assume "n < LENGTH(64)"
    then have "n < 8 * 8" by simp
    then show "bit (gbswap_64 tc x) n = bit (bswap x) n"
    proof (rule byte_position)
      fix k j :: nat assume kj: "k < 8" "j < 8"
      then have n: "8 * k + j < 64" "(8 * k + j) div 8 = k" "(8 * k + j) mod 8 = j" by simp_all
      from kj(1) have "k = 0 \<or> k = 1 \<or> k = 2 \<or> k = 3 \<or> k = 4 \<or> k = 5 \<or> k = 6 \<or> k = 7" by linarith
      then show "bit (gbswap_64 tc x) (8 * k + j) = bit (bswap x) (8 * k + j)"
        unfolding Generic gbswap_64_def toolchain.case byte_masks_64 bit_or_iff
        by (simp add: byte_shifts bit_bswap n) (elim disjE; simp add: kj add.commute)
    qed
  qed
qed (simp_all add: gbswap_64_def)

lemma gbswap_32_eq [simp]: "gbswap_32 tc x = bswap x"
proof (cases tc)
  case Generic
  show ?thesis
  proof (rule bit_word_eqI)
    fix n assume "n < LENGTH(32)"
    then have "n < 8 * 4" by simp
    then show "bit (gbswap_32 tc x) n = bit (bswap x) n"
    proof (rule byte_position)
      fix k j :: nat assume kj: "k < 4" "j < 8"
      then have n: "8 * k + j < 32" "(8 * k + j) div 8 = k" "(8 * k + j) mod 8 = j" by simp_all
      from kj(1) have "k = 0 \<or> k = 1 \<or> k = 2 \<or> k = 3" by linarith
      then show "bit (gbswap_32 tc x) (8 * k + j) = bit (bswap x) (8 * k + j)"
        unfolding Generic gbswap_32_def toolchain.case byte_masks_32 bit_or_iff
        by (simp add: byte_shifts bit_bswap n) (elim disjE; simp add: kj add.commute)
    qed
  qed
qed (simp_all add: gbswap_32_def)

lemma gbswap_16_eq [simp]: "gbswap_16 tc x = bswap x"
proof (cases tc)
  case Generic
  show ?thesis
  proof (rule bit_word_eqI)
    fix n assume "n < LENGTH(16)"
    then have "n < 8 * 2" by simp
    then show "bit (gbswap_16 tc x) n = bit (bswap x) n"
    proof (rule byte_position)
      fix k j :: nat assume kj: "k < 2" "j < 8"
      then have n: "8 * k + j < 16" "(8 * k + j) div 8 = k" "(8 * k + j) mod 8 = j" by simp_all
      from kj(1) have "k = 0 \<or> k = 1" by linarith
      then show "bit (gbswap_16 tc x) (8 * k + j) = bit (bswap x) (8 * k + j)"
        unfolding Generic gbswap_16_def toolchain.case byte_masks_16 bit_or_iff
        by (simp add: byte_shifts bit_bswap n) (elim disjE; simp add: kj add.commute)
    qed
  qed
qed (simp_all add: gbswap_16_def)

section \<open>Loads and stores in a fixed order\<close>

lemma host_bytes_swap:
  assumes "8 dvd LENGTH('a)"
  shows "host_bytes LittleEndian (bswap x) = host_bytes BigEndian (x :: 'a::len word)"
    "host_bytes BigEndian (bswap x) = host_bytes LittleEndian x"
proof -
  have "8 * length (rev (le_bytes x)) = LENGTH('a)" using assms by simp
  then have "le_bytes (bswap x) = rev (le_bytes x)" unfolding bswap_def by (rule le_bytes_word)
  then show "host_bytes LittleEndian (bswap x) = host_bytes BigEndian x"
    "host_bytes BigEndian (bswap x) = host_bytes LittleEndian x"
    by (simp_all add: host_bytes_def)
qed

lemma FromHost_bytes:
  "host_bytes ord (LE_FromHost16 tc ord a) = host_bytes LittleEndian a"
  "host_bytes ord (LE_FromHost32 tc ord b) = host_bytes LittleEndian b"
  "host_bytes ord (LE_FromHost64 tc ord c) = host_bytes LittleEndian c"
  "host_bytes ord (BE_FromHost16 tc ord a) = host_bytes BigEndian a"
  "host_bytes ord (BE_FromHost32 tc ord b) = host_bytes BigEndian b"
  "host_bytes ord (BE_FromHost64 tc ord c) = host_bytes BigEndian c"
  by (cases ord; simp add: LE_FromHost16_def LE_FromHost32_def LE_FromHost64_def
        BE_FromHost16_def BE_FromHost32_def BE_FromHost64_def host_bytes_swap)+

lemmas load_store_defs = LE_Store16_def LE_Store32_def LE_Store64_def BE_Store16_def BE_Store32_def BE_Store64_def
  LE_Load16_def LE_Load32_def LE_Load64_def BE_Load16_def BE_Load32_def BE_Load64_def

lemmas to_host_defs = LE_ToHost16_def LE_ToHost32_def LE_ToHost64_def BE_ToHost16_def BE_ToHost32_def BE_ToHost64_def

lemma Store_layout:
  "LE_Store16 tc ord mem p a = mem_store LittleEndian mem p a"
  "LE_Store32 tc ord mem p b = mem_store LittleEndian mem p b"
  "LE_Store64 tc ord mem p c = mem_store LittleEndian mem p c"
  "BE_Store16 tc ord mem p a = mem_store BigEndian mem p a"
  "BE_Store32 tc ord mem p b = mem_store BigEndian mem p b"
  "BE_Store64 tc ord mem p c = mem_store BigEndian mem p c"
  by (simp_all add: load_store_defs access_defs mem_store_def FromHost_bytes)

lemma host_word_swap:
  assumes "8 * length bs = LENGTH('a)"
  shows "(host_word BigEndian bs :: 'a::len word) = bswap (host_word LittleEndian bs)"
  using assms by (simp add: host_word_def bswap_def)

lemma Load_layout:
  "LE_Load16 tc ord mem p = mem_load LittleEndian mem p"
  "LE_Load32 tc ord mem p = mem_load LittleEndian mem p"
  "LE_Load64 tc ord mem p = mem_load LittleEndian mem p"
  "BE_Load16 tc ord mem p = mem_load BigEndian mem p"
  "BE_Load32 tc ord mem p = mem_load BigEndian mem p"
  "BE_Load64 tc ord mem p = mem_load BigEndian mem p"
  by (cases ord; auto simp: load_store_defs access_defs mem_load_def in_bounds_def to_host_defs host_word_swap)+

text \<open>Conversion to an order and back is the identity, for the overloads of every width.\<close>

lemma ucast_back: "LENGTH('b) \<le> LENGTH('c) \<Longrightarrow> (ucast (ucast y :: 'c::len word) :: 'b::len word) = y"
  by (rule bit_word_eqI) (simp add: bit_simps)

lemma ToHost_FromHost:
  assumes "LENGTH('a) \<in> {8, 16, 32, 64}"
  shows "LE_ToHost tc ord (LE_FromHost tc ord x) = (x :: 'a::len word)"
    "BE_ToHost tc ord (BE_FromHost tc ord x) = x"
  using assms by (cases ord; auto simp: LE_ToHost_def LE_FromHost_def BE_ToHost_def BE_FromHost_def to_host_defs
      LE_FromHost16_def LE_FromHost32_def LE_FromHost64_def BE_FromHost16_def BE_FromHost32_def BE_FromHost64_def
      ucast_back)+

end
