(* ===== verification/City.thy ===== *)
theory City
  imports Endian
begin

text \<open>
  CityHash, \<^verbatim>\<open>absl/hash/internal/city.cc\<close>: the 32-bit and 64-bit hashes of a byte array. \<open>mem\<close> is the
  array, \<open>s\<close> the offset of the hashed bytes in it, \<open>len\<close> their number; a fetch outside the array is an
  error. Unsigned arithmetic wraps as in the source, the byte order of the host and the toolchain are
  the parameters of \<^verbatim>\<open>Machine\<close>. The lemmas show that for every length all fetches stay inside the hashed
  bytes and that the hash does not depend on the host or the compiler.
\<close>

section \<open>Fetching\<close>

definition uint32_in_expected_order :: "toolchain \<Rightarrow> byte_order \<Rightarrow> 32 word \<Rightarrow> 32 word" where
  "uint32_in_expected_order tc ord x = (case ord of BigEndian \<Rightarrow> gbswap_32 tc x | LittleEndian \<Rightarrow> x)"

definition uint64_in_expected_order :: "toolchain \<Rightarrow> byte_order \<Rightarrow> 64 word \<Rightarrow> 64 word" where
  "uint64_in_expected_order tc ord x = (case ord of BigEndian \<Rightarrow> gbswap_64 tc x | LittleEndian \<Rightarrow> x)"

definition Fetch64 :: "toolchain \<Rightarrow> byte_order \<Rightarrow> memory \<Rightarrow> int \<Rightarrow> 64 word res" where
  "Fetch64 tc ord mem p = rbind (UnalignedLoad64 ord mem p) (\<lambda>v. Inr (uint64_in_expected_order tc ord v))"

definition Fetch32 :: "toolchain \<Rightarrow> byte_order \<Rightarrow> memory \<Rightarrow> int \<Rightarrow> 32 word res" where
  "Fetch32 tc ord mem p = rbind (UnalignedLoad32 ord mem p) (\<lambda>v. Inr (uint32_in_expected_order tc ord v))"

definition fetch_byte :: "memory \<Rightarrow> int \<Rightarrow> 8 word res" where
  "fetch_byte mem p = (if in_bounds mem p 1 then Inr (mem ! nat p) else Inl BadAccess)"

section \<open>Mixing\<close>

definition k0 :: "64 word" where "k0 = 0xc3a5c85c97cb3127"
definition k1 :: "64 word" where "k1 = 0xb492b66fbe98f273"
definition k2 :: "64 word" where "k2 = 0x9ae16a3b2f90404f"

definition c1 :: "32 word" where "c1 = 0xcc9e2d51"
definition c2 :: "32 word" where "c2 = 0x1b873593"

definition fmix :: "32 word \<Rightarrow> 32 word" where
  "fmix h = (let h = h XOR drop_bit 16 h;
                 h = h * 0x85ebca6b;
                 h = h XOR drop_bit 13 h;
                 h = h * 0xc2b2ae35;
                 h = h XOR drop_bit 16 h
             in h)"

definition Rotate32 :: "32 word \<Rightarrow> nat \<Rightarrow> 32 word" where
  "Rotate32 val shift = (if shift = 0 then val else drop_bit shift val OR push_bit (32 - shift) val)"

definition Mur :: "32 word \<Rightarrow> 32 word \<Rightarrow> 32 word" where
  "Mur a h = (let a = a * c1;
                  a = Rotate32 a 17;
                  a = a * c2;
                  h = h XOR a;
                  h = Rotate32 h 19
              in h * 5 + 0xe6546b64)"

section \<open>The 32-bit hash\<close>

definition Hash32Len13to24 :: "toolchain \<Rightarrow> byte_order \<Rightarrow> memory \<Rightarrow> int \<Rightarrow> nat \<Rightarrow> 32 word res" where
  "Hash32Len13to24 tc ord mem s len =
     rbind (Fetch32 tc ord mem (s - 4 + int (len div 2))) (\<lambda>a.
     rbind (Fetch32 tc ord mem (s + 4)) (\<lambda>b.
     rbind (Fetch32 tc ord mem (s + int len - 8)) (\<lambda>c.
     rbind (Fetch32 tc ord mem (s + int (len div 2))) (\<lambda>d.
     rbind (Fetch32 tc ord mem s) (\<lambda>e.
     rbind (Fetch32 tc ord mem (s + int len - 4)) (\<lambda>f.
     let h = of_nat len
     in Inr (fmix (Mur f (Mur e (Mur d (Mur c (Mur b (Mur a h)))))))))))))"

function hash32_bytes :: "memory \<Rightarrow> int \<Rightarrow> nat \<Rightarrow> nat \<Rightarrow> 32 word \<Rightarrow> 32 word \<Rightarrow> (32 word \<times> 32 word) res" where
  "hash32_bytes mem s len i b c =
     (if i < len then
        rbind (fetch_byte mem (s + int i)) (\<lambda>v.
        let b = b * c1 + scast v;
            c = c XOR b
        in hash32_bytes mem s len (i + 1) b c)
      else Inr (b, c))"
  by pat_completeness auto
termination by (relation "measure (\<lambda>(mem, s, len, i, b, c). len - i)") auto

declare hash32_bytes.simps [simp del]

definition Hash32Len0to4 :: "memory \<Rightarrow> int \<Rightarrow> nat \<Rightarrow> 32 word res" where
  "Hash32Len0to4 mem s len =
     rbind (hash32_bytes mem s len 0 0 9) (\<lambda>(b, c). Inr (fmix (Mur b (Mur (of_nat len) c))))"

definition Hash32Len5to12 :: "toolchain \<Rightarrow> byte_order \<Rightarrow> memory \<Rightarrow> int \<Rightarrow> nat \<Rightarrow> 32 word res" where
  "Hash32Len5to12 tc ord mem s len =
     (let a = of_nat len; b = a * 5; c = 9; d = b in
      rbind (Fetch32 tc ord mem s) (\<lambda>x. let a = a + x in
      rbind (Fetch32 tc ord mem (s + int len - 4)) (\<lambda>x. let b = b + x in
      rbind (Fetch32 tc ord mem (s + int (len div 2 AND 4))) (\<lambda>x. let c = c + x in
      Inr (fmix (Mur c (Mur b (Mur a d))))))))"

text \<open>One round of the main loop: 20 bytes at \<open>s\<close> into the state \<open>(f, g, h)\<close>.\<close>

definition city32_round :: "toolchain \<Rightarrow> byte_order \<Rightarrow> memory \<Rightarrow> int \<Rightarrow> 32 word \<times> 32 word \<times> 32 word \<Rightarrow>
    (32 word \<times> 32 word \<times> 32 word) res" where
  "city32_round tc ord mem s = (\<lambda>(f, g, h).
     rbind (Fetch32 tc ord mem s) (\<lambda>x. let b0 = Rotate32 (x * c1) 17 * c2 in
     rbind (Fetch32 tc ord mem (s + 4)) (\<lambda>b1.
     rbind (Fetch32 tc ord mem (s + 8)) (\<lambda>x. let b2 = Rotate32 (x * c1) 17 * c2 in
     rbind (Fetch32 tc ord mem (s + 12)) (\<lambda>x. let b3 = Rotate32 (x * c1) 17 * c2 in
     rbind (Fetch32 tc ord mem (s + 16)) (\<lambda>b4.
     let h = h XOR b0;
         h = Rotate32 h 18;
         h = h * 5 + 0xe6546b64;
         f = f + b1;
         f = Rotate32 f 19;
         f = f * c1;
         g = g + b2;
         g = Rotate32 g 18;
         g = g * 5 + 0xe6546b64;
         h = h XOR (b3 + b1);
         h = Rotate32 h 19;
         h = h * 5 + 0xe6546b64;
         g = g XOR b4;
         g = gbswap_32 tc g * 5;
         h = h + b4 * 5;
         h = gbswap_32 tc h;
         f = f + b0;
         (f, h) = (h, f);
         (f, g) = (g, f)
     in Inr (f, g, h)))))))"

fun city32_loop :: "toolchain \<Rightarrow> byte_order \<Rightarrow> memory \<Rightarrow> nat \<Rightarrow> int \<Rightarrow> 32 word \<times> 32 word \<times> 32 word \<Rightarrow>
    (32 word \<times> 32 word \<times> 32 word) res" where
  "city32_loop tc ord mem 0 s st = Inr st"
| "city32_loop tc ord mem (Suc iters) s st =
     rbind (city32_round tc ord mem s st) (city32_loop tc ord mem iters (s + 20))"

definition CityHash32 :: "toolchain \<Rightarrow> byte_order \<Rightarrow> memory \<Rightarrow> int \<Rightarrow> nat \<Rightarrow> 32 word res" where
  "CityHash32 tc ord mem s len =
     (if len \<le> 24 then
        (if len \<le> 12 then (if len \<le> 4 then Hash32Len0to4 mem s len else Hash32Len5to12 tc ord mem s len)
         else Hash32Len13to24 tc ord mem s len)
      else
        let h = of_nat len; g = c1 * h; f = g in
        rbind (Fetch32 tc ord mem (s + int len - 4)) (\<lambda>x. let a0 = Rotate32 (x * c1) 17 * c2 in
        rbind (Fetch32 tc ord mem (s + int len - 8)) (\<lambda>x. let a1 = Rotate32 (x * c1) 17 * c2 in
        rbind (Fetch32 tc ord mem (s + int len - 16)) (\<lambda>x. let a2 = Rotate32 (x * c1) 17 * c2 in
        rbind (Fetch32 tc ord mem (s + int len - 12)) (\<lambda>x. let a3 = Rotate32 (x * c1) 17 * c2 in
        rbind (Fetch32 tc ord mem (s + int len - 20)) (\<lambda>x. let a4 = Rotate32 (x * c1) 17 * c2 in
        let h = h XOR a0;
            h = Rotate32 h 19;
            h = h * 5 + 0xe6546b64;
            h = h XOR a2;
            h = Rotate32 h 19;
            h = h * 5 + 0xe6546b64;
            g = g XOR a1;
            g = Rotate32 g 19;
            g = g * 5 + 0xe6546b64;
            g = g XOR a3;
            g = Rotate32 g 19;
            g = g * 5 + 0xe6546b64;
            f = f + a4;
            f = Rotate32 f 19;
            f = f * 5 + 0xe6546b64;
            iters = (len - 1) div 20
        in rbind (city32_loop tc ord mem iters s (f, g, h)) (\<lambda>(f, g, h).
        let g = Rotate32 g 11 * c1;
            g = Rotate32 g 17 * c1;
            f = Rotate32 f 11 * c1;
            f = Rotate32 f 17 * c1;
            h = Rotate32 (h + g) 19;
            h = h * 5 + 0xe6546b64;
            h = Rotate32 h 17 * c1;
            h = Rotate32 (h + f) 19;
            h = h * 5 + 0xe6546b64;
            h = Rotate32 h 17 * c1
        in Inr h)))))))"

section \<open>The 64-bit hash\<close>

definition Rotate :: "64 word \<Rightarrow> nat \<Rightarrow> 64 word" where
  "Rotate val shift = (if shift = 0 then val else drop_bit shift val OR push_bit (64 - shift) val)"

definition ShiftMix :: "64 word \<Rightarrow> 64 word" where
  "ShiftMix val = val XOR drop_bit 47 val"

definition HashLen16_mul :: "64 word \<Rightarrow> 64 word \<Rightarrow> 64 word \<Rightarrow> 64 word" where
  "HashLen16_mul u v mul = (let a = (u XOR v) * mul;
                                a = a XOR drop_bit 47 a;
                                b = (v XOR a) * mul;
                                b = b XOR drop_bit 47 b;
                                b = b * mul
                            in b)"

definition HashLen16 :: "64 word \<Rightarrow> 64 word \<Rightarrow> 64 word" where
  "HashLen16 u v = (let kMul = 0x9ddfea08eb382d69 in HashLen16_mul u v kMul)"

definition HashLen0to16 :: "toolchain \<Rightarrow> byte_order \<Rightarrow> memory \<Rightarrow> int \<Rightarrow> nat \<Rightarrow> 64 word res" where
  "HashLen0to16 tc ord mem s len =
     (if len \<ge> 8 then
        let mul = k2 + of_nat len * 2 in
        rbind (Fetch64 tc ord mem s) (\<lambda>x. let a = x + k2 in
        rbind (Fetch64 tc ord mem (s + int len - 8)) (\<lambda>b.
        let c = Rotate b 37 * mul + a;
            d = (Rotate a 25 + b) * mul
        in Inr (HashLen16_mul c d mul)))
      else if len \<ge> 4 then
        let mul = k2 + of_nat len * 2 in
        rbind (Fetch32 tc ord mem s) (\<lambda>x. let a = ucast x in
        rbind (Fetch32 tc ord mem (s + int len - 4)) (\<lambda>x.
        Inr (HashLen16_mul (of_nat len + push_bit 3 a) (ucast x) mul)))
      else if len > 0 then
        rbind (fetch_byte mem s) (\<lambda>a.
        rbind (fetch_byte mem (s + int (len div 2))) (\<lambda>b.
        rbind (fetch_byte mem (s + int (len - 1))) (\<lambda>c.
        let y = ucast a + push_bit 8 (ucast b) :: 32 word;
            z = of_nat len + push_bit 2 (ucast c) :: 32 word
        in Inr (ShiftMix (ucast y * k2 XOR ucast z * k0) * k2))))
      else Inr k2)"

definition HashLen17to32 :: "toolchain \<Rightarrow> byte_order \<Rightarrow> memory \<Rightarrow> int \<Rightarrow> nat \<Rightarrow> 64 word res" where
  "HashLen17to32 tc ord mem s len =
     (let mul = k2 + of_nat len * 2 in
      rbind (Fetch64 tc ord mem s) (\<lambda>x. let a = x * k1 in
      rbind (Fetch64 tc ord mem (s + 8)) (\<lambda>b.
      rbind (Fetch64 tc ord mem (s + int len - 8)) (\<lambda>x. let c = x * mul in
      rbind (Fetch64 tc ord mem (s + int len - 16)) (\<lambda>x. let d = x * k2 in
      Inr (HashLen16_mul (Rotate (a + b) 43 + Rotate c 30 + d) (a + Rotate (b + k2) 18 + c) mul))))))"

definition WeakHashLen32WithSeeds_words :: "64 word \<Rightarrow> 64 word \<Rightarrow> 64 word \<Rightarrow> 64 word \<Rightarrow> 64 word \<Rightarrow> 64 word \<Rightarrow>
    64 word \<times> 64 word" where
  "WeakHashLen32WithSeeds_words w x y z a b =
     (let a = a + w;
          b = Rotate (b + a + z) 21;
          c = a;
          a = a + x;
          a = a + y;
          b = b + Rotate a 44
      in (a + z, b + c))"

definition WeakHashLen32WithSeeds :: "toolchain \<Rightarrow> byte_order \<Rightarrow> memory \<Rightarrow> int \<Rightarrow> 64 word \<Rightarrow> 64 word \<Rightarrow>
    (64 word \<times> 64 word) res" where
  "WeakHashLen32WithSeeds tc ord mem s a b =
     rbind (Fetch64 tc ord mem s) (\<lambda>w.
     rbind (Fetch64 tc ord mem (s + 8)) (\<lambda>x.
     rbind (Fetch64 tc ord mem (s + 16)) (\<lambda>y.
     rbind (Fetch64 tc ord mem (s + 24)) (\<lambda>z.
     Inr (WeakHashLen32WithSeeds_words w x y z a b)))))"

definition HashLen33to64 :: "toolchain \<Rightarrow> byte_order \<Rightarrow> memory \<Rightarrow> int \<Rightarrow> nat \<Rightarrow> 64 word res" where
  "HashLen33to64 tc ord mem s len =
     (let mul = k2 + of_nat len * 2 in
      rbind (Fetch64 tc ord mem s) (\<lambda>t. let a = t * k2 in
      rbind (Fetch64 tc ord mem (s + 8)) (\<lambda>b.
      rbind (Fetch64 tc ord mem (s + int len - 24)) (\<lambda>c.
      rbind (Fetch64 tc ord mem (s + int len - 32)) (\<lambda>d.
      rbind (Fetch64 tc ord mem (s + 16)) (\<lambda>t. let e = t * k2 in
      rbind (Fetch64 tc ord mem (s + 24)) (\<lambda>t. let f = t * 9 in
      rbind (Fetch64 tc ord mem (s + int len - 8)) (\<lambda>g.
      rbind (Fetch64 tc ord mem (s + int len - 16)) (\<lambda>t. let h = t * mul in
      let u = Rotate (a + g) 43 + (Rotate b 30 + c) * 9;
          v = ((a + g) XOR d) + f + 1;
          w = gbswap_64 tc ((u + v) * mul) + h;
          x = Rotate (e + f) 42 + c;
          y = (gbswap_64 tc ((v + w) * mul) + g) * mul;
          z = e + f + c;
          a = gbswap_64 tc ((x + z) * mul + y) + b;
          b = ShiftMix ((z + a) * mul + d + h) * mul
      in Inr (b + x))))))))))"

text \<open>The 56 bytes of state of the main loop, and one round over 64 bytes.\<close>

type_synonym city64_state = "64 word \<times> 64 word \<times> 64 word \<times> (64 word \<times> 64 word) \<times> (64 word \<times> 64 word)"

definition city64_round :: "toolchain \<Rightarrow> byte_order \<Rightarrow> memory \<Rightarrow> int \<Rightarrow> city64_state \<Rightarrow> city64_state res" where
  "city64_round tc ord mem s = (\<lambda>(x, y, z, v, w).
     rbind (Fetch64 tc ord mem (s + 8)) (\<lambda>t. let x = Rotate (x + y + fst v + t) 37 * k1 in
     rbind (Fetch64 tc ord mem (s + 48)) (\<lambda>t. let y = Rotate (y + snd v + t) 42 * k1;
                                                 x = x XOR snd w in
     rbind (Fetch64 tc ord mem (s + 40)) (\<lambda>t. let y = y + (fst v + t);
                                                 z = Rotate (z + fst w) 33 * k1 in
     rbind (WeakHashLen32WithSeeds tc ord mem s (snd v * k1) (x + fst w)) (\<lambda>v.
     rbind (Fetch64 tc ord mem (s + 16)) (\<lambda>t.
     rbind (WeakHashLen32WithSeeds tc ord mem (s + 32) (z + snd w) (y + t)) (\<lambda>w.
     let (z, x) = (x, z) in Inr (x, y, z, v, w))))))))"

fun city64_loop :: "toolchain \<Rightarrow> byte_order \<Rightarrow> memory \<Rightarrow> nat \<Rightarrow> int \<Rightarrow> city64_state \<Rightarrow> city64_state res" where
  "city64_loop tc ord mem len s st =
     rbind (city64_round tc ord mem s st) (\<lambda>st.
       if len - 64 \<noteq> 0 then city64_loop tc ord mem (len - 64) (s + 64) st else Inr st)"

declare city64_loop.simps [simp del]

definition CityHash64 :: "toolchain \<Rightarrow> byte_order \<Rightarrow> memory \<Rightarrow> int \<Rightarrow> nat \<Rightarrow> 64 word res" where
  "CityHash64 tc ord mem s len =
     (if len \<le> 32 then
        (if len \<le> 16 then HashLen0to16 tc ord mem s len else HashLen17to32 tc ord mem s len)
      else if len \<le> 64 then HashLen33to64 tc ord mem s len
      else
        rbind (Fetch64 tc ord mem (s + int len - 40)) (\<lambda>x.
        rbind (Fetch64 tc ord mem (s + int len - 16)) (\<lambda>t.
        rbind (Fetch64 tc ord mem (s + int len - 56)) (\<lambda>t'. let y = t + t' in
        rbind (Fetch64 tc ord mem (s + int len - 48)) (\<lambda>t.
        rbind (Fetch64 tc ord mem (s + int len - 24)) (\<lambda>t'. let z = HashLen16 (t + of_nat len) t' in
        rbind (WeakHashLen32WithSeeds tc ord mem (s + int len - 64) (of_nat len) z) (\<lambda>v.
        rbind (WeakHashLen32WithSeeds tc ord mem (s + int len - 32) (y + k1) x) (\<lambda>w.
        rbind (Fetch64 tc ord mem s) (\<lambda>t. let x = x * k1 + t;
            len = (len - 1) div 64 * 64 in
        rbind (city64_loop tc ord mem len s (x, y, z, v, w)) (\<lambda>(x, y, z, v, w).
        Inr (HashLen16 (HashLen16 (fst v) (fst w) + ShiftMix y * k1 + z)
                       (HashLen16 (snd v) (snd w) + x))))))))))))"

definition CityHash64WithSeeds :: "toolchain \<Rightarrow> byte_order \<Rightarrow> memory \<Rightarrow> int \<Rightarrow> nat \<Rightarrow> 64 word \<Rightarrow> 64 word \<Rightarrow> 64 word res" where
  "CityHash64WithSeeds tc ord mem s len seed0 seed1 =
     rbind (CityHash64 tc ord mem s len) (\<lambda>h. Inr (HashLen16 (h - seed0) seed1))"

definition CityHash64WithSeed :: "toolchain \<Rightarrow> byte_order \<Rightarrow> memory \<Rightarrow> int \<Rightarrow> nat \<Rightarrow> 64 word \<Rightarrow> 64 word res" where
  "CityHash64WithSeed tc ord mem s len seed = CityHash64WithSeeds tc ord mem s len k2 seed"

section \<open>Fetches inside the bytes, the same on every host\<close>

lemma Fetch64_eq: "Fetch64 tc ord mem p = mem_load LittleEndian mem p"
  by (cases ord) (auto simp: Fetch64_def UnalignedLoad64_def mem_load_def in_bounds_def
      uint64_in_expected_order_def host_word_swap)

lemma Fetch32_eq: "Fetch32 tc ord mem p = mem_load LittleEndian mem p"
  by (cases ord) (auto simp: Fetch32_def UnalignedLoad32_def mem_load_def in_bounds_def
      uint32_in_expected_order_def host_word_swap)

lemmas fetch_eqs = Fetch64_eq Fetch32_eq

lemma city32_host: "CityHash32 tc ord mem s len = CityHash32 Gnu LittleEndian mem s len"
proof -
  have "city32_round tc ord = city32_round Gnu LittleEndian"
    unfolding city32_round_def fetch_eqs gbswap_32_eq ..
  then have "city32_loop tc ord mem n s st = city32_loop Gnu LittleEndian mem n s st" for n s st
    by (induction n arbitrary: s st) (auto intro: rbind_cong)
  then show ?thesis unfolding CityHash32_def Hash32Len5to12_def Hash32Len13to24_def fetch_eqs by simp
qed

lemma city64_host: "CityHash64 tc ord mem s len = CityHash64 Gnu LittleEndian mem s len"
proof -
  have weak: "WeakHashLen32WithSeeds tc ord = WeakHashLen32WithSeeds Gnu LittleEndian"
    unfolding WeakHashLen32WithSeeds_def fetch_eqs ..
  then have "city64_round tc ord = city64_round Gnu LittleEndian"
    unfolding city64_round_def fetch_eqs by simp
  then have "city64_loop tc ord mem n s st = city64_loop Gnu LittleEndian mem n s st" for n s st
  proof (induction n arbitrary: s st rule: less_induct)
    case (less n)
    then show ?case
      unfolding city64_loop.simps [of tc ord mem n s st] city64_loop.simps [of Gnu LittleEndian mem n s st]
      by (intro rbind_cong) simp_all
  qed
  then show ?thesis
    unfolding CityHash64_def HashLen0to16_def HashLen17to32_def HashLen33to64_def fetch_eqs gbswap_64_eq weak by simp
qed

lemma fetch_returns:
  "in_bounds mem p 8 \<Longrightarrow> returns (Fetch64 tc ord mem p)"
  "in_bounds mem p 4 \<Longrightarrow> returns (Fetch32 tc ord mem p)"
  "in_bounds mem p 1 \<Longrightarrow> returns (fetch_byte mem p)"
  by (simp_all add: fetch_eqs mem_load_def fetch_byte_def)

lemmas fetches = returns_rbind returns_let fetch_returns returns_Inr


text \<open>All offsets used lie in the hashed bytes: \<open>in_bounds mem s len\<close> is what a caller promises.\<close>

lemma hash32_bytes_returns: "in_bounds mem s len \<Longrightarrow> returns (hash32_bytes mem s len i b c)"
proof (induction mem s len i b c rule: hash32_bytes.induct)
  case (1 mem s len i b c)
  then show ?case
    by (subst hash32_bytes.simps) (auto intro!: returns_rbind fetch_returns simp: in_bounds_def Let_def)
qed

lemma in_bounds_shift: "in_bounds mem s len \<Longrightarrow> 0 \<le> d \<Longrightarrow> d + int n \<le> int len \<Longrightarrow> in_bounds mem (s + d) n"
  by (simp add: in_bounds_def)

lemma Hash32_short:
  assumes "in_bounds mem s len"
  shows "len \<le> 4 \<Longrightarrow> returns (Hash32Len0to4 mem s len)"
    "4 < len \<Longrightarrow> len \<le> 12 \<Longrightarrow> returns (Hash32Len5to12 tc ord mem s len)"
    "12 < len \<Longrightarrow> returns (Hash32Len13to24 tc ord mem s len)"
proof -
  show "returns (Hash32Len0to4 mem s len)"
    unfolding Hash32Len0to4_def using hash32_bytes_returns [OF assms] by (intro returns_rbind) auto
  show "returns (Hash32Len5to12 tc ord mem s len)" if "4 < len" "len \<le> 12"
  proof -
    from that have "len \<in> {5, 6, 7, 8, 9, 10, 11, 12}" by auto
    then have "int (len div 2 AND 4) + 4 \<le> int len" by (elim insertE) simp_all
    then show ?thesis unfolding Hash32Len5to12_def using assms that by (intro fetches) (auto simp: in_bounds_def)
  qed
  show "returns (Hash32Len13to24 tc ord mem s len)" if "12 < len"
    unfolding Hash32Len13to24_def using assms that by (intro fetches) (auto simp: in_bounds_def)
qed

lemma city32_loop_returns:
  "in_bounds mem s (20 * n) \<Longrightarrow> returns (city32_loop tc ord mem n s st)"
proof (induction n arbitrary: s st)
  case (Suc n)
  obtain f g h where st: "st = (f, g, h)" by (cases st)
  have "returns (city32_round tc ord mem s st)"
    unfolding city32_round_def st prod.case using Suc.prems by (intro fetches) (auto simp: in_bounds_def)
  moreover have "in_bounds mem (s + 20) (20 * n)" using Suc.prems by (simp add: in_bounds_def)
  ultimately show ?case using Suc.IH by (auto intro: returns_rbind)
qed simp

lemma CityHash32_returns:
  assumes "in_bounds mem s len"
  shows "returns (CityHash32 tc ord mem s len)"
proof (cases "len \<le> 24")
  case True
  then show ?thesis unfolding CityHash32_def using Hash32_short [OF assms] by auto
next
  case False
  have "20 * ((len - 1) div 20) \<le> len" by (metis div_times_less_eq_dividend diff_le_self le_trans mult.commute)
  then have loop: "in_bounds mem s (20 * ((len - 1) div 20))" using assms by (simp add: in_bounds_def)
  show ?thesis unfolding CityHash32_def if_not_P [OF False]
    using False assms by (intro fetches) (auto simp: in_bounds_def Let_def intro!: city32_loop_returns [OF loop, simplified])
qed

lemma WeakHash_returns: "in_bounds mem s 32 \<Longrightarrow> returns (WeakHashLen32WithSeeds tc ord mem s a b)"
  unfolding WeakHashLen32WithSeeds_def by (intro fetches) (auto simp: in_bounds_def)

lemma city64_round_returns: "in_bounds mem s 64 \<Longrightarrow> returns (city64_round tc ord mem s st)"
  unfolding city64_round_def
  by (cases st) (simp only: prod.case, intro fetches WeakHash_returns, auto simp: in_bounds_def)

lemma city64_loop_returns:
  "in_bounds mem s (64 * Suc n) \<Longrightarrow> returns (city64_loop tc ord mem (64 * Suc n) s st)"
proof (induction n arbitrary: s st)
  case 0
  then show ?case
    by (subst city64_loop.simps) (auto intro!: returns_rbind city64_round_returns simp: in_bounds_def)
next
  case (Suc n)
  have "in_bounds mem (s + 64) (64 * Suc n)" using Suc.prems by (simp add: in_bounds_def)
  moreover have "64 * Suc (Suc n) - 64 = 64 * Suc n" "in_bounds mem s 64"
    using Suc.prems by (simp_all add: in_bounds_def)
  ultimately show ?case
    by (subst city64_loop.simps) (auto intro!: returns_rbind city64_round_returns Suc.IH [simplified])
qed

lemma CityHash64_returns:
  assumes "in_bounds mem s len"
  shows "returns (CityHash64 tc ord mem s len)"
proof (cases "len \<le> 64")
  case True
  have "returns (HashLen0to16 tc ord mem s len)"
    unfolding HashLen0to16_def using assms by (auto simp: in_bounds_def intro!: fetches)
  moreover have "returns (HashLen17to32 tc ord mem s len)" if "16 < len"
    unfolding HashLen17to32_def using assms that by (intro fetches) (auto simp: in_bounds_def)
  moreover have "returns (HashLen33to64 tc ord mem s len)" if "32 < len"
    unfolding HashLen33to64_def using assms that by (intro fetches) (auto simp: in_bounds_def)
  ultimately show ?thesis using True unfolding CityHash64_def by auto
next
  case False
  then obtain n where n: "(len - 1) div 64 = Suc n" by (cases "(len - 1) div 64") auto
  have "(len - 1) div 64 * 64 \<le> len" by (metis div_times_less_eq_dividend diff_le_self le_trans)
  then have loop: "in_bounds mem s (64 * Suc n)" using assms unfolding n in_bounds_def by simp
  have len: "(len - 1) div 64 * 64 = 64 * Suc n" unfolding n by simp
  from False have "\<not> len \<le> 32" by simp
  then show ?thesis unfolding CityHash64_def if_not_P [OF \<open>\<not> len \<le> 32\<close>] if_not_P [OF False] len
    using False assms
    by (intro fetches WeakHash_returns) (auto simp: in_bounds_def Let_def intro!: city64_loop_returns [OF loop, simplified])
qed

end
