(* ===== verification/Bits.thy ===== *)
theory Bits
  imports Machine
begin

text \<open>
  \<^verbatim>\<open>absl/numeric/internal/bits.h\<close> and \<^verbatim>\<open>absl/numeric/bits.h\<close>: rotation, population count, leading and
  trailing zeros, and the powers of two around a number, in the branch each toolchain compiles. A
  template parameter \<^verbatim>\<open>T\<close> is the word type \<open>'a\<close>. The lemmas show that all branches compute the same
  function, given by \<open>nat_width\<close>, \<open>nat_trailing\<close> and the powers of two.
\<close>

section \<open>internal/bits.h\<close>

definition IsPowerOf2 :: "32 word \<Rightarrow> bool" where
  "IsPowerOf2 x \<longleftrightarrow> x \<noteq> 0 \<and> x AND (x - 1) = 0"

definition RotateRight :: "'a::len word \<Rightarrow> int \<Rightarrow> 'a word" where
  "RotateRight x s = drop_bit (nat (s AND (int LENGTH('a) - 1))) x OR push_bit (nat (- s AND (int LENGTH('a) - 1))) x"

definition RotateLeft :: "'a::len word \<Rightarrow> int \<Rightarrow> 'a word" where
  "RotateLeft x s = push_bit (nat (s AND (int LENGTH('a) - 1))) x OR drop_bit (nat (- s AND (int LENGTH('a) - 1))) x"

definition Popcount32 :: "toolchain \<Rightarrow> 32 word \<Rightarrow> int" where
  "Popcount32 tc x = (case tc of
       Gnu \<Rightarrow> builtin_popcount x
     | _ \<Rightarrow>
         let x = x - (drop_bit 1 x AND 0x55555555);
             x = (drop_bit 2 x AND 0x33333333) + (x AND 0x33333333)
         in uint (drop_bit 24 (((x + drop_bit 4 x) AND 0xF0F0F0F) * 0x1010101)))"

definition Popcount64 :: "toolchain \<Rightarrow> 64 word \<Rightarrow> int" where
  "Popcount64 tc x = (case tc of
       Gnu \<Rightarrow> builtin_popcount x
     | _ \<Rightarrow>
         let x = x - (drop_bit 1 x AND 0x5555555555555555);
             x = (drop_bit 2 x AND 0x3333333333333333) + (x AND 0x3333333333333333)
         in uint (drop_bit 56 (((x + drop_bit 4 x) AND 0xF0F0F0F0F0F0F0F) * 0x101010101010101)))"

definition Popcount :: "toolchain \<Rightarrow> 'a::len word \<Rightarrow> int" where
  "Popcount tc x = (if LENGTH('a) \<le> 32 then Popcount32 tc (ucast x) else Popcount64 tc (ucast x))"

text \<open>The string literal that gives the leading zeros of a nibble.\<close>

definition nibble_zeroes :: "int list" where
  "nibble_zeroes = [4, 3, 2, 2, 1, 1, 1, 1, 0, 0, 0, 0, 0, 0, 0, 0]"

definition clz_step :: "nat \<Rightarrow> int \<times> 'a::len word \<Rightarrow> int \<times> 'a word" where
  "clz_step k = (\<lambda>(zeroes, x). if drop_bit k x \<noteq> 0 then (zeroes - int k, drop_bit k x) else (zeroes, x))"

definition CountLeadingZeroes32 :: "toolchain \<Rightarrow> 32 word \<Rightarrow> int" where
  "CountLeadingZeroes32 tc x = (case tc of
       Gnu \<Rightarrow> (if x = 0 then 32 else builtin_clz x)
     | Msvc64 \<Rightarrow> (case bit_scan_reverse x of Some r \<Rightarrow> 31 - r | None \<Rightarrow> 32)
     | Msvc32 \<Rightarrow> (case bit_scan_reverse x of Some r \<Rightarrow> 31 - r | None \<Rightarrow> 32)
     | Generic \<Rightarrow>
         let (zeroes, x) = (28, x);
             (zeroes, x) = clz_step 16 (zeroes, x);
             (zeroes, x) = clz_step 8 (zeroes, x);
             (zeroes, x) = clz_step 4 (zeroes, x)
         in nibble_zeroes ! unat x + zeroes)"

definition CountLeadingZeroes16 :: "toolchain \<Rightarrow> 16 word \<Rightarrow> int" where
  "CountLeadingZeroes16 tc x = (case tc of
       Gnu \<Rightarrow> (if x = 0 then 16 else builtin_clz x)
     | _ \<Rightarrow> CountLeadingZeroes32 tc (ucast x) - 16)"

definition CountLeadingZeroes64 :: "toolchain \<Rightarrow> 64 word \<Rightarrow> int" where
  "CountLeadingZeroes64 tc x = (case tc of
       Gnu \<Rightarrow> (if x = 0 then 64 else builtin_clz x)
     | Msvc64 \<Rightarrow> (case bit_scan_reverse x of Some r \<Rightarrow> 63 - r | None \<Rightarrow> 64)
     | Msvc32 \<Rightarrow>
         (case (if drop_bit 32 x \<noteq> 0 then bit_scan_reverse (ucast (drop_bit 32 x) :: 32 word) else None) of
            Some r \<Rightarrow> 31 - r
          | None \<Rightarrow> (case bit_scan_reverse (ucast x :: 32 word) of Some r \<Rightarrow> 63 - r | None \<Rightarrow> 64))
     | Generic \<Rightarrow>
         let (zeroes, x) = (60, x);
             (zeroes, x) = clz_step 32 (zeroes, x);
             (zeroes, x) = clz_step 16 (zeroes, x);
             (zeroes, x) = clz_step 8 (zeroes, x);
             (zeroes, x) = clz_step 4 (zeroes, x)
         in nibble_zeroes ! unat x + zeroes)"

definition CountLeadingZeroes :: "toolchain \<Rightarrow> 'a::len word \<Rightarrow> int" where
  "CountLeadingZeroes tc x =
     (if LENGTH('a) \<le> 16 then CountLeadingZeroes16 tc (ucast x) - (16 - int LENGTH('a))
      else if LENGTH('a) \<le> 32 then CountLeadingZeroes32 tc (ucast x) - (32 - int LENGTH('a))
      else CountLeadingZeroes64 tc (ucast x))"

definition CountTrailingZeroesNonzero32 :: "toolchain \<Rightarrow> 32 word \<Rightarrow> int" where
  "CountTrailingZeroesNonzero32 tc x = (case tc of
       Gnu \<Rightarrow> builtin_ctz x
     | Msvc64 \<Rightarrow> bit_scan_forward x
     | Msvc32 \<Rightarrow> bit_scan_forward x
     | Generic \<Rightarrow>
         let c = 31;
             x = x AND (NOT x + 1);
             c = (if x AND 0x0000FFFF \<noteq> 0 then c - 16 else c);
             c = (if x AND 0x00FF00FF \<noteq> 0 then c - 8 else c);
             c = (if x AND 0x0F0F0F0F \<noteq> 0 then c - 4 else c);
             c = (if x AND 0x33333333 \<noteq> 0 then c - 2 else c);
             c = (if x AND 0x55555555 \<noteq> 0 then c - 1 else c)
         in c)"

definition CountTrailingZeroesNonzero64 :: "toolchain \<Rightarrow> 64 word \<Rightarrow> int" where
  "CountTrailingZeroesNonzero64 tc x = (case tc of
       Gnu \<Rightarrow> builtin_ctz x
     | Msvc64 \<Rightarrow> bit_scan_forward x
     | Msvc32 \<Rightarrow>
         (if (ucast x :: 32 word) = 0 then bit_scan_forward (ucast (drop_bit 32 x) :: 32 word) + 32
          else bit_scan_forward (ucast x :: 32 word))
     | Generic \<Rightarrow>
         let c = 63;
             x = x AND (NOT x + 1);
             c = (if x AND 0x00000000FFFFFFFF \<noteq> 0 then c - 32 else c);
             c = (if x AND 0x0000FFFF0000FFFF \<noteq> 0 then c - 16 else c);
             c = (if x AND 0x00FF00FF00FF00FF \<noteq> 0 then c - 8 else c);
             c = (if x AND 0x0F0F0F0F0F0F0F0F \<noteq> 0 then c - 4 else c);
             c = (if x AND 0x3333333333333333 \<noteq> 0 then c - 2 else c);
             c = (if x AND 0x5555555555555555 \<noteq> 0 then c - 1 else c)
         in c)"

definition CountTrailingZeroesNonzero16 :: "toolchain \<Rightarrow> 16 word \<Rightarrow> int" where
  "CountTrailingZeroesNonzero16 tc x = (case tc of
       Gnu \<Rightarrow> builtin_ctz x
     | _ \<Rightarrow> CountTrailingZeroesNonzero32 tc (ucast x))"

definition CountTrailingZeroes :: "toolchain \<Rightarrow> 'a::len word \<Rightarrow> int" where
  "CountTrailingZeroes tc x =
     (if x = 0 then int LENGTH('a)
      else if LENGTH('a) \<le> 16 then CountTrailingZeroesNonzero16 tc (ucast x)
      else if LENGTH('a) \<le> 32 then CountTrailingZeroesNonzero32 tc (ucast x)
      else CountTrailingZeroesNonzero64 tc (ucast x))"

text \<open>
  \<^verbatim>\<open>T{1} << n\<close> of a type narrower than \<^verbatim>\<open>unsigned\<close> is computed in 32 bits. The helper's shift amount is
  \<^verbatim>\<open>x + promotion\<close>; the promoted value is shifted left and back so that it wraps at the width of \<^verbatim>\<open>T\<close>.
\<close>

definition BitCeilPromotionHelper :: "'a::len word \<Rightarrow> 'a word \<Rightarrow> 'a word" where
  "BitCeilPromotionHelper x promotion =
     (if LENGTH('a) < 32 then ucast (drop_bit (unat promotion) (push_bit (unat x + unat promotion) (1 :: 32 word)))
      else drop_bit (unat promotion) (push_bit (unat (x + promotion)) 1))"

definition BitCeilNonPowerOf2 :: "toolchain \<Rightarrow> 'a::len word \<Rightarrow> 'a word" where
  "BitCeilNonPowerOf2 tc x =
     BitCeilPromotionHelper (of_int (int LENGTH('a) - CountLeadingZeroes tc x))
       (if 32 \<le> LENGTH('a) then 0 else of_nat (32 - LENGTH('a)))"

section \<open>bits.h\<close>

definition rotl :: "'a::len word \<Rightarrow> int \<Rightarrow> 'a word" where "rotl x s = RotateLeft x s"
definition rotr :: "'a::len word \<Rightarrow> int \<Rightarrow> 'a word" where "rotr x s = RotateRight x s"
definition countl_zero :: "toolchain \<Rightarrow> 'a::len word \<Rightarrow> int" where "countl_zero tc x = CountLeadingZeroes tc x"
definition countl_one :: "toolchain \<Rightarrow> 'a::len word \<Rightarrow> int" where "countl_one tc x = countl_zero tc (NOT x)"
definition countr_zero :: "toolchain \<Rightarrow> 'a::len word \<Rightarrow> int" where "countr_zero tc x = CountTrailingZeroes tc x"
definition countr_one :: "toolchain \<Rightarrow> 'a::len word \<Rightarrow> int" where "countr_one tc x = countr_zero tc (NOT x)"
definition popcount :: "toolchain \<Rightarrow> 'a::len word \<Rightarrow> int" where "popcount tc x = Popcount tc x"

definition has_single_bit :: "'a::len word \<Rightarrow> bool" where
  "has_single_bit x \<longleftrightarrow> x \<noteq> 0 \<and> x AND (x - 1) = 0"

definition bit_width :: "toolchain \<Rightarrow> 'a::len word \<Rightarrow> int" where
  "bit_width tc x = int LENGTH('a) - countl_zero tc x"

definition bit_floor :: "toolchain \<Rightarrow> 'a::len word \<Rightarrow> 'a word" where
  "bit_floor tc x = (if x = 0 then 0 else push_bit (nat (bit_width tc x - 1)) 1)"

definition bit_ceil :: "toolchain \<Rightarrow> 'a::len word \<Rightarrow> 'a word" where
  "bit_ceil tc x = (if has_single_bit x then push_bit (nat (bit_width tc x - 1)) 1 else BitCeilNonPowerOf2 tc x)"

section \<open>Leading zeros\<close>

lemma unat_drop_bit_div: "unat (drop_bit k x) = unat x div 2 ^ k"
  by (metis drop_bit_eq_div unat_drop_bit_eq)

lemma clz_step:
  assumes "clz_step k (z, x) = (z', x')" "unat x < 2 ^ (2 * k)"
  shows "z' - int (nat_width (unat x')) = z - int (nat_width (unat x))" "unat x' < 2 ^ k"
proof -
  note d = unat_drop_bit_div [of k x]
  have "drop_bit k x \<noteq> 0 \<longleftrightarrow> 2 ^ k \<le> unat x"
    using d by (metis div_eq_0_iff not_le power_eq_0_iff unat_eq_zero zero_neq_numeral)
  moreover have "unat x div 2 ^ k < 2 ^ k"
    using assms(2) by (simp add: less_mult_imp_div_less mult_2 power_add)
  ultimately show "z' - int (nat_width (unat x')) = z - int (nat_width (unat x))" "unat x' < 2 ^ k"
    using assms(1) nat_width_div [of k "unat x"] d by (auto simp: clz_step_def split: if_splits)
qed

lemma nibble_zeroes: "n < 16 \<Longrightarrow> nibble_zeroes ! n = 4 - int (nat_width n)"
proof -
  assume "n < 16"
  moreover have "\<forall>n \<in> set [0..<16]. nibble_zeroes ! n = 4 - int (nat_width n)" by code_simp
  ultimately show ?thesis by simp
qed

lemma unat_less: "unat (x :: 'a::len word) < 2 ^ LENGTH('a)"
  by (rule unsigned_less)

lemma unat_ucast_mod: "unat (ucast (x :: 'a::len word) :: 'b::len word) = unat x mod 2 ^ LENGTH('b)"
  by (simp add: unsigned_ucast_eq take_bit_eq_mod)

lemma unat_ucast_up: "LENGTH('a) \<le> LENGTH('b) \<Longrightarrow> unat (ucast (x :: 'a::len word) :: 'b::len word) = unat x"
proof -
  assume "LENGTH('a) \<le> LENGTH('b)"
  then have "(2::nat) ^ LENGTH('a) \<le> 2 ^ LENGTH('b)" by (intro power_increasing) auto
  with unat_less [of x] have "unat x < 2 ^ LENGTH('b)" by (rule less_le_trans)
  then show ?thesis unfolding unat_ucast_mod by (rule mod_less)
qed

lemma unat_ucast_drop32: "unat (ucast (drop_bit 32 (x :: 64 word)) :: 32 word) = unat x div 2 ^ 32"
proof -
  have "unat x < 2 ^ 64" using unat_less [of x] by simp
  then have "unat x div 2 ^ 32 < 2 ^ 32" by (simp add: less_mult_imp_div_less)
  then show ?thesis by (simp add: unat_ucast_mod unat_drop_bit_div)
qed

lemma clz32: "CountLeadingZeroes32 tc x = 32 - int (nat_width (unat x))"
proof (cases tc)
  case Generic
  obtain z1 x1 where 1: "clz_step 16 (28, x) = (z1, x1)" by (cases "clz_step 16 (28, x)")
  obtain z2 x2 where 2: "clz_step 8 (z1, x1) = (z2, x2)" by (cases "clz_step 8 (z1, x1)")
  obtain z3 x3 where 3: "clz_step 4 (z2, x2) = (z3, x3)" by (cases "clz_step 4 (z2, x2)")
  have "unat x < 2 ^ (2 * 16)" using unat_less [of x] by simp
  note s1 = clz_step [OF 1 this]
  have "unat x1 < 2 ^ (2 * 8)" using s1(2) by simp
  note s2 = clz_step [OF 2 this]
  have "unat x2 < 2 ^ (2 * 4)" using s2(2) by simp
  note s3 = clz_step [OF 3 this]
  have "nibble_zeroes ! unat x3 = 4 - int (nat_width (unat x3))" using nibble_zeroes s3(2) by simp
  then show ?thesis using s1 s2 s3 by (simp add: CountLeadingZeroes32_def Generic 1 2 3)
qed (auto simp: CountLeadingZeroes32_def builtin_clz_def bit_scan_reverse_def)

lemma clz64: "CountLeadingZeroes64 tc x = 64 - int (nat_width (unat x))"
proof (cases tc)
  case Generic
  obtain z0 x0 where 0: "clz_step 32 (60, x) = (z0, x0)" by (cases "clz_step 32 (60, x)")
  obtain z1 x1 where 1: "clz_step 16 (z0, x0) = (z1, x1)" by (cases "clz_step 16 (z0, x0)")
  obtain z2 x2 where 2: "clz_step 8 (z1, x1) = (z2, x2)" by (cases "clz_step 8 (z1, x1)")
  obtain z3 x3 where 3: "clz_step 4 (z2, x2) = (z3, x3)" by (cases "clz_step 4 (z2, x2)")
  have "unat x < 2 ^ (2 * 32)" using unat_less [of x] by simp
  note s0 = clz_step [OF 0 this]
  have "unat x0 < 2 ^ (2 * 16)" using s0(2) by simp
  note s1 = clz_step [OF 1 this]
  have "unat x1 < 2 ^ (2 * 8)" using s1(2) by simp
  note s2 = clz_step [OF 2 this]
  have "unat x2 < 2 ^ (2 * 4)" using s2(2) by simp
  note s3 = clz_step [OF 3 this]
  have "nibble_zeroes ! unat x3 = 4 - int (nat_width (unat x3))" using nibble_zeroes s3(2) by simp
  then show ?thesis using s0 s1 s2 s3 by (simp add: CountLeadingZeroes64_def Generic 0 1 2 3)
next
  case Msvc32
  have z: "drop_bit 32 x = 0 \<longleftrightarrow> unat x < 2 ^ 32"
    by (metis div_eq_0_iff drop_bit_eq_div power_eq_0_iff unat_drop_bit_eq unat_eq_zero zero_neq_numeral)
  have lo: "unat (ucast x :: 32 word) = unat x mod 2 ^ 32" by (simp add: unat_ucast_mod)
  show ?thesis
  proof (cases "unat x < 2 ^ 32")
    case True
    then have "(ucast x :: 32 word) = 0 \<longleftrightarrow> x = 0" using lo by (metis mod_less unat_eq_zero)
    with True z lo show ?thesis by (auto simp: CountLeadingZeroes64_def Msvc32 bit_scan_reverse_def)
  next
    case False
    moreover have "(ucast (drop_bit 32 x) :: 32 word) \<noteq> 0"
      using False unat_ucast_drop32 [of x] by (metis div_eq_0_iff power_eq_0_iff unat_eq_zero zero_neq_numeral)
    ultimately show ?thesis using z nat_width_div [of 32 "unat x"]
      by (auto simp: CountLeadingZeroes64_def Msvc32 bit_scan_reverse_def unat_ucast_drop32)
  qed
qed (auto simp: CountLeadingZeroes64_def builtin_clz_def bit_scan_reverse_def)

lemma countl_zero_eq:
  fixes x :: "'a::len word"
  assumes "LENGTH('a) \<in> {8, 16, 32, 64}"
  shows "countl_zero tc x = int LENGTH('a) - int (nat_width (unat x))"
proof -
  have "CountLeadingZeroes16 tc y = 16 - int (nat_width (unat y))" for y
    by (cases tc) (auto simp: CountLeadingZeroes16_def clz32 builtin_clz_def unat_ucast_up)
  then show ?thesis using assms
    by (auto simp: countl_zero_def CountLeadingZeroes_def clz32 clz64 unat_ucast_up)
qed

lemma bit_width_eq: "LENGTH('a) \<in> {8, 16, 32, 64} \<Longrightarrow> bit_width tc (x :: 'a::len word) = int (nat_width (unat x))"
  by (simp add: bit_width_def countl_zero_eq)

section \<open>Trailing zeros\<close>

text \<open>\<open>x - 1\<close> clears the lowest set bit of \<open>x\<close> and sets the bits below it.\<close>

lemma bit_unat: "bit (unat x) n = bit x n"
  by (simp add: bit_unsigned_iff)

lemma bit_pred:
  fixes x :: "'a::len word"
  assumes "unat x = 2 ^ t * (2 * m + 1)"
  shows "bit (x - 1) n \<longleftrightarrow> n < t \<or> t < n \<and> bit x n" "bit x n \<longleftrightarrow> t \<le> n \<and> bit (2 * m + 1) (n - t)"
proof -
  have "unat x = push_bit t (2 * m + 1)" using assms by (simp add: push_bit_eq_mult mult.commute)
  then show b: "bit x n \<longleftrightarrow> t \<le> n \<and> bit (2 * m + 1) (n - t)"
    by (metis bit_unat bit_push_bit_iff_nat)
  have "2 ^ t * (2 * m + 1) - 1 = push_bit t (2 * m) + (mask t :: nat)"
    by (simp add: push_bit_eq_mult mask_eq_exp_minus_1 algebra_simps)
  also have "\<dots> = push_bit t (2 * m) OR mask t"
    by (rule disjunctive_add) (auto simp: bit_simps)
  finally have "unat (x - 1) = push_bit t (2 * m) OR mask t"
    using assms by (subst unat_minus_one) auto
  then have "bit (x - 1) n \<longleftrightarrow> bit (push_bit t (2 * m) OR mask t) n" by (metis bit_unat)
  also have "\<dots> \<longleftrightarrow> n < t \<or> t \<le> n \<and> bit (2 * m) (n - t)" by (auto simp: bit_simps)
  finally have "bit (x - 1) n \<longleftrightarrow> n < t \<or> t \<le> n \<and> bit (2 * m) (n - t)" .
  moreover have "bit (2 * m) (n - t) \<longleftrightarrow> n \<noteq> t \<and> bit (2 * m + 1) (n - t)" if "t \<le> n"
    using that by (cases "n - t") (auto simp: bit_Suc bit_0)
  ultimately show "bit (x - 1) n \<longleftrightarrow> n < t \<or> t < n \<and> bit x n" using b by auto
qed

lemma word_trailing:
  fixes x :: "'a::len word"
  assumes "x \<noteq> 0"
  obtains m where "unat x = 2 ^ nat_trailing (unat x) * (2 * m + 1)" "nat_trailing (unat x) < LENGTH('a)"
  using nat_trailing_dvd [of "unat x"] nat_trailing_less [OF unat_less [of x]] assms by (auto simp: unat_gt_0)

lemma lowest_bit:
  fixes x :: "'a::len word"
  assumes "x \<noteq> 0"
  shows "x AND (NOT x + 1) = 2 ^ nat_trailing (unat x)"
proof -
  obtain m where m: "unat x = 2 ^ nat_trailing (unat x) * (2 * m + 1)" "nat_trailing (unat x) < LENGTH('a)"
    using word_trailing [OF assms] .
  have "NOT x + 1 = - x" by (simp add: not_eq_complement)
  then show ?thesis
    using m(2) by (intro bit_word_eqI) (auto simp: bit_and_iff bit_minus_iff bit_exp_iff bit_0 bit_pred [OF m(1)])
qed

lemma exp_and_iff: "t < LENGTH('a) \<Longrightarrow> 2 ^ t AND M \<noteq> (0 :: 'a::len word) \<longleftrightarrow> bit M t"
  by (subst bit_eq_iff) (auto simp: bit_and_iff bit_exp_iff)

lemma ucast_up_nonzero: "LENGTH('a) \<le> LENGTH('b) \<Longrightarrow> x \<noteq> 0 \<Longrightarrow> (ucast (x :: 'a::len word) :: 'b::len word) \<noteq> 0"
  using unat_ucast_up [where 'b = 'b, of x] by (metis unat_eq_zero)

lemma ctz32:
  assumes "x \<noteq> 0"
  shows "CountTrailingZeroesNonzero32 tc x = int (nat_trailing (unat x))"
proof (cases tc)
  case Generic
  define f :: "nat \<Rightarrow> int" where "f t = (let c = 31;
             c = (if bit (0x0000FFFF :: int) t then c - 16 else c);
             c = (if bit (0x00FF00FF :: int) t then c - 8 else c);
             c = (if bit (0x0F0F0F0F :: int) t then c - 4 else c);
             c = (if bit (0x33333333 :: int) t then c - 2 else c);
             c = (if bit (0x55555555 :: int) t then c - 1 else c)
         in c)" for t
  have "\<forall>t \<in> set [0..<32]. f t = int t" unfolding f_def by code_simp
  then have "f (nat_trailing (unat x)) = int (nat_trailing (unat x))"
    using nat_trailing_less [of "unat x" 32] unat_less [of x] assms by (simp add: unat_gt_0)
  moreover have masked: "(2 ^ nat_trailing (unat x) AND numeral M \<noteq> (0 :: 32 word)) = bit (numeral M :: int) (nat_trailing (unat x))" for M
    using nat_trailing_less [of "unat x" 32] unat_less [of x] assms
    by (simp add: exp_and_iff unat_gt_0 bit_numeral_word_iff)
  have "CountTrailingZeroesNonzero32 tc x = f (nat_trailing (unat x))"
    unfolding CountTrailingZeroesNonzero32_def Generic f_def toolchain.case Let_def lowest_bit [OF assms] masked ..
  ultimately show ?thesis by simp
qed (simp_all add: CountTrailingZeroesNonzero32_def builtin_ctz_def bit_scan_forward_def)

lemma nat_trailing_mult: "0 < q \<Longrightarrow> nat_trailing (2 ^ k * q) = k + nat_trailing q"
  using nat_trailing_dvd [of q] nat_trailing_eqI [of "2 ^ k * q" "k + nat_trailing q"]
  by (metis mult.assoc power_add)

lemma nat_trailing_mod:
  assumes "n mod 2 ^ k \<noteq> 0"
  shows "nat_trailing (n mod 2 ^ k) = nat_trailing n"
proof -
  define t where "t = nat_trailing (n mod 2 ^ k)"
  obtain m where m: "n mod 2 ^ k = 2 ^ t * (2 * m + 1)" using nat_trailing_dvd [of "n mod 2 ^ k"] assms by (auto simp: t_def)
  have "t < k" using nat_trailing_less [of "n mod 2 ^ k" k] assms by (simp add: t_def)
  then obtain d where d: "k = t + Suc d" by (metis less_imp_Suc_add add_Suc_right)
  have "n = n div 2 ^ k * 2 ^ k + n mod 2 ^ k" by (rule div_mult_mod_eq [symmetric])
  also have "\<dots> = n div 2 ^ k * 2 ^ k + 2 ^ t * (2 * m + 1)" by (simp only: m)
  also have "\<dots> = 2 ^ t * (2 * (n div 2 ^ k * 2 ^ d + m) + 1)" by (simp add: d power_add algebra_simps)
  finally have "nat_trailing n = t" by (rule nat_trailing_eqI)
  then show ?thesis by (simp add: t_def)
qed

lemma ctz64:
  assumes "x \<noteq> 0"
  shows "CountTrailingZeroesNonzero64 tc x = int (nat_trailing (unat x))"
proof (cases tc)
  case Generic
  define f :: "nat \<Rightarrow> int" where "f t = (let c = 63;
             c = (if bit (0x00000000FFFFFFFF :: int) t then c - 32 else c);
             c = (if bit (0x0000FFFF0000FFFF :: int) t then c - 16 else c);
             c = (if bit (0x00FF00FF00FF00FF :: int) t then c - 8 else c);
             c = (if bit (0x0F0F0F0F0F0F0F0F :: int) t then c - 4 else c);
             c = (if bit (0x3333333333333333 :: int) t then c - 2 else c);
             c = (if bit (0x5555555555555555 :: int) t then c - 1 else c)
         in c)" for t
  have "\<forall>t \<in> set [0..<64]. f t = int t" unfolding f_def by code_simp
  then have "f (nat_trailing (unat x)) = int (nat_trailing (unat x))"
    using nat_trailing_less [of "unat x" 64] unat_less [of x] assms by (simp add: unat_gt_0)
  moreover have masked: "(2 ^ nat_trailing (unat x) AND numeral M \<noteq> (0 :: 64 word)) = bit (numeral M :: int) (nat_trailing (unat x))" for M
    using nat_trailing_less [of "unat x" 64] unat_less [of x] assms
    by (simp add: exp_and_iff unat_gt_0 bit_numeral_word_iff)
  have "CountTrailingZeroesNonzero64 tc x = f (nat_trailing (unat x))"
    unfolding CountTrailingZeroesNonzero64_def Generic f_def toolchain.case Let_def lowest_bit [OF assms] masked ..
  ultimately show ?thesis by simp
next
  case Msvc32
  have lo: "unat (ucast x :: 32 word) = unat x mod 2 ^ 32" by (simp add: unat_ucast_mod)
  show ?thesis
  proof (cases "(ucast x :: 32 word) = 0")
    case True
    then have z: "unat x mod 2 ^ 32 = 0" using lo by simp
    then have "unat x = 2 ^ 32 * (unat x div 2 ^ 32)" by (metis mult_div_mod_eq add_0_right)
    moreover have "0 < unat x" using assms by (simp add: unat_gt_0)
    ultimately have "nat_trailing (unat x) = 32 + nat_trailing (unat x div 2 ^ 32)"
      using nat_trailing_mult [of "unat x div 2 ^ 32" 32] by (metis mult_0_right neq0_conv)
    then show ?thesis using True unat_ucast_drop32 [of x]
      by (simp add: CountTrailingZeroesNonzero64_def Msvc32 bit_scan_forward_def)
  next
    case False
    then have "unat x mod 2 ^ 32 \<noteq> 0" using lo by (metis unat_eq_zero)
    from nat_trailing_mod [OF this] False lo show ?thesis
      by (simp add: CountTrailingZeroesNonzero64_def Msvc32 bit_scan_forward_def)
  qed
qed (simp_all add: CountTrailingZeroesNonzero64_def builtin_ctz_def bit_scan_forward_def)

lemma countr_zero_eq:
  fixes x :: "'a::len word"
  assumes "LENGTH('a) \<in> {8, 16, 32, 64}"
  shows "countr_zero tc x = (if x = 0 then int LENGTH('a) else int (nat_trailing (unat x)))"
proof -
  have "CountTrailingZeroesNonzero16 tc y = int (nat_trailing (unat y))" if "y \<noteq> 0" for y
  proof -
    have "(ucast y :: 32 word) \<noteq> 0" using that by (simp add: ucast_up_nonzero)
    then show ?thesis
      by (cases tc) (simp_all add: CountTrailingZeroesNonzero16_def ctz32 builtin_ctz_def unat_ucast_up)
  qed
  then show ?thesis using assms
    by (auto simp: countr_zero_def CountTrailingZeroes_def ctz32 ctz64 unat_ucast_up ucast_up_nonzero)
qed

section \<open>Powers of two\<close>

lemma has_single_bit_iff: "has_single_bit x \<longleftrightarrow> (\<exists>k. unat x = 2 ^ k)"
proof (cases "x = 0")
  case False
  define t where "t = nat_trailing (unat x)"
  obtain m where m: "unat x = 2 ^ t * (2 * m + 1)" using word_trailing [OF False] by (metis t_def)
  have bits: "bit (x AND (x - 1)) n \<longleftrightarrow> t < n \<and> bit (2 * m + 1) (n - t)" for n
    using bit_pred [OF m, of n] by (auto simp: bit_and_iff)
  have "x AND (x - 1) = 0 \<longleftrightarrow> m = 0"
  proof
    assume zero: "x AND (x - 1) = 0"
    have "\<not> bit m j" for j using bits [of "t + Suc j"] zero by (simp add: bit_Suc)
    then show "m = 0" by (simp add: bit_eq_iff)
  next
    assume "m = 0"
    then have "\<not> bit (x AND (x - 1)) n" for n unfolding bits by (cases "n - t") (auto simp: bit_Suc)
    then show "x AND (x - 1) = 0" by (simp add: bit_eq_iff)
  qed
  moreover have "m = 0 \<longleftrightarrow> (\<exists>k. unat x = 2 ^ k)"
  proof
    assume "\<exists>k. unat x = 2 ^ k"
    then obtain k where k: "unat x = 2 ^ k" by blast
    then have "nat_trailing (unat x) = k" using nat_trailing_eqI [of "unat x" k 0] by simp
    with t_def have "t = k" by simp
    with k m show "m = 0" by simp
  qed (use m in auto)
  ultimately show ?thesis using False by (simp add: has_single_bit_def)
qed (auto simp: has_single_bit_def)

lemma unat_pow2 [simp]:
  assumes "k < LENGTH('a)"
  shows "unat (2 ^ k :: 'a::len word) = 2 ^ k"
proof -
  have "unat (2 ^ k :: 'a word) = take_bit LENGTH('a) (2 ^ k)"
    using unsigned_push_bit_eq [where 'b = 'a and 'a = nat, of k 1] by simp
  also have "\<dots> = 2 ^ k" using assms by (simp add: take_bit_eq_mod)
  finally show ?thesis .
qed

lemma unat_of_nat_small: "n < 2 ^ LENGTH('a) \<Longrightarrow> unat (of_nat n :: 'a::len word) = n"
  by (simp add: unsigned_of_nat take_bit_nat_eq_self)

lemma nat_width_pow: "nat_width (2 ^ k) = Suc k"
  by (rule nat_width_eqI) auto

lemma bit_floor_eq:
  fixes x :: "'a::len word"
  assumes "LENGTH('a) \<in> {8, 16, 32, 64}" "x \<noteq> 0"
  shows "unat (bit_floor tc x) = 2 ^ (nat_width (unat x) - 1)"
proof -
  have "0 < nat_width (unat x)" using assms(2) by (simp add: nat_width.simps [of "unat x"] unat_gt_0)
  then have "nat_width (unat x) - 1 < LENGTH('a)" "nat (bit_width tc x - 1) = nat_width (unat x) - 1"
    using nat_width_word [of x] assms(1) bit_width_eq [OF assms(1), of tc x] by auto
  then show ?thesis using assms(2) by (simp add: bit_floor_def unat_pow2)
qed

lemma BitCeilNonPowerOf2_eq:
  fixes x :: "'a::len word"
  assumes "LENGTH('a) \<in> {8, 16, 32, 64}" "nat_width (unat x) < LENGTH('a)"
  shows "unat (BitCeilNonPowerOf2 tc x) = 2 ^ nat_width (unat x)"
proof -
  let ?w = "nat_width (unat x)"
  have w: "(of_int (int LENGTH('a) - CountLeadingZeroes tc x) :: 'a word) = of_nat ?w"
    using countl_zero_eq [OF assms(1), of tc x] by (simp add: countl_zero_def)
  have "?w < 2 ^ LENGTH('a)" using assms(2) by (rule less_trans) (rule less_exp)
  then have uw: "unat (of_nat ?w :: 'a word) = ?w" by (rule unat_of_nat_small)
  show ?thesis
  proof (cases "LENGTH('a) < 32")
    case True
    define p where "p = 32 - LENGTH('a)"
    have "p < 2 ^ LENGTH('a)" using True assms(1) by (auto simp: p_def)
    then have "unat (of_nat p :: 'a word) = p" by (simp add: unat_of_nat_small)
    moreover have "unat (drop_bit p (push_bit (?w + p) (1 :: 32 word))) = 2 ^ ?w"
    proof -
      have "?w + p < 32" using assms(2) True by (simp add: p_def)
      then have "unat (push_bit (?w + p) (1 :: 32 word)) = 2 ^ (?w + p)" by simp
      then have "unat (push_bit (?w + p) (1 :: 32 word)) = 2 ^ ?w * 2 ^ p" by (simp only: power_add)
      then show ?thesis unfolding unat_drop_bit_div by simp
    qed
    moreover have "2 ^ ?w < (2 :: nat) ^ LENGTH('a)" using assms(2) by simp
    ultimately show ?thesis using True w uw
      by (simp add: BitCeilNonPowerOf2_def BitCeilPromotionHelper_def unat_ucast_mod flip: p_def)
  next
    case False
    then show ?thesis using w uw assms(2)
      by (simp add: BitCeilNonPowerOf2_def BitCeilPromotionHelper_def unat_pow2)
  qed
qed

text \<open>\<^verbatim>\<open>bit_ceil\<close> is the smallest power of two that is not less, where that is representable.\<close>

lemma bit_ceil_eq:
  fixes x :: "'a::len word"
  assumes "LENGTH('a) \<in> {8, 16, 32, 64}" "unat x \<le> 2 ^ (LENGTH('a) - 1)"
  shows "unat (bit_ceil tc x) = 2 ^ nat_width (unat x - 1)"
proof (cases "has_single_bit x")
  case True
  then obtain k where k: "unat x = 2 ^ k" by (auto simp: has_single_bit_iff)
  have "nat_width (2 ^ k - 1) = k"
  proof (cases k)
    case (Suc j)
    have "2 ^ j \<le> 2 ^ Suc j - (1::nat)" using one_le_power [of "2::nat" j] by simp
    with Suc show ?thesis by (intro nat_width_eqI [of j, folded Suc]) auto
  qed simp
  moreover have "k < LENGTH('a)" using unat_less [of x] k by simp
  ultimately show ?thesis using True k bit_width_eq [OF assms(1), of tc x]
    by (simp add: bit_ceil_def nat_width_pow unat_pow2)
next
  case False
  have "nat_width (unat x - 1) = nat_width (unat x)"
  proof (cases "unat x = 0")
    case False
    let ?k = "nat_width (unat x) - 1"
    have b: "2 ^ ?k \<le> unat x" "unat x < 2 ^ nat_width (unat x)" using nat_width_bounds [of "unat x"] False by auto
    moreover have "unat x \<noteq> 2 ^ ?k" using \<open>\<not> has_single_bit x\<close> by (auto simp: has_single_bit_iff)
    moreover have "nat_width (unat x) = Suc ?k" using False by (simp add: nat_width.simps [of "unat x"])
    ultimately show ?thesis using nat_width_eqI [of ?k "unat x - 1"] by simp
  qed simp
  moreover have "nat_width (unat x) < LENGTH('a)"
  proof -
    have "unat x \<noteq> 2 ^ (LENGTH('a) - 1)" using False by (auto simp: has_single_bit_iff)
    then have "unat x < 2 ^ (LENGTH('a) - 1)" using assms(2) by linarith
    then have "nat_width (unat x) \<le> LENGTH('a) - 1" unfolding nat_width_le_iff .
    then show ?thesis using len_gt_0 [where 'a = 'a] by linarith
  qed
  ultimately show ?thesis using False BitCeilNonPowerOf2_eq [OF assms(1), of x tc] by (simp add: bit_ceil_def)
qed

section \<open>Rotation\<close>

lemma rotate_eq:
  fixes x :: "'a::len word"
  assumes "LENGTH('a) = 2 ^ e"
  shows "rotr x s = word_roti s x" "rotl x s = word_roti (- s) x"
proof -
  let ?L = "int LENGTH('a)"
  have "?L = 2 ^ e" using assms by simp
  then have "?L - 1 = mask e" by (simp add: mask_eq_exp_minus_1)
  then have m: "s AND (?L - 1) = s mod ?L" for s
    using \<open>?L = 2 ^ e\<close> by (metis take_bit_eq_mask take_bit_eq_mod)
  have right: "RotateRight x s = word_roti s x" for s
  proof (rule bit_word_eqI)
    fix n assume n: "n < LENGTH('a)"
    define k where "k = nat (s mod ?L)"
    have k: "s mod ?L = int k" "k < LENGTH('a)" by (simp_all add: k_def nat_less_iff)
    have b: "nat (- s mod ?L) = (if k = 0 then 0 else LENGTH('a) - k)" using k by (auto simp: zmod_zminus1_eq_if)
    have "(int n + s) mod ?L = (int n + int k) mod ?L" using k(1) by (metis mod_add_right_eq)
    also have "\<dots> = int ((n + k) mod LENGTH('a))" by (simp add: zmod_int)
    also have "(n + k) mod LENGTH('a) = (if n + k < LENGTH('a) then n + k else n + k - LENGTH('a))"
      using k n by (simp add: mod_if)
    finally have r: "bit (word_roti s x) n = bit x (if n + k < LENGTH('a) then n + k else n + k - LENGTH('a))"
      using n unfolding bit_word_roti_iff by simp
    have d: "n - (LENGTH('a) - k) = n + k - LENGTH('a)" if "LENGTH('a) - k \<le> n" using that k by linarith
    have "bit (RotateRight x s) n \<longleftrightarrow> bit x (n + k) \<or> (if k = 0 then bit x n else LENGTH('a) - k \<le> n \<and> bit x (n + k - LENGTH('a)))"
      using n k unfolding RotateRight_def m b by (auto simp: bit_or_iff bit_drop_bit_eq bit_push_bit_iff k d add.commute)
    moreover have "\<not> bit x (n + k)" if "\<not> n + k < LENGTH('a)" using that bit_imp_le_length by blast
    ultimately show "bit (RotateRight x s) n = bit (word_roti s x) n" using r k n by auto
  qed
  then show "rotr x s = word_roti s x" by (simp add: rotr_def)
  have "RotateLeft x s = RotateRight x (- s)" by (simp add: RotateLeft_def RotateRight_def or.commute)
  then show "rotl x s = word_roti (- s) x" using right by (simp add: rotl_def)
qed

end
