(* ===== verification/U128.thy ===== *)
theory U128
  imports Bits
begin

text \<open>
  \<^verbatim>\<open>absl::uint128\<close> (\<^verbatim>\<open>numeric/int128.h\<close>, \<^verbatim>\<open>numeric/int128.cc\<close>): an unsigned 128-bit integer as two 64-bit
  words. \<open>intr\<close> is the macro \<^verbatim>\<open>ABSL_HAVE_INTRINSIC_INT128\<close>: with it an operator converts to the compiler's
  128-bit integer, here \<^typ>\<open>128 word\<close>, and back; without it the operator works on the two halves. \<open>tc\<close> is
  the toolchain, which selects a third multiplication. The lemmas show that in every configuration the
  operators are those of \<^typ>\<open>128 word\<close>, the shift-subtract division included.
\<close>

section \<open>Construction and conversion\<close>

record uint128 =
  lo64 :: "64 word"
  hi64 :: "64 word"

definition MakeUint128 :: "64 word \<Rightarrow> 64 word \<Rightarrow> uint128" where
  "MakeUint128 high low = \<lparr>lo64 = low, hi64 = high\<rparr>"

definition Uint128Low64 :: "uint128 \<Rightarrow> 64 word" where "Uint128Low64 v = lo64 v"

definition Uint128High64 :: "uint128 \<Rightarrow> 64 word" where "Uint128High64 v = hi64 v"

definition Uint128Max :: uint128 where "Uint128Max = MakeUint128 (- 1) (- 1)"

definition kuint128max :: uint128 where "kuint128max = MakeUint128 (- 1) (- 1)"

text \<open>The constructors from signed and from unsigned integers of any width.\<close>

definition uint128_signed :: "'a::len word \<Rightarrow> uint128" where
  "uint128_signed v = \<lparr>lo64 = scast v, hi64 = (if v <s 0 then - 1 else 0)\<rparr>"

definition uint128_unsigned :: "'a::len word \<Rightarrow> uint128" where
  "uint128_unsigned v = \<lparr>lo64 = ucast v, hi64 = 0\<rparr>"

text \<open>The constructor from and the conversion to the compiler's 128-bit integer.\<close>

definition uint128_intrinsic :: "128 word \<Rightarrow> uint128" where
  "uint128_intrinsic v = \<lparr>lo64 = ucast (v AND 0xFFFFFFFFFFFFFFFF), hi64 = ucast (drop_bit 64 v)\<rparr>"

definition to_int128 :: "uint128 \<Rightarrow> 128 word" where
  "to_int128 v = push_bit 64 (ucast (hi64 v)) + ucast (lo64 v)"

definition uint128_bool :: "uint128 \<Rightarrow> bool" where
  "uint128_bool v \<longleftrightarrow> lo64 v \<noteq> 0 \<or> hi64 v \<noteq> 0"

text \<open>Conversion to the narrower integer types truncates the low half.\<close>

definition uint128_narrow :: "uint128 \<Rightarrow> 'a::len word" where
  "uint128_narrow v = ucast (lo64 v)"

section \<open>Comparison\<close>

definition u128_eq :: "bool \<Rightarrow> uint128 \<Rightarrow> uint128 \<Rightarrow> bool" where
  "u128_eq intr lhs rhs \<longleftrightarrow>
     (if intr then to_int128 lhs = to_int128 rhs
      else Uint128Low64 lhs = Uint128Low64 rhs \<and> Uint128High64 lhs = Uint128High64 rhs)"

definition u128_neq :: "bool \<Rightarrow> uint128 \<Rightarrow> uint128 \<Rightarrow> bool" where
  "u128_neq intr lhs rhs \<longleftrightarrow> \<not> u128_eq intr lhs rhs"

definition u128_less :: "bool \<Rightarrow> uint128 \<Rightarrow> uint128 \<Rightarrow> bool" where
  "u128_less intr lhs rhs \<longleftrightarrow>
     (if intr then to_int128 lhs < to_int128 rhs
      else if Uint128High64 lhs = Uint128High64 rhs then Uint128Low64 lhs < Uint128Low64 rhs
      else Uint128High64 lhs < Uint128High64 rhs)"

definition u128_greater :: "bool \<Rightarrow> uint128 \<Rightarrow> uint128 \<Rightarrow> bool" where
  "u128_greater intr lhs rhs \<longleftrightarrow> u128_less intr rhs lhs"

definition u128_le :: "bool \<Rightarrow> uint128 \<Rightarrow> uint128 \<Rightarrow> bool" where
  "u128_le intr lhs rhs \<longleftrightarrow> \<not> u128_less intr rhs lhs"

definition u128_ge :: "bool \<Rightarrow> uint128 \<Rightarrow> uint128 \<Rightarrow> bool" where
  "u128_ge intr lhs rhs \<longleftrightarrow> \<not> u128_less intr lhs rhs"

section \<open>Unary and logical operators\<close>

definition u128_plus :: "uint128 \<Rightarrow> uint128" where "u128_plus val = val"

definition u128_neg :: "bool \<Rightarrow> uint128 \<Rightarrow> uint128" where
  "u128_neg intr val =
     (if intr then uint128_intrinsic (- to_int128 val)
      else MakeUint128 (NOT (Uint128High64 val) + of_bool (Uint128Low64 val = 0)) (NOT (Uint128Low64 val) + 1))"

definition u128_lnot :: "bool \<Rightarrow> uint128 \<Rightarrow> bool" where
  "u128_lnot intr val \<longleftrightarrow>
     (if intr then to_int128 val = 0 else Uint128High64 val = 0 \<and> Uint128Low64 val = 0)"

definition u128_not :: "bool \<Rightarrow> uint128 \<Rightarrow> uint128" where
  "u128_not intr val =
     (if intr then uint128_intrinsic (NOT (to_int128 val))
      else MakeUint128 (NOT (Uint128High64 val)) (NOT (Uint128Low64 val)))"

definition u128_or :: "bool \<Rightarrow> uint128 \<Rightarrow> uint128 \<Rightarrow> uint128" where
  "u128_or intr lhs rhs =
     (if intr then uint128_intrinsic (to_int128 lhs OR to_int128 rhs)
      else MakeUint128 (Uint128High64 lhs OR Uint128High64 rhs) (Uint128Low64 lhs OR Uint128Low64 rhs))"

definition u128_and :: "bool \<Rightarrow> uint128 \<Rightarrow> uint128 \<Rightarrow> uint128" where
  "u128_and intr lhs rhs =
     (if intr then uint128_intrinsic (to_int128 lhs AND to_int128 rhs)
      else MakeUint128 (Uint128High64 lhs AND Uint128High64 rhs) (Uint128Low64 lhs AND Uint128Low64 rhs))"

definition u128_xor :: "bool \<Rightarrow> uint128 \<Rightarrow> uint128 \<Rightarrow> uint128" where
  "u128_xor intr lhs rhs =
     (if intr then uint128_intrinsic (to_int128 lhs XOR to_int128 rhs)
      else MakeUint128 (Uint128High64 lhs XOR Uint128High64 rhs) (Uint128Low64 lhs XOR Uint128Low64 rhs))"

definition u128_or_assign :: "bool \<Rightarrow> uint128 \<Rightarrow> uint128 \<Rightarrow> uint128" where
  "u128_or_assign intr this other = u128_or intr this other"

definition u128_and_assign :: "bool \<Rightarrow> uint128 \<Rightarrow> uint128 \<Rightarrow> uint128" where
  "u128_and_assign intr this other = u128_and intr this other"

definition u128_xor_assign :: "bool \<Rightarrow> uint128 \<Rightarrow> uint128 \<Rightarrow> uint128" where
  "u128_xor_assign intr this other = u128_xor intr this other"

section \<open>Shifts\<close>

text \<open>The amount is an \<^verbatim>\<open>int\<close> in the source; amounts outside \<^verbatim>\<open>[0, 128)\<close> are undefined.\<close>

definition u128_shl :: "bool \<Rightarrow> uint128 \<Rightarrow> nat \<Rightarrow> uint128" where
  "u128_shl intr lhs amount =
     (if intr then uint128_intrinsic (push_bit amount (to_int128 lhs))
      else if amount \<ge> 64 then MakeUint128 (push_bit (amount - 64) (Uint128Low64 lhs)) 0
      else if amount = 0 then lhs
      else MakeUint128 (push_bit amount (Uint128High64 lhs) OR drop_bit (64 - amount) (Uint128Low64 lhs))
             (push_bit amount (Uint128Low64 lhs)))"

definition u128_shr :: "bool \<Rightarrow> uint128 \<Rightarrow> nat \<Rightarrow> uint128" where
  "u128_shr intr lhs amount =
     (if intr then uint128_intrinsic (drop_bit amount (to_int128 lhs))
      else if amount \<ge> 64 then MakeUint128 0 (drop_bit (amount - 64) (Uint128High64 lhs))
      else if amount = 0 then lhs
      else MakeUint128 (drop_bit amount (Uint128High64 lhs))
             (drop_bit amount (Uint128Low64 lhs) OR push_bit (64 - amount) (Uint128High64 lhs)))"

definition u128_shl_assign :: "bool \<Rightarrow> uint128 \<Rightarrow> nat \<Rightarrow> uint128" where
  "u128_shl_assign intr this amount = u128_shl intr this amount"

definition u128_shr_assign :: "bool \<Rightarrow> uint128 \<Rightarrow> nat \<Rightarrow> uint128" where
  "u128_shr_assign intr this amount = u128_shr intr this amount"

section \<open>Addition, subtraction, multiplication\<close>

definition AddResult :: "uint128 \<Rightarrow> uint128 \<Rightarrow> uint128" where
  "AddResult result lhs =
     (if Uint128Low64 result < Uint128Low64 lhs then MakeUint128 (Uint128High64 result + 1) (Uint128Low64 result)
      else result)"

definition u128_add :: "bool \<Rightarrow> uint128 \<Rightarrow> uint128 \<Rightarrow> uint128" where
  "u128_add intr lhs rhs =
     (if intr then uint128_intrinsic (to_int128 lhs + to_int128 rhs)
      else AddResult (MakeUint128 (Uint128High64 lhs + Uint128High64 rhs) (Uint128Low64 lhs + Uint128Low64 rhs)) lhs)"

definition SubstructResult :: "uint128 \<Rightarrow> uint128 \<Rightarrow> uint128 \<Rightarrow> uint128" where
  "SubstructResult result lhs rhs =
     (if Uint128Low64 lhs < Uint128Low64 rhs then MakeUint128 (Uint128High64 result - 1) (Uint128Low64 result)
      else result)"

definition u128_sub :: "bool \<Rightarrow> uint128 \<Rightarrow> uint128 \<Rightarrow> uint128" where
  "u128_sub intr lhs rhs =
     (if intr then uint128_intrinsic (to_int128 lhs - to_int128 rhs)
      else SubstructResult (MakeUint128 (Uint128High64 lhs - Uint128High64 rhs) (Uint128Low64 lhs - Uint128Low64 rhs))
             lhs rhs)"

definition u128_add_assign :: "bool \<Rightarrow> uint128 \<Rightarrow> uint128 \<Rightarrow> uint128" where
  "u128_add_assign intr this other = u128_add intr this other"

definition u128_sub_assign :: "bool \<Rightarrow> uint128 \<Rightarrow> uint128 \<Rightarrow> uint128" where
  "u128_sub_assign intr this other = u128_sub intr this other"

text \<open>\<^verbatim>\<open>_umul128\<close>: the low and the high half of a 64-bit product.\<close>

definition umul128 :: "64 word \<Rightarrow> 64 word \<Rightarrow> 64 word \<times> 64 word" where
  "umul128 a b = (a * b, ucast (drop_bit 64 ((ucast a :: 128 word) * ucast b)))"

definition u128_mul :: "bool \<Rightarrow> toolchain \<Rightarrow> uint128 \<Rightarrow> uint128 \<Rightarrow> uint128" where
  "u128_mul intr tc lhs rhs =
     (if intr then uint128_intrinsic (to_int128 lhs * to_int128 rhs)
      else if tc = Msvc64 then
        let (low, carry) = umul128 (Uint128Low64 lhs) (Uint128Low64 rhs)
        in MakeUint128 (Uint128Low64 lhs * Uint128High64 rhs + Uint128High64 lhs * Uint128Low64 rhs + carry) low
      else
        let a32 = drop_bit 32 (Uint128Low64 lhs);
            a00 = Uint128Low64 lhs AND 0xffffffff;
            b32 = drop_bit 32 (Uint128Low64 rhs);
            b00 = Uint128Low64 rhs AND 0xffffffff;
            result = MakeUint128 (Uint128High64 lhs * Uint128Low64 rhs + Uint128Low64 lhs * Uint128High64 rhs + a32 * b32)
                       (a00 * b00);
            result = u128_add_assign intr result (u128_shl intr (uint128_unsigned (a32 * b00)) 32);
            result = u128_add_assign intr result (u128_shl intr (uint128_unsigned (a00 * b32)) 32)
        in result)"

definition u128_mul_assign :: "bool \<Rightarrow> toolchain \<Rightarrow> uint128 \<Rightarrow> uint128 \<Rightarrow> uint128" where
  "u128_mul_assign intr tc this other = u128_mul intr tc this other"

text \<open>Increment and decrement: the old value and the new one for the postfix operators.\<close>

definition u128_post_inc :: "bool \<Rightarrow> uint128 \<Rightarrow> uint128 \<times> uint128" where
  "u128_post_inc intr this = (let tmp = this; this = u128_add_assign intr this (uint128_unsigned (1 :: 32 word)) in (tmp, this))"

definition u128_post_dec :: "bool \<Rightarrow> uint128 \<Rightarrow> uint128 \<times> uint128" where
  "u128_post_dec intr this = (let tmp = this; this = u128_sub_assign intr this (uint128_unsigned (1 :: 32 word)) in (tmp, this))"

definition u128_pre_inc :: "bool \<Rightarrow> uint128 \<Rightarrow> uint128" where
  "u128_pre_inc intr this = u128_add_assign intr this (uint128_unsigned (1 :: 32 word))"

definition u128_pre_dec :: "bool \<Rightarrow> uint128 \<Rightarrow> uint128" where
  "u128_pre_dec intr this = u128_sub_assign intr this (uint128_unsigned (1 :: 32 word))"

section \<open>Division\<close>

text \<open>The position of the highest set bit of a nonzero number.\<close>

definition Fls128 :: "toolchain \<Rightarrow> uint128 \<Rightarrow> int" where
  "Fls128 tc n =
     (let hi = Uint128High64 n in
      if hi \<noteq> 0 then 127 - countl_zero tc hi
      else let low = Uint128Low64 n in 63 - countl_zero tc low)"

fun divmod_loop :: "bool \<Rightarrow> nat \<Rightarrow> uint128 \<times> uint128 \<times> uint128 \<Rightarrow> uint128 \<times> uint128 \<times> uint128" where
  "divmod_loop intr 0 st = st"
| "divmod_loop intr (Suc n) (quot, dividend, denominator) =
     (let quot = u128_shl_assign intr quot 1;
          (dividend, quot) =
            (if u128_ge intr dividend denominator
             then (u128_sub_assign intr dividend denominator, u128_or_assign intr quot (uint128_unsigned (1 :: 32 word)))
             else (dividend, quot));
          denominator = u128_shr_assign intr denominator 1
      in divmod_loop intr n (quot, dividend, denominator))"

definition DivModImpl :: "bool \<Rightarrow> toolchain \<Rightarrow> uint128 \<Rightarrow> uint128 \<Rightarrow> (uint128 \<times> uint128) res" where
  "DivModImpl intr tc dividend divisor =
     assert (u128_neq intr divisor (uint128_unsigned (0 :: 32 word)))
     (if u128_greater intr divisor dividend then Inr (uint128_unsigned (0 :: 32 word), dividend)
      else if u128_eq intr divisor dividend then
        Inr (uint128_unsigned (1 :: 32 word), uint128_unsigned (0 :: 32 word))
      else
        let denominator = divisor;
            quot = uint128_unsigned (0 :: 32 word);
            shift = Fls128 tc dividend - Fls128 tc denominator;
            denominator = u128_shl_assign intr denominator (nat shift);
            (quot, dividend, denominator) = divmod_loop intr (nat (shift + 1)) (quot, dividend, denominator)
        in Inr (quot, dividend))"

definition u128_div :: "bool \<Rightarrow> toolchain \<Rightarrow> uint128 \<Rightarrow> uint128 \<Rightarrow> uint128 res" where
  "u128_div intr tc lhs rhs =
     (if intr then
        (if to_int128 rhs = 0 then Inl DivByZero else Inr (uint128_intrinsic (to_int128 lhs div to_int128 rhs)))
      else rbind (DivModImpl intr tc lhs rhs) (\<lambda>(quot, rmd). Inr quot))"

definition u128_mod :: "bool \<Rightarrow> toolchain \<Rightarrow> uint128 \<Rightarrow> uint128 \<Rightarrow> uint128 res" where
  "u128_mod intr tc lhs rhs =
     (if intr then
        (if to_int128 rhs = 0 then Inl DivByZero else Inr (uint128_intrinsic (to_int128 lhs mod to_int128 rhs)))
      else rbind (DivModImpl intr tc lhs rhs) (\<lambda>(quot, rmd). Inr rmd))"

section \<open>The 128-bit value\<close>

lemmas halves_defs = Uint128Low64_def Uint128High64_def MakeUint128_def

lemma uint128_eqI: "lo64 x = lo64 y \<Longrightarrow> hi64 x = hi64 y \<Longrightarrow> x = (y :: uint128)"
  by (cases x; cases y) simp

lemma bit_to_int128:
  "bit (to_int128 x) n \<longleftrightarrow> (if n < 64 then bit (lo64 x) n else bit (hi64 x) (n - 64))"
proof -
  have "to_int128 x = push_bit 64 (ucast (hi64 x)) OR ucast (lo64 x)"
    unfolding to_int128_def by (rule disjunctive_add) (auto simp: bit_simps dest: bit_imp_le_length)
  then show ?thesis by (auto simp: bit_simps dest: bit_imp_le_length)
qed

lemma uint128_intrinsic_inverse [simp]: "uint128_intrinsic (to_int128 x) = x"
proof (rule uint128_eqI)
  have m: "(0xFFFFFFFFFFFFFFFF :: 128 word) = mask 64" by (simp add: mask_eq_exp_minus_1)
  show "lo64 (uint128_intrinsic (to_int128 x)) = lo64 x"
    unfolding uint128_intrinsic_def m by (rule bit_word_eqI) (auto simp: bit_simps bit_to_int128)
  show "hi64 (uint128_intrinsic (to_int128 x)) = hi64 x"
    unfolding uint128_intrinsic_def by (rule bit_word_eqI) (auto simp: bit_simps bit_to_int128)
qed

lemma to_int128_intrinsic [simp]: "to_int128 (uint128_intrinsic w) = w"
proof (rule bit_word_eqI)
  have m: "(0xFFFFFFFFFFFFFFFF :: 128 word) = mask 64" by (simp add: mask_eq_exp_minus_1)
  fix n assume "n < LENGTH(128)"
  then show "bit (to_int128 (uint128_intrinsic w)) n = bit w n"
    unfolding bit_to_int128 uint128_intrinsic_def m by (auto simp: bit_simps)
qed

lemma to_int128_inject [simp]: "to_int128 x = to_int128 y \<longleftrightarrow> x = y"
  by (metis uint128_intrinsic_inverse)

abbreviation wide128 :: "64 word \<Rightarrow> 128 word" where "wide128 \<equiv> ucast"

lemma to_int128_sum: "to_int128 x = 2 ^ 64 * wide128 (hi64 x) + wide128 (lo64 x)"
  by (simp add: to_int128_def push_bit_eq_mult mult.commute)

text \<open>The high half is taken modulo \<open>2^64\<close>, which the factor \<open>2^64\<close> absorbs.\<close>

lemma high_of_int: "2 ^ 64 * wide128 (of_int i) = 2 ^ 64 * of_int i"
proof -
  have "push_bit 64 (wide128 (of_int i)) = push_bit 64 (of_int i)"
    by transfer (simp add: take_bit_push_bit)
  then show ?thesis by (simp add: push_bit_eq_mult mult.commute)
qed

lemma high_add: "2 ^ 64 * wide128 (a + b) = 2 ^ 64 * wide128 a + 2 ^ 64 * wide128 b"
  using high_of_int [of "uint a + uint b"] by (simp add: distrib_left)

lemma high_diff: "2 ^ 64 * wide128 (a - b) = 2 ^ 64 * wide128 a - 2 ^ 64 * wide128 b"
  using high_of_int [of "uint a - uint b"] by (simp add: right_diff_distrib)

lemma high_mult: "2 ^ 64 * wide128 (a * b) = 2 ^ 64 * (wide128 a * wide128 b)"
  using high_of_int [of "uint a * uint b"] by simp

lemmas high_simps = high_add [simplified] high_diff [simplified] high_mult [simplified]

text \<open>The low half carries or borrows.\<close>

lemma wide_uint: "wide128 a = of_int (uint a)"
  by simp

lemma wide_add: "wide128 (a + b) = wide128 a + wide128 b - (if a + b < a then 2 ^ 64 else 0)"
proof -
  have "uint (a + b) = uint a + uint b - (if a + b < a then 2 ^ 64 else 0)"
    using uint_lt2p [of a] uint_lt2p [of b] by (auto simp: word_less_def uint_plus_if' split: if_splits)
  then have "wide128 (a + b) = of_int (uint a + uint b - (if a + b < a then 2 ^ 64 else 0))" by (metis wide_uint)
  then show ?thesis by (simp split: if_splits)
qed

lemma wide_diff: "wide128 (a - b) = wide128 a - wide128 b + (if a < b then 2 ^ 64 else 0)"
proof -
  have "uint (a - b) = uint a - uint b + (if a < b then 2 ^ 64 else 0)"
    by (auto simp: word_less_def uint_sub_if' split: if_splits)
  then have "wide128 (a - b) = of_int (uint a - uint b + (if a < b then 2 ^ 64 else 0))" by (metis wide_uint)
  then show ?thesis by (simp split: if_splits)
qed

lemma wide_mult:
  assumes "uint a * uint b < 2 ^ 64"
  shows "wide128 (a * b) = wide128 a * wide128 b"
proof -
  have "uint (a * b) = uint a * uint b" using assms by (simp add: uint_word_ariths)
  then have "wide128 (a * b) = of_int (uint a * uint b)" by (metis wide_uint)
  then show ?thesis by simp
qed

section \<open>The operators are those of the 128-bit integer\<close>

lemma to_int128_eq [simp]: "u128_eq intr x y \<longleftrightarrow> to_int128 x = to_int128 y"
  by (auto simp: u128_eq_def halves_defs intro: uint128_eqI)

lemma unat_to_int128: "unat (to_int128 x) = unat (hi64 x) * 2 ^ 64 + unat (lo64 x)"
proof -
  have b: "unat (hi64 x) < 2 ^ 64" "unat (lo64 x) < 2 ^ 64"
    using unat_less [of "hi64 x"] unat_less [of "lo64 x"] by simp_all
  then have lt: "unat (hi64 x) * 2 ^ 64 + unat (lo64 x) < 2 ^ LENGTH(128)" by simp
  have "to_int128 x = of_nat (unat (hi64 x) * 2 ^ 64 + unat (lo64 x))"
    by (simp add: to_int128_sum mult.commute)
  then show ?thesis using unat_of_nat_small [OF lt] by metis
qed

lemma to_int128_less [simp]: "u128_less intr x y \<longleftrightarrow> to_int128 x < to_int128 y"
proof (cases intr)
  case False
  have b: "unat (lo64 x) < 2 ^ 64" "unat (lo64 y) < 2 ^ 64"
    using unat_less [of "lo64 x"] unat_less [of "lo64 y"] by simp_all
  show ?thesis unfolding word_less_nat_alt unat_to_int128
    using False b by (auto simp: u128_less_def halves_defs word_less_nat_alt word_unat_eq_iff)
qed (simp add: u128_less_def)

lemma to_int128_neg [simp]: "to_int128 (u128_neg intr x) = - to_int128 x"
proof (cases intr)
  case False
  have n: "NOT y = - y - (1 :: 64 word)" for y by (simp add: not_eq_complement)
  show ?thesis using False wide_diff [of 0 "lo64 x"] high_diff [of 0 "hi64 x"]
    by (auto simp: u128_neg_def halves_defs to_int128_sum n high_simps word_gt_0)
qed (simp add: u128_neg_def)

lemma to_int128_add [simp]: "to_int128 (u128_add intr x y) = to_int128 x + to_int128 y"
proof (cases intr)
  case False
  then show ?thesis by (auto simp: u128_add_def AddResult_def halves_defs to_int128_sum high_simps wide_add)
qed (simp add: u128_add_def)

lemma to_int128_sub [simp]: "to_int128 (u128_sub intr x y) = to_int128 x - to_int128 y"
proof (cases intr)
  case False
  then show ?thesis by (auto simp: u128_sub_def SubstructResult_def halves_defs to_int128_sum high_simps wide_diff)
qed (simp add: u128_sub_def)

lemma to_int128_logic [simp]:
  "to_int128 (u128_not intr x) = NOT (to_int128 x)"
  "to_int128 (u128_or intr x y) = to_int128 x OR to_int128 y"
  "to_int128 (u128_and intr x y) = to_int128 x AND to_int128 y"
  "to_int128 (u128_xor intr x y) = to_int128 x XOR to_int128 y"
  by (cases intr; auto intro!: bit_word_eqI
      simp: u128_not_def u128_or_def u128_and_def u128_xor_def halves_defs bit_to_int128 bit_simps)+

lemma half_bits: "bit (hi64 x) m \<Longrightarrow> m < 64" "bit (lo64 x) m \<Longrightarrow> m < 64"
  using bit_imp_le_length [of "hi64 x" m] bit_imp_le_length [of "lo64 x" m] by auto

lemma to_int128_shl [simp]:
  assumes "k < 128"
  shows "to_int128 (u128_shl intr x k) = push_bit k (to_int128 x)"
proof (cases intr)
  case False
  show ?thesis
  proof (rule bit_word_eqI)
    fix n assume n: "n < LENGTH(128)"
    consider "64 \<le> k" | "k = 0" | "0 < k" "k < 64" by linarith
    then show "bit (to_int128 (u128_shl intr x k)) n = bit (push_bit k (to_int128 x)) n"
    proof cases
      case 1
      then show ?thesis using n False half_bits [of x "n - k"]
        by (auto simp: u128_shl_def halves_defs bit_to_int128 bit_simps)
    next
      case 3
      have "n - 64 - k = n - k - 64" "64 \<le> n \<Longrightarrow> n - 64 + (64 - k) = n - k" using 3 by linarith+
      with 3 show ?thesis using n False half_bits [of x "n - k"]
        by (auto simp: u128_shl_def halves_defs bit_to_int128 bit_simps)
    qed (use False in \<open>simp add: u128_shl_def\<close>)
  qed
qed (simp add: u128_shl_def)

lemma to_int128_shr [simp]:
  assumes "k < 128"
  shows "to_int128 (u128_shr intr x k) = drop_bit k (to_int128 x)"
proof (cases intr)
  case False
  show ?thesis
  proof (rule bit_word_eqI)
    fix n assume n: "n < LENGTH(128)"
    consider "64 \<le> k" | "k = 0" | "0 < k" "k < 64" by linarith
    then show "bit (to_int128 (u128_shr intr x k)) n = bit (drop_bit k (to_int128 x)) n"
    proof cases
      case 1
      then show ?thesis using n False half_bits(1) [of x "n + k - 64"]
        by (auto simp: u128_shr_def halves_defs bit_to_int128 bit_simps add.commute)
    next
      case 3
      have "n - (64 - k) = n + k - 64" if "64 - k \<le> n" using that 3 by linarith
      with 3 show ?thesis using n False half_bits(2) [of x "n + k"] half_bits(1) [of x "n + k - 64"]
        by (auto simp: u128_shr_def halves_defs bit_to_int128 bit_simps add.commute)
    qed (use False in \<open>simp add: u128_shr_def\<close>)
  qed
qed (simp add: u128_shr_def)

section \<open>Multiplication\<close>

lemma mul_cross:
  fixes P :: "'a::comm_ring_1"
  assumes "P * P = 0"
  shows "P * (ll * hr + hl * lr) + ll * lr = (P * hl + ll) * (P * hr + lr)"
proof -
  have "(P * hl + ll) * (P * hr + lr) = P * P * (hl * hr) + (P * (ll * hr + hl * lr) + ll * lr)"
    by (simp add: algebra_simps)
  then show ?thesis using assms by simp
qed

lemma mul_halves:
  fixes P :: "'a::comm_ring_1"
  assumes "P = Q * Q" "P * P = 0" "ll = Q * a1 + a0" "lr = Q * b1 + b0"
  shows "P * (hl * lr + ll * hr + a1 * b1) + a0 * b0 + Q * (a1 * b0) + Q * (a0 * b1) = (P * hl + ll) * (P * hr + lr)"
proof -
  have "ll * lr = P * (a1 * b1) + a0 * b0 + Q * (a1 * b0) + Q * (a0 * b1)"
    unfolding assms(1,3,4) by (simp add: algebra_simps)
  then show ?thesis using mul_cross [OF assms(2), of ll hr hl lr] by (simp add: algebra_simps)
qed

lemma wide_split:
  "wide128 a = 2 ^ 32 * wide128 (drop_bit 32 a) + wide128 (a AND 0xffffffff)"
  "uint (drop_bit 32 (a :: 64 word)) < 2 ^ 32" "uint (a AND 0xffffffff) < 2 ^ 32"
proof -
  have m: "(0xffffffff :: 64 word) = mask 32" by (simp add: mask_eq_exp_minus_1)
  have "wide128 a = push_bit 32 (wide128 (drop_bit 32 a)) OR wide128 (a AND 0xffffffff)"
    unfolding m by (rule bit_word_eqI) (auto simp: bit_simps)
  also have "\<dots> = push_bit 32 (wide128 (drop_bit 32 a)) + wide128 (a AND 0xffffffff)"
    unfolding m by (rule disjunctive_add [symmetric]) (auto simp: bit_simps)
  finally show "wide128 a = 2 ^ 32 * wide128 (drop_bit 32 a) + wide128 (a AND 0xffffffff)"
    by (simp add: push_bit_eq_mult mult.commute)
  have "unat a div 2 ^ 32 < 2 ^ 32" using unat_less [of a] by (simp add: less_mult_imp_div_less)
  then show "uint (drop_bit 32 a) < 2 ^ 32" using unat_drop_bit_div [of 32 a] by (simp add: uint_nat)
  show "uint (a AND 0xffffffff) < 2 ^ 32" unfolding m by (rule and_mask_lt_2p)
qed

lemma wide_half_mult:
  assumes "uint a < 2 ^ 32" "uint b < 2 ^ 32"
  shows "wide128 (a * b) = wide128 a * wide128 b"
proof (rule wide_mult)
  have "uint a * uint b \<le> (2 ^ 32 - 1) * (2 ^ 32 - 1)" using assms by (intro mult_mono) auto
  then show "uint a * uint b < 2 ^ 64" by simp
qed

lemma intrinsic_low_mult: "lo64 (uint128_intrinsic (wide128 a * wide128 b)) = a * b"
proof -
  have "lo64 (uint128_intrinsic w) = ucast w" for w
  proof (rule bit_word_eqI)
    have m: "(0xFFFFFFFFFFFFFFFF :: 128 word) = mask 64" by (simp add: mask_eq_exp_minus_1)
    fix n assume "n < LENGTH(64)"
    then show "bit (lo64 (uint128_intrinsic w)) n = bit (ucast w :: 64 word) n"
      unfolding uint128_intrinsic_def m by (auto simp: bit_simps)
  qed
  moreover have "(ucast (wide128 a * wide128 b) :: 64 word) = a * b"
    by transfer (simp add: take_bit_mult take_bit_take_bit)
  ultimately show ?thesis by simp
qed

lemma to_int128_mul [simp]: "to_int128 (u128_mul intr tc x y) = to_int128 x * to_int128 y"
proof (cases intr)
  case False
  let ?P = "2 ^ 64 :: 128 word" and ?Q = "2 ^ 32 :: 128 word"
  have P: "?P = ?Q * ?Q" "?P * ?P = 0" by simp_all
  show ?thesis
  proof (cases "tc = Msvc64")
    case True
    let ?p = "wide128 (lo64 x) * wide128 (lo64 y)"
    have "hi64 (uint128_intrinsic ?p) = ucast (drop_bit 64 ?p)" by (simp add: uint128_intrinsic_def)
    with to_int128_sum [of "uint128_intrinsic ?p"] have p: "?p = ?P * wide128 (ucast (drop_bit 64 ?p)) + wide128 (lo64 x * lo64 y)"
      unfolding intrinsic_low_mult to_int128_intrinsic by simp
    have "to_int128 (u128_mul intr tc x y) =
        ?P * (wide128 (lo64 x) * wide128 (hi64 y) + wide128 (hi64 x) * wide128 (lo64 y)) + ?p"
    proof -
      have "to_int128 (u128_mul intr tc x y) = ?P * wide128 (lo64 x * hi64 y + hi64 x * lo64 y + ucast (drop_bit 64 ?p)) +
          wide128 (lo64 x * lo64 y)"
        using False True by (simp add: u128_mul_def umul128_def halves_defs to_int128_sum)
      also have "\<dots> = ?P * (wide128 (lo64 x) * wide128 (hi64 y) + wide128 (hi64 x) * wide128 (lo64 y)) +
          (?P * wide128 (ucast (drop_bit 64 ?p)) + wide128 (lo64 x * lo64 y))"
        unfolding high_add high_mult by (simp only: distrib_left add.assoc)
      finally show ?thesis unfolding p [symmetric] .
    qed
    also have "\<dots> = to_int128 x * to_int128 y" unfolding to_int128_sum by (rule mul_cross [OF P(2)])
    finally show ?thesis .
  next
    case Msvc: False
    note a = wide_split [of "lo64 x"] and b = wide_split [of "lo64 y"]
    have r: "to_int128 (uint128_unsigned w) = wide128 w" for w :: "64 word"
      by (simp add: uint128_unsigned_def to_int128_sum)
    have "to_int128 (u128_mul intr tc x y) =
       ?P * (wide128 (hi64 x) * wide128 (lo64 y) + wide128 (lo64 x) * wide128 (hi64 y) +
             wide128 (drop_bit 32 (lo64 x)) * wide128 (drop_bit 32 (lo64 y))) +
       wide128 (lo64 x AND 0xffffffff) * wide128 (lo64 y AND 0xffffffff) +
       ?Q * (wide128 (drop_bit 32 (lo64 x)) * wide128 (lo64 y AND 0xffffffff)) +
       ?Q * (wide128 (lo64 x AND 0xffffffff) * wide128 (drop_bit 32 (lo64 y)))"
    proof -
      let ?m = "MakeUint128 (hi64 x * lo64 y + lo64 x * hi64 y + drop_bit 32 (lo64 x) * drop_bit 32 (lo64 y))
          ((lo64 x AND 0xffffffff) * (lo64 y AND 0xffffffff))"
      have "to_int128 (u128_mul intr tc x y) = to_int128 ?m +
          push_bit 32 (wide128 (drop_bit 32 (lo64 x) * (lo64 y AND 0xffffffff))) +
          push_bit 32 (wide128 ((lo64 x AND 0xffffffff) * drop_bit 32 (lo64 y)))"
        using False Msvc by (simp add: u128_mul_def u128_add_assign_def Uint128High64_def Uint128Low64_def r Let_def)
      also have "to_int128 ?m = ?P * (wide128 (hi64 x) * wide128 (lo64 y) + wide128 (lo64 x) * wide128 (hi64 y) +
            wide128 (drop_bit 32 (lo64 x)) * wide128 (drop_bit 32 (lo64 y))) +
          wide128 (lo64 x AND 0xffffffff) * wide128 (lo64 y AND 0xffffffff)"
        unfolding to_int128_sum MakeUint128_def uint128.simps high_add high_mult wide_half_mult [OF a(3) b(3)]
        by (simp only: distrib_left)
      finally show ?thesis
        unfolding wide_half_mult [OF a(2) b(3)] wide_half_mult [OF a(3) b(2)] push_bit_eq_mult
        by (simp only: mult.commute)
    qed
    also have "\<dots> = to_int128 x * to_int128 y" unfolding to_int128_sum by (rule mul_halves [OF P a(1) b(1)])
    finally show ?thesis .
  qed
qed (simp add: u128_mul_def)

section \<open>Division\<close>

lemma to_int128_const [simp]:
  "to_int128 (uint128_unsigned (0 :: 32 word)) = 0" "to_int128 (uint128_unsigned (1 :: 32 word)) = 1"
  by (simp_all add: uint128_unsigned_def to_int128_sum)

lemma Fls128_eq:
  assumes "to_int128 n \<noteq> 0"
  shows "Fls128 tc n = int (nat_width (unat (to_int128 n))) - 1"
proof (cases "hi64 n = 0")
  case True
  then show ?thesis by (simp add: Fls128_def halves_defs countl_zero_eq unat_to_int128)
next
  case False
  have lo: "unat (lo64 n) < 2 ^ 64" using unat_less [of "lo64 n"] by simp
  have hi: "0 < unat (hi64 n)" using False by (simp add: unat_gt_0)
  have "(unat (hi64 n) * 2 ^ 64 + unat (lo64 n)) div 2 ^ 64 = unat (hi64 n)" using lo by simp
  moreover have "2 ^ 64 \<le> unat (hi64 n) * 2 ^ 64 + unat (lo64 n)" using hi by simp
  ultimately have "nat_width (unat (to_int128 n)) = 64 + nat_width (unat (hi64 n))"
    unfolding unat_to_int128 using nat_width_div by metis
  then show ?thesis using False by (simp add: Fls128_def halves_defs countl_zero_eq)
qed

abbreviation value128 :: "uint128 \<Rightarrow> nat" where
  "value128 x \<equiv> unat (to_int128 x)"

lemma value128_double:
  assumes "2 * value128 q + 1 < 2 ^ 128"
  shows "value128 (u128_shl intr q 1) = 2 * value128 q"
    "value128 (u128_or intr (u128_shl intr q 1) (uint128_unsigned (1 :: 32 word))) = 2 * value128 q + 1"
proof -
  have p: "unat (push_bit 1 (to_int128 q)) = push_bit 1 (value128 q)"
    using assms by (subst unsigned_push_bit_eq) (simp add: take_bit_nat_eq_self push_bit_eq_mult)
  then show "value128 (u128_shl intr q 1) = 2 * value128 q" by (simp add: push_bit_eq_mult)
  have "push_bit 1 (value128 q) OR 1 = push_bit 1 (value128 q) + 1"
    by (simp add: or_Suc_0_eq push_bit_eq_mult)
  then show "value128 (u128_or intr (u128_shl intr q 1) (uint128_unsigned (1 :: 32 word))) = 2 * value128 q + 1"
    using p by (simp add: unsigned_or_eq push_bit_eq_mult)
qed

text \<open>
  The loop invariant of shift-subtract division, on the numbers: with \<open>n\<close> rounds left the denominator is
  \<open>2^(n-1)\<close> times the divisor, and the dividend is below twice the denominator.
\<close>

lemma divmod_loop_correct:
  assumes "value128 d = value128 v * 2 ^ n div 2" "value128 a < value128 v * 2 ^ n"
    "(value128 q + 1) * 2 ^ n \<le> 2 ^ 128" "divmod_loop intr n (q, a, d) = (q', a', d')"
  shows "value128 a' < value128 v \<and>
    value128 q' * value128 v + value128 a' = value128 q * 2 ^ n * value128 v + value128 a"
  using assms
proof (induction n arbitrary: q a d)
  case (Suc n)
  have d: "value128 d = value128 v * 2 ^ n" using Suc.prems(1) by simp
  have "(value128 q + 1) * 2 \<le> (value128 q + 1) * 2 ^ Suc n" by (rule mult_le_mono2) simp
  also have "\<dots> \<le> 2 ^ 128" by (rule Suc.prems(3))
  finally have q2: "2 * value128 q + 1 < 2 ^ 128" by simp
  have shr: "value128 (u128_shr intr d 1) = value128 v * 2 ^ n div 2"
    using d by (simp add: unat_drop_bit_div)
  let ?q2 = "u128_shl intr q 1" and ?d2 = "u128_shr intr d 1"
  show ?case
  proof (cases "value128 d \<le> value128 a")
    case True
    let ?a2 = "u128_sub intr a d" and ?q3 = "u128_or intr ?q2 (uint128_unsigned (1 :: 32 word))"
    have a2: "value128 ?a2 = value128 a - value128 d" using True by (simp add: unat_sub word_le_nat_alt)
    have "divmod_loop intr n (?q3, ?a2, ?d2) = (q', a', d')"
      using Suc.prems(4) True
      by (simp add: u128_shl_assign_def u128_shr_assign_def u128_sub_assign_def u128_or_assign_def u128_ge_def
          not_less word_le_nat_alt)
    moreover have "value128 ?a2 < value128 v * 2 ^ n" using a2 d True Suc.prems(2) by simp
    moreover have "(value128 ?q3 + 1) * 2 ^ n \<le> 2 ^ 128"
      unfolding value128_double(2) [OF q2] using Suc.prems(3) by (simp add: algebra_simps)
    ultimately have "value128 a' < value128 v \<and>
        value128 q' * value128 v + value128 a' = value128 ?q3 * 2 ^ n * value128 v + value128 ?a2"
      using Suc.IH [of ?d2 ?a2 ?q3] shr by blast
    then show ?thesis unfolding value128_double(2) [OF q2] a2 using d True by (simp add: algebra_simps)
  next
    case False
    have "divmod_loop intr n (?q2, a, ?d2) = (q', a', d')"
      using Suc.prems(4) False
      by (simp add: u128_shl_assign_def u128_shr_assign_def u128_ge_def not_less word_le_nat_alt)
    moreover have "value128 a < value128 v * 2 ^ n" using d False by simp
    moreover have "(value128 ?q2 + 1) * 2 ^ n \<le> 2 ^ 128"
      unfolding value128_double(1) [OF q2] using Suc.prems(3) by (simp add: algebra_simps)
    ultimately have "value128 a' < value128 v \<and>
        value128 q' * value128 v + value128 a' = value128 ?q2 * 2 ^ n * value128 v + value128 a"
      using Suc.IH [of ?d2 a ?q2] shr by blast
    then show ?thesis unfolding value128_double(1) [OF q2] by (simp add: algebra_simps)
  qed
qed auto

lemma value128_0 [simp]: "value128 x = 0 \<longleftrightarrow> to_int128 x = 0"
  by (simp add: unat_eq_zero)

lemma DivModImpl_correct:
  assumes "to_int128 v \<noteq> 0"
  shows "\<exists>q r. DivModImpl intr tc a v = Inr (q, r) \<and> value128 q = value128 a div value128 v \<and>
    value128 r = value128 a mod value128 v"
proof -
  have v: "0 < value128 v" using assms by (simp add: unat_gt_0)
  consider "value128 a < value128 v" | "to_int128 v = to_int128 a" | "value128 v < value128 a"
    by (metis linorder_neqE_nat unsigned_word_eqI)
  then show ?thesis
  proof cases
    case 1
    then show ?thesis using assms by (simp add: DivModImpl_def u128_neq_def u128_greater_def word_less_nat_alt)
  next
    case 2
    then show ?thesis using assms v by (simp add: DivModImpl_def u128_neq_def u128_greater_def)
  next
    case 3
    let ?wa = "nat_width (value128 a)" and ?wv = "nat_width (value128 v)"
    define s where "s = ?wa - ?wv"
    have ba: "value128 a < 2 ^ ?wa" and bv: "value128 v < 2 ^ ?wv" "2 ^ (?wv - 1) \<le> value128 v"
      using nat_width_bounds 3 v by auto
    have "?wv \<le> ?wa" using 3 ba by (simp add: nat_width_le_iff)
    moreover have wv: "0 < ?wv" using assms by (subst nat_width.simps) simp
    ultimately have w: "?wa = ?wv + s" "?wa = ?wv - 1 + (s + 1)" by (simp_all add: s_def)
    have w128: "?wa \<le> 128" using nat_width_word [of "to_int128 a"] by simp
    have a0: "to_int128 a \<noteq> 0" using 3 by auto
    have shift: "Fls128 tc a - Fls128 tc v = int s" "s < 128"
      using w w128 wv by (simp_all add: Fls128_eq assms a0)
    have "value128 v * 2 ^ s < 2 ^ ?wa" unfolding w(1) power_add using bv(1) by simp
    also have "\<dots> \<le> 2 ^ 128" using w128 by (rule power_increasing) simp
    finally have "unat (push_bit s (to_int128 v)) = value128 v * 2 ^ s"
      by (subst unsigned_push_bit_eq) (simp add: take_bit_nat_eq_self push_bit_eq_mult)
    then have d: "value128 (u128_shl intr v s) = value128 v * 2 ^ s" using shift(2) by simp
    obtain q' a' d' where loop: "divmod_loop intr (Suc s) (uint128_unsigned (0 :: 32 word), a, u128_shl intr v s) = (q', a', d')"
      by (metis prod_cases3)
    have "2 ^ ?wa \<le> value128 v * 2 ^ Suc s" unfolding w(2) power_add using bv(2) by simp
    with ba have "value128 a < value128 v * 2 ^ Suc s" by linarith
    moreover have "(value128 (uint128_unsigned (0 :: 32 word)) + 1) * 2 ^ Suc s \<le> 2 ^ 128"
      using power_increasing [of "Suc s" 128 "2 :: nat"] shift(2) by simp
    ultimately have r: "value128 a' < value128 v" "value128 q' * value128 v + value128 a' = value128 a"
      using divmod_loop_correct [of "u128_shl intr v s" v "Suc s" a, OF _ _ _ loop] d by simp_all
    then have "value128 a div value128 v = value128 q'" "value128 a mod value128 v = value128 a'"
      by (metis div_mult_self3 div_less add_0_right v neq0_conv, metis mod_mult_self3 mod_less)
    moreover have "DivModImpl intr tc a v = Inr (q', a')"
      using assms 3 loop shift
      by (auto simp: DivModImpl_def u128_neq_def u128_greater_def word_less_nat_alt u128_shl_assign_def nat_add_distrib
          simp del: divmod_loop.simps)
    ultimately show ?thesis by (intro exI [of _ q'] exI [of _ a']) simp
  qed
qed

lemma DivModImpl_zero: "DivModImpl intr tc a (uint128_unsigned (0 :: 32 word)) = Inl AssertFailed"
  by (simp add: DivModImpl_def u128_neq_def assert_def)

lemma u128_div_mod:
  assumes "to_int128 y \<noteq> 0"
  shows "\<exists>q r. u128_div intr tc x y = Inr q \<and> u128_mod intr tc x y = Inr r \<and>
    to_int128 q = to_int128 x div to_int128 y \<and> to_int128 r = to_int128 x mod to_int128 y"
proof (cases intr)
  case False
  obtain q r where qr: "DivModImpl intr tc x y = Inr (q, r)" "value128 q = value128 x div value128 y"
    "value128 r = value128 x mod value128 y" using DivModImpl_correct [OF assms] by blast
  then have "to_int128 q = to_int128 x div to_int128 y" "to_int128 r = to_int128 x mod to_int128 y"
    by (metis unat_div_distrib unsigned_word_eqI, metis unat_mod_distrib unsigned_word_eqI)
  then show ?thesis using False qr(1) by (simp add: u128_div_def u128_mod_def)
qed (use assms in \<open>simp add: u128_div_def u128_mod_def\<close>)

end
