(* ===== verification/LowLevelHash.thy ===== *)
theory LowLevelHash
  imports City U128
begin

text \<open>
  \<^verbatim>\<open>LowLevelHash\<close>, \<^verbatim>\<open>absl/hash/internal/low_level_hash.cc\<close>: the hash of a byte array that the hash framework
  uses where the compiler has a 128-bit integer. As in the theory of CityHash, \<open>mem\<close> holds the bytes,
  \<open>ptr\<close> is an offset into it, and a load outside \<open>mem\<close> is an error. The words are loaded in the order of
  the host. The lemma shows that for every length all loads stay inside the hashed bytes.
\<close>

section \<open>The hash\<close>

definition LLMix :: "bool \<Rightarrow> toolchain \<Rightarrow> 64 word \<Rightarrow> 64 word \<Rightarrow> 64 word" where
  "LLMix intr tc v0 v1 =
     (let p = uint128_unsigned v0;
          p = u128_mul_assign intr tc p (uint128_unsigned v1)
      in Uint128Low64 p XOR Uint128High64 p)"

text \<open>The loop over 64 bytes at a time, with its two states; the body runs before the test.\<close>

function low_level_64 :: "bool \<Rightarrow> toolchain \<Rightarrow> byte_order \<Rightarrow> memory \<Rightarrow> 64 word list \<Rightarrow> int \<Rightarrow> nat \<Rightarrow> 64 word \<Rightarrow> 64 word \<Rightarrow>
    (int \<times> nat \<times> 64 word \<times> 64 word) res" where
  "low_level_64 intr tc ord mem salt ptr len current_state duplicated_state =
     rbind (UnalignedLoad64 ord mem ptr) (\<lambda>a.
     rbind (UnalignedLoad64 ord mem (ptr + 8)) (\<lambda>b.
     rbind (UnalignedLoad64 ord mem (ptr + 16)) (\<lambda>c.
     rbind (UnalignedLoad64 ord mem (ptr + 24)) (\<lambda>d.
     rbind (UnalignedLoad64 ord mem (ptr + 32)) (\<lambda>e.
     rbind (UnalignedLoad64 ord mem (ptr + 40)) (\<lambda>f.
     rbind (UnalignedLoad64 ord mem (ptr + 48)) (\<lambda>g.
     rbind (UnalignedLoad64 ord mem (ptr + 56)) (\<lambda>h.
     let cs0 = LLMix intr tc (a XOR salt ! 1) (b XOR current_state);
         cs1 = LLMix intr tc (c XOR salt ! 2) (d XOR current_state);
         current_state = cs0 XOR cs1;
         ds0 = LLMix intr tc (e XOR salt ! 3) (f XOR duplicated_state);
         ds1 = LLMix intr tc (g XOR salt ! 4) (h XOR duplicated_state);
         duplicated_state = ds0 XOR ds1;
         ptr = ptr + 64; len = len - 64
     in if len > 64 then low_level_64 intr tc ord mem salt ptr len current_state duplicated_state
        else Inr (ptr, len, current_state, duplicated_state)))))))))"
  by pat_completeness auto

termination by (relation "measure (\<lambda>(_, _, _, _, _, _, len, _, _). len)") auto

declare low_level_64.simps [simp del]

function low_level_16 :: "bool \<Rightarrow> toolchain \<Rightarrow> byte_order \<Rightarrow> memory \<Rightarrow> 64 word list \<Rightarrow> int \<Rightarrow> nat \<Rightarrow> 64 word \<Rightarrow>
    (int \<times> nat \<times> 64 word) res" where
  "low_level_16 intr tc ord mem salt ptr len current_state =
     (if len > 16 then
        rbind (UnalignedLoad64 ord mem ptr) (\<lambda>a.
        rbind (UnalignedLoad64 ord mem (ptr + 8)) (\<lambda>b.
        low_level_16 intr tc ord mem salt (ptr + 16) (len - 16) (LLMix intr tc (a XOR salt ! 1) (b XOR current_state))))
      else Inr (ptr, len, current_state))"
  by pat_completeness auto

termination by (relation "measure (\<lambda>(_, _, _, _, _, _, len, _). len)") auto

declare low_level_16.simps [simp del]

text \<open>The last 0 to 16 bytes as two words. A byte is promoted to \<^verbatim>\<open>int\<close> before it is shifted.\<close>

definition low_level_tail :: "byte_order \<Rightarrow> memory \<Rightarrow> int \<Rightarrow> nat \<Rightarrow> (64 word \<times> 64 word) res" where
  "low_level_tail ord mem ptr len =
     (if len > 8 then
        rbind (UnalignedLoad64 ord mem ptr) (\<lambda>a.
        rbind (UnalignedLoad64 ord mem (ptr + int len - 8)) (\<lambda>b. Inr (a, b)))
      else if len > 3 then
        rbind (UnalignedLoad32 ord mem ptr) (\<lambda>a.
        rbind (UnalignedLoad32 ord mem (ptr + int len - 4)) (\<lambda>b. Inr (ucast a, ucast b)))
      else if len > 0 then
        rbind (fetch_byte mem ptr) (\<lambda>b0.
        rbind (fetch_byte mem (ptr + int (drop_bit 1 len))) (\<lambda>b1.
        rbind (fetch_byte mem (ptr + int len - 1)) (\<lambda>b2.
        Inr (ucast (push_bit 16 (ucast b0) OR push_bit 8 (ucast b1) OR (ucast b2 :: 32 word)), 0))))
      else Inr (0, 0))"

definition LowLevelHash :: "bool \<Rightarrow> toolchain \<Rightarrow> byte_order \<Rightarrow> memory \<Rightarrow> int \<Rightarrow> nat \<Rightarrow> 64 word \<Rightarrow> 64 word list \<Rightarrow> 64 word res" where
  "LowLevelHash intr tc ord mem data len seed salt =
     (let ptr = data; starting_length = of_nat len; current_state = seed XOR salt ! 0 in
      rbind (if len > 64 then
               rbind (low_level_64 intr tc ord mem salt ptr len current_state current_state)
                 (\<lambda>(ptr, len, current_state, duplicated_state). Inr (ptr, len, current_state XOR duplicated_state))
             else Inr (ptr, len, current_state)) (\<lambda>(ptr, len, current_state).
      rbind (low_level_16 intr tc ord mem salt ptr len current_state) (\<lambda>(ptr, len, current_state).
      rbind (low_level_tail ord mem ptr len) (\<lambda>(a, b).
      let w = LLMix intr tc (a XOR salt ! 1) (b XOR current_state);
          z = salt ! 1 XOR starting_length
      in Inr (LLMix intr tc w z)))))"

section \<open>Loads inside the bytes\<close>

lemma load_returns:
  "in_bounds mem p 8 \<Longrightarrow> returns (UnalignedLoad64 ord mem p)"
  "in_bounds mem p 4 \<Longrightarrow> returns (UnalignedLoad32 ord mem p)"
  by (simp_all add: access_defs mem_load_def)

lemmas loads = returns_rbind returns_let load_returns fetch_returns(3) returns_Inr

lemma low_level_64_returns:
  "64 < len \<Longrightarrow> in_bounds mem ptr len \<Longrightarrow>
     \<exists>r. low_level_64 intr tc ord mem salt ptr len c d = Inr r \<and>
         (case r of (ptr', len', c', d') \<Rightarrow> len' \<le> 64 \<and> in_bounds mem ptr' len')"
proof (induction len arbitrary: ptr c d rule: less_induct)
  case (less len)
  have "\<forall>k \<in> {0, 8, 16, 24, 32, 40, 48, 56}. \<exists>w. UnalignedLoad64 ord mem (ptr + k) = Inr w"
    using less.prems load_returns(1) [of mem _ ord] by (auto simp: returns_def in_bounds_def)
  then have "\<exists>w. UnalignedLoad64 ord mem ptr = Inr w" "\<exists>w. UnalignedLoad64 ord mem (ptr + 8) = Inr w"
    "\<exists>w. UnalignedLoad64 ord mem (ptr + 16) = Inr w" "\<exists>w. UnalignedLoad64 ord mem (ptr + 24) = Inr w"
    "\<exists>w. UnalignedLoad64 ord mem (ptr + 32) = Inr w" "\<exists>w. UnalignedLoad64 ord mem (ptr + 40) = Inr w"
    "\<exists>w. UnalignedLoad64 ord mem (ptr + 48) = Inr w" "\<exists>w. UnalignedLoad64 ord mem (ptr + 56) = Inr w"
    by auto
  moreover have "in_bounds mem (ptr + 64) (len - 64)" using less.prems by (auto simp: in_bounds_def)
  ultimately show ?case using less.IH [of "len - 64" "ptr + 64"] less.prems
    by (subst low_level_64.simps) (auto simp: Let_def)
qed

lemma low_level_16_returns:
  "in_bounds mem ptr len \<Longrightarrow>
     \<exists>r. low_level_16 intr tc ord mem salt ptr len c = Inr r \<and>
         (case r of (ptr', len', c') \<Rightarrow> len' \<le> 16 \<and> in_bounds mem ptr' len')"
proof (induction len arbitrary: ptr c rule: less_induct)
  case (less len)
  show ?case
  proof (cases "16 < len")
    case True
    have "\<exists>w. UnalignedLoad64 ord mem ptr = Inr w" "\<exists>w. UnalignedLoad64 ord mem (ptr + 8) = Inr w"
      using less.prems True load_returns(1) [of mem _ ord] by (auto simp: returns_def in_bounds_def)
    moreover have "in_bounds mem (ptr + 16) (len - 16)" using less.prems True by (auto simp: in_bounds_def)
    ultimately show ?thesis using less.IH [of "len - 16" "ptr + 16"] True by (subst low_level_16.simps) auto
  qed (use less.prems in \<open>subst low_level_16.simps, auto\<close>)
qed

lemma low_level_tail_returns: "in_bounds mem ptr len \<Longrightarrow> returns (low_level_tail ord mem ptr len)"
  unfolding low_level_tail_def by (auto intro!: loads simp: in_bounds_def drop_bit_eq_div)

lemma LowLevelHash_returns:
  assumes "in_bounds mem data len"
  shows "returns (LowLevelHash intr tc ord mem data len seed salt)"
proof -
  let ?start = "if len > 64 then
      rbind (low_level_64 intr tc ord mem salt data len (seed XOR salt ! 0) (seed XOR salt ! 0))
        (\<lambda>(ptr, len, c, d). Inr (ptr, len, c XOR d)) else Inr (data, len, seed XOR salt ! 0)"
  have "\<exists>ptr' len' c'. ?start = Inr (ptr', len', c') \<and> in_bounds mem ptr' len'"
    using assms low_level_64_returns [OF _ assms, of intr tc ord salt "seed XOR salt ! 0" "seed XOR salt ! 0"]
    by (cases "64 < len") auto
  then obtain p1 l1 c1 where 1: "?start = Inr (p1, l1, c1)" "in_bounds mem p1 l1" by blast
  obtain p2 l2 c2 where 2: "low_level_16 intr tc ord mem salt p1 l1 c1 = Inr (p2, l2, c2)" "in_bounds mem p2 l2"
    using low_level_16_returns [OF 1(2), of intr tc ord salt c1] by auto
  obtain r where "low_level_tail ord mem p2 l2 = Inr r"
    using low_level_tail_returns [OF 2(2), of ord] unfolding returns_def by blast
  then show ?thesis using 1(1) 2(1) unfolding LowLevelHash_def Let_def by (simp add: split_beta)
qed

end
