(* ===== verification/HashState.thy ===== *)
theory HashState
  imports LowLevelHash Geo "HOL-Library.Multiset"
begin

text \<open>
  The hash framework, \<^verbatim>\<open>absl/hash/internal/hash.h\<close> and \<^verbatim>\<open>hash.cc\<close>: the mixing hash state, the reading of short
  byte ranges, the hashing of long ranges in chunks, values combined into a state one after the other or
  in any order, and the combiner for ranges that arrive in pieces. A pointer and a size denote a range of
  bytes, a list here; a load outside the range is an error. The record \<open>host\<close> holds what the
  preprocessor and the linker fix: the 128-bit integer, the toolchain, the byte order, whether \<^verbatim>\<open>size_t\<close>
  has eight bytes, and the address \<^verbatim>\<open>&kSeed\<close>.
\<close>

record host =
  intrinsic :: bool
  toolchain :: toolchain
  order :: byte_order
  size8 :: bool
  kSeed :: "64 word"

section \<open>Mixing and reading\<close>

definition PiecewiseChunkSize :: nat where "PiecewiseChunkSize = 1024"

definition kMul :: "host \<Rightarrow> 64 word" where
  "kMul h = (if \<not> size8 h then 0xcc9e2d51 else 0x9ddfea08eb382d69)"

definition Mix :: "host \<Rightarrow> 64 word \<Rightarrow> 64 word \<Rightarrow> 64 word" where
  "Mix h state v =
     (if \<not> size8 h then
        let m = state + v; m = m * kMul h in m XOR drop_bit 32 m
      else
        let m = uint128_unsigned (state + v);
            m = u128_mul_assign (intrinsic h) (toolchain h) m (uint128_unsigned (kMul h))
        in uint128_narrow (u128_xor (intrinsic h) m (u128_shr (intrinsic h) m 64)))"

definition Seed :: "host \<Rightarrow> 64 word" where "Seed h = kSeed h"

definition Read9To16 :: "host \<Rightarrow> memory \<Rightarrow> nat \<Rightarrow> (64 word \<times> 64 word) res" where
  "Read9To16 h p len =
     rbind (UnalignedLoad64 (order h) p 0) (\<lambda>low_mem.
     rbind (UnalignedLoad64 (order h) p (int len - 8)) (\<lambda>high_mem.
     let (most_significant, least_significant) =
       (case order h of LittleEndian \<Rightarrow> (high_mem, low_mem) | BigEndian \<Rightarrow> (low_mem, high_mem))
     in Inr (least_significant, most_significant)))"

definition Read4To8 :: "host \<Rightarrow> memory \<Rightarrow> nat \<Rightarrow> 64 word res" where
  "Read4To8 h p len =
     rbind (UnalignedLoad32 (order h) p 0) (\<lambda>low_mem.
     rbind (UnalignedLoad32 (order h) p (int len - 4)) (\<lambda>high_mem.
     let (most_significant, least_significant) =
       (case order h of LittleEndian \<Rightarrow> (high_mem, low_mem) | BigEndian \<Rightarrow> (low_mem, high_mem))
     in Inr (push_bit ((len - 4) * 8) (ucast most_significant) OR ucast least_significant)))"

definition Read1To3 :: "host \<Rightarrow> memory \<Rightarrow> nat \<Rightarrow> 32 word res" where
  "Read1To3 h p len =
     rbind (fetch_byte p 0) (\<lambda>mem0.
     rbind (fetch_byte p (int (len div 2))) (\<lambda>mem1.
     rbind (fetch_byte p (int len - 1)) (\<lambda>mem2.
     let (significant2, significant1, significant0) =
       (case order h of LittleEndian \<Rightarrow> (mem2, mem1, mem0)
        | BigEndian \<Rightarrow> (mem0, (if len = 2 then mem0 else mem1), mem2))
     in Inr (ucast significant0 OR push_bit (len div 2 * 8) (ucast significant1) OR
             push_bit ((len - 1) * 8) (ucast significant2)))))"

definition kHashSalt :: "64 word list" where
  "kHashSalt = [0x243F6A8885A308D3, 0x13198A2E03707344, 0xA4093822299F31D0, 0x082EFA98EC4E6C89, 0x452821E638D01377]"

definition LowLevelHashImpl :: "host \<Rightarrow> memory \<Rightarrow> nat \<Rightarrow> 64 word res" where
  "LowLevelHashImpl h data len =
     LowLevelHash (intrinsic h) (toolchain h) (order h) data 0 len (Seed h) kHashSalt"

definition Hash64 :: "host \<Rightarrow> memory \<Rightarrow> nat \<Rightarrow> 64 word res" where
  "Hash64 h data len =
     (if intrinsic h then LowLevelHashImpl h data len else CityHash64 (toolchain h) (order h) data 0 len)"

section \<open>Combining a range of bytes\<close>

text \<open>
  \<^verbatim>\<open>CombineContiguousImpl\<close> and \<^verbatim>\<open>CombineLargeContiguousImpl\<close> call each other; \<open>large\<close> says which of the two
  runs.
\<close>

function combine32 :: "host \<Rightarrow> bool \<Rightarrow> 64 word \<Rightarrow> memory \<Rightarrow> 64 word res" where
  "combine32 h large state first =
     (let len = length first in
      if large then
        if len \<ge> PiecewiseChunkSize then
          rbind (CityHash32 (toolchain h) (order h) (take PiecewiseChunkSize first) 0 PiecewiseChunkSize) (\<lambda>v.
          combine32 h True (Mix h state (ucast v)) (drop PiecewiseChunkSize first))
        else combine32 h False state first
      else if len > 8 then
        if len > PiecewiseChunkSize then combine32 h True state first
        else rbind (CityHash32 (toolchain h) (order h) first 0 len) (\<lambda>v. Inr (Mix h state (ucast v)))
      else if len \<ge> 4 then rbind (Read4To8 h first len) (\<lambda>v. Inr (Mix h state v))
      else if len > 0 then rbind (Read1To3 h first len) (\<lambda>v. Inr (Mix h state (ucast v)))
      else Inr state)"
  by pat_completeness auto

termination
  by (relation "measure (\<lambda>(h, large, state, first).
        if large then (if length first < 1024 then 2 * length first + 2 else 2 * length first) else 2 * length first + 1)")
    (auto simp: PiecewiseChunkSize_def)

function combine64 :: "host \<Rightarrow> bool \<Rightarrow> 64 word \<Rightarrow> memory \<Rightarrow> 64 word res" where
  "combine64 h large state first =
     (let len = length first in
      if large then
        if len \<ge> PiecewiseChunkSize then
          rbind (Hash64 h (take PiecewiseChunkSize first) PiecewiseChunkSize) (\<lambda>v.
          combine64 h True (Mix h state v) (drop PiecewiseChunkSize first))
        else combine64 h False state first
      else if len > 16 then
        if len > PiecewiseChunkSize then combine64 h True state first
        else rbind (Hash64 h first len) (\<lambda>v. Inr (Mix h state v))
      else if len > 8 then
        rbind (Read9To16 h first len) (\<lambda>(lo, hi).
        let lo = rotr lo 53;
            state = state + kMul h;
            lo = lo + state;
            state = state XOR hi;
            m = uint128_unsigned state;
            m = u128_mul_assign (intrinsic h) (toolchain h) m (uint128_unsigned lo)
        in Inr (uint128_narrow (u128_xor (intrinsic h) m (u128_shr (intrinsic h) m 64))))
      else if len \<ge> 4 then rbind (Read4To8 h first len) (\<lambda>v. Inr (Mix h state v))
      else if len > 0 then rbind (Read1To3 h first len) (\<lambda>v. Inr (Mix h state (ucast v)))
      else Inr state)"
  by pat_completeness auto

termination
  by (relation "measure (\<lambda>(h, large, state, first).
        if large then (if length first < 1024 then 2 * length first + 2 else 2 * length first) else 2 * length first + 1)")
    (auto simp: PiecewiseChunkSize_def)

declare combine32.simps [simp del] combine64.simps [simp del]

definition CombineLargeContiguousImpl32 :: "host \<Rightarrow> 64 word \<Rightarrow> memory \<Rightarrow> 64 word res" where
  "CombineLargeContiguousImpl32 h = combine32 h True"

definition CombineLargeContiguousImpl64 :: "host \<Rightarrow> 64 word \<Rightarrow> memory \<Rightarrow> 64 word res" where
  "CombineLargeContiguousImpl64 h = combine64 h True"

definition combine_contiguous :: "host \<Rightarrow> 64 word \<Rightarrow> memory \<Rightarrow> 64 word res" where
  "combine_contiguous h state first = (if size8 h then combine64 h False state first else combine32 h False state first)"

section \<open>Combining values\<close>

definition hash_bytes :: "host \<Rightarrow> 64 word \<Rightarrow> 'a::len word \<Rightarrow> 64 word res" where
  "hash_bytes h hash_state value = combine_contiguous h hash_state (host_bytes (order h) value)"

definition hash_range_or_bytes :: "host \<Rightarrow> 64 word \<Rightarrow> 'a::len word list \<Rightarrow> 64 word res" where
  "hash_range_or_bytes h hash_state data = combine_contiguous h hash_state (concat (map (host_bytes (order h)) data))"

definition to_size_t :: "host \<Rightarrow> 64 word \<Rightarrow> 64 word" where
  "to_size_t h x = (if size8 h then x else take_bit 32 x)"

text \<open>The hash of a value: the fast path for integers and the general path.\<close>

definition hash_integral :: "host \<Rightarrow> 'a::len word \<Rightarrow> 64 word" where
  "hash_integral h value = to_size_t h (Mix h (Seed h) (ucast value))"

definition hash_value :: "host \<Rightarrow> (64 word \<Rightarrow> 'v \<Rightarrow> 64 word res) \<Rightarrow> 'v \<Rightarrow> 64 word res" where
  "hash_value h combine value = rbind (combine (Seed h) value) (\<lambda>s. Inr (to_size_t h s))"

text \<open>
  \<^verbatim>\<open>RunCombineUnordered\<close>: every element is combined into a fresh state; the sum of the states, with the
  carry added back, is combined into the outer state.
\<close>

definition unordered_add :: "64 word \<Rightarrow> 64 word \<Rightarrow> 64 word" where
  "unordered_add element_state unordered_state =
     (let unordered_state = unordered_state + element_state
      in if unordered_state < element_state then unordered_state + 1 else unordered_state)"

definition combine_unordered :: "host \<Rightarrow> (64 word \<Rightarrow> 'v \<Rightarrow> 64 word res) \<Rightarrow> 64 word \<Rightarrow> 'v list \<Rightarrow> 64 word res" where
  "combine_unordered h combine state elements =
     rbind (rfold (\<lambda>v unordered_state. rbind (combine (Seed h) v) (\<lambda>s. Inr (unordered_add s unordered_state))) elements 0)
       (\<lambda>unordered_state. hash_bytes h state unordered_state)"

text \<open>A point of the game is hashed by its two coordinates.\<close>

definition AbslHashValue :: "host \<Rightarrow> 64 word \<Rightarrow> point \<Rightarrow> 64 word res" where
  "AbslHashValue h state p =
     rbind (hash_bytes h state (of_int (px p) :: 32 word)) (\<lambda>state. hash_bytes h state (of_int (py p) :: 32 word))"

section \<open>Ranges that arrive in pieces\<close>

record piecewise =
  buf :: memory
  position :: nat

definition PiecewiseCombiner :: "memory \<Rightarrow> piecewise" where
  "PiecewiseCombiner garbage = \<lparr>buf = garbage, position = 0\<rparr>"

definition memcpy :: "memory \<Rightarrow> nat \<Rightarrow> memory \<Rightarrow> memory res" where
  "memcpy dst pos src =
     (if pos + length src \<le> length dst then Inr (take pos dst @ src @ drop (pos + length src) dst) else Inl BadAccess)"

function chunks_loop :: "('s \<Rightarrow> memory \<Rightarrow> 's res) \<Rightarrow> 's \<Rightarrow> memory \<Rightarrow> ('s \<times> memory) res" where
  "chunks_loop combine state data =
     (if length data \<ge> PiecewiseChunkSize then
        rbind (combine state (take PiecewiseChunkSize data)) (\<lambda>state.
        chunks_loop combine state (drop PiecewiseChunkSize data))
      else Inr (state, data))"
  by pat_completeness auto

termination by (relation "measure (\<lambda>(_, _, data). length data)") (auto simp: PiecewiseChunkSize_def)

declare chunks_loop.simps [simp del]

definition add_buffer :: "('s \<Rightarrow> memory \<Rightarrow> 's res) \<Rightarrow> piecewise \<Rightarrow> 's \<Rightarrow> memory \<Rightarrow> (piecewise \<times> 's) res" where
  "add_buffer combine this state data =
     (if position this + length data < PiecewiseChunkSize then
        rbind (memcpy (buf this) (position this) data) (\<lambda>b.
        Inr (this\<lparr>buf := b, position := position this + length data\<rparr>, state))
      else
        rbind (if position this \<noteq> 0 then
                 let bytes_needed = PiecewiseChunkSize - position this in
                 rbind (memcpy (buf this) (position this) (take bytes_needed data)) (\<lambda>b.
                 rbind (combine state (take PiecewiseChunkSize b)) (\<lambda>state.
                 Inr (b, state, drop bytes_needed data)))
               else Inr (buf this, state, data)) (\<lambda>(b, state, data).
        rbind (chunks_loop combine state data) (\<lambda>(state, data).
        rbind (memcpy b 0 data) (\<lambda>b.
        Inr (this\<lparr>buf := b, position := length data\<rparr>, state)))))"

definition finalize :: "('s \<Rightarrow> memory \<Rightarrow> 's res) \<Rightarrow> piecewise \<Rightarrow> 's \<Rightarrow> 's res" where
  "finalize combine this state = combine state (take (position this) (buf this))"

text \<open>The use of the class: the pieces one after the other, then the end.\<close>

fun add_pieces :: "('s \<Rightarrow> memory \<Rightarrow> 's res) \<Rightarrow> piecewise \<Rightarrow> 's \<Rightarrow> memory list \<Rightarrow> (piecewise \<times> 's) res" where
  "add_pieces combine this state [] = Inr (this, state)"
| "add_pieces combine this state (piece # pieces) =
     rbind (add_buffer combine this state piece) (\<lambda>(this, state). add_pieces combine this state pieces)"

definition combine_pieces :: "('s \<Rightarrow> memory \<Rightarrow> 's res) \<Rightarrow> memory \<Rightarrow> 's \<Rightarrow> memory list \<Rightarrow> 's res" where
  "combine_pieces combine garbage state pieces =
     rbind (add_pieces combine (PiecewiseCombiner garbage) state pieces) (\<lambda>(this, state). finalize combine this state)"

section \<open>Hashing in pieces\<close>

lemma rbind_assoc2: "rbind (case p of (a, b) \<Rightarrow> f a b) g = (case p of (a, b) \<Rightarrow> rbind (f a b) g)"
  by (cases p) auto

text \<open>
  The interface between the combiner and the hash state it is used with: an empty range leaves the state
  alone, and a range that starts with a whole chunk is that chunk followed by the rest.
\<close>

locale hash_state =
  fixes combine :: "'s \<Rightarrow> memory \<Rightarrow> 's res"
  assumes combine_empty: "combine s [] = Inr s"
    and combine_chunk: "length c = PiecewiseChunkSize \<Longrightarrow> combine s (c @ rest) = rbind (combine s c) (\<lambda>s. combine s rest)"
begin

lemma loop_combines:
  assumes "\<And>s d'. length d' < PiecewiseChunkSize \<Longrightarrow> F (s, d') = combine s (d' @ rest)"
  shows "rbind (chunks_loop combine s d) F = combine s (d @ rest)"
proof (induction "length d" arbitrary: s d rule: less_induct)
  case less
  show ?case
  proof (cases "length d \<ge> PiecewiseChunkSize")
    case True
    let ?c = "take PiecewiseChunkSize d" and ?d = "drop PiecewiseChunkSize d"
    have "length ?d < length d" using True by (simp add: PiecewiseChunkSize_def)
    note IH = less [OF this]
    have "combine s (d @ rest) = rbind (combine s ?c) (\<lambda>s. combine s (?d @ rest))"
      using combine_chunk [of ?c s "?d @ rest"] True by (metis append_assoc append_take_drop_id length_take min_absorb2)
    then show ?thesis using True IH by (subst chunks_loop.simps) (simp add: rbind_assoc)
  next
    case False
    then show ?thesis using assms by (subst chunks_loop.simps) simp
  qed
qed

definition buffered :: "piecewise \<Rightarrow> bool" where
  "buffered this \<longleftrightarrow> length (buf this) = PiecewiseChunkSize \<and> position this < PiecewiseChunkSize"

lemma add_pieces_combines:
  "buffered this \<Longrightarrow>
     rbind (add_pieces combine this s pieces) (\<lambda>(this, s). finalize combine this s) =
     combine s (take (position this) (buf this) @ concat pieces)"
proof (induction pieces arbitrary: this s)
  case Nil
  then show ?case by (simp add: finalize_def)
next
  case (Cons d pieces)
  let ?B = "take (position this) (buf this)" and ?pos = "position this"
  have B: "length ?B = ?pos" "length (buf this) = PiecewiseChunkSize" "?pos < PiecewiseChunkSize"
    using Cons.prems by (auto simp: buffered_def)
  let ?fin = "\<lambda>(this, s). rbind (add_pieces combine this s pieces) (\<lambda>(this, s). finalize combine this s)"
  have ends: "rbind (add_pieces combine this s (d # pieces)) (\<lambda>(this, s). finalize combine this s) =
      rbind (add_buffer combine this s d) ?fin"
    by (cases "add_buffer combine this s d") auto
  show ?case
  proof (cases "?pos + length d < PiecewiseChunkSize")
    case True
    then show ?thesis unfolding ends using B Cons.IH [of "this\<lparr>buf := ?B @ d @ drop (?pos + length d) (buf this), position := ?pos + length d\<rparr>" s]
      by (simp add: add_buffer_def memcpy_def buffered_def)
  next
    case False
    let ?tail = "\<lambda>b (s, d'). rbind (memcpy b 0 d') (\<lambda>b. ?fin (this\<lparr>buf := b, position := length d'\<rparr>, s))"
    have tail: "?tail b (s, d') = combine s (d' @ concat pieces)"
      if "length d' < PiecewiseChunkSize" "length b = PiecewiseChunkSize" for b s d'
      using that Cons.IH [of "this\<lparr>buf := d' @ drop (length d') b, position := length d'\<rparr>" s]
      by (simp add: memcpy_def buffered_def)
    have loop: "rbind (chunks_loop combine s d'') (?tail b) = combine s (d'' @ concat pieces)"
      if "length b = PiecewiseChunkSize" for b s d''
      using that tail by (intro loop_combines) blast
    show ?thesis
    proof (cases "?pos = 0")
      case True
      then show ?thesis unfolding ends using False loop [OF B(2), of s d]
        by (simp add: add_buffer_def rbind_assoc rbind_assoc2)
    next
      case pos: False
      let ?n = "PiecewiseChunkSize - ?pos"
      let ?b = "?B @ take ?n d"
      have b: "length ?b = PiecewiseChunkSize" "length (take ?n d) = ?n" using False B by auto
      have "?B @ d @ concat pieces = ?b @ drop ?n d @ concat pieces" by (metis append_assoc append_take_drop_id)
      then have "combine s (?B @ d @ concat pieces) = rbind (combine s ?b) (\<lambda>s. combine s (drop ?n d @ concat pieces))"
        using combine_chunk [OF b(1), of s "drop ?n d @ concat pieces"] by (simp only:)
      moreover have "memcpy (buf this) ?pos (take ?n d) = Inr ?b" using b B by (simp add: memcpy_def)
      moreover have "take PiecewiseChunkSize ?b = ?b" using b(1) by (metis order_refl take_all)
      ultimately show ?thesis unfolding ends using False pos loop [OF b(1)]
        by (simp add: add_buffer_def rbind_assoc rbind_assoc2 Let_def del: take_append)
    qed
  qed
qed

lemma pieces_combine:
  "length garbage = PiecewiseChunkSize \<Longrightarrow> combine_pieces combine garbage s pieces = combine s (concat pieces)"
  using add_pieces_combines [of "PiecewiseCombiner garbage" s pieces]
  by (simp add: combine_pieces_def PiecewiseCombiner_def buffered_def PiecewiseChunkSize_def)

end

text \<open>The mixing state keeps the contract, for both sizes of \<^verbatim>\<open>size_t\<close>.\<close>

lemma combine64_large: "combine64 h True s d = combine64 h False s d"
proof (cases "length d = PiecewiseChunkSize")
  case True
  then show ?thesis
    by (subst (1 2) combine64.simps) (simp add: PiecewiseChunkSize_def combine64.simps)
next
  case False
  show ?thesis
  proof (cases "length d < PiecewiseChunkSize")
    case True
    then show ?thesis by (subst combine64.simps) simp
  next
    case large: False
    then show ?thesis using False by (subst combine64.simps [of h False s d]) (simp add: PiecewiseChunkSize_def)
  qed
qed

lemma combine32_large: "combine32 h True s d = combine32 h False s d"
proof (cases "length d = PiecewiseChunkSize")
  case True
  then show ?thesis
    by (subst (1 2) combine32.simps) (simp add: PiecewiseChunkSize_def combine32.simps)
next
  case False
  show ?thesis
  proof (cases "length d < PiecewiseChunkSize")
    case True
    then show ?thesis by (subst combine32.simps) simp
  next
    case large: False
    then show ?thesis using False by (subst combine32.simps [of h False s d]) (simp add: PiecewiseChunkSize_def)
  qed
qed

lemma combine64_chunk:
  assumes "length c = PiecewiseChunkSize"
  shows "combine64 h False s (c @ rest) = rbind (combine64 h False s c) (\<lambda>s. combine64 h False s rest)"
proof -
  have "combine64 h True s (c @ rest) = rbind (Hash64 h c PiecewiseChunkSize) (\<lambda>v. combine64 h True (Mix h s v) rest)"
    by (subst combine64.simps) (simp add: assms)
  moreover have "combine64 h False s c = rbind (Hash64 h c PiecewiseChunkSize) (\<lambda>v. Inr (Mix h s v))"
    using assms by (subst combine64.simps) (simp add: PiecewiseChunkSize_def)
  ultimately show ?thesis by (simp add: combine64_large rbind_assoc)
qed

lemma combine32_chunk:
  assumes "length c = PiecewiseChunkSize"
  shows "combine32 h False s (c @ rest) = rbind (combine32 h False s c) (\<lambda>s. combine32 h False s rest)"
proof -
  have "combine32 h True s (c @ rest) =
      rbind (CityHash32 (toolchain h) (order h) c 0 PiecewiseChunkSize) (\<lambda>v. combine32 h True (Mix h s (ucast v)) rest)"
    by (subst combine32.simps) (simp add: assms)
  moreover have "combine32 h False s c = rbind (CityHash32 (toolchain h) (order h) c 0 PiecewiseChunkSize) (\<lambda>v. Inr (Mix h s (ucast v)))"
    using assms by (subst combine32.simps) (simp add: PiecewiseChunkSize_def)
  ultimately show ?thesis by (simp add: combine32_large rbind_assoc)
qed

interpretation mixing: hash_state "combine_contiguous h" for h
proof
  show "combine_contiguous h s [] = Inr s" for s
    by (simp add: combine_contiguous_def combine64.simps combine32.simps)
  show "combine_contiguous h s (c @ rest) = rbind (combine_contiguous h s c) (\<lambda>s. combine_contiguous h s rest)"
    if "length c = PiecewiseChunkSize" for c s rest
    using combine64_chunk [OF that] combine32_chunk [OF that] by (cases "size8 h") (simp_all add: combine_contiguous_def)
qed

section \<open>Order of the elements\<close>

lemma unat_unordered_add:
  "unat (unordered_add e u) = (if unat u + unat e < 2 ^ 64 then unat u + unat e else unat u + unat e + 1 - 2 ^ 64)"
proof -
  have b: "unat e < 2 ^ 64" "unat u < 2 ^ 64" using unat_less [of e] unat_less [of u] by simp_all
  have s: "unat (u + e) = (if unat u + unat e < 2 ^ 64 then unat u + unat e else unat u + unat e - 2 ^ 64)"
    using b by (simp add: unat_word_ariths mod_if)
  have "unat (u + e + 1) = unat (u + e) + 1" if "u + e < e"
    using that b s by (simp add: unat_word_ariths word_less_nat_alt split: if_splits)
  then show ?thesis using b s by (auto simp: unordered_add_def Let_def word_less_nat_alt split: if_splits)
qed

lemma unordered_add_left_commute: "unordered_add a (unordered_add b u) = unordered_add b (unordered_add a u)"
proof -
  have "unat a < 2 ^ 64" "unat b < 2 ^ 64" "unat u < 2 ^ 64"
    using unat_less [of a] unat_less [of b] unat_less [of u] by simp_all
  then have "unat (unordered_add a (unordered_add b u)) = unat (unordered_add b (unordered_add a u))"
    unfolding unat_unordered_add by auto
  then show ?thesis by (rule unsigned_word_eqI)
qed

lemma fold_unordered_perm:
  assumes "mset xs = mset ys"
  shows "fold (\<lambda>v. unordered_add (f v)) xs u = fold (\<lambda>v. unordered_add (f v)) ys u"
proof -
  have "fold (\<lambda>v. unordered_add (f v)) xs = fold (\<lambda>v. unordered_add (f v)) ys"
    using assms by (intro fold_multiset_equiv) (auto simp: fun_eq_iff unordered_add_left_commute)
  then show ?thesis by simp
qed

lemma unordered_total:
  assumes "\<forall>v\<in>set xs. combine (Seed h) v = Inr (f v)"
  shows "combine_unordered h combine state xs = hash_bytes h state (fold (\<lambda>v. unordered_add (f v)) xs 0)"
proof -
  have "rfold (\<lambda>v u. rbind (combine (Seed h) v) (\<lambda>s. Inr (unordered_add s u))) xs u =
      Inr (fold (\<lambda>v. unordered_add (f v)) xs u)" for u
    using assms by (induction xs arbitrary: u) auto
  then show ?thesis by (simp add: combine_unordered_def)
qed

lemma unordered_perm:
  assumes "\<forall>v\<in>set xs. returns (combine (Seed h) v)" "mset xs = mset ys"
  shows "combine_unordered h combine state xs = combine_unordered h combine state ys"
proof -
  define f where "f v = projr (combine (Seed h) v)" for v
  have f: "\<forall>v\<in>set xs. combine (Seed h) v = Inr (f v)" using assms(1) by (auto simp: f_def returns_def)
  moreover have "set xs = set ys" using assms(2) by (rule mset_eq_setD)
  ultimately show ?thesis
    using fold_unordered_perm [OF assms(2)] by (simp add: unordered_total [where f = f])
qed

section \<open>Loads inside the range\<close>

lemma read_returns:
  "8 < length p \<Longrightarrow> returns (Read9To16 h p (length p))"
  "4 \<le> length p \<Longrightarrow> returns (Read4To8 h p (length p))"
  "0 < length p \<Longrightarrow> returns (Read1To3 h p (length p))"
  unfolding Read9To16_def Read4To8_def Read1To3_def
  by (cases p; auto intro!: loads simp: in_bounds_def split: byte_order.splits)+

lemma Hash64_returns: "len \<le> length p \<Longrightarrow> returns (Hash64 h p len)"
  by (simp add: Hash64_def LowLevelHashImpl_def LowLevelHash_returns CityHash64_returns in_bounds_def)

lemma combine64_returns: "returns (combine64 h large s p)"
proof -
  have "returns (combine64 h True s p)"
  proof (induction "length p" arbitrary: s p rule: less_induct)
    case less
    show ?case
    proof (cases "length p < PiecewiseChunkSize")
      case True
      then have "returns (combine64 h False s p)"
        by (subst combine64.simps) (auto simp: Let_def split_beta in_bounds_def intro!: returns_rbind read_returns Hash64_returns)
      then show ?thesis by (simp add: combine64_large)
    next
      case False
      then have "length (drop PiecewiseChunkSize p) < length p" by (simp add: PiecewiseChunkSize_def)
      with False less show ?thesis
        by (subst combine64.simps) (auto simp: in_bounds_def intro!: returns_rbind Hash64_returns)
    qed
  qed
  then show ?thesis by (cases large) (simp_all add: combine64_large)
qed

lemma combine32_returns: "returns (combine32 h large s p)"
proof -
  have "returns (combine32 h True s p)"
  proof (induction "length p" arbitrary: s p rule: less_induct)
    case less
    show ?case
    proof (cases "length p < PiecewiseChunkSize")
      case True
      then have "returns (combine32 h False s p)"
        by (subst combine32.simps) (auto simp: Let_def split_beta in_bounds_def intro!: returns_rbind read_returns CityHash32_returns)
      then show ?thesis by (simp add: combine32_large)
    next
      case False
      then have "length (drop PiecewiseChunkSize p) < length p" by (simp add: PiecewiseChunkSize_def)
      with False less show ?thesis
        by (subst combine32.simps) (auto simp: in_bounds_def intro!: returns_rbind CityHash32_returns)
    qed
  qed
  then show ?thesis by (cases large) (simp_all add: combine32_large)
qed

lemma combine_contiguous_returns: "returns (combine_contiguous h s p)"
  by (simp add: combine_contiguous_def combine64_returns combine32_returns)

section \<open>The fast path of integers\<close>

lemma le_bytes_8: "LENGTH('a) = 8 \<Longrightarrow> le_bytes (v :: 'a::len word) = [ucast v]"
  by (simp add: le_bytes_def)

lemma le_bytes_16: "LENGTH('a) = 16 \<Longrightarrow> le_bytes (v :: 'a::len word) = [ucast v, ucast (drop_bit 8 v)]"
  by (simp add: le_bytes_def upt_rec)

lemma Read1To3_value:
  assumes "LENGTH('a) = 8 \<or> LENGTH('a) = 16"
  shows "Read1To3 h (host_bytes (order h) (v :: 'a::len word)) (LENGTH('a) div 8) = Inr (ucast v)"
  using assms
proof
  assume l: "LENGTH('a) = 8"
  have b: "bit v n \<Longrightarrow> n < 8" for n using bit_imp_le_length [of v n] l by simp
  show ?thesis using l
    by (cases "order h") (auto simp: Read1To3_def host_bytes_def le_bytes_8 fetch_byte_def in_bounds_def
      intro!: bit_word_eqI simp: bit_simps dest: b)
next
  assume l: "LENGTH('a) = 16"
  have b: "bit v n \<Longrightarrow> n - 8 < 8 \<and> n - 8 < 32" for n using bit_imp_le_length [of v n] l by auto
  show ?thesis using l
    by (cases "order h") (auto simp: Read1To3_def host_bytes_def le_bytes_16 fetch_byte_def in_bounds_def
      intro!: bit_word_eqI simp: bit_simps dest: b)
qed

text \<open>The parts of a word's bytes.\<close>

lemma le_word_slice:
  assumes "8 dvd LENGTH('a)" "8 * (k + m) \<le> LENGTH('a)" "8 * m = LENGTH('b)"
  shows "(le_word (take m (drop k (le_bytes (v :: 'a::len word)))) :: 'b::len word) = ucast (drop_bit (8 * k) v)"
proof (rule bit_word_eqI)
  fix n assume n: "n < LENGTH('b)"
  then have "n div 8 < m" using assms(3) by linarith
  moreover have "k + m \<le> LENGTH('a) div 8" using assms(2) by (simp add: less_eq_div_iff_mult_less_eq mult.commute)
  moreover have "8 * (k + n div 8) + n mod 8 = 8 * k + n" by simp
  ultimately show "bit (le_word (take m (drop k (le_bytes v))) :: 'b word) n = bit (ucast (drop_bit (8 * k) v) :: 'b word) n"
    using n assms by (simp add: bit_le_word bit_le_bytes bit_simps add.commute)
qed

lemma Read4To8_value:
  assumes "LENGTH('a) = 32 \<or> LENGTH('a) = 64"
  shows "Read4To8 h (host_bytes (order h) (v :: 'a::len word)) (LENGTH('a) div 8) = Inr (ucast v)"
proof -
  define k where "k = LENGTH('a) div 8 - 4"
  have b: "bit v n \<Longrightarrow> n < 8 * (k + 4) \<and> n < 96" for n using bit_imp_le_length [of v n] assms by (auto simp: k_def)
  have k: "k = 0 \<and> LENGTH('a) = 32 \<or> k = 4 \<and> LENGTH('a) = 64" "length (le_bytes v) = k + 4" using assms by (auto simp: k_def)
  have low: "(le_word (take 4 (le_bytes v)) :: 32 word) = ucast v"
    using le_word_slice [where 'a = 'a and 'b = 32, of 0 4 v] k by auto
  have high: "(le_word (drop k (le_bytes v)) :: 32 word) = ucast (drop_bit (8 * k) v)"
    using le_word_slice [where 'a = 'a and 'b = 32, of k 4 v] k by auto
  have rev: "rev (take 4 (rev (le_bytes v))) = drop k (le_bytes v)" "rev (drop k (rev (le_bytes v))) = take 4 (le_bytes v)"
    using k(2) by (simp_all add: take_rev drop_rev)
  have "push_bit (8 * k) (ucast (ucast (drop_bit (8 * k) v) :: 32 word)) OR ucast (ucast v :: 32 word) = (ucast v :: 64 word)"
    using k(1) b by (auto intro!: bit_word_eqI simp: bit_simps less_diff_conv2)
  then have "push_bit (k * 8) (ucast (ucast (drop_bit (8 * k) v) :: 32 word)) OR ucast (ucast v :: 32 word) = (ucast v :: 64 word)"
    by (simp add: mult.commute)
  then show ?thesis using k low high rev
    by (cases "order h") (auto simp: Read4To8_def UnalignedLoad32_def mem_load_def in_bounds_def host_bytes_def host_word_def)
qed

lemma hash_bytes_value:
  assumes "LENGTH('a) \<in> {8, 16, 32, 64}"
  shows "hash_bytes h s (v :: 'a::len word) = Inr (Mix h s (ucast v))"
proof -
  have len: "length (host_bytes (order h) v) = LENGTH('a) div 8" by simp
  have "Read1To3 h (host_bytes (order h) v) (LENGTH('a) div 8) = Inr (ucast v)" if "LENGTH('a) = 8 \<or> LENGTH('a) = 16"
    using that by (rule Read1To3_value)
  moreover have "Read4To8 h (host_bytes (order h) v) (LENGTH('a) div 8) = Inr (ucast v)" if "LENGTH('a) = 32 \<or> LENGTH('a) = 64"
    using that by (rule Read4To8_value)
  moreover have "(ucast (ucast v :: 32 word) :: 64 word) = ucast v" if "LENGTH('a) = 8 \<or> LENGTH('a) = 16"
  proof (rule bit_word_eqI)
    fix n show "bit (ucast (ucast v :: 32 word) :: 64 word) n = bit (ucast v :: 64 word) n"
      using that bit_imp_le_length [of v n] by (auto simp: bit_simps)
  qed
  ultimately show ?thesis using assms len
    by (auto simp: hash_bytes_def combine_contiguous_def combine64.simps [of h False] combine32.simps [of h False] Let_def)
qed

lemma hash_fast_path:
  assumes "LENGTH('a) \<in> {8, 16, 32, 64}"
  shows "hash_value h (hash_bytes h) (v :: 'a::len word) = Inr (hash_integral h v)"
  using hash_bytes_value [OF assms] by (simp add: hash_value_def hash_integral_def)

lemma hash_Point:
  "hash_value h (AbslHashValue h) p =
     Inr (to_size_t h (Mix h (Mix h (Seed h) (ucast (of_int (px p) :: 32 word))) (ucast (of_int (py p) :: 32 word))))"
  by (simp add: hash_value_def AbslHashValue_def hash_bytes_value)

end
