(* ===== verification/Int128.thy ===== *)
theory Int128
  imports U128
begin

text \<open>
  \<^verbatim>\<open>absl::int128\<close> and the printing of both 128-bit types (\<^verbatim>\<open>numeric/int128.h\<close>, \<^verbatim>\<open>numeric/int128.cc\<close>,
  \<^verbatim>\<open>numeric/int128_no_intrinsic.inc\<close>). A signed number is two words of which the high one is read in two's
  complement; where the code adds signed halves, which may overflow, the words wrap. The lemmas show that the operators are those of the signed 128-bit integer, that division
  truncates, and that the printed digits are those of the value in every base.
\<close>

section \<open>Signed numbers\<close>

record int128 =
  ilo64 :: "64 word"
  ihi64 :: "64 word"

definition MakeInt128 :: "64 word \<Rightarrow> 64 word \<Rightarrow> int128" where
  "MakeInt128 high low = \<lparr>ilo64 = low, ihi64 = high\<rparr>"

definition Int128Low64 :: "int128 \<Rightarrow> 64 word" where "Int128Low64 v = ilo64 v"

definition Int128High64 :: "int128 \<Rightarrow> 64 word" where "Int128High64 v = ihi64 v"

definition Int128Max :: int128 where
  "Int128Max = MakeInt128 0x7FFFFFFFFFFFFFFF (- 1)"

definition Int128Min :: int128 where
  "Int128Min = MakeInt128 0x8000000000000000 0"

definition int128_signed :: "'a::len word \<Rightarrow> int128" where
  "int128_signed v = \<lparr>ilo64 = scast v, ihi64 = (if v <s 0 then NOT 0 else 0)\<rparr>"

definition int128_unsigned :: "'a::len word \<Rightarrow> int128" where
  "int128_unsigned v = \<lparr>ilo64 = ucast v, ihi64 = 0\<rparr>"

definition int128_of_uint128 :: "uint128 \<Rightarrow> int128" where
  "int128_of_uint128 v = \<lparr>ilo64 = Uint128Low64 v, ihi64 = Uint128High64 v\<rparr>"

definition uint128_of_int128 :: "int128 \<Rightarrow> uint128" where
  "uint128_of_int128 v = \<lparr>lo64 = Int128Low64 v, hi64 = Int128High64 v\<rparr>"

text \<open>The cast from unsigned to signed that never leaves the range of the signed type.\<close>

definition BitCastToSigned :: "64 word \<Rightarrow> 64 word" where
  "BitCastToSigned v = (if v AND push_bit 63 1 \<noteq> 0 then NOT (NOT v) else v)"

definition int128_bool :: "int128 \<Rightarrow> bool" where
  "int128_bool v \<longleftrightarrow> ilo64 v \<noteq> 0 \<or> ihi64 v \<noteq> 0"

definition int128_long_long :: "int128 \<Rightarrow> 64 word" where
  "int128_long_long v = BitCastToSigned (ilo64 v)"

definition int128_narrow :: "int128 \<Rightarrow> 'a::len word" where
  "int128_narrow v = ucast (ilo64 v)"

definition i128_eq :: "int128 \<Rightarrow> int128 \<Rightarrow> bool" where
  "i128_eq lhs rhs \<longleftrightarrow> Int128Low64 lhs = Int128Low64 rhs \<and> Int128High64 lhs = Int128High64 rhs"

definition i128_neq :: "int128 \<Rightarrow> int128 \<Rightarrow> bool" where
  "i128_neq lhs rhs \<longleftrightarrow> \<not> i128_eq lhs rhs"

definition i128_less :: "int128 \<Rightarrow> int128 \<Rightarrow> bool" where
  "i128_less lhs rhs \<longleftrightarrow>
     (if Int128High64 lhs = Int128High64 rhs then Int128Low64 lhs < Int128Low64 rhs
      else Int128High64 lhs <s Int128High64 rhs)"

definition i128_greater :: "int128 \<Rightarrow> int128 \<Rightarrow> bool" where
  "i128_greater lhs rhs \<longleftrightarrow>
     (if Int128High64 lhs = Int128High64 rhs then Int128Low64 lhs > Int128Low64 rhs
      else Int128High64 rhs <s Int128High64 lhs)"

definition i128_le :: "int128 \<Rightarrow> int128 \<Rightarrow> bool" where "i128_le lhs rhs \<longleftrightarrow> \<not> i128_greater lhs rhs"

definition i128_ge :: "int128 \<Rightarrow> int128 \<Rightarrow> bool" where "i128_ge lhs rhs \<longleftrightarrow> \<not> i128_less lhs rhs"

definition i128_neg :: "int128 \<Rightarrow> int128" where
  "i128_neg v = MakeInt128 (NOT (Int128High64 v) + of_bool (Int128Low64 v = 0)) (NOT (Int128Low64 v) + 1)"

definition i128_lnot :: "int128 \<Rightarrow> bool" where
  "i128_lnot v \<longleftrightarrow> Int128Low64 v = 0 \<and> Int128High64 v = 0"

definition i128_not :: "int128 \<Rightarrow> int128" where
  "i128_not val = MakeInt128 (NOT (Int128High64 val)) (NOT (Int128Low64 val))"

definition SignedAddResult :: "int128 \<Rightarrow> int128 \<Rightarrow> int128" where
  "SignedAddResult result lhs =
     (if Int128Low64 result < Int128Low64 lhs then MakeInt128 (Int128High64 result + 1) (Int128Low64 result) else result)"

definition i128_add :: "int128 \<Rightarrow> int128 \<Rightarrow> int128" where
  "i128_add lhs rhs =
     SignedAddResult (MakeInt128 (Int128High64 lhs + Int128High64 rhs) (Int128Low64 lhs + Int128Low64 rhs)) lhs"

definition SignedSubstructResult :: "int128 \<Rightarrow> int128 \<Rightarrow> int128 \<Rightarrow> int128" where
  "SignedSubstructResult result lhs rhs =
     (if Int128Low64 lhs < Int128Low64 rhs then MakeInt128 (Int128High64 result - 1) (Int128Low64 result) else result)"

definition i128_sub :: "int128 \<Rightarrow> int128 \<Rightarrow> int128" where
  "i128_sub lhs rhs =
     SignedSubstructResult (MakeInt128 (Int128High64 lhs - Int128High64 rhs) (Int128Low64 lhs - Int128Low64 rhs)) lhs rhs"

definition i128_mul :: "toolchain \<Rightarrow> int128 \<Rightarrow> int128 \<Rightarrow> int128" where
  "i128_mul tc lhs rhs =
     MakeInt128
       (BitCastToSigned (Uint128High64 (u128_mul False tc (uint128_of_int128 lhs) (uint128_of_int128 rhs))))
       (Uint128Low64 (u128_mul False tc (uint128_of_int128 lhs) (uint128_of_int128 rhs)))"

definition i128_or :: "int128 \<Rightarrow> int128 \<Rightarrow> int128" where
  "i128_or lhs rhs = MakeInt128 (Int128High64 lhs OR Int128High64 rhs) (Int128Low64 lhs OR Int128Low64 rhs)"

definition i128_and :: "int128 \<Rightarrow> int128 \<Rightarrow> int128" where
  "i128_and lhs rhs = MakeInt128 (Int128High64 lhs AND Int128High64 rhs) (Int128Low64 lhs AND Int128Low64 rhs)"

definition i128_xor :: "int128 \<Rightarrow> int128 \<Rightarrow> int128" where
  "i128_xor lhs rhs = MakeInt128 (Int128High64 lhs XOR Int128High64 rhs) (Int128Low64 lhs XOR Int128Low64 rhs)"

text \<open>
  The shifts. The amount is an \<^verbatim>\<open>int\<close>, asserted to lie in \<^verbatim>\<open>[0, 127)\<close>; \<open>signed_drop_bit\<close> is the
  arithmetic shift of the signed high half. The source splits a shift by 63 and more in two.
\<close>

definition i128_shl :: "int128 \<Rightarrow> int \<Rightarrow> int128 res" where
  "i128_shl lhs amount =
     assert (amount \<ge> 0 \<and> amount < 127)
     (if amount \<le> 0 then Inr lhs
      else if amount < 63 then
        Inr (MakeInt128
               (push_bit (nat amount) (Int128High64 lhs) OR drop_bit (nat (64 - amount)) (Int128Low64 lhs))
               (push_bit (nat amount) (Int128Low64 lhs)))
      else if amount = 63 then
        Inr (MakeInt128 (push_bit 31 (push_bit 32 (Int128High64 lhs)) OR drop_bit 1 (Int128Low64 lhs))
               (push_bit 31 (push_bit 32 (Int128Low64 lhs))))
      else if amount = 127 then Inr (MakeInt128 (push_bit 63 (Int128Low64 lhs)) 0)
      else if amount > 127 then Inr (MakeInt128 0 0)
      else Inr (MakeInt128 (push_bit (nat (amount - 64)) (Int128Low64 lhs)) 0))"

definition i128_shr :: "int128 \<Rightarrow> int \<Rightarrow> int128 res" where
  "i128_shr lhs amount =
     assert (amount \<ge> 0 \<and> amount < 127)
     (if amount \<le> 0 then Inr lhs
      else if amount < 63 then
        Inr (MakeInt128 (signed_drop_bit (nat amount) (Int128High64 lhs))
               (drop_bit (nat amount) (Int128Low64 lhs) OR push_bit (nat (64 - amount)) (Int128High64 lhs)))
      else if amount = 63 then
        Inr (MakeInt128 (signed_drop_bit 31 (signed_drop_bit 32 (Int128High64 lhs)))
               (push_bit 1 (Int128High64 lhs) OR drop_bit 31 (drop_bit 32 (Int128Low64 lhs))))
      else if amount \<ge> 127 then
        Inr (MakeInt128 (signed_drop_bit 31 (signed_drop_bit 32 (Int128High64 lhs)))
               (signed_drop_bit 31 (signed_drop_bit 32 (Int128High64 lhs))))
      else
        Inr (MakeInt128 (signed_drop_bit 31 (signed_drop_bit 32 (Int128High64 lhs)))
               (signed_drop_bit (nat (amount - 64)) (Int128High64 lhs))))"

text \<open>The compound assignments of \<^verbatim>\<open>int128.h\<close>; the value assigned is the value returned.\<close>

definition i128_add_assign :: "int128 \<Rightarrow> int128 \<Rightarrow> int128" where "i128_add_assign this other = i128_add this other"
definition i128_sub_assign :: "int128 \<Rightarrow> int128 \<Rightarrow> int128" where "i128_sub_assign this other = i128_sub this other"
definition i128_mul_assign :: "toolchain \<Rightarrow> int128 \<Rightarrow> int128 \<Rightarrow> int128" where
  "i128_mul_assign tc this other = i128_mul tc this other"
definition i128_or_assign :: "int128 \<Rightarrow> int128 \<Rightarrow> int128" where "i128_or_assign this other = i128_or this other"
definition i128_and_assign :: "int128 \<Rightarrow> int128 \<Rightarrow> int128" where "i128_and_assign this other = i128_and this other"
definition i128_xor_assign :: "int128 \<Rightarrow> int128 \<Rightarrow> int128" where "i128_xor_assign this other = i128_xor this other"

section \<open>Signed division\<close>

definition UnsignedAbsoluteValue :: "bool \<Rightarrow> int128 \<Rightarrow> uint128" where
  "UnsignedAbsoluteValue intr v =
     (if Int128High64 v <s 0 then u128_neg intr (uint128_of_int128 v) else uint128_of_int128 v)"

definition i128_div :: "toolchain \<Rightarrow> int128 \<Rightarrow> int128 \<Rightarrow> int128 res" where
  "i128_div tc lhs rhs =
     assert (i128_neq lhs Int128Min \<or> i128_neq rhs (int128_signed (- 1 :: 32 word)))
     (rbind (DivModImpl False tc (UnsignedAbsoluteValue False lhs) (UnsignedAbsoluteValue False rhs)) (\<lambda>(quot, rmd).
      let quot = (if (Int128High64 lhs <s 0) \<noteq> (Int128High64 rhs <s 0) then u128_neg False quot else quot)
      in Inr (MakeInt128 (BitCastToSigned (Uint128High64 quot)) (Uint128Low64 quot))))"

definition i128_mod :: "toolchain \<Rightarrow> int128 \<Rightarrow> int128 \<Rightarrow> int128 res" where
  "i128_mod tc lhs rhs =
     assert (i128_neq lhs Int128Min \<or> i128_neq rhs (int128_signed (- 1 :: 32 word)))
     (rbind (DivModImpl False tc (UnsignedAbsoluteValue False lhs) (UnsignedAbsoluteValue False rhs)) (\<lambda>(quot, rmd).
      let rmd = (if Int128High64 lhs <s 0 then u128_neg False rmd else rmd)
      in Inr (MakeInt128 (BitCastToSigned (Uint128High64 rmd)) (Uint128Low64 rmd))))"

section \<open>Printing\<close>

text \<open>
  The stream state the functions read: the base (no base set prints decimal), the adjustment, the
  flags \<^verbatim>\<open>showbase\<close>, \<^verbatim>\<open>uppercase\<close>, \<^verbatim>\<open>showpos\<close>, the width of the next item and the fill character.
\<close>

datatype basefield = NoBase | Dec | Oct | Hex
datatype adjustfield = NoAdjust | AdjLeft | AdjRight | AdjInternal

record fmtflags =
  basefield :: basefield
  adjustfield :: adjustfield
  showbase :: bool
  uppercase :: bool
  showpos :: bool

record ostream =
  os_flags :: fmtflags
  os_width :: nat
  os_fill :: char
  os_text :: string

definition base_of :: "basefield \<Rightarrow> nat" where
  "base_of b = (case b of Oct \<Rightarrow> 8 | Hex \<Rightarrow> 16 | _ \<Rightarrow> 10)"

text \<open>The digits of a number, most significant first; 0 has one digit.\<close>

fun nat_digits :: "nat \<Rightarrow> nat \<Rightarrow> nat list" where
  "nat_digits b n = (if b < 2 \<or> n < b then [n] else nat_digits b (n div b) @ [n mod b])"

declare nat_digits.simps [simp del]

definition digit :: "bool \<Rightarrow> nat \<Rightarrow> char" where
  "digit upper d = char_of (if d < 10 then 48 + d else (if upper then 55 else 87) + d)"

definition base_prefix :: "fmtflags \<Rightarrow> nat \<Rightarrow> string" where
  "base_prefix f n =
     (if \<not> showbase f \<or> n = 0 then ''''
      else case basefield f of Hex \<Rightarrow> (if uppercase f then ''0X'' else ''0x'') | Oct \<Rightarrow> ''0'' | _ \<Rightarrow> '''')"

definition show_digits :: "fmtflags \<Rightarrow> nat \<Rightarrow> string" where
  "show_digits f n = base_prefix f n @ map (digit (uppercase f)) (nat_digits (base_of (basefield f)) n)"

text \<open>\<^verbatim>\<open>os << v\<close> for a \<^verbatim>\<open>uint64_t\<close>: pad to the width, which is then reset.\<close>

definition put_u64 :: "ostream \<Rightarrow> 64 word \<Rightarrow> ostream" where
  "put_u64 os v =
     (let f = os_flags os; rep = show_digits f (unat v);
          pad = replicate (os_width os - length rep) (os_fill os);
          k = (if basefield f = Hex then length (base_prefix f (unat v)) else 0)
      in os\<lparr>os_width := 0,
            os_text := os_text os @
              (case adjustfield f of AdjLeft \<Rightarrow> rep @ pad
               | AdjInternal \<Rightarrow> take k rep @ pad @ drop k rep
               | _ \<Rightarrow> pad @ rep)\<rparr>)"

definition copied_flags :: "fmtflags \<Rightarrow> fmtflags" where
  "copied_flags f = \<lparr>basefield = basefield f, adjustfield = NoAdjust, showbase = showbase f,
                     uppercase = uppercase f, showpos = False\<rparr>"

definition Uint128ToFormattedString :: "bool \<Rightarrow> toolchain \<Rightarrow> uint128 \<Rightarrow> fmtflags \<Rightarrow> string res" where
  "Uint128ToFormattedString intr tc v flags =
     (let (div', div_base_log) =
            (case basefield flags of
               Hex \<Rightarrow> (uint128_unsigned (0x1000000000000000 :: 64 word), 15)
             | Oct \<Rightarrow> (uint128_unsigned (0x8000000000000000 :: 64 word), 21)
             | _ \<Rightarrow> (uint128_unsigned (10000000000000000000 :: 64 word), 19));
          os = \<lparr>os_flags = copied_flags flags, os_width = 0, os_fill = CHR '' '', os_text = ''''\<rparr>;
          high = v
      in rbind (DivModImpl intr tc high div') (\<lambda>(high, low).
         rbind (DivModImpl intr tc high div') (\<lambda>(high, mid).
         let os =
           (if Uint128Low64 high \<noteq> 0 then
              let os = put_u64 os (Uint128Low64 high);
                  os = os\<lparr>os_flags := (os_flags os)\<lparr>showbase := False\<rparr>, os_fill := CHR ''0'', os_width := div_base_log\<rparr>;
                  os = put_u64 os (Uint128Low64 mid)
              in os\<lparr>os_width := div_base_log\<rparr>
            else if Uint128Low64 mid \<noteq> 0 then
              let os = put_u64 os (Uint128Low64 mid)
              in os\<lparr>os_flags := (os_flags os)\<lparr>showbase := False\<rparr>, os_fill := CHR ''0'', os_width := div_base_log\<rparr>
            else os);
             os = put_u64 os (Uint128Low64 low)
         in Inr (os_text os))))"

definition dec_flags :: fmtflags where
  "dec_flags = \<lparr>basefield = Dec, adjustfield = NoAdjust, showbase = False, uppercase = False, showpos = False\<rparr>"

definition uint128_ToString :: "bool \<Rightarrow> toolchain \<Rightarrow> uint128 \<Rightarrow> string res" where
  "uint128_ToString intr tc v = Uint128ToFormattedString intr tc v dec_flags"

definition insert_fill :: "string \<Rightarrow> nat \<Rightarrow> nat \<Rightarrow> char \<Rightarrow> string" where
  "insert_fill rep pos count fill = take pos rep @ replicate count fill @ drop pos rep"

definition put_uint128 :: "bool \<Rightarrow> toolchain \<Rightarrow> ostream \<Rightarrow> uint128 \<Rightarrow> ostream res" where
  "put_uint128 intr tc os v =
     (let flags = os_flags os in
      rbind (Uint128ToFormattedString intr tc v flags) (\<lambda>rep.
      let width = os_width os; os = os\<lparr>os_width := 0\<rparr>;
          rep =
            (if width > length rep then
               let count = width - length rep in
               if adjustfield flags = AdjLeft then rep @ replicate count (os_fill os)
               else if adjustfield flags = AdjInternal \<and> showbase flags \<and> basefield flags = Hex \<and>
                 u128_neq intr v (uint128_signed (0 :: 32 word))
               then insert_fill rep 2 count (os_fill os)
               else insert_fill rep 0 count (os_fill os)
             else rep)
      in Inr (os\<lparr>os_text := os_text os @ rep\<rparr>)))"

definition int128_ToString :: "bool \<Rightarrow> toolchain \<Rightarrow> int128 \<Rightarrow> string res" where
  "int128_ToString intr tc this =
     (let rep = (if Int128High64 this <s 0 then ''-'' else '''') in
      rbind (Uint128ToFormattedString intr tc (UnsignedAbsoluteValue intr this) dec_flags) (\<lambda>s.
      Inr (rep @ s)))"

definition put_int128 :: "bool \<Rightarrow> toolchain \<Rightarrow> ostream \<Rightarrow> int128 \<Rightarrow> ostream res" where
  "put_int128 intr tc os v =
     (let flags = os_flags os;
          print_as_decimal = (basefield flags = Dec \<or> basefield flags = NoBase);
          rep = (if print_as_decimal then
                   if Int128High64 v <s 0 then ''-'' else if showpos flags then ''+'' else ''''
                 else '''')
      in rbind (Uint128ToFormattedString intr tc
                  (if print_as_decimal then UnsignedAbsoluteValue intr v else uint128_of_int128 v) (os_flags os)) (\<lambda>s.
      let rep = rep @ s;
          width = os_width os; os = os\<lparr>os_width := 0\<rparr>;
          rep =
            (if width > length rep then
               let count = width - length rep in
               case adjustfield flags of
                 AdjLeft \<Rightarrow> rep @ replicate count (os_fill os)
               | AdjInternal \<Rightarrow>
                   if print_as_decimal \<and> (rep ! 0 = CHR ''+'' \<or> rep ! 0 = CHR ''-'')
                   then insert_fill rep 1 count (os_fill os)
                   else if basefield flags = Hex \<and> showbase flags \<and> i128_neq v (int128_signed (0 :: 32 word))
                   then insert_fill rep 2 count (os_fill os)
                   else insert_fill rep 0 count (os_fill os)
               | _ \<Rightarrow> insert_fill rep 0 count (os_fill os)
             else rep)
      in Inr (os\<lparr>os_text := os_text os @ rep\<rparr>)))"

section \<open>The digits that are printed\<close>

fun fixed_digits :: "nat \<Rightarrow> nat \<Rightarrow> nat \<Rightarrow> nat list" where
  "fixed_digits b 0 n = []"
| "fixed_digits b (Suc k) n = fixed_digits b k (n div b) @ [n mod b]"

lemma nat_digits_split:
  assumes "2 \<le> b" "0 < q" "r < b ^ k"
  shows "nat_digits b (q * b ^ k + r) = nat_digits b q @ fixed_digits b k r"
  using assms(3)
proof (induction k arbitrary: r)
  case (Suc k)
  let ?n = "q * b ^ Suc k + r"
  have "r div b < b ^ k" using Suc.prems assms(1) by (simp add: less_mult_imp_div_less mult.commute)
  note IH = Suc.IH [OF this]
  have eq: "?n = r + b * (q * b ^ k)" by simp
  have n: "?n div b = q * b ^ k + r div b" "?n mod b = r mod b"
    unfolding eq using assms(1) div_mult_self2 [of b r "q * b ^ k"] mod_mult_self2 [of r b "q * b ^ k"] by simp_all
  have "1 \<le> q * b ^ k" using assms by simp
  then have "b \<le> b * (q * b ^ k)" by (metis mult_le_mono2 mult.right_neutral)
  then have "\<not> ?n < b" unfolding eq by linarith
  then show ?case using assms(1) by (subst nat_digits.simps) (simp only: n IH, simp)
qed simp

lemma fixed_digits_0: "fixed_digits b k 0 = replicate k 0"
  by (induction k) (simp_all add: replicate_append_same)

lemma fixed_digits_pad:
  assumes "2 \<le> b" "r < b ^ Suc k"
  shows "length (nat_digits b r) \<le> Suc k \<and>
    fixed_digits b (Suc k) r = replicate (Suc k - length (nat_digits b r)) 0 @ nat_digits b r"
  using assms(2)
proof (induction k arbitrary: r)
  case (Suc k)
  show ?case
  proof (cases "r < b")
    case True
    then show ?thesis by (simp add: nat_digits.simps fixed_digits_0 replicate_append_same)
  next
    case False
    have "r div b < b ^ Suc k" using Suc.prems assms(1) by (simp add: less_mult_imp_div_less mult.commute)
    note IH = Suc.IH [OF this]
    have "nat_digits b r = nat_digits b (r div b) @ [r mod b]" using False assms(1) by (simp add: nat_digits.simps)
    moreover have "fixed_digits b (Suc (Suc k)) r = fixed_digits b (Suc k) (r div b) @ [r mod b]" by simp
    ultimately show ?thesis using IH by simp
  qed
qed (use assms(1) in \<open>simp add: nat_digits.simps\<close>)

lemma nat_digits_less: "2 \<le> b \<Longrightarrow> d \<in> set (nat_digits b n) \<Longrightarrow> d < b"
proof (induction b n rule: nat_digits.induct)
  case (1 b n)
  then show ?case by (subst (asm) nat_digits.simps) (auto split: if_splits)
qed

lemma nat_digits_value: "2 \<le> b \<Longrightarrow> foldl (\<lambda>a d. a * b + d) 0 (nat_digits b n) = n"
proof (induction b n rule: nat_digits.induct)
  case (1 b n)
  then show ?case by (subst nat_digits.simps) (auto simp: div_mult_mod_eq)
qed

section \<open>Formatting\<close>

lemma put_u64_plain:
  assumes "adjustfield (os_flags os) = NoAdjust"
  shows "put_u64 os v = os\<lparr>os_width := 0, os_text := os_text os @
    replicate (os_width os - length (show_digits (os_flags os) (unat v))) (os_fill os) @ show_digits (os_flags os) (unat v)\<rparr>"
  using assms by (simp add: put_u64_def Let_def)

lemma digit_0: "digit upper 0 = CHR ''0''"
  by (simp add: digit_def char_of_def bit_0)

lemma padded_digits:
  assumes "unat v < base_of (basefield f) ^ k" "0 < k" "\<not> showbase f"
  shows "replicate (k - length (show_digits f (unat v))) (CHR ''0'') @ show_digits f (unat v) =
    map (digit (uppercase f)) (fixed_digits (base_of (basefield f)) k (unat v))"
proof -
  obtain j where k: "k = Suc j" using assms(2) by (cases k) auto
  have "2 \<le> base_of (basefield f)" by (simp add: base_of_def split: basefield.splits)
  then show ?thesis using fixed_digits_pad [of "base_of (basefield f)" "unat v" j] assms(1,3) k
    by (simp add: show_digits_def base_prefix_def digit_0)
qed

lemma low_value:
  assumes "value128 x < 2 ^ 64"
  shows "unat (Uint128Low64 x) = value128 x"
  using assms by (simp add: unat_to_int128 Uint128Low64_def)

text \<open>Three chunks of a number: each but the first nonzero one is printed with its leading zeros.\<close>

lemma three_chunks:
  assumes "2 \<le> b" "n = (high * b ^ k + mid) * b ^ k + low" "mid < b ^ k" "low < b ^ k"
  shows "nat_digits b n =
    (if high \<noteq> 0 then nat_digits b high @ fixed_digits b k mid @ fixed_digits b k low
     else if mid \<noteq> 0 then nat_digits b mid @ fixed_digits b k low else nat_digits b low)"
proof -
  have "0 < high \<Longrightarrow> 0 < high * b ^ k + mid" using assms(1) by simp
  then show ?thesis using assms nat_digits_split [of b _ _ k] by simp
qed

definition chunk_log :: "basefield \<Rightarrow> nat" where
  "chunk_log bf = (case bf of Hex \<Rightarrow> 15 | Oct \<Rightarrow> 21 | _ \<Rightarrow> 19)"

definition chunk_div :: "basefield \<Rightarrow> uint128" where
  "chunk_div bf = (case bf of Hex \<Rightarrow> uint128_unsigned (0x1000000000000000 :: 64 word)
     | Oct \<Rightarrow> uint128_unsigned (0x8000000000000000 :: 64 word) | _ \<Rightarrow> uint128_unsigned (10000000000000000000 :: 64 word))"

lemma chunk_div_value: "value128 (chunk_div bf) = base_of bf ^ chunk_log bf"
  by (cases bf) (simp_all add: chunk_div_def base_of_def chunk_log_def unat_to_int128 uint128_unsigned_def)

lemma chunk_bounds:
  "base_of bf ^ chunk_log bf < 2 ^ 64" "2 ^ 128 \<le> (base_of bf ^ chunk_log bf) * (base_of bf ^ chunk_log bf) * 2 ^ 64"
  "0 < chunk_log bf" "2 \<le> base_of bf"
  by (cases bf; simp add: base_of_def chunk_log_def)+

lemma Uint128ToFormattedString_eq:
  "Uint128ToFormattedString intr tc v flags = Inr (show_digits flags (value128 v))"
proof -
  let ?bf = "basefield flags" and ?up = "uppercase flags"
  let ?b = "base_of ?bf" and ?k = "chunk_log ?bf"
  let ?D = "?b ^ ?k"
  have D: "value128 (chunk_div ?bf) = ?D" "0 < ?D" "to_int128 (chunk_div ?bf) \<noteq> 0"
    using chunk_div_value [of ?bf] chunk_bounds(4) [of ?bf] by (auto simp flip: value128_0)
  obtain h1 low where 1: "DivModImpl intr tc v (chunk_div ?bf) = Inr (h1, low)"
    "value128 h1 = value128 v div ?D" "value128 low = value128 v mod ?D"
    using DivModImpl_correct [OF D(3)] D(1) by metis
  obtain high mid where 2: "DivModImpl intr tc h1 (chunk_div ?bf) = Inr (high, mid)"
    "value128 high = value128 h1 div ?D" "value128 mid = value128 h1 mod ?D"
    using DivModImpl_correct [OF D(3)] D(1) by metis
  have "value128 v < ?D * ?D * 2 ^ 64" using unat_less [of "to_int128 v"] chunk_bounds(2) [of ?bf] by simp
  then have "value128 high < 2 ^ 64" unfolding 1(2) 2(2)
    by (simp add: div_mult2_eq [symmetric] less_mult_imp_div_less ac_simps)
  moreover have ml: "value128 mid < ?D" "value128 low < ?D" using 1(3) 2(3) D(2) by simp_all
  ultimately have u: "unat (Uint128Low64 high) = value128 high" "unat (Uint128Low64 mid) = value128 mid"
    "unat (Uint128Low64 low) = value128 low" using chunk_bounds(1) [of ?bf] low_value by auto
  have n: "value128 v = (value128 high * ?D + value128 mid) * ?D + value128 low"
    unfolding 1(2,3) 2(2,3) by (simp only: div_mult_mod_eq)
  have z: "w = 0 \<longleftrightarrow> unat w = 0" for w :: "64 word" by (simp add: unat_eq_0)
  have pre: "base_prefix flags (value128 v) = base_prefix flags m" if "m = 0 \<longleftrightarrow> value128 v = 0" for m
    using that by (simp add: base_prefix_def)
  let ?f0 = "copied_flags flags"
  let ?f1 = "?f0\<lparr>showbase := False\<rparr>"
  have f: "basefield ?f0 = ?bf" "adjustfield ?f0 = NoAdjust" "showbase ?f0 = showbase flags" "uppercase ?f0 = ?up"
    by (simp_all add: copied_flags_def)
  have f0: "show_digits ?f0 m = base_prefix flags m @ map (digit ?up) (nat_digits ?b m)" for m
    by (simp add: show_digits_def base_prefix_def f)
  have f1: "replicate (?k - length (show_digits ?f1 (unat w))) (CHR ''0'') @ show_digits ?f1 (unat w) =
    map (digit ?up) (fixed_digits ?b ?k (unat w))" if "unat w < ?D" for w :: "64 word"
    using padded_digits [of w ?f1 ?k] that chunk_bounds(3) by (simp add: f)
  have t: "show_digits flags (value128 v) = base_prefix flags (value128 v) @ map (digit ?up)
     (if value128 high \<noteq> 0 then nat_digits ?b (value128 high) @ fixed_digits ?b ?k (value128 mid) @ fixed_digits ?b ?k (value128 low)
      else if value128 mid \<noteq> 0 then nat_digits ?b (value128 mid) @ fixed_digits ?b ?k (value128 low)
      else nat_digits ?b (value128 low))"
    unfolding show_digits_def three_chunks [OF chunk_bounds(4) n ml] ..
  have z': "value128 v = 0 \<longleftrightarrow> value128 high = 0 \<and> value128 mid = 0 \<and> value128 low = 0"
    unfolding n using D(2) by auto
  have c: "(case ?bf of
       Hex \<Rightarrow> (uint128_unsigned (0x1000000000000000 :: 64 word), 15)
     | Oct \<Rightarrow> (uint128_unsigned (0x8000000000000000 :: 64 word), 21)
     | _ \<Rightarrow> (uint128_unsigned (10000000000000000000 :: 64 word), 19)) = (chunk_div ?bf, ?k)"
    by (simp add: chunk_div_def chunk_log_def split: basefield.splits)
  have "Uint128ToFormattedString intr tc v flags = Inr (
      if value128 high \<noteq> 0 then show_digits ?f0 (value128 high) @ map (digit ?up) (fixed_digits ?b ?k (value128 mid)) @
        map (digit ?up) (fixed_digits ?b ?k (value128 low))
      else if value128 mid \<noteq> 0 then show_digits ?f0 (value128 mid) @ map (digit ?up) (fixed_digits ?b ?k (value128 low))
      else show_digits ?f0 (value128 low))"
    unfolding Uint128ToFormattedString_def c Let_def prod.case 1(1) 2(1) rbind.simps z u
    using f1 [of "Uint128Low64 mid"] f1 [of "Uint128Low64 low"] ml by (simp add: put_u64_plain f u del: value128_0)
  also have "\<dots> = Inr (show_digits flags (value128 v))"
    unfolding t f0 using pre [of "value128 high"] pre [of "value128 mid"] pre [of "value128 low"] z'
    by (cases "value128 high = 0"; cases "value128 mid = 0") (simp_all del: value128_0)
  finally show ?thesis .
qed

section \<open>The signed 128-bit integer\<close>

abbreviation word128 :: "int128 \<Rightarrow> 128 word" where
  "word128 x \<equiv> to_int128 (uint128_of_int128 x)"

definition signed128 :: "int128 \<Rightarrow> int" where
  "signed128 x = sint (word128 x)"

lemmas signed_halves_defs = Int128Low64_def Int128High64_def MakeInt128_def halves_defs

lemma uint128_of_int128_sel [simp]: "lo64 (uint128_of_int128 x) = ilo64 x" "hi64 (uint128_of_int128 x) = ihi64 x"
  by (simp_all add: uint128_of_int128_def signed_halves_defs)

lemma BitCastToSigned_id [simp]: "BitCastToSigned v = v"
  by (simp add: BitCastToSigned_def)

lemma int128_of_uint128_inverse [simp]: "uint128_of_int128 (int128_of_uint128 x) = x"
  by (rule uint128_eqI) (simp_all add: int128_of_uint128_def halves_defs)

lemma make_halves [simp]: "uint128_of_int128 (MakeInt128 (Uint128High64 x) (Uint128Low64 x)) = x"
  by (rule uint128_eqI) (simp_all add: signed_halves_defs)

lemma uint128_of_int128_ops:
  "uint128_of_int128 (i128_neg x) = u128_neg False (uint128_of_int128 x)"
  "uint128_of_int128 (i128_not x) = u128_not False (uint128_of_int128 x)"
  "uint128_of_int128 (i128_add x y) = u128_add False (uint128_of_int128 x) (uint128_of_int128 y)"
  "uint128_of_int128 (i128_sub x y) = u128_sub False (uint128_of_int128 x) (uint128_of_int128 y)"
  "uint128_of_int128 (i128_mul tc x y) = u128_mul False tc (uint128_of_int128 x) (uint128_of_int128 y)"
  "uint128_of_int128 (i128_or x y) = u128_or False (uint128_of_int128 x) (uint128_of_int128 y)"
  "uint128_of_int128 (i128_and x y) = u128_and False (uint128_of_int128 x) (uint128_of_int128 y)"
  "uint128_of_int128 (i128_xor x y) = u128_xor False (uint128_of_int128 x) (uint128_of_int128 y)"
  by (simp_all add: uint128_eqI signed_halves_defs i128_neg_def u128_neg_def i128_not_def u128_not_def
      i128_add_def u128_add_def AddResult_def SignedAddResult_def i128_sub_def u128_sub_def SubstructResult_def
      SignedSubstructResult_def i128_or_def u128_or_def i128_and_def u128_and_def i128_xor_def u128_xor_def
      i128_mul_def [unfolded BitCastToSigned_id] uint128_of_int128_def)

lemma word128_ops:
  "word128 (i128_neg x) = - word128 x" "word128 (i128_not x) = NOT (word128 x)"
  "word128 (i128_add x y) = word128 x + word128 y" "word128 (i128_sub x y) = word128 x - word128 y"
  "word128 (i128_mul tc x y) = word128 x * word128 y" "word128 (i128_or x y) = word128 x OR word128 y"
  "word128 (i128_and x y) = word128 x AND word128 y" "word128 (i128_xor x y) = word128 x XOR word128 y"
  by (simp_all only: uint128_of_int128_ops to_int128_neg to_int128_logic to_int128_add to_int128_sub to_int128_mul)

lemma int128_eqI: "ilo64 x = ilo64 y \<Longrightarrow> ihi64 x = ihi64 y \<Longrightarrow> x = (y :: int128)"
  by (cases x; cases y) simp

lemma i128_eq_iff: "i128_eq x y \<longleftrightarrow> x = y"
  by (auto simp: i128_eq_def Int128Low64_def Int128High64_def intro: int128_eqI)

lemma word128_inject: "word128 x = word128 y \<longleftrightarrow> x = y"
  by (metis to_int128_inject uint128_of_int128_sel int128_eqI)

lemma signed128_inject: "signed128 x = signed128 y \<longleftrightarrow> x = y"
  unfolding signed128_def using word128_inject [of x y] signed_word_eqI by blast

lemma sint_split:
  fixes w :: "'a::len word"
  assumes "LENGTH('a) = Suc n"
  shows "sint w = uint w - (if bit w n then 2 ^ Suc n else 0)"
proof -
  have "take_bit (Suc n) (uint w) = uint w" using assms uint_lt2p [of w] by (intro take_bit_int_eq_self) simp_all
  then show ?thesis using assms by (simp add: sint_uint signed_take_bit_eq_take_bit_minus bit_uint_iff)
qed

lemma lex_less:
  fixes a b l m :: int
  assumes "0 \<le> l" "l < 2 ^ 64" "0 \<le> m" "m < 2 ^ 64"
  shows "a * 2 ^ 64 + l < b * 2 ^ 64 + m \<longleftrightarrow> a < b \<or> a = b \<and> l < m"
  using assms by (cases a b rule: linorder_cases) auto

lemma signed128_halves: "signed128 x = sint (ihi64 x) * 2 ^ 64 + uint (ilo64 x)"
proof -
  have u: "uint (word128 x) = uint (ihi64 x) * 2 ^ 64 + uint (ilo64 x)"
    unfolding uint_nat unat_to_int128 by simp
  have "sint w = uint w - (if bit w 127 then 2 ^ 128 else 0)" for w :: "128 word"
    using sint_split [of 127 w] by simp
  moreover have "sint w = uint w - (if bit w 63 then 2 ^ 64 else 0)" for w :: "64 word"
    using sint_split [of 63 w] by simp
  ultimately have "signed128 x = uint (word128 x) - (if bit (ihi64 x) 63 then 2 ^ 128 else 0)"
    "sint (ihi64 x) = uint (ihi64 x) - (if bit (ihi64 x) 63 then 2 ^ 64 else 0)"
    by (simp_all add: signed128_def bit_to_int128)
  then show ?thesis unfolding u by (cases "bit (ihi64 x) 63") simp_all
qed

lemma signed128_less: "i128_less x y \<longleftrightarrow> signed128 x < signed128 y"
proof -
  have b: "0 \<le> uint (ilo64 x)" "uint (ilo64 x) < 2 ^ 64" "0 \<le> uint (ilo64 y)" "uint (ilo64 y) < 2 ^ 64"
    using uint_lt2p [of "ilo64 x"] uint_lt2p [of "ilo64 y"] by simp_all
  show ?thesis
  proof (cases "ihi64 x = ihi64 y")
    case False
    then have "sint (ihi64 x) \<noteq> sint (ihi64 y)" using signed_word_eqI by blast
    with False show ?thesis unfolding signed128_halves lex_less [OF b]
      by (simp add: i128_less_def signed_halves_defs word_sless_alt)
  qed (simp add: i128_less_def signed_halves_defs signed128_halves word_less_def)
qed

lemma signed128_negative: "Int128High64 x <s 0 \<longleftrightarrow> signed128 x < 0"
proof -
  have "0 \<le> uint (ilo64 x)" "uint (ilo64 x) < 2 ^ 64" using uint_lt2p [of "ilo64 x"] by simp_all
  then show ?thesis using lex_less [of "uint (ilo64 x)" 0 "sint (ihi64 x)" 0]
    by (simp add: signed128_halves signed_halves_defs word_sless_alt)
qed

lemma signed128_range: "- (2 ^ 127) \<le> signed128 x" "signed128 x < 2 ^ 127"
  using sint_ge [of "word128 x"] sint_lt [of "word128 x"] by (simp_all add: signed128_def)

lemma signed128_of_int: "- (2 ^ 127) \<le> k \<Longrightarrow> k < 2 ^ 127 \<Longrightarrow> word128 x = of_int k \<Longrightarrow> signed128 x = k"
  by (simp add: signed128_def signed_of_int signed_take_bit_int_eq_self)

lemma absolute_value: "int (value128 (UnsignedAbsoluteValue intr x)) = \<bar>signed128 x\<bar>"
proof -
  let ?w = "to_int128 (UnsignedAbsoluteValue intr x)"
  have w: "of_int (signed128 x) = word128 x" by (simp add: signed128_def)
  have "?w = of_int \<bar>signed128 x\<bar>"
    using w by (auto simp: UnsignedAbsoluteValue_def signed128_negative)
  then have "uint ?w = take_bit 128 \<bar>signed128 x\<bar>" by (simp add: unsigned_of_int)
  moreover have "\<bar>signed128 x\<bar> < 2 ^ 128" using signed128_range [of x] by simp
  ultimately show ?thesis by (simp add: uint_nat [symmetric] take_bit_int_eq_self)
qed

lemma signed128_0: "signed128 x = 0 \<longleftrightarrow> word128 x = 0"
  using signed_word_eqI [of "word128 x" 0] by (auto simp: signed128_def)

lemma signed128_Min: "signed128 Int128Min = - (2 ^ 127)" "signed128 (int128_signed (- 1 :: 32 word)) = - 1"
  by (simp_all add: signed128_halves Int128Min_def MakeInt128_def int128_signed_def unsigned_minus_1_eq_mask mask_eq_exp_minus_1)

lemma signed_quotient_range:
  assumes y: "signed128 y \<noteq> 0" and m: "x \<noteq> Int128Min \<or> y \<noteq> int128_signed (- 1 :: 32 word)"
  shows "- (2 ^ 127) \<le> signed128 x sdiv signed128 y \<and> signed128 x sdiv signed128 y < 2 ^ 127 \<and>
    - (2 ^ 127) \<le> signed128 x smod signed128 y \<and> signed128 x smod signed128 y < 2 ^ 127"
proof -
  let ?X = "signed128 x" and ?Y = "signed128 y"
  note r = signed128_range [of x] signed128_range [of y]
  have m': "?X \<noteq> - (2 ^ 127) \<or> ?Y \<noteq> - 1" using m signed128_inject by (metis signed128_Min)
  have q: "- \<bar>?X\<bar> \<le> ?X sdiv ?Y" "?X sdiv ?Y \<le> \<bar>?X\<bar>" using sdiv_int_range [of ?X ?Y] by simp_all
  have "?X sdiv ?Y < 2 ^ 127"
  proof (cases "?X = - (2 ^ 127)")
    case True
    then have "?X sdiv ?Y \<noteq> - ?X" using int_sdiv_negated_is_minus1 [of ?X ?Y] m' by simp
    moreover have "- ?X = 2 ^ 127" "\<bar>?X\<bar> = 2 ^ 127" using True by simp_all
    ultimately show ?thesis using q(2) by linarith
  qed (use q(2) r in linarith)
  moreover have "- \<bar>?Y\<bar> < ?X smod ?Y" "?X smod ?Y < \<bar>?Y\<bar>" using smod_int_range [OF y, of ?X] by simp_all
  ultimately show ?thesis using r q by linarith
qed

text \<open>Division truncates towards zero and the remainder has the sign of the dividend.\<close>

lemma i128_div_mod:
  assumes y: "signed128 y \<noteq> 0" and m: "x \<noteq> Int128Min \<or> y \<noteq> int128_signed (- 1 :: 32 word)"
  shows "\<exists>q r. i128_div tc x y = Inr q \<and> i128_mod tc x y = Inr r \<and>
    signed128 q = signed128 x sdiv signed128 y \<and> signed128 r = signed128 x smod signed128 y"
proof -
  let ?X = "signed128 x" and ?Y = "signed128 y"
  let ?a = "UnsignedAbsoluteValue False x" and ?b = "UnsignedAbsoluteValue False y"
  have ab: "int (value128 ?a) = \<bar>?X\<bar>" "int (value128 ?b) = \<bar>?Y\<bar>" by (rule absolute_value)+
  then have "value128 ?b \<noteq> 0" using y by linarith
  then have "to_int128 ?b \<noteq> 0" by simp
  then obtain q r where qr: "DivModImpl False tc ?a ?b = Inr (q, r)"
    "value128 q = value128 ?a div value128 ?b" "value128 r = value128 ?a mod value128 ?b"
    using DivModImpl_correct by blast
  have n: "i128_neq x Int128Min \<or> i128_neq y (int128_signed (- 1 :: 32 word))"
    using m by (auto simp: i128_neq_def i128_eq_iff)
  have of_q: "to_int128 q = of_int (\<bar>?X\<bar> div \<bar>?Y\<bar>)" "to_int128 r = of_int (\<bar>?X\<bar> mod \<bar>?Y\<bar>)"
    unfolding ab [symmetric] zdiv_int [symmetric] zmod_int [symmetric] qr(2,3) [symmetric] by simp_all
  let ?q = "if (?X < 0) \<noteq> (?Y < 0) then u128_neg False q else q"
  let ?r = "if ?X < 0 then u128_neg False r else r"
  have res: "i128_div tc x y = Inr (MakeInt128 (Uint128High64 ?q) (Uint128Low64 ?q))"
    "i128_mod tc x y = Inr (MakeInt128 (Uint128High64 ?r) (Uint128Low64 ?r))"
    using n qr(1) by (simp_all add: i128_div_def i128_mod_def assert_def signed128_negative Let_def)
  have "to_int128 ?q = of_int (?X sdiv ?Y)" "to_int128 ?r = of_int (?X smod ?Y)"
    using y by (cases ?X "0 :: int" rule: linorder_cases; cases ?Y "0 :: int" rule: linorder_cases;
        simp add: of_q signed_divide_int_def signed_modulo_int_def)+
  then have "word128 (MakeInt128 (Uint128High64 ?q) (Uint128Low64 ?q)) = of_int (?X sdiv ?Y)"
    "word128 (MakeInt128 (Uint128High64 ?r) (Uint128Low64 ?r)) = of_int (?X smod ?Y)"
    by (simp_all only: make_halves)
  with signed_quotient_range [OF y m] show ?thesis unfolding res by (blast intro: signed128_of_int)
qed

lemma i128_div_zero:
  "signed128 y = 0 \<Longrightarrow> i128_div tc x y = Inl AssertFailed \<and> i128_mod tc x y = Inl AssertFailed"
proof -
  assume "signed128 y = 0"
  then have "value128 (UnsignedAbsoluteValue False y) = 0" using absolute_value [of False y] by linarith
  then have "to_int128 (UnsignedAbsoluteValue False y) = to_int128 (uint128_unsigned (0 :: 32 word))" by simp
  then have "UnsignedAbsoluteValue False y = uint128_unsigned (0 :: 32 word)" by (simp only: to_int128_inject)
  then show ?thesis by (simp add: i128_div_def i128_mod_def DivModImpl_zero assert_def)
qed

section \<open>Reading back what is printed\<close>

definition digit_value :: "char \<Rightarrow> nat" where
  "digit_value c = (let n = of_char c in if n < 58 then n - 48 else if n < 91 then n - 55 else n - 87)"

definition read_nat :: "nat \<Rightarrow> string \<Rightarrow> nat" where
  "read_nat b s = foldl (\<lambda>a c. a * b + digit_value c) 0 s"

definition read_int :: "string \<Rightarrow> int" where
  "read_int s = (case s of c # cs \<Rightarrow> if c = CHR ''-'' then - int (read_nat 10 cs) else int (read_nat 10 s) | [] \<Rightarrow> 0)"

lemma of_char_digit: "d < 16 \<Longrightarrow> of_char (digit upper d) = (if d < 10 then 48 + d else (if upper then 55 else 87) + d)"
  by (simp add: digit_def)

lemma digit_value_digit: "d < 16 \<Longrightarrow> digit_value (digit upper d) = d"
  by (simp add: digit_value_def of_char_digit)

lemma read_nat_digits:
  assumes "2 \<le> b" "b \<le> 16"
  shows "read_nat b (map (digit upper) (nat_digits b n)) = n"
proof -
  have d: "\<forall>d\<in>set ds. d < 16 \<Longrightarrow> read_nat b (map (digit upper) ds) = foldl (\<lambda>a d. a * b + d) 0 ds" for ds
    unfolding read_nat_def by (induction ds rule: rev_induct) (auto simp: digit_value_digit)
  show ?thesis using d [of "nat_digits b n"] nat_digits_less [OF assms(1)] assms nat_digits_value [OF assms(1)]
    by (metis order_less_le_trans)
qed

lemma nat_digits_not_Nil [simp]: "nat_digits b n \<noteq> []"
  by (subst nat_digits.simps) simp

lemma digit_not_minus: "d < 16 \<Longrightarrow> digit upper d \<noteq> CHR ''-''"
  using of_char_digit [of d upper] by (auto split: if_splits)

lemma read_int_digits:
  "read_int (map (digit upper) (nat_digits 10 n)) = int n"
  "read_int (CHR ''-'' # map (digit upper) (nat_digits 10 n)) = - int n"
proof -
  obtain d ds where dds: "nat_digits 10 n = d # ds" by (cases "nat_digits 10 n") auto
  then have "digit upper d \<noteq> CHR ''-''" using nat_digits_less [of 10 d n] digit_not_minus [of d] by simp
  then show "read_int (map (digit upper) (nat_digits 10 n)) = int n"
    using read_nat_digits [of 10 upper n] dds by (simp add: read_int_def)
qed (simp add: read_int_def read_nat_digits)

lemma ToString_reads:
  "\<exists>s. uint128_ToString intr tc u = Inr s \<and> read_int s = int (value128 u)"
  "\<exists>s. int128_ToString intr tc v = Inr s \<and> read_int s = signed128 v"
proof -
  have d: "show_digits dec_flags n = map (digit False) (nat_digits 10 n)" for n
    by (simp add: show_digits_def base_prefix_def dec_flags_def base_of_def)
  show "\<exists>s. uint128_ToString intr tc u = Inr s \<and> read_int s = int (value128 u)"
    by (simp add: uint128_ToString_def Uint128ToFormattedString_eq d read_int_digits)
  show "\<exists>s. int128_ToString intr tc v = Inr s \<and> read_int s = signed128 v"
    using absolute_value [of intr v]
    by (simp add: int128_ToString_def Uint128ToFormattedString_eq d read_int_digits signed128_negative)
qed

end
