(* ===== verification/CtrlGroup.thy ===== *)
theory CtrlGroup
  imports HashState Int128
begin

text \<open>
  The control bytes of the hash table and the portable group, \<^verbatim>\<open>container/internal/raw_hash_set.h\<close>: eight
  control bytes are loaded into one word and searched by arithmetic on the word. A mask has the bit
  \<open>8 j + 7\<close> set for the byte \<open>j\<close> (\<open>lane\<close>). The lemmas give the meaning of the masks byte by byte: which
  bytes are empty, empty or deleted, which may carry a given hash, and what the conversion before a
  rehash does to each byte. The vector implementations for SSE2 and NEON are alternatives that a build
  selects; this is the one built without them.
\<close>

section \<open>Control bytes\<close>

type_synonym ctrl_t = "8 word"

definition kEmpty :: ctrl_t where "kEmpty = 0x80"
definition kDeleted :: ctrl_t where "kDeleted = 0xFE"
definition kSentinel :: ctrl_t where "kSentinel = 0xFF"

definition IsEmpty :: "ctrl_t \<Rightarrow> bool" where "IsEmpty c \<longleftrightarrow> c = kEmpty"
definition IsFull :: "ctrl_t \<Rightarrow> bool" where "IsFull c \<longleftrightarrow> 0 \<le>s c"
definition IsDeleted :: "ctrl_t \<Rightarrow> bool" where "IsDeleted c \<longleftrightarrow> c = kDeleted"
definition IsEmptyOrDeleted :: "ctrl_t \<Rightarrow> bool" where "IsEmptyOrDeleted c \<longleftrightarrow> c <s kSentinel"

text \<open>The low seven bits of the hash mark a full slot, the others, salted by the address of the table, start the probe.\<close>

definition H2 :: "64 word \<Rightarrow> ctrl_t" where "H2 hash = ucast (hash AND 0x7F)"

definition PerTableSalt :: "64 word \<Rightarrow> 64 word" where "PerTableSalt ctrl = drop_bit 12 ctrl"

definition H1 :: "64 word \<Rightarrow> 64 word \<Rightarrow> 64 word" where "H1 hash ctrl = drop_bit 7 hash XOR PerTableSalt ctrl"

section \<open>Bit masks\<close>

definition msbs :: "64 word" where "msbs = 0x8080808080808080"
definition lsbs :: "64 word" where "lsbs = 0x0101010101010101"

definition TrailingZeros :: "toolchain \<Rightarrow> 64 word \<Rightarrow> nat" where
  "TrailingZeros tc x = nat (countr_zero tc x)"

definition LowestBitSet :: "toolchain \<Rightarrow> 64 word \<Rightarrow> nat" where
  "LowestBitSet tc m = drop_bit 3 (TrailingZeros tc m)"

definition HighestBitSet :: "toolchain \<Rightarrow> 64 word \<Rightarrow> nat" where
  "HighestBitSet tc m = drop_bit 3 (nat (bit_width tc m - 1))"

definition mask_TrailingZeros :: "toolchain \<Rightarrow> 64 word \<Rightarrow> nat" where
  "mask_TrailingZeros tc m = drop_bit 3 (TrailingZeros tc m)"

definition mask_LeadingZeros :: "toolchain \<Rightarrow> 64 word \<Rightarrow> nat" where
  "mask_LeadingZeros tc m =
     (let total_significant_bits = push_bit 3 8; extra_bits = 64 - total_significant_bits
      in drop_bit 3 (nat (countl_zero tc (push_bit extra_bits m))))"

definition mask_next :: "64 word \<Rightarrow> 64 word" where
  "mask_next m = (let m = m AND msbs in m AND (m - 1))"

lemma word_and_le_right: "unat (x AND y) \<le> unat (y :: 'a::len word)"
  using word_and_le1 [of x y] by (simp add: word_le_nat_alt)

lemma word_and_le_left: "unat (x AND y) \<le> unat (x :: 'a::len word)"
  using word_and_le2 [of x y] by (simp add: word_le_nat_alt)

lemma mask_next_less: "m \<noteq> 0 \<Longrightarrow> unat (mask_next m) < unat m"
proof -
  assume m: "m \<noteq> 0"
  let ?x = "m AND msbs"
  show ?thesis
  proof (cases "?x = 0")
    case True
    then show ?thesis using m by (simp add: mask_next_def unat_gt_0)
  next
    case False
    then have "unat (?x - 1) < unat ?x" by (simp add: unat_minus_one unat_gt_0)
    then show ?thesis using word_and_le_right [of ?x "?x - 1"] word_and_le_left [of m msbs]
      by (simp add: mask_next_def Let_def del: and.assoc)
  qed
qed

text \<open>The values a range-based \<^verbatim>\<open>for\<close> over a mask yields.\<close>

function mask_indices :: "toolchain \<Rightarrow> 64 word \<Rightarrow> nat list" where
  "mask_indices tc m = (if m = 0 then [] else LowestBitSet tc m # mask_indices tc (mask_next m))"
  by pat_completeness auto

termination
  by (relation "measure (\<lambda>(tc, m). unat m)") (use mask_next_less in auto)

declare mask_indices.simps [simp del]

section \<open>The portable group\<close>

definition kWidth :: nat where "kWidth = 8"

definition GroupPortableImpl :: "toolchain \<Rightarrow> byte_order \<Rightarrow> ctrl_t list \<Rightarrow> nat \<Rightarrow> 64 word res" where
  "GroupPortableImpl tc ord ctrl pos = LE_Load64 tc ord ctrl (int pos)"

definition Match :: "64 word \<Rightarrow> ctrl_t \<Rightarrow> 64 word" where
  "Match ctrl hash = (let x = ctrl XOR (lsbs * ucast hash) in (x - lsbs) AND NOT x AND msbs)"

definition MaskEmpty :: "64 word \<Rightarrow> 64 word" where
  "MaskEmpty ctrl = (ctrl AND push_bit 6 (NOT ctrl)) AND msbs"

definition MaskEmptyOrDeleted :: "64 word \<Rightarrow> 64 word" where
  "MaskEmptyOrDeleted ctrl = (ctrl AND push_bit 7 (NOT ctrl)) AND msbs"

definition CountLeadingEmptyOrDeleted :: "toolchain \<Rightarrow> 64 word \<Rightarrow> nat" where
  "CountLeadingEmptyOrDeleted tc ctrl = drop_bit 3 (nat (countr_zero tc ((ctrl OR NOT (drop_bit 7 ctrl)) AND lsbs)))"

definition converted :: "64 word \<Rightarrow> 64 word" where
  "converted ctrl = (let x = ctrl AND msbs in (NOT x + drop_bit 7 x) AND NOT lsbs)"

definition ConvertSpecialToEmptyAndFullToDeleted ::
    "toolchain \<Rightarrow> byte_order \<Rightarrow> 64 word \<Rightarrow> ctrl_t list \<Rightarrow> nat \<Rightarrow> ctrl_t list res" where
  "ConvertSpecialToEmptyAndFullToDeleted tc ord ctrl mem dst = LE_Store64 tc ord mem (int dst) (converted ctrl)"

section \<open>Lanes\<close>

definition lane :: "64 word \<Rightarrow> nat \<Rightarrow> bool" where
  "lane m j \<longleftrightarrow> j < 8 \<and> bit m (8 * j + 7)"

lemma bit_msbs: "bit msbs n \<longleftrightarrow> n < 64 \<and> n mod 8 = 7"
proof -
  have "\<forall>n\<in>set [0..<64]. bit msbs n \<longleftrightarrow> n mod 8 = 7" by code_simp
  then show ?thesis by (cases "n < 64") (auto dest: bit_imp_le_length)
qed

lemma bit_lsbs: "bit lsbs n \<longleftrightarrow> n < 64 \<and> n mod 8 = 0"
proof -
  have "\<forall>n\<in>set [0..<64]. bit lsbs n \<longleftrightarrow> n mod 8 = 0" by code_simp
  then show ?thesis by (cases "n < 64") (auto dest: bit_imp_le_length)
qed

lemma lane_and_msbs [simp]: "lane (m AND msbs) j \<longleftrightarrow> lane m j"
  by (auto simp: lane_def bit_and_iff bit_msbs)

text \<open>A mask that only has lane bits.\<close>

definition lanes_only :: "64 word \<Rightarrow> bool" where
  "lanes_only m \<longleftrightarrow> m AND msbs = m"

lemma lanes_only_and [simp]: "lanes_only (m AND msbs)"
  by (simp add: lanes_only_def and.assoc)

lemma lanes_only_bit:
  assumes "lanes_only m" "bit m n"
  shows "n = 8 * (n div 8) + 7 \<and> lane m (n div 8)"
proof -
  have "bit msbs n" using assms by (metis bit_and_iff lanes_only_def)
  then have "n < 64" "n mod 8 = 7" by (simp_all add: bit_msbs)
  then have "n = 8 * (n div 8) + 7" "n div 8 < 8" by presburger+
  then show ?thesis using assms(2) by (simp add: lane_def)
qed

lemma lanes_only_zero: "lanes_only m \<Longrightarrow> m = 0 \<longleftrightarrow> (\<forall>j. \<not> lane m j)"
  using lanes_only_bit by (auto simp: lane_def bit_eq_iff)

lemma trailing_bit:
  assumes "x \<noteq> (0 :: 'a::len word)"
  shows "bit x (nat_trailing (unat x))" "n < nat_trailing (unat x) \<Longrightarrow> \<not> bit x n"
proof -
  obtain m where m: "unat x = 2 ^ nat_trailing (unat x) * (2 * m + 1)" using word_trailing [OF assms] .
  show "bit x (nat_trailing (unat x))" "n < nat_trailing (unat x) \<Longrightarrow> \<not> bit x n"
    using bit_pred(2) [OF m] by (auto simp: bit_0)
qed

lemma width_bit:
  assumes "x \<noteq> (0 :: 'a::len word)"
  shows "bit x (nat_width (unat x) - 1)" "nat_width (unat x) \<le> n \<Longrightarrow> \<not> bit x n" "0 < nat_width (unat x)"
proof -
  have x: "0 < unat x" using assms by (simp add: unat_gt_0)
  let ?w = "nat_width (unat x)"
  have w: "2 ^ (?w - 1) \<le> unat x" "unat x < 2 ^ ?w" using nat_width_bounds [OF x] by auto
  show "0 < ?w" using x by (simp add: nat_width.simps [of "unat x"])
  then have "unat x div 2 ^ (?w - 1) = 1" using w by (cases ?w) (auto intro!: div_nat_eqI)
  then show "bit x (?w - 1)" by (metis bit_unat bit_iff_odd odd_one)
  show "\<not> bit x n" if "?w \<le> n"
  proof -
    have "unat x < 2 ^ n" using w(2) that by (meson less_le_trans one_le_numeral power_increasing)
    then show ?thesis by (metis bit_unat bit_iff_odd div_less even_zero)
  qed
qed

lemma LowestBitSet:
  assumes "lanes_only m" "m \<noteq> 0"
  shows "lane m (LowestBitSet tc m)" "j < LowestBitSet tc m \<Longrightarrow> \<not> lane m j"
proof -
  let ?t = "nat_trailing (unat m)"
  have L: "LowestBitSet tc m = ?t div 8"
    using assms(2) by (simp add: LowestBitSet_def TrailingZeros_def countr_zero_eq drop_bit_eq_div)
  have t: "?t = 8 * (?t div 8) + 7 \<and> lane m (?t div 8)"
    using lanes_only_bit [OF assms(1) trailing_bit(1) [OF assms(2)]] .
  then show "lane m (LowestBitSet tc m)" using L by simp
  show "\<not> lane m j" if "j < LowestBitSet tc m"
    using trailing_bit(2) [OF assms(2), of "8 * j + 7"] that t L by (auto simp: lane_def)
qed

lemma HighestBitSet:
  assumes "lanes_only m" "m \<noteq> 0"
  shows "lane m (HighestBitSet tc m)" "HighestBitSet tc m < j \<Longrightarrow> \<not> lane m j"
proof -
  let ?w = "nat_width (unat m)"
  have w: "0 < ?w" by (rule width_bit(3) [OF assms(2)])
  have H: "HighestBitSet tc m = (?w - 1) div 8"
    by (simp add: HighestBitSet_def bit_width_eq drop_bit_eq_div nat_diff_distrib)
  have t: "?w - 1 = 8 * ((?w - 1) div 8) + 7 \<and> lane m ((?w - 1) div 8)"
    using lanes_only_bit [OF assms(1) width_bit(1) [OF assms(2)]] .
  then show "lane m (HighestBitSet tc m)" using H by simp
  show "\<not> lane m j" if "HighestBitSet tc m < j"
    using width_bit(2) [OF assms(2), of "8 * j + 7"] that t H w by (auto simp: lane_def)
qed

lemma mask_zeros:
  assumes "lanes_only m" "m \<noteq> 0"
  shows "mask_TrailingZeros tc m = LowestBitSet tc m" "mask_LeadingZeros tc m = 7 - HighestBitSet tc m"
proof -
  let ?w = "nat_width (unat m)"
  have w: "0 < ?w" by (rule width_bit(3) [OF assms(2)])
  have t: "?w - 1 = 8 * ((?w - 1) div 8) + 7" "lane m ((?w - 1) div 8)"
    using lanes_only_bit [OF assms(1) width_bit(1) [OF assms(2)]] by auto
  define k where "k = (?w - 1) div 8"
  have k: "?w = 8 * k + 8" "k \<le> 7" using t w by (auto simp: lane_def k_def)
  have "64 - ?w = 8 * (7 - k)" using k by simp
  then have "(64 - ?w) div 8 = 7 - (?w - 1) div 8" by (simp flip: k_def)
  moreover have "nat (64 - int ?w) = 64 - ?w" by simp
  ultimately show "mask_LeadingZeros tc m = 7 - HighestBitSet tc m"
    by (simp add: mask_LeadingZeros_def HighestBitSet_def bit_width_eq countl_zero_eq drop_bit_eq_div nat_diff_distrib)
qed (simp add: mask_TrailingZeros_def LowestBitSet_def)

lemma lane_mask_next:
  assumes "lanes_only m" "m \<noteq> 0"
  shows "lanes_only (mask_next m)" "lane (mask_next m) j \<longleftrightarrow> lane m j \<and> j \<noteq> LowestBitSet tc m"
proof -
  have n: "mask_next m = m AND (m - 1)" using assms(1) by (simp add: mask_next_def lanes_only_def)
  show "lanes_only (mask_next m)" using assms(1) unfolding n lanes_only_def by (metis and.assoc and.commute)
  obtain q where q: "unat m = 2 ^ nat_trailing (unat m) * (2 * q + 1)" using word_trailing [OF assms(2)] .
  let ?t = "nat_trailing (unat m)"
  have "?t = 8 * (?t div 8) + 7"
    using lanes_only_bit [OF assms(1) trailing_bit(1) [OF assms(2)]] by auto
  moreover have "LowestBitSet tc m = ?t div 8"
    using assms(2) by (simp add: LowestBitSet_def TrailingZeros_def countr_zero_eq drop_bit_eq_div)
  moreover have "bit m (8 * j + 7) \<Longrightarrow> ?t \<le> 8 * j + 7" using trailing_bit(2) [OF assms(2)] by (meson not_less)
  ultimately show "lane (mask_next m) j \<longleftrightarrow> lane m j \<and> j \<noteq> LowestBitSet tc m"
    by (auto simp: n lane_def bit_and_iff bit_pred(1) [OF q])
qed

lemma mask_indices_set: "lanes_only m \<Longrightarrow> set (mask_indices tc m) = {j. lane m j}"
proof (induction tc m rule: mask_indices.induct)
  case (1 tc m)
  show ?case
  proof (cases "m = 0")
    case False
    then show ?thesis
      using 1 lane_mask_next(1) [OF 1(2) False] lane_mask_next(2) [OF 1(2) False, of _ tc] LowestBitSet(1) [OF 1(2) False, of tc]
      by (subst mask_indices.simps) auto
  qed (simp add: mask_indices.simps lane_def)
qed

section \<open>Bytes of a group\<close>

lemma byte_sint:
  fixes b :: "8 word"
  shows "sint b = uint b - (if bit b 7 then 256 else 0)" "0 \<le> uint b" "uint b < 256"
  using sint_split [of 7 b] uint_lt2p [of b] by simp_all

lemma IsFull_iff: "IsFull b \<longleftrightarrow> \<not> bit b 7"
  using byte_sint [of b] by (auto simp: IsFull_def word_sle_eq)

lemma IsEmptyOrDeleted_iff: "IsEmptyOrDeleted b \<longleftrightarrow> bit b 7 \<and> b \<noteq> kSentinel"
proof (cases "bit b 7")
  case True
  have "uint kSentinel = 255" by (simp add: kSentinel_def)
  then have "uint b = 255 \<longleftrightarrow> b = kSentinel" by (metis word_uint_eq_iff)
  moreover have "sint kSentinel = - 1" by (simp add: kSentinel_def)
  ultimately show ?thesis using byte_sint [of b] True by (auto simp: IsEmptyOrDeleted_def word_sless_alt)
next
  case False
  then have "sint b = uint b" using byte_sint(1) [of b] by simp
  moreover have "sint kSentinel = - 1" by (simp add: kSentinel_def)
  ultimately have "\<not> sint b < sint kSentinel" using byte_sint(2) [of b] by linarith
  with False show ?thesis by (simp add: IsEmptyOrDeleted_def word_sless_alt)
qed

definition ctrl_byte :: "ctrl_t \<Rightarrow> bool" where
  "ctrl_byte b \<longleftrightarrow> IsFull b \<or> b = kEmpty \<or> b = kDeleted \<or> b = kSentinel"

lemma ctrl_values:
  "\<not> IsFull kEmpty" "\<not> IsFull kDeleted" "\<not> IsFull kSentinel" "kEmpty \<noteq> kDeleted" "kEmpty \<noteq> kSentinel" "kDeleted \<noteq> kSentinel"
  "ctrl_byte kEmpty" "ctrl_byte kDeleted" "ctrl_byte kSentinel"
  by code_simp+

lemma ctrl_byte_bits:
  assumes "ctrl_byte b"
  shows "bit b 7 \<and> \<not> bit b 1 \<longleftrightarrow> b = kEmpty" "bit b 7 \<and> \<not> bit b 0 \<longleftrightarrow> b = kEmpty \<or> b = kDeleted"
proof -
  have "bit kEmpty 7" "\<not> bit kEmpty 1" "\<not> bit kEmpty 0" "bit kDeleted 7" "bit kDeleted 1" "\<not> bit kDeleted 0"
    "bit kSentinel 7" "bit kSentinel 1" "bit kSentinel 0" by code_simp+
  then show "bit b 7 \<and> \<not> bit b 1 \<longleftrightarrow> b = kEmpty" "bit b 7 \<and> \<not> bit b 0 \<longleftrightarrow> b = kEmpty \<or> b = kDeleted"
    using assms ctrl_values by (auto simp: ctrl_byte_def IsFull_iff)
qed

lemma H2_full: "IsFull (H2 hash)"
  unfolding IsFull_iff H2_def by (simp add: bit_simps)

type_synonym group = "8 word list"

abbreviation group_word :: "group \<Rightarrow> 64 word" where "group_word bs \<equiv> le_word bs"

lemma bit_group: "length bs = 8 \<Longrightarrow> j < 8 \<Longrightarrow> k < 8 \<Longrightarrow> bit (group_word bs) (8 * j + k) = bit (bs ! j) k"
  by (simp add: bit_le_word)

lemma lane_MaskEmpty:
  assumes "length bs = 8" "\<forall>b\<in>set bs. ctrl_byte b"
  shows "lane (MaskEmpty (group_word bs)) j \<longleftrightarrow> j < 8 \<and> bs ! j = kEmpty" "lanes_only (MaskEmpty (group_word bs))"
proof -
  have "bit (group_word bs) (8 * j + 7) = bit (bs ! j) 7" "bit (group_word bs) (8 * j + 1) = bit (bs ! j) 1" if "j < 8"
    using bit_group [OF assms(1) that, of 7] bit_group [OF assms(1) that, of 1] by simp_all
  moreover have "ctrl_byte (bs ! j)" if "j < 8" using assms that by simp
  ultimately show "lane (MaskEmpty (group_word bs)) j \<longleftrightarrow> j < 8 \<and> bs ! j = kEmpty"
    using ctrl_byte_bits(1) [of "bs ! j"] by (auto simp: MaskEmpty_def lane_def bit_and_iff bit_msbs bit_push_bit_iff bit_not_iff add.commute)
qed (simp add: MaskEmpty_def)

lemma lane_MaskEmptyOrDeleted:
  assumes "length bs = 8" "\<forall>b\<in>set bs. ctrl_byte b"
  shows "lane (MaskEmptyOrDeleted (group_word bs)) j \<longleftrightarrow> j < 8 \<and> (bs ! j = kEmpty \<or> bs ! j = kDeleted)"
    "lanes_only (MaskEmptyOrDeleted (group_word bs))"
proof -
  have "bit (group_word bs) (8 * j + 7) = bit (bs ! j) 7" "bit (group_word bs) (8 * j) = bit (bs ! j) 0" if "j < 8"
    using bit_group [OF assms(1) that, of 7] bit_group [OF assms(1) that, of 0] by simp_all
  moreover have "ctrl_byte (bs ! j)" if "j < 8" using assms that by simp
  ultimately show "lane (MaskEmptyOrDeleted (group_word bs)) j \<longleftrightarrow> j < 8 \<and> (bs ! j = kEmpty \<or> bs ! j = kDeleted)"
    using ctrl_byte_bits(2) [of "bs ! j"] by (auto simp: MaskEmptyOrDeleted_def lane_def bit_and_iff bit_msbs bit_push_bit_iff bit_not_iff)
qed (simp add: MaskEmptyOrDeleted_def)

text \<open>Arithmetic on the word, byte by byte: the sum form of the word.\<close>

lemma group_word_Cons: "group_word (b # bs) = ucast b + 256 * group_word bs"
proof -
  have "group_word (b # bs) = ucast b + push_bit 8 (group_word bs)"
    unfolding le_word.simps by (rule disjunctive_add [symmetric]) (auto simp: bit_simps dest: bit_byte)
  then show ?thesis by (simp add: push_bit_eq_mult mult.commute)
qed

lemma group_word_xor:
  "length as = length bs \<Longrightarrow> group_word as XOR group_word bs = group_word (map2 (XOR) as bs)"
  by (rule bit_word_eqI) (auto simp: bit_xor_iff bit_le_word)

lemma replicate_8: "replicate 8 h = [h, h, h, h, h, h, h, h]"
  by (simp add: numeral_eq_Suc)

lemma lsbs_group: "lsbs = group_word (replicate 8 1)"
  by (simp add: lsbs_def replicate_8 group_word_Cons del: le_word.simps(2))

lemma lsbs_mult: "lsbs * ucast h = group_word (replicate 8 (h :: 8 word))"
  by (simp add: lsbs_def replicate_8 group_word_Cons algebra_simps del: le_word.simps(2))

text \<open>A zero byte borrows or is borrowed from: its highest bit is set after the subtraction of \<open>lsbs\<close>.\<close>

lemma bit_group_Cons:
  "bit (ucast (b :: 8 word) + 256 * (y :: 64 word)) n \<longleftrightarrow> (if n < 8 then bit b n else n < 64 \<and> bit y (n - 8))"
proof -
  have "ucast b + push_bit 8 y = ucast b OR push_bit 8 y"
    by (rule disjunctive_add) (auto simp: bit_simps dest: bit_byte)
  moreover have "256 * y = push_bit 8 y" by (simp add: push_bit_eq_mult mult.commute)
  ultimately show ?thesis by (auto simp: bit_simps dest: bit_byte)
qed

lemma byte_diff: "(ucast (b - k) :: 64 word) = ucast (b :: 8 word) - ucast k + (if unat b < unat k then 256 else 0)"
proof -
  have "uint (b - k) = uint b - uint k + (if unat b < unat k then 256 else 0)"
    by (auto simp: uint_sub_if' word_less_def word_le_def simp flip: word_less_nat_alt)
  then have "(of_int (uint (b - k)) :: 64 word) = of_int (uint b - uint k + (if unat b < unat k then 256 else 0))" by simp
  then show ?thesis by (auto split: if_splits)
qed

lemma byte_borrow:
  assumes "c \<in> {0, 1}"
  shows "(ucast (b - 1 - ucast c) :: 64 word) = ucast (b :: 8 word) - 1 - c + 256 * (if unat b < 1 + unat (c :: 64 word) then 1 else 0)"
  using assms byte_diff [of b 1] byte_diff [of b 2] by (auto simp: diff_diff_eq)

lemma zero_byte_borrows:
  "j < length xs \<Longrightarrow> length xs \<le> 8 \<Longrightarrow> xs ! j = 0 \<Longrightarrow> c \<in> {0, 1} \<Longrightarrow>
     bit (group_word xs - group_word (replicate (length xs) 1) - c) (8 * j + 7)"
proof (induction xs arbitrary: j c)
  case (Cons b xs)
  define c' :: "64 word" where "c' = (if unat b < 1 + unat c then 1 else 0)"
  have "group_word (b # xs) - group_word (replicate (length (b # xs)) 1) - c =
      ucast b - 1 - c + 256 * (group_word xs - group_word (replicate (length xs) 1))"
    by (simp add: group_word_Cons algebra_simps del: le_word.simps(2))
  also have "\<dots> = ucast (b - 1 - ucast c) + 256 * (group_word xs - group_word (replicate (length xs) 1) - c')"
    unfolding byte_borrow [OF Cons.prems(4)] c'_def by (simp add: algebra_simps)
  finally have eq: "group_word (b # xs) - group_word (replicate (length (b # xs)) 1) - c =
      ucast (b - 1 - ucast c) + 256 * (group_word xs - group_word (replicate (length xs) 1) - c')" .
  have *: "bit (group_word (b # xs) - group_word (replicate (length (b # xs)) 1) - c) (8 * j + 7) \<longleftrightarrow>
      (if j = 0 then bit (b - 1 - ucast c) 7
       else 8 * j + 7 < 64 \<and> bit (group_word xs - group_word (replicate (length xs) 1) - c') (8 * j - 1))"
    unfolding eq bit_group_Cons by simp
  show ?case
  proof (cases j)
    case 0
    have "bit (0 - 1 - (0 :: 8 word)) 7" "bit (0 - 1 - (1 :: 8 word)) 7" by code_simp+
    with 0 Cons.prems show ?thesis unfolding * by auto
  next
    case (Suc k)
    have "8 * j - 1 = 8 * k + 7" "8 * j + 7 < 64" using Suc Cons.prems by simp_all
    moreover have "bit (group_word xs - group_word (replicate (length xs) 1) - c') (8 * k + 7)"
      using Suc Cons.prems by (intro Cons.IH) (auto simp: c'_def)
    ultimately show ?thesis unfolding * using Suc by (simp add: add.commute)
  qed
qed simp

lemma lane_Match:
  assumes "length bs = 8" "IsFull h"
  shows "lane (Match (group_word bs) h) j \<Longrightarrow> j < 8 \<and> IsFull (bs ! j)"
    "j < 8 \<Longrightarrow> bs ! j = h \<Longrightarrow> lane (Match (group_word bs) h) j"
    "lanes_only (Match (group_word bs) h)"
proof -
  let ?xs = "map2 (XOR) bs (replicate 8 h)"
  have x: "group_word bs XOR (lsbs * ucast h) = group_word ?xs"
    unfolding lsbs_mult using assms(1) by (intro group_word_xor) simp
  have xs: "length ?xs = 8" "j < 8 \<Longrightarrow> ?xs ! j = bs ! j XOR h" for j using assms(1) by simp_all
  have top: "bit (group_word ?xs) (8 * j + 7) \<longleftrightarrow> bit (bs ! j) 7" if "j < 8" for j
    using bit_group [OF xs(1) that, of 7] xs(2) [OF that] assms(2) by (simp add: IsFull_iff bit_xor_iff)
  have M: "Match (group_word bs) h = (group_word ?xs - lsbs) AND NOT (group_word ?xs) AND msbs"
    unfolding Match_def Let_def x ..
  then show "lanes_only (Match (group_word bs) h)" by (simp add: lanes_only_def and.assoc)
  show "j < 8 \<and> IsFull (bs ! j)" if "lane (Match (group_word bs) h) j"
    using that top by (auto simp: M lane_def bit_and_iff bit_not_iff IsFull_iff)
  show "lane (Match (group_word bs) h) j" if "j < 8" "bs ! j = h"
  proof -
    have "bit (group_word ?xs - group_word (replicate (length ?xs) 1) - 0) (8 * j + 7)"
      using that xs by (intro zero_byte_borrows) auto
    then have "bit (group_word ?xs - lsbs) (8 * j + 7)" using xs(1) by (simp add: lsbs_group)
    then show ?thesis using that top [OF that(1)] assms(2)
      by (auto simp: M lane_def bit_and_iff bit_not_iff bit_msbs IsFull_iff)
  qed
qed

text \<open>The conversion before a rehash: a special byte becomes empty, a full one deleted.\<close>

definition convert_byte :: "ctrl_t \<Rightarrow> ctrl_t" where
  "convert_byte b = (if IsFull b then kDeleted else kEmpty)"

lemma group_word_add:
  "length as = length bs \<Longrightarrow> \<forall>(a, b)\<in>set (zip as bs). unat a + unat b < 256 \<Longrightarrow>
     group_word as + group_word bs = group_word (map2 (+) as bs)"
proof (induction as bs rule: list_induct2)
  case (Cons a as b bs)
  have "(ucast (a + b) :: 64 word) = ucast a + ucast b"
  proof -
    have "unat (a + b) = unat a + unat b" using Cons.prems by (simp add: unat_word_ariths)
    then have "(of_nat (unat (a + b)) :: 64 word) = of_nat (unat a + unat b)" by simp
    then show ?thesis by simp
  qed
  moreover have "group_word as + group_word bs = group_word (map2 (+) as bs)" using Cons by simp
  ultimately show ?case by (simp add: group_word_Cons algebra_simps del: le_word.simps(2)) (simp flip: distrib_right)
qed simp

lemma converted_group:
  assumes "length bs = 8"
  shows "converted (group_word bs) = group_word (map convert_byte bs)"
proof -
  let ?t = "\<lambda>b. if IsFull b then 0 else 1 :: 8 word" and ?n = "\<lambda>b. if IsFull b then 0xFF else 0x7F :: 8 word"
  let ?x = "group_word bs AND msbs"
  have b7: "bit (group_word bs) n \<longleftrightarrow> \<not> IsFull (bs ! (n div 8))" if "n < 64" "n mod 8 = 7" for n
    using that assms less_mult_imp_div_less [of n 8 8] by (simp add: bit_le_word IsFull_iff)
  have ff: "(0xFF :: 8 word) = mask 8" "(0x7F :: 8 word) = mask 7" by (simp_all add: mask_eq_exp_minus_1)
  have "drop_bit 7 ?x = group_word (map ?t bs)"
  proof (rule bit_word_eqI)
    fix n assume n: "n < LENGTH(64)"
    have m: "(n + 7) mod 8 = 7 \<longleftrightarrow> n mod 8 = 0" by presburger
    have d: "(n + 7) div 8 = n div 8" "n + 7 < 64" if "n mod 8 = 0"
    proof -
      have "n = 8 * (n div 8)" using that div_mult_mod_eq [of n 8] by simp
      then obtain k where k: "n = 8 * k" ..
      show "(n + 7) div 8 = n div 8" "n + 7 < 64" using k n by simp_all
    qed
    have "bit (drop_bit 7 ?x) n \<longleftrightarrow> n mod 8 = 0 \<and> \<not> IsFull (bs ! (n div 8))"
      using b7 [of "n + 7"] m d by (auto simp: bit_drop_bit_eq bit_and_iff bit_msbs add.commute)
    also have "\<dots> \<longleftrightarrow> bit (group_word (map ?t bs)) n"
      using n assms by (auto simp: bit_le_word bit_1_iff)
    finally show "bit (drop_bit 7 ?x) n = bit (group_word (map ?t bs)) n" .
  qed
  moreover have "NOT ?x = group_word (map ?n bs)"
  proof (rule bit_word_eqI)
    fix n assume n: "n < LENGTH(64)"
    have "n mod 8 < 7 \<or> n mod 8 = 7" using mod_less_divisor [of 8 n] by linarith
    then show "bit (NOT ?x) n = bit (group_word (map ?n bs)) n"
      using n assms b7 [of n] unfolding ff by (auto simp: bit_not_iff bit_and_iff bit_or_iff bit_msbs bit_le_word bit_mask_iff)
  qed
  moreover have "group_word (map ?n bs) + group_word (map ?t bs) = group_word (map2 (+) (map ?n bs) (map ?t bs))"
    by (rule group_word_add) (auto simp: zip_map1 zip_map2 in_set_zip)
  moreover have "map2 (+) (map ?n bs) (map ?t bs) = map (\<lambda>b. if IsFull b then 0xFF else 0x80) bs"
    by (auto simp: list_eq_iff_nth_eq)
  ultimately have "converted (group_word bs) = group_word (map (\<lambda>b. if IsFull b then 0xFF else 0x80) bs) AND NOT lsbs"
    by (simp add: converted_def Let_def)
  also have "\<dots> = group_word (map convert_byte bs)"
  proof (rule bit_word_eqI)
    fix n assume n: "n < LENGTH(64)"
    have "bit (if IsFull b then 0xFF else 0x80 :: 8 word) k \<and> k \<noteq> 0 \<longleftrightarrow> bit (convert_byte b) k" if "k < 8" for b k
    proof -
      have "\<forall>k\<in>set [0..<8]. (bit (0xFF :: 8 word) k \<and> k \<noteq> 0 \<longleftrightarrow> bit kDeleted k) \<and> (bit (0x80 :: 8 word) k \<and> k \<noteq> 0 \<longleftrightarrow> bit kEmpty k)"
        by code_simp
      then show ?thesis using that by (auto simp: convert_byte_def)
    qed
    then show "bit (group_word (map (\<lambda>b. if IsFull b then 0xFF else 0x80) bs) AND NOT lsbs) n = bit (group_word (map convert_byte bs)) n"
      using n assms by (auto simp: bit_and_iff bit_not_iff bit_le_word bit_lsbs)
  qed
  finally show ?thesis .
qed

text \<open>Loading and converting a group of an array.\<close>

lemma GroupPortableImpl_load:
  "pos + 8 \<le> length ctrl \<Longrightarrow> GroupPortableImpl tc ord ctrl pos = Inr (group_word (take 8 (drop pos ctrl)))"
  by (simp add: GroupPortableImpl_def Load_layout mem_load_def in_bounds_def host_word_def)

lemma Convert_store:
  assumes "pos + 8 \<le> length mem" "length bs = 8"
  shows "ConvertSpecialToEmptyAndFullToDeleted tc ord (group_word bs) mem pos =
    Inr (take pos mem @ map convert_byte bs @ drop (pos + 8) mem)"
  using assms by (simp add: ConvertSpecialToEmptyAndFullToDeleted_def converted_group Store_layout mem_store_def
      in_bounds_def host_bytes_def)

end
