(* ===== verification/Probe.thy ===== *)
theory Probe
  imports CtrlGroup
begin

text \<open>
  The probe sequence and the capacities of the hash table (\<^verbatim>\<open>container/internal/raw_hash_set.h\<close>). A \<^verbatim>\<open>size_t\<close> is a
  natural number here; a mask is applied wherever the source applies one, and where the source subtracts
  before masking the difference is taken on integers, whose infinite two's complement agrees with the
  wrapped word under a mask. The lemmas show that the probe visits every group of a table exactly once
  before its index leaves the table, that the capacity functions yield valid capacities, the least
  sufficient one, and that a table sized for a number of elements holds them.
\<close>

section \<open>The probe sequence\<close>

record probe_seq =
  seq_mask :: nat
  seq_offset :: nat
  seq_index :: nat

definition probe_seq_init :: "nat \<Rightarrow> nat \<Rightarrow> probe_seq res" where
  "probe_seq_init hash msk =
     assert ((msk + 1) AND msk = 0) (Inr \<lparr>seq_mask = msk, seq_offset = hash AND msk, seq_index = 0\<rparr>)"

definition offset_at :: "probe_seq \<Rightarrow> nat \<Rightarrow> nat" where
  "offset_at seq i = (seq_offset seq + i) AND seq_mask seq"

definition seq_next :: "probe_seq \<Rightarrow> probe_seq" where
  "seq_next seq =
     (let index = seq_index seq + kWidth
      in seq\<lparr>seq_index := index, seq_offset := (seq_offset seq + index) AND seq_mask seq\<rparr>)"

definition probe :: "64 word \<Rightarrow> nat \<Rightarrow> 64 word \<Rightarrow> probe_seq res" where
  "probe ctrl capacity hash = probe_seq_init (unat (H1 hash ctrl)) capacity"

section \<open>Capacities\<close>

definition IsValidCapacity :: "nat \<Rightarrow> bool" where
  "IsValidCapacity n \<longleftrightarrow> (n + 1) AND n = 0 \<and> n > 0"

definition NumClonedBytes :: nat where "NumClonedBytes = kWidth - 1"

definition NextCapacity :: "nat \<Rightarrow> nat res" where
  "NextCapacity n = assert (IsValidCapacity n \<or> n = 0) (Inr (n * 2 + 1))"

definition NormalizeCapacity :: "toolchain \<Rightarrow> nat \<Rightarrow> nat" where
  "NormalizeCapacity tc n =
     (if n \<noteq> 0 then unat (drop_bit (nat (countl_zero tc (of_nat n :: 64 word))) (NOT 0 :: 64 word)) else 1)"

definition CapacityToGrowth :: "nat \<Rightarrow> nat res" where
  "CapacityToGrowth capacity =
     assert (IsValidCapacity capacity)
     (if kWidth = 8 \<and> capacity = 7 then Inr 6 else Inr (capacity - capacity div 8))"

definition GrowthToLowerboundCapacity :: "nat \<Rightarrow> nat" where
  "GrowthToLowerboundCapacity growth =
     (if kWidth = 8 \<and> growth = 7 then 8 else growth + nat ((int growth - 1) sdiv 7))"

definition is_small :: "nat \<Rightarrow> bool" where
  "is_small capacity \<longleftrightarrow> capacity < kWidth - 1"

section \<open>Masks and valid capacities\<close>

lemma and_mask_mod: "x AND (2 ^ m - 1) = x mod (2 ^ m :: nat)"
  using take_bit_eq_mask [of m x] by (simp only: mask_eq_exp_minus_1 take_bit_eq_mod)

lemma int_and_mask_mod: "x AND (2 ^ m - 1) = x mod (2 ^ m :: int)"
  by (simp flip: mask_eq_exp_minus_1 take_bit_eq_mask add: take_bit_eq_mod)

lemma IsValidCapacity_iff: "IsValidCapacity n \<longleftrightarrow> (\<exists>m>0. n = 2 ^ m - 1)"
proof
  assume v: "IsValidCapacity n"
  then have n: "0 < n" "(n + 1) AND n = 0" by (auto simp: IsValidCapacity_def)
  have "2 ^ nat_width n = n + 1"
  proof (rule ccontr)
    assume ne: "2 ^ nat_width n \<noteq> n + 1"
    have b: "2 ^ (nat_width n - 1) \<le> n" "n < 2 ^ nat_width n" using nat_width_bounds [OF n(1)] by auto
    then have "n + 1 < 2 ^ nat_width n" using ne by simp
    moreover have w: "0 < nat_width n" using n by (simp add: nat_width.simps [of n])
    ultimately have "n div 2 ^ (nat_width n - 1) = 1" "(n + 1) div 2 ^ (nat_width n - 1) = 1"
      using b by (cases "nat_width n"; auto intro!: div_nat_eqI)+
    then have "bit (n + 1) (nat_width n - 1)" "bit n (nat_width n - 1)" by (simp_all add: bit_iff_odd)
    then have "bit ((n + 1) AND n) (nat_width n - 1)" unfolding bit_and_iff by blast
    then show False using n(2) by simp
  qed
  moreover have "0 < nat_width n" using n by (simp add: nat_width.simps [of n])
  ultimately show "\<exists>m>0. n = 2 ^ m - 1" by (metis diff_add_inverse2)
next
  assume "\<exists>m>0. n = 2 ^ m - 1"
  then obtain m where m: "0 < m" "n = 2 ^ m - 1" by blast
  then have "(n + 1) AND n = 2 ^ m AND (2 ^ m - 1)" by simp
  also have "\<dots> = 2 ^ m mod 2 ^ m" by (rule and_mask_mod)
  finally have "(n + 1) AND n = 0" by simp
  moreover have "0 < n" using m one_less_power [of "2 :: nat" m] by simp
  ultimately show "IsValidCapacity n" by (simp add: IsValidCapacity_def)
qed

lemma valid_capacityE:
  assumes "IsValidCapacity c"
  obtains m where "0 < m" "c + 1 = 2 ^ m"
proof -
  obtain m where "0 < m" "c = 2 ^ m - 1" using assms IsValidCapacity_iff [of c] by blast
  then show ?thesis by (intro that [of m]) simp_all
qed

lemma valid_capacityI: "0 < m \<Longrightarrow> c + 1 = 2 ^ m \<Longrightarrow> IsValidCapacity c"
  using IsValidCapacity_iff [of c] by (metis add_diff_cancel_right')

lemma NextCapacity_valid:
  assumes "IsValidCapacity n \<or> n = 0"
  shows "\<exists>n'. NextCapacity n = Inr n' \<and> IsValidCapacity n' \<and> n < n'"
proof -
  obtain m where "n = 2 ^ m - 1" using assms IsValidCapacity_iff [of n] by (metis diff_self_eq_0 power_0)
  then have "n + 1 = 2 ^ m" by simp
  then have "n * 2 + 1 = 2 ^ Suc m - 1" by simp
  then have "IsValidCapacity (n * 2 + 1)" using IsValidCapacity_iff [of "n * 2 + 1"] by blast
  then show ?thesis using assms by (auto simp: NextCapacity_def assert_def)
qed

lemma NormalizeCapacity_eq:
  assumes "n < 2 ^ 64"
  shows "NormalizeCapacity tc n = (if n = 0 then 1 else 2 ^ nat_width n - 1)"
proof (cases "n = 0")
  case False
  have "unat (of_nat n :: 64 word) = n" using assms by (intro unat_of_nat_small) simp
  then have c: "countl_zero tc (of_nat n :: 64 word) = 64 - int (nat_width n)" by (simp add: countl_zero_eq)
  have w: "nat_width n \<le> 64" using assms by (simp add: nat_width_le_iff)
  have "unat (drop_bit k (NOT 0 :: 64 word)) = 2 ^ (64 - k) - 1" if "k \<le> 64" for k
  proof -
    have "unat (NOT 0 :: 64 word) = 2 ^ 64 - 1" by (simp add: unsigned_minus_1_eq_mask mask_eq_exp_minus_1)
    moreover have e: "(2 ^ 64 :: nat) = 2 ^ (64 - k) * 2 ^ k" using that by (simp flip: power_add)
    have "(2 ^ (64 - k) * 2 ^ k - 1) div 2 ^ k = (2 ^ (64 - k) - 1 :: nat)"
      by (intro div_nat_eqI) (simp_all add: algebra_simps diff_le_mono2)
    ultimately show ?thesis unfolding unat_drop_bit_div e by simp
  qed
  from this [of "64 - nat_width n"] have "unat (drop_bit (64 - nat_width n) (NOT 0 :: 64 word)) = 2 ^ nat_width n - 1" using w by simp
  moreover have "nat (64 - int (nat_width n)) = 64 - nat_width n" by simp
  ultimately show ?thesis using False by (simp add: NormalizeCapacity_def c)
qed (simp add: NormalizeCapacity_def)

lemma NormalizeCapacity_least:
  assumes "n < 2 ^ 64"
  shows "IsValidCapacity (NormalizeCapacity tc n)" "n \<le> NormalizeCapacity tc n"
    "IsValidCapacity c \<Longrightarrow> n \<le> c \<Longrightarrow> NormalizeCapacity tc n \<le> c"
proof -
  have w: "0 < nat_width n" if "n \<noteq> 0" using that by (simp add: nat_width.simps [of n])
  have "IsValidCapacity 1" by code_simp
  moreover have "IsValidCapacity (2 ^ nat_width n - 1)" if "n \<noteq> 0" using w [OF that] by (intro valid_capacityI) simp_all
  ultimately show "IsValidCapacity (NormalizeCapacity tc n)" by (simp add: NormalizeCapacity_eq [OF assms])
  show "n \<le> NormalizeCapacity tc n"
    using nat_width_bounds [of n] by (auto simp: NormalizeCapacity_eq [OF assms])
  show "NormalizeCapacity tc n \<le> c" if "IsValidCapacity c" "n \<le> c"
  proof -
    obtain m where m: "0 < m" "c + 1 = 2 ^ m" using valid_capacityE [OF \<open>IsValidCapacity c\<close>] by metis
    then have "n < 2 ^ m" using that(2) by linarith
    then have "nat_width n \<le> m" by (simp add: nat_width_le_iff)
    then have "2 ^ nat_width n \<le> c + 1" unfolding m(2) by (simp add: power_increasing)
    moreover have "1 \<le> c" using that(1) by (auto simp: IsValidCapacity_def)
    ultimately show ?thesis by (simp add: NormalizeCapacity_eq [OF assms] le_diff_conv)
  qed
qed

lemma CapacityToGrowth_eq:
  assumes "IsValidCapacity c"
  shows "CapacityToGrowth c = Inr (if c = 7 then 6 else c - c div 8)"
  using assms by (simp add: CapacityToGrowth_def assert_def kWidth_def)

definition growth :: "nat \<Rightarrow> nat" where
  "growth c = (if c = 7 then 6 else c - c div 8)"

text \<open>A table sized for a number of elements can hold them.\<close>

lemma sized_for:
  assumes "GrowthToLowerboundCapacity g < 2 ^ 64"
  shows "g \<le> growth (NormalizeCapacity tc (GrowthToLowerboundCapacity g))"
proof -
  define l where "l = GrowthToLowerboundCapacity g"
  define c where "c = NormalizeCapacity tc l"
  have c: "IsValidCapacity c" "l \<le> c" using NormalizeCapacity_least(1,2) assms by (simp_all add: c_def l_def)
  obtain m where m: "0 < m" "c + 1 = 2 ^ m" using c(1) by (rule valid_capacityE)
  have l: "l = (if g = 7 then 8 else g + (g - 1) div 7)"
  proof (cases "g = 0")
    case False
    then have g: "int g - 1 = int (g - 1)" by simp
    have "int k sdiv 7 = int (k div 7)" for k by (cases "k = 0") (simp_all add: signed_divide_int_def)
    then have "(int g - 1) sdiv 7 = int ((g - 1) div 7)" unfolding g .
    then show ?thesis by (simp add: l_def GrowthToLowerboundCapacity_def kWidth_def)
  qed (simp add: l_def GrowthToLowerboundCapacity_def kWidth_def signed_divide_int_def)
  show ?thesis unfolding l_def [symmetric] c_def [symmetric]
  proof (cases "m \<le> 3")
    case True
    then have "m \<in> {1, 2, 3}" using m(1) by auto
    then have "c = 1 \<or> c = 3 \<or> c = 7" using m(2) by auto
    then show "g \<le> growth c" using c(2) l by (auto simp: growth_def split: if_splits)
  next
    case False
    define j where "j = m - 3"
    have j: "m = j + 3" "1 \<le> j" using False by (simp_all add: j_def)
    define K :: nat where "K = 2 ^ j"
    have "2 ^ 1 \<le> K" unfolding K_def using j(2) by (rule power_increasing) simp
    then have K: "c = 8 * K - 1" "2 \<le> K" using m j by (simp_all add: K_def power_add)
    then have "c = 8 * (K - 1) + 7" by simp
    then have "c div 8 = K - 1" "c \<noteq> 7" using K(2) by simp_all
    then have gr: "growth c = 7 * K" using K by (simp add: growth_def)
    have "g \<le> 7 * K"
    proof (rule ccontr)
      assume "\<not> g \<le> 7 * K"
      then have "7 * K \<le> g - 1" by simp
      then have "K \<le> (g - 1) div 7" by (simp add: less_eq_div_iff_mult_less_eq mult.commute)
      then have "8 * K < l" using l \<open>\<not> g \<le> 7 * K\<close> K(2) by auto
      then show False using c(2) K by simp
    qed
    then show "g \<le> growth c" unfolding gr .
  qed
qed

section \<open>Every group is visited once\<close>

definition triangle :: "nat \<Rightarrow> nat" where
  "triangle n = n * (n + 1) div 2"

lemma triangle_Suc: "triangle (Suc n) = triangle n + Suc n"
proof -
  have "Suc n * (Suc n + 1) = n * (n + 1) + 2 * Suc n" by simp
  then show ?thesis unfolding triangle_def using div_mult_self2 [of 2 "n * (n + 1)" "Suc n"] by (simp only:)
qed

lemma triangle_double: "2 * triangle n = n * (n + 1)"
  by (simp add: triangle_def)

lemma triangle_inj:
  assumes "a < 2 ^ q" "b < 2 ^ q" "triangle a mod 2 ^ q = triangle b mod 2 ^ q"
  shows "a = b"
proof -
  have aux: False if ab: "a < b" "b < 2 ^ q" "triangle a mod 2 ^ q = triangle b mod 2 ^ q" for a b :: nat
  proof -
    have "triangle a \<le> triangle b" unfolding triangle_def using ab(1) by (intro div_le_mono mult_le_mono) auto
    then have "2 ^ q dvd triangle b - triangle a" using ab(3) by (metis mod_eq_dvd_iff_nat)
    then have "2 * 2 ^ q dvd 2 * (triangle b - triangle a)" by simp
    moreover have "2 * (triangle b - triangle a) = (b - a) * (a + b + 1)"
    proof -
      obtain k where k: "b = a + k" using ab(1) less_imp_add_positive by blast
      have "2 * (triangle b - triangle a) = b * (b + 1) - a * (a + 1)" by (simp add: diff_mult_distrib2 triangle_double)
      also have "\<dots> = k * (a + b + 1)" unfolding k by (simp add: algebra_simps)
      finally show ?thesis using k by simp
    qed
    ultimately have d: "2 ^ Suc q dvd (b - a) * (a + b + 1)" by simp
    show False
    proof (cases "even (b - a)")
      case True
      then have "odd (a + b + 1)" using ab(1) by simp
      then have "coprime (2 ^ Suc q) (a + b + 1)" by (simp add: coprime_commute)
      then have "2 ^ Suc q dvd b - a" using d by (metis coprime_dvd_mult_left_iff)
      then have "2 ^ Suc q \<le> b - a" using ab(1) by (intro dvd_imp_le) auto
      then show False using ab(2) by simp
    next
      case False
      then have "coprime (2 ^ Suc q) (b - a)" by (simp add: coprime_commute)
      then have "2 ^ Suc q dvd a + b + 1" using d by (metis coprime_dvd_mult_right_iff)
      then have "2 ^ Suc q \<le> a + b + 1" by (intro dvd_imp_le) auto
      then show False using ab by simp
    qed
  qed
  show ?thesis using aux [of a b] aux [of b a] assms by (cases a b rule: linorder_cases) auto
qed

lemma triangle_onto: "r < 2 ^ q \<Longrightarrow> \<exists>n<2 ^ q. triangle n mod 2 ^ q = r"
proof -
  assume r: "r < 2 ^ q"
  let ?f = "\<lambda>n. triangle n mod 2 ^ q"
  have "inj_on ?f {..<2 ^ q}"
  proof (rule inj_onI)
    fix a b :: nat assume "a \<in> {..<2 ^ q}" "b \<in> {..<2 ^ q}" "?f a = ?f b"
    then show "a = b" using triangle_inj [of a q b] by simp
  qed
  then have "card (?f ` {..<2 ^ q}) = 2 ^ q" by (simp add: card_image)
  moreover have "?f ` {..<2 ^ q} \<subseteq> {..<2 ^ q}" by auto
  ultimately have "?f ` {..<2 ^ q} = {..<2 ^ q}" by (intro card_subset_eq) auto
  then show ?thesis using r by (metis (no_types, lifting) imageE lessThan_iff)
qed

text \<open>The state of the sequence after some steps.\<close>

definition probe_offset :: "nat \<Rightarrow> nat \<Rightarrow> nat \<Rightarrow> nat" where
  "probe_offset cap h n = (h + 8 * triangle n) mod (cap + 1)"

definition seq_at :: "nat \<Rightarrow> nat \<Rightarrow> nat \<Rightarrow> probe_seq" where
  "seq_at cap h n = \<lparr>seq_mask = cap, seq_offset = probe_offset cap h n, seq_index = 8 * n\<rparr>"

definition table_capacity :: "nat \<Rightarrow> bool" where
  "table_capacity cap \<longleftrightarrow> IsValidCapacity cap \<or> cap = 0"

lemma table_capacity_pow: "table_capacity cap \<longleftrightarrow> (\<exists>m. cap + 1 = 2 ^ m)"
proof
  assume "table_capacity cap"
  then show "\<exists>m. cap + 1 = 2 ^ m" unfolding table_capacity_def
    by (metis add_0 power_0 valid_capacityE)
next
  assume "\<exists>m. cap + 1 = 2 ^ m"
  then obtain m where m: "cap + 1 = 2 ^ m" ..
  show "table_capacity cap"
  proof (cases m)
    case 0
    with m show ?thesis by (simp add: table_capacity_def)
  next
    case (Suc k)
    with m show ?thesis using valid_capacityI [of m cap] by (simp add: table_capacity_def)
  qed
qed

lemma and_capacity: "table_capacity cap \<Longrightarrow> x AND cap = x mod (cap + 1)"
  using and_mask_mod table_capacity_pow by (metis add_diff_cancel_right')

lemma int_and_capacity: "table_capacity cap \<Longrightarrow> i AND int cap = i mod int (cap + 1)"
proof -
  assume "table_capacity cap"
  then obtain m where m: "cap + 1 = 2 ^ m" using table_capacity_pow by blast
  then have "int cap = 2 ^ m - 1" by (metis add_diff_cancel_right' of_nat_1 of_nat_add of_nat_numeral of_nat_power)
  moreover have "int (cap + 1) = 2 ^ m" unfolding m by simp
  ultimately show ?thesis by (simp only: int_and_mask_mod)
qed

lemma probe_seq_at: "table_capacity cap \<Longrightarrow> probe ctrl cap hash = Inr (seq_at cap (unat (H1 hash ctrl)) 0)"
  by (simp add: probe_def probe_seq_init_def assert_def and_capacity seq_at_def probe_offset_def triangle_def)

lemma seq_next_at: "table_capacity cap \<Longrightarrow> seq_next (seq_at cap h n) = seq_at cap h (Suc n)"
  by (simp add: seq_next_def seq_at_def kWidth_def and_capacity probe_offset_def triangle_Suc mod_simps)
    (simp add: algebra_simps)

lemma offset_at_at: "table_capacity cap \<Longrightarrow> offset_at (seq_at cap h n) i = (probe_offset cap h n + i) mod (cap + 1)"
  by (simp add: offset_at_def seq_at_def and_capacity)

lemma probe_offset_le: "probe_offset cap h n \<le> cap"
  using mod_less_divisor [of "cap + 1" "h + 8 * triangle n"] by (simp add: probe_offset_def)

text \<open>The position \<open>i\<close> lies in exactly one of the groups the probe looks at.\<close>

definition in_group :: "nat \<Rightarrow> nat \<Rightarrow> nat \<Rightarrow> nat \<Rightarrow> bool" where
  "in_group cap h n i \<longleftrightarrow> (\<exists>j<8. i = (probe_offset cap h n + j) mod (cap + 1))"

lemma mod_wrap: "i \<le> cap \<Longrightarrow> (i + (cap + 1)) mod (cap + 1) = (i :: nat)"
  by (simp only: mod_add_self2) simp

lemma probe_covers:
  assumes "IsValidCapacity cap" "7 \<le> cap" "i \<le> cap"
  shows "\<exists>n. 8 * n \<le> cap \<and> in_group cap h n i"
proof -
  obtain m where m: "0 < m" "cap + 1 = 2 ^ m" using valid_capacityE [OF assms(1)] by metis
  have "3 \<le> m"
  proof (rule ccontr)
    assume "\<not> 3 \<le> m"
    then have "(2::nat) ^ m \<le> 2 ^ 2" by (intro power_increasing) auto
    then show False using m(2) assms(2) by simp
  qed
  define q where "q = m - 3"
  have "m = 3 + q" using \<open>3 \<le> m\<close> by (simp add: q_def)
  then have cap: "cap + 1 = 8 * 2 ^ q" using m(2) by (simp add: power_add)
  define d where "d = (i + (cap + 1) - h mod (cap + 1)) mod (cap + 1)"
  have hm: "h mod (cap + 1) \<le> cap" using mod_less_divisor [of "cap + 1" h] by simp
  have d: "(h + d) mod (cap + 1) = i"
  proof -
    have "(h + d) mod (cap + 1) = (h mod (cap + 1) + (i + (cap + 1) - h mod (cap + 1))) mod (cap + 1)"
      unfolding d_def by (simp only: mod_add_left_eq mod_add_right_eq)
    also have "h mod (cap + 1) + (i + (cap + 1) - h mod (cap + 1)) = i + (cap + 1)"
      by (rule le_add_diff_inverse) (use hm in linarith)
    also have "\<dots> mod (cap + 1) = i" using assms(3) by (rule mod_wrap)
    finally show ?thesis .
  qed
  have "d < 8 * 2 ^ q" unfolding d_def cap [symmetric] by simp
  then have "d div 8 < 2 ^ q" by (simp add: less_mult_imp_div_less mult.commute)
  then obtain n where n: "n < 2 ^ q" "triangle n mod 2 ^ q = d div 8" using triangle_onto by blast
  have "8 * triangle n mod (8 * 2 ^ q) = 8 * (d div 8)" using n(2) by (simp only: mult_mod_right [symmetric])
  then have "(h + 8 * triangle n + d mod 8) mod (cap + 1) = (h + 8 * (d div 8) + d mod 8) mod (cap + 1)"
    unfolding cap by (metis mod_add_cong mod_add_left_eq mod_add_right_eq)
  also have "\<dots> = i" using d by (simp add: add.assoc)
  finally have "i = (probe_offset cap h n + d mod 8) mod (cap + 1)" by (simp add: probe_offset_def mod_simps)
  moreover have "8 * n \<le> cap" using n(1) cap by simp
  ultimately show ?thesis unfolding in_group_def by (metis mod_less_divisor zero_less_numeral)
qed

lemma probe_covers_small:
  assumes "table_capacity cap" "cap < 8" "i \<le> cap"
  shows "in_group cap h 0 i"
proof -
  let ?o = "probe_offset cap h 0"
  have o: "?o \<le> cap" by (rule probe_offset_le)
  define j where "j = (i + (cap + 1) - ?o) mod (cap + 1)"
  have "(?o + j) mod (cap + 1) = (?o + (i + (cap + 1) - ?o)) mod (cap + 1)" unfolding j_def by (simp only: mod_add_right_eq)
  also have "?o + (i + (cap + 1) - ?o) = i + (cap + 1)" using o by simp
  also have "\<dots> mod (cap + 1) = i" using assms(3) by (rule mod_wrap)
  finally have "i = (?o + j) mod (cap + 1)" ..
  moreover have "j < 8" using assms(2) mod_less_divisor [of "cap + 1" "i + (cap + 1) - ?o"] unfolding j_def by linarith
  ultimately show ?thesis unfolding in_group_def by blast
qed

end
