(* ===== verification/RawHashSet.thy ===== *)
theory RawHashSet
  imports Probe
begin

text \<open>
  The hash table behind \<^verbatim>\<open>HashMap\<close>: \<^verbatim>\<open>raw_hash_set\<close> and \<^verbatim>\<open>raw_hash_map\<close> (\<^verbatim>\<open>container/internal/raw_hash_set.h\<close>,
  \<^verbatim>\<open>raw_hash_set.cc\<close>, \<^verbatim>\<open>raw_hash_map.h\<close>). The record \<open>table\<close> is \<^verbatim>\<open>CommonFields\<close> with the arrays it points to: the
  control bytes and their address (which salts the hash), the slots (\<open>None\<close> is raw memory), the
  capacity, the number of elements, the growth left; and what the operations take from their
  surroundings, the thread-local counter of \<^verbatim>\<open>RandomSeed\<close> and the number of allocations made so far.
  The record \<open>policy\<close> holds the hash function and what the build and the system fix: toolchain, byte
  order, the address of the counter, the address every allocation returns. Assertions are enabled, the
  sampling of tables and the generation counters of sanitizer builds are not compiled in. An access
  outside an array, or to raw memory, is an error.
\<close>

section \<open>State\<close>

record 'k policy =
  p_tc :: toolchain
  p_ord :: byte_order
  p_hash :: "'k \<Rightarrow> 64 word"
  p_counter_at :: "64 word"
  p_alloc :: "nat \<Rightarrow> 64 word"

record ('k, 'v) table =
  control :: "ctrl_t list"
  control_at :: "64 word"
  slot_array :: "('k \<times> 'v) option list"
  capacity :: nat
  tab_size :: nat
  growth_left :: nat
  counter :: "64 word"
  allocs :: nat

definition kEmptyGroup :: "ctrl_t list" where
  "kEmptyGroup = replicate 16 0 @ [kSentinel] @ replicate 15 kEmpty"

definition EmptyGroup :: "ctrl_t list" where "EmptyGroup = drop 16 kEmptyGroup"

definition CommonFields :: "64 word \<Rightarrow> 64 word \<Rightarrow> nat \<Rightarrow> ('k, 'v) table" where
  "CommonFields addr cnt n =
     \<lparr>control = EmptyGroup, control_at = addr, slot_array = [], capacity = 0, tab_size = 0, growth_left = 0,
      counter = cnt, allocs = n\<rparr>"

definition increment_size :: "('k, 'v) table \<Rightarrow> ('k, 'v) table res" where
  "increment_size t = assert (tab_size t < capacity t) (Inr (t\<lparr>tab_size := tab_size t + 1\<rparr>))"

definition decrement_size :: "('k, 'v) table \<Rightarrow> ('k, 'v) table res" where
  "decrement_size t = assert (tab_size t > 0) (Inr (t\<lparr>tab_size := tab_size t - 1\<rparr>))"

definition set_capacity :: "('k, 'v) table \<Rightarrow> nat \<Rightarrow> ('k, 'v) table res" where
  "set_capacity t c = assert (c = 0 \<or> IsValidCapacity c) (Inr (t\<lparr>capacity := c\<rparr>))"

text \<open>Reading a control byte, the key of a slot, writing a slot.\<close>

definition ctrl_at :: "('k, 'v) table \<Rightarrow> nat \<Rightarrow> ctrl_t res" where
  "ctrl_at t i = (if i < length (control t) then Inr (control t ! i) else Inl BadAccess)"

definition slot_at :: "('k, 'v) table \<Rightarrow> nat \<Rightarrow> ('k \<times> 'v) res" where
  "slot_at t i =
     (if i < length (slot_array t) then case slot_array t ! i of Some e \<Rightarrow> Inr e | None \<Rightarrow> Inl BadAccess
      else Inl BadAccess)"

definition set_slot :: "('k, 'v) table \<Rightarrow> nat \<Rightarrow> ('k \<times> 'v) option \<Rightarrow> ('k, 'v) table res" where
  "set_slot t i e =
     (if i < length (slot_array t) then Inr (t\<lparr>slot_array := (slot_array t)[i := e]\<rparr>) else Inl BadAccess)"

definition load_group :: "'k policy \<Rightarrow> ('k, 'v) table \<Rightarrow> nat \<Rightarrow> 64 word res" where
  "load_group P t pos = GroupPortableImpl (p_tc P) (p_ord P) (control t) pos"

definition SetCtrl :: "('k, 'v) table \<Rightarrow> nat \<Rightarrow> ctrl_t \<Rightarrow> ('k, 'v) table res" where
  "SetCtrl t i h =
     assert (i < capacity t)
     (let mirror = nat ((int i - int NumClonedBytes) AND int (capacity t)) + (NumClonedBytes AND capacity t)
      in if i < length (control t) \<and> mirror < length (control t)
         then Inr (t\<lparr>control := (control t)[i := h, mirror := h]\<rparr>) else Inl BadAccess)"

text \<open>A subtraction of sizes; a difference below zero would wrap in the source and is an error here.\<close>

definition size_minus :: "nat \<Rightarrow> nat \<Rightarrow> nat res" where
  "size_minus a b = (if b \<le> a then Inr (a - b) else Inl Underflow)"

definition ResetGrowthLeft :: "('k, 'v) table \<Rightarrow> ('k, 'v) table res" where
  "ResetGrowthLeft t =
     rbind (CapacityToGrowth (capacity t)) (\<lambda>g.
     rbind (size_minus g (tab_size t)) (\<lambda>left.
     Inr (t\<lparr>growth_left := left\<rparr>)))"

definition ResetCtrl :: "('k, 'v) table \<Rightarrow> ('k, 'v) table res" where
  "ResetCtrl t =
     ResetGrowthLeft (t\<lparr>control := (replicate (capacity t + 1 + NumClonedBytes) kEmpty)[capacity t := kSentinel]\<rparr>)"

definition InitializeSlots :: "'k policy \<Rightarrow> ('k, 'v) table \<Rightarrow> ('k, 'v) table res" where
  "InitializeSlots P t =
     assert (capacity t \<noteq> 0)
     (ResetCtrl (t\<lparr>control_at := p_alloc P (allocs t), allocs := allocs t + 1, slot_array := replicate (capacity t) None\<rparr>))"

section \<open>Probing\<close>

definition table_probe :: "('k, 'v) table \<Rightarrow> 64 word \<Rightarrow> probe_seq res" where
  "table_probe t hash = probe (control_at t) (capacity t) hash"

definition RandomSeed :: "'k policy \<Rightarrow> ('k, 'v) table \<Rightarrow> 64 word \<times> ('k, 'v) table" where
  "RandomSeed P t = (let value = counter t + 1 in (value XOR p_counter_at P, t\<lparr>counter := value\<rparr>))"

definition ShouldInsertBackwards :: "'k policy \<Rightarrow> ('k, 'v) table \<Rightarrow> 64 word \<Rightarrow> bool \<times> ('k, 'v) table" where
  "ShouldInsertBackwards P t hash =
     (let (seed, t) = RandomSeed P t in (unat (H1 hash (control_at t) XOR seed) mod 13 > 6, t))"

text \<open>The loop ends because the index grows and is asserted to stay in the table.\<close>

function first_non_full_loop :: "'k policy \<Rightarrow> ('k, 'v) table \<Rightarrow> 64 word \<Rightarrow> probe_seq \<Rightarrow> ((nat \<times> nat) \<times> ('k, 'v) table) res" where
  "first_non_full_loop P t hash seq =
     rbind (load_group P t (seq_offset seq)) (\<lambda>g.
     let m = MaskEmptyOrDeleted g in
     if m \<noteq> 0 then
       let (back, t) = (if \<not> is_small (capacity t) then ShouldInsertBackwards P t hash else (False, t)) in
       if back then Inr ((offset_at seq (HighestBitSet (p_tc P) m), seq_index seq), t)
       else Inr ((offset_at seq (LowestBitSet (p_tc P) m), seq_index seq), t)
     else
       let seq = seq_next seq in
       if seq_index seq \<le> capacity t then first_non_full_loop P t hash seq else Inl AssertFailed)"
  by pat_completeness auto

termination
  by (relation "measure (\<lambda>(P, t, hash, seq). capacity t - seq_index seq)") (auto simp: seq_next_def Let_def kWidth_def)

declare first_non_full_loop.simps [simp del]

definition find_first_non_full :: "'k policy \<Rightarrow> ('k, 'v) table \<Rightarrow> 64 word \<Rightarrow> ((nat \<times> nat) \<times> ('k, 'v) table) res" where
  "find_first_non_full P t hash = rbind (table_probe t hash) (first_non_full_loop P t hash)"

text \<open>The matches of a group, in order, compared with the key.\<close>

fun match_loop :: "('k, 'v) table \<Rightarrow> 'k \<Rightarrow> probe_seq \<Rightarrow> nat list \<Rightarrow> nat option res" where
  "match_loop t key seq [] = Inr None"
| "match_loop t key seq (i # is) =
     rbind (slot_at t (offset_at seq i)) (\<lambda>e.
     if fst e = key then Inr (Some (offset_at seq i)) else match_loop t key seq is)"

function find_loop :: "'k policy \<Rightarrow> ('k, 'v) table \<Rightarrow> 'k \<Rightarrow> 64 word \<Rightarrow> probe_seq \<Rightarrow> nat option res" where
  "find_loop P t key hash seq =
     rbind (load_group P t (seq_offset seq)) (\<lambda>g.
     rbind (match_loop t key seq (mask_indices (p_tc P) (Match g (H2 hash)))) (\<lambda>found.
     if found \<noteq> None then Inr found
     else if MaskEmpty g \<noteq> 0 then Inr None
     else
       let seq = seq_next seq in
       if seq_index seq \<le> capacity t then find_loop P t key hash seq else Inl AssertFailed))"
  by pat_completeness auto

termination
  by (relation "measure (\<lambda>(P, t, key, hash, seq). capacity t - seq_index seq)") (auto simp: seq_next_def Let_def kWidth_def)

declare find_loop.simps [simp del]

text \<open>An iterator is the index of its slot, \<open>None\<close> for \<^verbatim>\<open>end()\<close>.\<close>

definition find_hash :: "'k policy \<Rightarrow> ('k, 'v) table \<Rightarrow> 'k \<Rightarrow> 64 word \<Rightarrow> nat option res" where
  "find_hash P t key hash = rbind (table_probe t hash) (find_loop P t key hash)"

definition find_key :: "'k policy \<Rightarrow> ('k, 'v) table \<Rightarrow> 'k \<Rightarrow> nat option res" where
  "find_key P t key = find_hash P t key (p_hash P key)"

definition contains :: "'k policy \<Rightarrow> ('k, 'v) table \<Rightarrow> 'k \<Rightarrow> bool res" where
  "contains P t key = rbind (find_key P t key) (\<lambda>it. Inr (it \<noteq> None))"

definition count_key :: "'k policy \<Rightarrow> ('k, 'v) table \<Rightarrow> 'k \<Rightarrow> nat res" where
  "count_key P t key = rbind (find_key P t key) (\<lambda>it. Inr (if it = None then 0 else 1))"

section \<open>Rehashing\<close>

definition resize_slot :: "'k policy \<Rightarrow> ctrl_t list \<Rightarrow> ('k \<times> 'v) option list \<Rightarrow> nat \<Rightarrow> ('k, 'v) table \<Rightarrow> ('k, 'v) table res" where
  "resize_slot P old_ctrl old_slots i t =
     (if \<not> (i < length old_ctrl \<and> i < length old_slots) then Inl BadAccess
      else if IsFull (old_ctrl ! i) then
        case old_slots ! i of None \<Rightarrow> Inl BadAccess
        | Some e \<Rightarrow>
            let hash = p_hash P (fst e) in
            rbind (find_first_non_full P t hash) (\<lambda>((new_i, probe_length), t).
            rbind (SetCtrl t new_i (H2 hash)) (\<lambda>t.
            set_slot t new_i (Some e)))
      else Inr t)"

definition resize :: "'k policy \<Rightarrow> ('k, 'v) table \<Rightarrow> nat \<Rightarrow> ('k, 'v) table res" where
  "resize P t new_capacity =
     assert (IsValidCapacity new_capacity)
     (let old_ctrl = control t; old_slots = slot_array t; old_capacity = capacity t in
      rbind (set_capacity t new_capacity) (\<lambda>t.
      rbind (InitializeSlots P t) (\<lambda>t.
      rfold (resize_slot P old_ctrl old_slots) [0..<old_capacity] t)))"

text \<open>The control bytes of every group are converted, then the cloned bytes and the sentinel restored.\<close>

function convert_loop :: "'k policy \<Rightarrow> nat \<Rightarrow> nat \<Rightarrow> ctrl_t list \<Rightarrow> ctrl_t list res" where
  "convert_loop P cap pos ctrl =
     (if pos < cap then
        rbind (GroupPortableImpl (p_tc P) (p_ord P) ctrl pos) (\<lambda>g.
        rbind (ConvertSpecialToEmptyAndFullToDeleted (p_tc P) (p_ord P) g ctrl pos) (\<lambda>ctrl.
        convert_loop P cap (pos + kWidth) ctrl))
      else Inr ctrl)"
  by pat_completeness auto

termination by (relation "measure (\<lambda>(P, cap, pos, ctrl). cap - pos)") (auto simp: kWidth_def)

declare convert_loop.simps [simp del]

definition ConvertDeletedToEmptyAndFullToDeleted :: "'k policy \<Rightarrow> ctrl_t list \<Rightarrow> nat \<Rightarrow> ctrl_t list res" where
  "ConvertDeletedToEmptyAndFullToDeleted P ctrl cap =
     assert (cap < length ctrl \<and> ctrl ! cap = kSentinel)
     (assert (IsValidCapacity cap)
      (rbind (convert_loop P cap 0 ctrl) (\<lambda>ctrl.
       rbind (memcpy ctrl (cap + 1) (take NumClonedBytes ctrl)) (\<lambda>ctrl.
       Inr (ctrl[cap := kSentinel])))))"

definition probe_index :: "nat \<Rightarrow> nat \<Rightarrow> nat \<Rightarrow> nat" where
  "probe_index cap probe_off pos = nat ((int pos - int probe_off) AND int cap) div kWidth"

text \<open>
  One round of the loop of \<^verbatim>\<open>DropDeletesWithoutResize\<close>: the flag says whether the loop stays at \<open>i\<close>, because
  another element was swapped into the slot.
\<close>

definition drop_deletes_slot :: "'k policy \<Rightarrow> ('k, 'v) table \<Rightarrow> nat \<Rightarrow> (bool \<times> ('k, 'v) table) res" where
  "drop_deletes_slot P t i =
     rbind (ctrl_at t i) (\<lambda>c.
     if \<not> IsDeleted c then Inr (False, t)
     else
       rbind (slot_at t i) (\<lambda>e.
       let hash = p_hash P (fst e) in
       rbind (find_first_non_full P t hash) (\<lambda>((new_i, probe_length), t).
       rbind (table_probe t hash) (\<lambda>seq.
       let probe_off = seq_offset seq in
       if probe_index (capacity t) probe_off new_i = probe_index (capacity t) probe_off i then
         rbind (SetCtrl t i (H2 hash)) (\<lambda>t. Inr (False, t))
       else
         rbind (ctrl_at t new_i) (\<lambda>c'.
         if IsEmpty c' then
           rbind (SetCtrl t new_i (H2 hash)) (\<lambda>t.
           rbind (set_slot t new_i (Some e)) (\<lambda>t.
           rbind (set_slot t i None) (\<lambda>t.
           rbind (SetCtrl t i kEmpty) (\<lambda>t. Inr (False, t)))))
         else
           assert (IsDeleted c')
           (rbind (SetCtrl t new_i (H2 hash)) (\<lambda>t.
            rbind (slot_at t new_i) (\<lambda>e'.
            rbind (set_slot t new_i (Some e)) (\<lambda>t.
            rbind (set_slot t i (Some e')) (\<lambda>t. Inr (True, t))))))))))) "

text \<open>The loop ends: a round that stays at its slot leaves one deleted byte fewer.\<close>

lemma count_update:
  "i < length xs \<Longrightarrow> h \<noteq> d \<Longrightarrow> count_list (xs[i := h]) d + of_bool (xs ! i = d) = count_list xs d"
proof (induction xs arbitrary: i)
  case (Cons x xs)
  then show ?case by (cases i) auto
qed simp

definition deleted_bytes :: "('k, 'v) table \<Rightarrow> nat" where
  "deleted_bytes t = count_list (control t) kDeleted"

lemma SetCtrl_deleted:
  assumes "SetCtrl t i h = Inr t'" "h \<noteq> kDeleted"
  shows "deleted_bytes t' \<le> deleted_bytes t" "control t ! i = kDeleted \<Longrightarrow> deleted_bytes t' < deleted_bytes t"
    "capacity t' = capacity t" "slot_array t' = slot_array t" "control_at t' = control_at t"
proof -
  obtain m where m: "i < length (control t)" "m < length (control t)" "t' = t\<lparr>control := (control t)[i := h, m := h]\<rparr>"
    using assms(1) by (auto simp: SetCtrl_def Let_def assert_def split: if_splits)
  have "count_list ((control t)[i := h]) kDeleted + of_bool (control t ! i = kDeleted) = count_list (control t) kDeleted"
    "count_list ((control t)[i := h, m := h]) kDeleted \<le> count_list ((control t)[i := h]) kDeleted"
    using count_update [OF m(1) assms(2)] count_update [of m "(control t)[i := h]" h kDeleted] m assms(2) by auto
  then show "deleted_bytes t' \<le> deleted_bytes t" "control t ! i = kDeleted \<Longrightarrow> deleted_bytes t' < deleted_bytes t"
    unfolding deleted_bytes_def m(3) by (auto simp: of_bool_def)
qed (use assms(1) in \<open>auto simp: SetCtrl_def Let_def assert_def split: if_splits\<close>)

lemma first_non_full_loop_counter:
  "first_non_full_loop P t hash seq = Inr (r, t') \<Longrightarrow> \<exists>c. t' = t\<lparr>counter := c\<rparr>"
proof (induction P t hash seq rule: first_non_full_loop.induct)
  case (1 P t hash seq)
  have c: "\<exists>c. t = t\<lparr>counter := c\<rparr>" by (rule exI [of _ "counter t"]) simp
  show ?case using 1 c
    by (subst (asm) (2) first_non_full_loop.simps)
      (auto simp: res_simps Let_def ShouldInsertBackwards_def RandomSeed_def split: if_splits prod.splits)
qed

lemma find_first_non_full_counter:
  "find_first_non_full P t hash = Inr (r, t') \<Longrightarrow> \<exists>c. t' = t\<lparr>counter := c\<rparr>"
  by (auto simp: find_first_non_full_def res_simps dest: first_non_full_loop_counter)

lemma set_slot_fields:
  "set_slot t i e = Inr t' \<Longrightarrow>
     deleted_bytes t' = deleted_bytes t \<and> capacity t' = capacity t \<and> control t' = control t"
  by (auto simp: set_slot_def deleted_bytes_def split: if_splits)

lemma H2_not_special [simp]: "H2 h \<noteq> kDeleted" "H2 h \<noteq> kEmpty" "H2 h \<noteq> kSentinel"
  using H2_full [of h] ctrl_values by metis+

lemma counter_fields [simp]:
  "deleted_bytes (t\<lparr>counter := c\<rparr>) = deleted_bytes t"
  by (simp add: deleted_bytes_def)

lemma SetCtrl_measure:
  "SetCtrl t i (H2 hash) = Inr t' \<Longrightarrow>
     capacity t' = capacity t \<and> deleted_bytes t' \<le> deleted_bytes t \<and>
     (control t ! i = kDeleted \<longrightarrow> deleted_bytes t' < deleted_bytes t)"
  "SetCtrl t i kEmpty = Inr t' \<Longrightarrow> capacity t' = capacity t \<and> deleted_bytes t' \<le> deleted_bytes t"
  using SetCtrl_deleted [of t i "H2 hash" t'] SetCtrl_deleted [of t i kEmpty t'] ctrl_values(4) by simp_all

lemma drop_deletes_slot_measure:
  assumes "drop_deletes_slot P t i = Inr (stay, t')"
  shows "capacity t' = capacity t" "deleted_bytes t' \<le> deleted_bytes t" "stay \<Longrightarrow> deleted_bytes t' < deleted_bytes t"
proof -
  have "capacity t' = capacity t \<and> deleted_bytes t' \<le> deleted_bytes t \<and> (stay \<longrightarrow> deleted_bytes t' < deleted_bytes t)"
    using assms unfolding drop_deletes_slot_def
    by (auto simp: res_simps Let_def ctrl_at_def IsDeleted_def ctrl_values split: if_splits
        dest!: find_first_non_full_counter set_slot_fields SetCtrl_measure)
  then show "capacity t' = capacity t" "deleted_bytes t' \<le> deleted_bytes t" "stay \<Longrightarrow> deleted_bytes t' < deleted_bytes t"
    by auto
qed

function drop_deletes_loop :: "'k policy \<Rightarrow> ('k, 'v) table \<Rightarrow> nat \<Rightarrow> ('k, 'v) table res" where
  "drop_deletes_loop P t i =
     (if i < capacity t then
        case drop_deletes_slot P t i of
          Inl e \<Rightarrow> Inl e
        | Inr (stay, t') \<Rightarrow> drop_deletes_loop P t' (if stay then i else i + 1)
      else Inr t)"
  by pat_completeness auto

termination
proof (relation "measures [\<lambda>(P, t, i). deleted_bytes t, \<lambda>(P, t, i). capacity t - i]", goal_cases)
  case (2 P t i r stay t')
  then have "drop_deletes_slot P t i = Inr (stay, t')" by simp
  from drop_deletes_slot_measure [OF this] 2(1) show ?case by (cases stay) auto
qed simp

declare drop_deletes_loop.simps [simp del]

definition DropDeletesWithoutResize :: "'k policy \<Rightarrow> ('k, 'v) table \<Rightarrow> ('k, 'v) table res" where
  "DropDeletesWithoutResize P t =
     assert (IsValidCapacity (capacity t))
     (assert (\<not> is_small (capacity t))
      (rbind (ConvertDeletedToEmptyAndFullToDeleted P (control t) (capacity t)) (\<lambda>ctrl.
       rbind (drop_deletes_loop P (t\<lparr>control := ctrl\<rparr>) 0) ResetGrowthLeft)))"

definition rehash_and_grow_if_necessary :: "'k policy \<Rightarrow> ('k, 'v) table \<Rightarrow> ('k, 'v) table res" where
  "rehash_and_grow_if_necessary P t =
     (let cap = capacity t in
      if cap > kWidth \<and> tab_size t * 32 \<le> cap * 25 then DropDeletesWithoutResize P t
      else rbind (NextCapacity cap) (resize P t))"

section \<open>Insertion\<close>

definition prepare_insert :: "'k policy \<Rightarrow> ('k, 'v) table \<Rightarrow> 64 word \<Rightarrow> (nat \<times> ('k, 'v) table) res" where
  "prepare_insert P t hash =
     rbind (find_first_non_full P t hash) (\<lambda>((offset, probe_length), t).
     rbind (ctrl_at t offset) (\<lambda>c.
     rbind (if growth_left t = 0 \<and> \<not> IsDeleted c then
              rbind (rehash_and_grow_if_necessary P t) (\<lambda>t.
              rbind (find_first_non_full P t hash) (\<lambda>((offset, probe_length), t). Inr (offset, t)))
            else Inr (offset, t)) (\<lambda>(offset, t).
     rbind (increment_size t) (\<lambda>t.
     rbind (ctrl_at t offset) (\<lambda>c.
     rbind (size_minus (growth_left t) (of_bool (IsEmpty c))) (\<lambda>left.
     rbind (SetCtrl (t\<lparr>growth_left := left\<rparr>) offset (H2 hash)) (\<lambda>t.
     Inr (offset, t))))))))"

definition find_or_prepare_insert :: "'k policy \<Rightarrow> ('k, 'v) table \<Rightarrow> 'k \<Rightarrow> (nat \<times> bool \<times> ('k, 'v) table) res" where
  "find_or_prepare_insert P t key =
     (let hash = p_hash P key in
      rbind (table_probe t hash) (\<lambda>seq.
      rbind (find_loop P t key hash seq) (\<lambda>found.
      case found of
        Some i \<Rightarrow> Inr (i, False, t)
      | None \<Rightarrow> rbind (prepare_insert P t hash) (\<lambda>(i, t). Inr (i, True, t)))))"

definition emplace_at :: "'k policy \<Rightarrow> ('k, 'v) table \<Rightarrow> nat \<Rightarrow> 'k \<times> 'v \<Rightarrow> ('k, 'v) table res" where
  "emplace_at P t i e =
     rbind (set_slot t i (Some e)) (\<lambda>t.
     rbind (find_key P t (fst e)) (\<lambda>found.
     assert (found = Some i) (Inr t)))"

definition EmplaceDecomposable :: "'k policy \<Rightarrow> ('k, 'v) table \<Rightarrow> 'k \<times> 'v \<Rightarrow> (nat \<times> bool \<times> ('k, 'v) table) res" where
  "EmplaceDecomposable P t e =
     rbind (find_or_prepare_insert P t (fst e)) (\<lambda>(i, inserted, t).
     if inserted then rbind (emplace_at P t i e) (\<lambda>t. Inr (i, inserted, t)) else Inr (i, inserted, t))"

text \<open>\<^verbatim>\<open>raw_hash_map.h\<close>: \<^verbatim>\<open>insert_or_assign\<close>, \<^verbatim>\<open>try_emplace\<close>, \<^verbatim>\<open>operator[]\<close> and \<^verbatim>\<open>at\<close>.\<close>

definition insert_or_assign :: "'k policy \<Rightarrow> ('k, 'v) table \<Rightarrow> 'k \<Rightarrow> 'v \<Rightarrow> (nat \<times> bool \<times> ('k, 'v) table) res" where
  "insert_or_assign P t k v =
     rbind (find_or_prepare_insert P t k) (\<lambda>(i, inserted, t).
     if inserted then rbind (emplace_at P t i (k, v)) (\<lambda>t. Inr (i, inserted, t))
     else rbind (slot_at t i) (\<lambda>e. rbind (set_slot t i (Some (fst e, v))) (\<lambda>t. Inr (i, inserted, t))))"

definition try_emplace :: "'k policy \<Rightarrow> ('k, 'v) table \<Rightarrow> 'k \<Rightarrow> 'v \<Rightarrow> (nat \<times> bool \<times> ('k, 'v) table) res" where
  "try_emplace P t k v =
     rbind (find_or_prepare_insert P t k) (\<lambda>(i, inserted, t).
     if inserted then rbind (emplace_at P t i (k, v)) (\<lambda>t. Inr (i, inserted, t)) else Inr (i, inserted, t))"

definition subscript :: "'k policy \<Rightarrow> 'v \<Rightarrow> ('k, 'v) table \<Rightarrow> 'k \<Rightarrow> ('v \<times> ('k, 'v) table) res" where
  "subscript P initial t key =
     rbind (try_emplace P t key initial) (\<lambda>(i, inserted, t).
     rbind (slot_at t i) (\<lambda>e. Inr (snd e, t)))"

definition at_key :: "'k policy \<Rightarrow> ('k, 'v) table \<Rightarrow> 'k \<Rightarrow> 'v res" where
  "at_key P t key =
     rbind (find_key P t key) (\<lambda>it.
     case it of None \<Rightarrow> Inl OutOfRange | Some i \<Rightarrow> rbind (slot_at t i) (\<lambda>e. Inr (snd e)))"

section \<open>Erasure\<close>

definition EraseMetaOnly :: "'k policy \<Rightarrow> ('k, 'v) table \<Rightarrow> nat \<Rightarrow> ('k, 'v) table res" where
  "EraseMetaOnly P t index =
     rbind (ctrl_at t index) (\<lambda>c.
     assert (IsFull c)
     (rbind (decrement_size t) (\<lambda>t.
      let index_before = nat ((int index - int kWidth) AND int (capacity t)) in
      rbind (load_group P t index) (\<lambda>g_after.
      rbind (load_group P t index_before) (\<lambda>g_before.
      let empty_after = MaskEmpty g_after;
          empty_before = MaskEmpty g_before;
          was_never_full = (empty_before \<noteq> 0 \<and> empty_after \<noteq> 0 \<and>
            mask_TrailingZeros (p_tc P) empty_after + mask_LeadingZeros (p_tc P) empty_before < kWidth)
      in rbind (SetCtrl t index (if was_never_full then kEmpty else kDeleted)) (\<lambda>t.
         Inr (t\<lparr>growth_left := growth_left t + of_bool was_never_full\<rparr>)))))))"

definition erase_at :: "'k policy \<Rightarrow> ('k, 'v) table \<Rightarrow> nat \<Rightarrow> ('k, 'v) table res" where
  "erase_at P t i =
     rbind (ctrl_at t i) (\<lambda>c.
     assert (IsFull c)
     (rbind (set_slot t i None) (\<lambda>t. EraseMetaOnly P t i)))"

definition erase_key :: "'k policy \<Rightarrow> ('k, 'v) table \<Rightarrow> 'k \<Rightarrow> (nat \<times> ('k, 'v) table) res" where
  "erase_key P t key =
     rbind (find_key P t key) (\<lambda>it.
     case it of None \<Rightarrow> Inr (0, t) | Some i \<Rightarrow> rbind (erase_at P t i) (\<lambda>t. Inr (1, t)))"

definition ClearBackingArray :: "'k policy \<Rightarrow> 64 word \<Rightarrow> ('k, 'v) table \<Rightarrow> bool \<Rightarrow> ('k, 'v) table res" where
  "ClearBackingArray P empty_group_at t reuse =
     (let t = t\<lparr>tab_size := 0\<rparr> in
      if reuse then ResetCtrl t
      else Inr (t\<lparr>control := EmptyGroup, control_at := empty_group_at, slot_array := [], growth_left := 0, capacity := 0\<rparr>))"

definition destroy_slots :: "('k, 'v) table \<Rightarrow> ('k, 'v) table res" where
  "destroy_slots t =
     rfold (\<lambda>i t. rbind (ctrl_at t i) (\<lambda>c. if IsFull c then set_slot t i None else Inr t)) [0..<capacity t] t"

definition clear :: "'k policy \<Rightarrow> 64 word \<Rightarrow> ('k, 'v) table \<Rightarrow> ('k, 'v) table res" where
  "clear P empty_group_at t =
     (let cap = capacity t in
      if cap = 0 then Inr t
      else rbind (destroy_slots t) (\<lambda>t. ClearBackingArray P empty_group_at t (cap < 128)))"

section \<open>Reservation\<close>

definition rehash :: "'k policy \<Rightarrow> 64 word \<Rightarrow> ('k, 'v) table \<Rightarrow> nat \<Rightarrow> ('k, 'v) table res" where
  "rehash P empty_group_at t n =
     (if n = 0 \<and> capacity t = 0 then Inr t
      else if n = 0 \<and> tab_size t = 0 then ClearBackingArray P empty_group_at t False
      else
        let m = NormalizeCapacity (p_tc P) (n OR GrowthToLowerboundCapacity (tab_size t)) in
        if n = 0 \<or> m > capacity t then resize P t m else Inr t)"

definition reserve :: "'k policy \<Rightarrow> ('k, 'v) table \<Rightarrow> nat \<Rightarrow> ('k, 'v) table res" where
  "reserve P t n =
     (if n > tab_size t + growth_left t then
        let m = GrowthToLowerboundCapacity n in resize P t (NormalizeCapacity (p_tc P) m)
      else Inr t)"

section \<open>Iteration\<close>

text \<open>
  \<^verbatim>\<open>skip_empty_or_deleted\<close> advances by the number of leading empty or deleted bytes of the group; the loop
  ends at a full byte or at the sentinel. An advance by 0 would not end.
\<close>

function skip_empty_or_deleted :: "'k policy \<Rightarrow> ('k, 'v) table \<Rightarrow> nat \<Rightarrow> nat option res" where
  "skip_empty_or_deleted P t pos =
     rbind (ctrl_at t pos) (\<lambda>c.
     if IsEmptyOrDeleted c then
       rbind (load_group P t pos) (\<lambda>g.
       let shift = CountLeadingEmptyOrDeleted (p_tc P) g in
       if pos < length (control t) \<and> 0 < shift then skip_empty_or_deleted P t (pos + shift) else Inl BadAccess)
     else if c = kSentinel then Inr None else Inr (Some pos))"
  by pat_completeness auto

termination by (relation "measure (\<lambda>(P, t, pos). length (control t) - pos)") auto

declare skip_empty_or_deleted.simps [simp del]

definition begin_iter :: "'k policy \<Rightarrow> ('k, 'v) table \<Rightarrow> nat option res" where
  "begin_iter P t = skip_empty_or_deleted P t 0"

definition next_iter :: "'k policy \<Rightarrow> ('k, 'v) table \<Rightarrow> nat \<Rightarrow> nat option res" where
  "next_iter P t i = rbind (ctrl_at t i) (\<lambda>c. assert (IsFull c) (skip_empty_or_deleted P t (i + 1)))"

end
