(* ===== verification/TableShape.thy ===== *)
theory TableShape
  imports RawHashSet
begin

text \<open>
  The layout of a hash table and what the low-level steps do to it: the control bytes of the slots, the
  sentinel after them and the copies of the first bytes behind it, so that a group can be loaded at every
  offset. The lemmas describe a loaded group through the bytes of the slots alone, and the effect of
  setting a control byte, of resetting the table, and of the search for a free slot.
\<close>

section \<open>Layout\<close>

abbreviation cell :: "('k, 'v) table \<Rightarrow> nat \<Rightarrow> ctrl_t" where
  "cell t i \<equiv> control t ! i"

definition slot_byte :: "ctrl_t \<Rightarrow> bool" where
  "slot_byte b \<longleftrightarrow> IsFull b \<or> b = kEmpty \<or> b = kDeleted"

definition shape :: "('k, 'v) table \<Rightarrow> bool" where
  "shape t \<longleftrightarrow> table_capacity (capacity t) \<and> capacity t + 8 \<le> length (control t) \<and>
     length (slot_array t) = capacity t \<and> cell t (capacity t) = kSentinel \<and>
     (\<forall>i<capacity t. slot_byte (cell t i)) \<and>
     (\<forall>j<7. cell t (capacity t + 1 + j) = (if j < capacity t then cell t j else kEmpty))"

lemma slot_byte_values [simp]: "slot_byte kEmpty" "slot_byte kDeleted" "slot_byte (H2 h)" "\<not> slot_byte kSentinel"
  using ctrl_values H2_full by (auto simp: slot_byte_def)

lemma slot_byte_ctrl: "slot_byte b \<Longrightarrow> ctrl_byte b"
  by (auto simp: slot_byte_def ctrl_byte_def)

text \<open>The byte a group loaded at offset \<open>o\<close> has in lane \<open>j\<close>.\<close>

definition group_byte :: "('k, 'v) table \<Rightarrow> nat \<Rightarrow> nat \<Rightarrow> ctrl_t" where
  "group_byte t o' j = (if o' + j > 2 * capacity t then kEmpty else cell t ((o' + j) mod (capacity t + 1)))"

lemma small_capacity: "table_capacity c \<Longrightarrow> c < 7 \<Longrightarrow> c = 0 \<or> c = 1 \<or> c = 3"
proof -
  assume c: "table_capacity c" "c < 7"
  then obtain m where m: "c + 1 = 2 ^ m" using table_capacity_pow by blast
  have "m < 3"
  proof (rule ccontr)
    assume "\<not> m < 3"
    then have "(2::nat) ^ 3 \<le> 2 ^ m" by (intro power_increasing) auto
    then show False using m c(2) by simp
  qed
  then have "m = 0 \<or> m = 1 \<or> m = 2" by auto
  then show ?thesis using m by auto
qed

lemma group_bytes:
  assumes "shape t" "o' \<le> capacity t" "j < 8"
  shows "take 8 (drop o' (control t)) ! j = group_byte t o' j" "o' + 8 \<le> length (control t)"
proof -
  let ?cap = "capacity t"
  have s: "table_capacity ?cap" "?cap + 8 \<le> length (control t)" "\<forall>j<7. cell t (?cap + 1 + j) = (if j < ?cap then cell t j else kEmpty)"
    using assms(1) by (auto simp: shape_def)
  show "o' + 8 \<le> length (control t)" using s(2) assms(2) by linarith
  then have nth: "take 8 (drop o' (control t)) ! j = cell t (o' + j)" using assms(3) by simp
  have "cell t (o' + j) = group_byte t o' j"
  proof (cases "o' + j \<le> ?cap")
    case True
    then show ?thesis by (auto simp: group_byte_def)
  next
    case False
    define i where "i = o' + j - ?cap - 1"
    have i: "o' + j = ?cap + 1 + i" "i < 7" using False assms(2,3) by (auto simp: i_def)
    have "cell t (o' + j) = (if i < ?cap then cell t i else kEmpty)" using s(3) i by simp
    moreover have "(o' + j) mod (?cap + 1) = i mod (?cap + 1)" unfolding i(1) by (rule mod_add_self1)
    moreover have "2 * ?cap < o' + j \<longleftrightarrow> \<not> i < ?cap" using i(1) by auto
    ultimately show ?thesis by (simp add: group_byte_def)
  qed
  with nth show "take 8 (drop o' (control t)) ! j = group_byte t o' j" by simp
qed

lemma group_byte_ctrl: "shape t \<Longrightarrow> o' \<le> capacity t \<Longrightarrow> ctrl_byte (group_byte t o' j)"
proof -
  assume "shape t" "o' \<le> capacity t"
  have "(o' + j) mod (capacity t + 1) < capacity t + 1" by (rule mod_less_divisor) simp
  then have "(o' + j) mod (capacity t + 1) < capacity t \<or> (o' + j) mod (capacity t + 1) = capacity t" by linarith
  then show ?thesis using \<open>shape t\<close> ctrl_values slot_byte_ctrl unfolding group_byte_def shape_def
    by (cases "o' + j > 2 * capacity t") auto
qed

abbreviation group_list :: "('k, 'v) table \<Rightarrow> nat \<Rightarrow> ctrl_t list" where
  "group_list t o' \<equiv> map (group_byte t o') [0..<8]"

lemma load_group:
  assumes "shape t" "o' \<le> capacity t"
  shows "load_group P t o' = Inr (group_word (group_list t o'))"
proof -
  have "take 8 (drop o' (control t)) = group_list t o'"
    using group_bytes(1) [OF assms] group_bytes(2) [OF assms, of 0] by (intro nth_equalityI) simp_all
  then show ?thesis using group_bytes(2) [OF assms, of 0] by (simp add: load_group_def GroupPortableImpl_load)
qed

lemma group_list_ok:
  assumes "shape t" "o' \<le> capacity t"
  shows "length (group_list t o') = 8" "\<forall>b\<in>set (group_list t o'). ctrl_byte b"
  using group_byte_ctrl [OF assms] by auto

lemma lanes_empty:
  assumes "shape t" "o' \<le> capacity t"
  shows "lane (MaskEmpty (group_word (group_list t o'))) j \<longleftrightarrow> j < 8 \<and> group_byte t o' j = kEmpty"
    "MaskEmpty (group_word (group_list t o')) = 0 \<longleftrightarrow> (\<forall>j<8. group_byte t o' j \<noteq> kEmpty)"
    "lanes_only (MaskEmpty (group_word (group_list t o')))"
proof -
  note L = lane_MaskEmpty [OF group_list_ok [OF assms]]
  show "lane (MaskEmpty (group_word (group_list t o'))) j \<longleftrightarrow> j < 8 \<and> group_byte t o' j = kEmpty"
    using L(1) [of j] by (cases "j < 8") auto
  show "MaskEmpty (group_word (group_list t o')) = 0 \<longleftrightarrow> (\<forall>j<8. group_byte t o' j \<noteq> kEmpty)"
    using lanes_only_zero [OF L(2)] L(1) by auto
qed (rule lane_MaskEmpty(2) [OF group_list_ok [OF assms]])

lemma lanes_free:
  assumes "shape t" "o' \<le> capacity t"
  shows "lane (MaskEmptyOrDeleted (group_word (group_list t o'))) j \<longleftrightarrow>
      j < 8 \<and> (group_byte t o' j = kEmpty \<or> group_byte t o' j = kDeleted)"
    "MaskEmptyOrDeleted (group_word (group_list t o')) = 0 \<longleftrightarrow>
      (\<forall>j<8. group_byte t o' j \<noteq> kEmpty \<and> group_byte t o' j \<noteq> kDeleted)"
    "lanes_only (MaskEmptyOrDeleted (group_word (group_list t o')))"
proof -
  note L = lane_MaskEmptyOrDeleted [OF group_list_ok [OF assms]]
  show "lane (MaskEmptyOrDeleted (group_word (group_list t o'))) j \<longleftrightarrow>
      j < 8 \<and> (group_byte t o' j = kEmpty \<or> group_byte t o' j = kDeleted)"
    using L(1) [of j] by (cases "j < 8") auto
  show "MaskEmptyOrDeleted (group_word (group_list t o')) = 0 \<longleftrightarrow>
      (\<forall>j<8. group_byte t o' j \<noteq> kEmpty \<and> group_byte t o' j \<noteq> kDeleted)"
    using lanes_only_zero [OF L(2)] L(1) by auto
qed (rule lane_MaskEmptyOrDeleted(2) [OF group_list_ok [OF assms]])

section \<open>Setting a control byte\<close>

lemma mirror_index:
  assumes "table_capacity cap" "i < cap"
  shows "nat ((int i - int NumClonedBytes) AND int cap) + (NumClonedBytes AND cap) = (if i < 7 then cap + 1 + i else i)"
proof -
  have eq: "nat ((int i - int NumClonedBytes) AND int cap) + (NumClonedBytes AND cap) =
      nat ((int i - 7) mod int (cap + 1)) + 7 mod (cap + 1)"
    using assms(1) by (simp only: int_and_capacity and_capacity NumClonedBytes_def kWidth_def) simp
  show ?thesis
  proof (cases "cap < 7")
    case True
    then have "cap = 1 \<and> i = 0 \<or> cap = 3 \<and> (i = 0 \<or> i = 1 \<or> i = 2)" using small_capacity [OF assms(1)] assms(2) by auto
    then show ?thesis unfolding eq by (auto simp flip: numeral_2_eq_2)
  next
    case False
    have "(int i - 7) mod int (cap + 1) = (if i < 7 then int (cap + 1 + i - 7) else int (i - 7))"
    proof (cases "i < 7")
      case True
      have "(int i - 7) mod int (cap + 1) = (int i - 7 + int (cap + 1)) mod int (cap + 1)" by (simp only: mod_add_self2)
      also have "int i - 7 + int (cap + 1) = int (cap + 1 + i - 7)" using False by simp
      finally show ?thesis using True False by simp
    next
      case ge: False
      then have "int i - 7 = int (i - 7)" by simp
      then show ?thesis using ge assms(2) by simp
    qed
    then show ?thesis unfolding eq using False assms(2) by auto
  qed
qed

lemma SetCtrl_ok:
  assumes "shape t" "i < capacity t" "slot_byte h"
  shows "\<exists>t'. SetCtrl t i h = Inr t' \<and> shape t' \<and> t' = t\<lparr>control := control t'\<rparr> \<and>
    (\<forall>x\<le>capacity t. cell t' x = (if x = i then h else cell t x))"
proof -
  let ?cap = "capacity t"
  let ?m = "if i < 7 then ?cap + 1 + i else i"
  let ?c = "(control t)[i := h, ?m := h]"
  let ?t = "t\<lparr>control := ?c\<rparr>"
  have s: "table_capacity ?cap" "?cap + 8 \<le> length (control t)" using assms(1) by (auto simp: shape_def)
  have "SetCtrl t i h = Inr ?t"
    using s assms(2) unfolding SetCtrl_def mirror_index [OF s(1) assms(2)] by (auto simp: Let_def assert_def)
  moreover have c: "\<forall>x\<le>?cap. ?c ! x = (if x = i then h else cell t x)"
    using s(2) assms(2) by (auto simp: nth_list_update)
  moreover have "shape ?t"
  proof -
    have "?c ! (?cap + 1 + j) = (if j < ?cap then ?c ! j else kEmpty)" if j: "j < 7" for j
    proof -
      have "cell t (?cap + 1 + j) = (if j < ?cap then cell t j else kEmpty)" using assms(1) j by (auto simp: shape_def)
      then show ?thesis using s(2) assms(2) j by (auto simp: nth_list_update)
    qed
    then show ?thesis using assms c s by (auto simp: shape_def)
  qed
  ultimately show ?thesis by (intro exI [of _ ?t]) simp
qed

section \<open>Searching for a free slot\<close>

definition start :: "('k, 'v) table \<Rightarrow> 64 word \<Rightarrow> nat" where
  "start t hash = unat (H1 hash (control_at t))"

definition has_empty :: "('k, 'v) table \<Rightarrow> nat \<Rightarrow> nat \<Rightarrow> bool" where
  "has_empty t h n \<longleftrightarrow> (\<exists>j<8. group_byte t (probe_offset (capacity t) h n) j = kEmpty)"

definition has_free :: "('k, 'v) table \<Rightarrow> nat \<Rightarrow> nat \<Rightarrow> bool" where
  "has_free t h n \<longleftrightarrow> (\<exists>j<8. group_byte t (probe_offset (capacity t) h n) j \<in> {kEmpty, kDeleted})"

lemma table_probe_start: "shape t \<Longrightarrow> table_probe t hash = Inr (seq_at (capacity t) (start t hash) 0)"
  by (simp add: table_probe_def shape_def start_def probe_seq_at)

lemma seq_at_sel [simp]:
  "seq_offset (seq_at cap h n) = probe_offset cap h n" "seq_index (seq_at cap h n) = 8 * n" "seq_mask (seq_at cap h n) = cap"
  by (simp_all add: seq_at_def)

text \<open>What the search returns in the first group that has a free byte.\<close>

definition free_found :: "('k, 'v) table \<Rightarrow> nat \<Rightarrow> nat \<Rightarrow> nat \<Rightarrow> bool" where
  "free_found t h n p \<longleftrightarrow> (\<exists>j<8. p = (probe_offset (capacity t) h n + j) mod (capacity t + 1) \<and>
     group_byte t (probe_offset (capacity t) h n) j \<in> {kEmpty, kDeleted} \<and>
     (capacity t < 7 \<longrightarrow> (\<forall>j'<j. group_byte t (probe_offset (capacity t) h n) j' \<notin> {kEmpty, kDeleted})))"

lemma first_non_full_here:
  fixes t :: "('k, 'v) table"
  assumes s: "shape t" and free: "has_free t h n"
  shows "\<exists>p c. first_non_full_loop P t hash (seq_at (capacity t) h n) = Inr ((p, 8 * n), t\<lparr>counter := c\<rparr>) \<and> free_found t h n p"
proof -
  let ?o = "probe_offset (capacity t) h n" and ?seq = "seq_at (capacity t) h n"
  let ?m = "MaskEmptyOrDeleted (group_word (group_list t ?o))"
  have o: "?o \<le> capacity t" by (rule probe_offset_le)
  note L = lanes_free [OF s o]
  have m: "?m \<noteq> 0" using free L(2) by (auto simp: has_free_def)
  have tc: "table_capacity (capacity t)" using s by (simp add: shape_def)
  define bt where "bt = (if \<not> is_small (capacity t) then ShouldInsertBackwards P t hash else (False, t))"
  obtain bw t' where bt': "bt = (bw, t')" by fastforce
  have t': "\<exists>c. t' = t\<lparr>counter := c\<rparr>" "bw \<Longrightarrow> \<not> capacity t < 7"
  proof -
    have "\<exists>c. t = t\<lparr>counter := c\<rparr>" by (rule exI [of _ "counter t"]) simp
    then show "\<exists>c. t' = t\<lparr>counter := c\<rparr>" "bw \<Longrightarrow> \<not> capacity t < 7"
      using bt' unfolding bt_def
      by (auto simp: ShouldInsertBackwards_def RandomSeed_def Let_def is_small_def kWidth_def split: if_splits)
  qed
  let ?j = "if bw then HighestBitSet (p_tc P) ?m else LowestBitSet (p_tc P) ?m"
  have "lane ?m ?j" using HighestBitSet(1) [OF L(3) m] LowestBitSet(1) [OF L(3) m] by simp
  then have j: "?j < 8" "group_byte t ?o ?j \<in> {kEmpty, kDeleted}" using L(1) by auto
  have least: "\<forall>j'<?j. group_byte t ?o j' \<notin> {kEmpty, kDeleted}" if "capacity t < 7"
  proof (intro allI impI)
    fix j' assume "j' < ?j"
    then have "j' < LowestBitSet (p_tc P) ?m" "j' < 8" using t'(2) that j(1) by (auto split: if_splits)
    then show "group_byte t ?o j' \<notin> {kEmpty, kDeleted}" using LowestBitSet(2) [OF L(3) m] L(1) by auto
  qed
  have "first_non_full_loop P t hash ?seq = Inr ((offset_at ?seq ?j, 8 * n), t')"
    using m bt' by (subst first_non_full_loop.simps) (simp add: load_group [OF s o] Let_def bt_def)
  moreover have "free_found t h n (offset_at ?seq ?j)"
    unfolding free_found_def offset_at_at [OF tc] using j least by (intro exI [of _ ?j]) auto
  ultimately show ?thesis using t'(1) by blast
qed

lemma find_first_non_full_ok:
  fixes t :: "('k, 'v) table"
  assumes s: "shape t" and n: "8 * n \<le> capacity t" "has_free t (start t hash) n" "\<forall>n'<n. \<not> has_free t (start t hash) n'"
  shows "\<exists>p c. find_first_non_full P t hash = Inr ((p, 8 * n), t\<lparr>counter := c\<rparr>) \<and> free_found t (start t hash) n p"
proof -
  let ?h = "start t hash"
  have tc: "table_capacity (capacity t)" using s by (simp add: shape_def)
  have "m \<le> n \<Longrightarrow> first_non_full_loop P t hash (seq_at (capacity t) ?h m) = first_non_full_loop P t hash (seq_at (capacity t) ?h n)" for m
  proof (induction "n - m" arbitrary: m)
    case (Suc d)
    then have m: "m < n" by simp
    have o: "probe_offset (capacity t) ?h m \<le> capacity t" by (rule probe_offset_le)
    have "MaskEmptyOrDeleted (group_word (group_list t (probe_offset (capacity t) ?h m))) = 0"
      using n(3) m lanes_free(2) [OF s o] by (auto simp: has_free_def)
    then have "first_non_full_loop P t hash (seq_at (capacity t) ?h m) = first_non_full_loop P t hash (seq_at (capacity t) ?h (Suc m))"
      using m n(1) by (subst first_non_full_loop.simps) (simp add: load_group [OF s o] Let_def seq_next_at [OF tc])
    then show ?case using Suc by simp
  qed simp
  from this [of 0] show ?thesis
    using first_non_full_here [OF s n(2), of P hash] by (simp add: find_first_non_full_def table_probe_start [OF s])
qed

end
