(* ===== verification/HashTable.thy ===== *)
theory HashTable
  imports TableShape
begin

text \<open>
  The invariant of the hash table and its meaning as a finite map. An element is \<open>reach\<close>able when no group
  of its probe sequence before its own has an empty byte, which is what lets the search stop at an empty
  byte. The lemmas show that the search finds exactly the elements of the map, that the search for a free
  slot returns a \<open>spot\<close> whose earlier groups are full, and that filling such a spot keeps the invariant and
  adds the element to the map.
\<close>

section \<open>The invariant\<close>

definition full :: "('k, 'v) table \<Rightarrow> nat \<Rightarrow> bool" where
  "full t i \<longleftrightarrow> i < capacity t \<and> IsFull (cell t i)"

definition reach :: "('k, 'v) table \<Rightarrow> nat \<Rightarrow> nat \<Rightarrow> bool" where
  "reach t h i \<longleftrightarrow> (\<exists>n. 8 * n \<le> capacity t \<and> in_group (capacity t) h n i \<and> (\<forall>n'<n. \<not> has_empty t h n'))"

definition placed :: "'k policy \<Rightarrow> ('k, 'v) table \<Rightarrow> nat \<Rightarrow> bool" where
  "placed P t i \<longleftrightarrow> (\<exists>e. slot_array t ! i = Some e \<and> cell t i = H2 (p_hash P (fst e)) \<and>
     reach t (start t (p_hash P (fst e))) i)"

definition key_at :: "('k, 'v) table \<Rightarrow> nat \<Rightarrow> 'k" where
  "key_at t i = fst (the (slot_array t ! i))"

definition deleted_slots :: "('k, 'v) table \<Rightarrow> nat set" where
  "deleted_slots t = {i. i < capacity t \<and> cell t i = kDeleted}"

definition empty_slots :: "('k, 'v) table \<Rightarrow> nat set" where
  "empty_slots t = {i. i < capacity t \<and> cell t i = kEmpty}"

definition elements_ok :: "'k policy \<Rightarrow> ('k, 'v) table \<Rightarrow> bool" where
  "elements_ok P t \<longleftrightarrow> (\<forall>i. full t i \<longrightarrow> placed P t i) \<and> inj_on (key_at t) {i. full t i}"

definition counts_ok :: "('k, 'v) table \<Rightarrow> bool" where
  "counts_ok t \<longleftrightarrow> tab_size t = card {i. full t i} \<and>
     growth_left t + tab_size t + card (deleted_slots t) = growth (capacity t)"

definition table_ok :: "'k policy \<Rightarrow> ('k, 'v) table \<Rightarrow> bool" where
  "table_ok P t \<longleftrightarrow> shape t \<and> elements_ok P t \<and> counts_ok t"

text \<open>The map a table stands for.\<close>

definition elements :: "('k, 'v) table \<Rightarrow> ('k \<times> 'v) list" where
  "elements t = map (\<lambda>i. the (slot_array t ! i)) (filter (\<lambda>i. IsFull (cell t i)) [0..<capacity t])"

definition table_map :: "('k, 'v) table \<Rightarrow> 'k \<rightharpoonup> 'v" where
  "table_map t = map_of (elements t)"

lemma finite_full [simp]: "finite {i. full t i}"
  by (rule finite_subset [of _ "{..<capacity t}"]) (auto simp: full_def)

lemma finite_slots [simp]: "finite (deleted_slots t)" "finite (empty_slots t)"
  by (auto simp: deleted_slots_def empty_slots_def)

lemma elements_distinct: "inj_on (key_at t) {i. full t i} \<Longrightarrow> distinct (map fst (elements t))"
proof -
  assume "inj_on (key_at t) {i. full t i}"
  moreover have "set (filter (\<lambda>i. IsFull (cell t i)) [0..<capacity t]) = {i. full t i}" by (auto simp: full_def)
  ultimately show ?thesis by (simp add: elements_def distinct_map comp_def key_at_def [abs_def])
qed

lemma table_map_Some:
  assumes "elements_ok P t"
  shows "table_map t k = Some v \<longleftrightarrow> (\<exists>i. full t i \<and> slot_array t ! i = Some (k, v))"
proof -
  have d: "distinct (map fst (elements t))" using assms by (intro elements_distinct) (simp add: elements_ok_def)
  have "(k, v) \<in> set (elements t) \<longleftrightarrow> (\<exists>i. full t i \<and> slot_array t ! i = Some (k, v))"
    using assms by (force simp: elements_def full_def elements_ok_def placed_def)
  then show ?thesis unfolding table_map_def using d by (simp add: map_of_eq_Some_iff)
qed

lemma table_map_None:
  assumes "elements_ok P t"
  shows "table_map t k = None \<longleftrightarrow> (\<forall>i. full t i \<longrightarrow> key_at t i \<noteq> k)"
proof -
  have "table_map t k = None \<longleftrightarrow> \<not> (\<exists>v. table_map t k = Some v)" by auto
  also have "\<dots> \<longleftrightarrow> (\<forall>i. full t i \<longrightarrow> key_at t i \<noteq> k)"
    unfolding table_map_Some [OF assms] using assms by (fastforce simp: key_at_def elements_ok_def placed_def)
  finally show ?thesis .
qed

section \<open>There is always an empty byte to stop at\<close>

lemma slot_partition:
  assumes "shape t"
  shows "card {i. full t i} + card (empty_slots t) + card (deleted_slots t) = capacity t"
proof -
  have U: "{..<capacity t} = {i. full t i} \<union> empty_slots t \<union> deleted_slots t"
    using assms by (auto simp: full_def empty_slots_def deleted_slots_def shape_def slot_byte_def)
  have "{i. full t i} \<inter> empty_slots t = {}" "({i. full t i} \<union> empty_slots t) \<inter> deleted_slots t = {}"
    using ctrl_values by (auto simp: full_def empty_slots_def deleted_slots_def)
  then have "card ({i. full t i} \<union> empty_slots t \<union> deleted_slots t) =
      card {i. full t i} + card (empty_slots t) + card (deleted_slots t)"
    by (simp add: card_Un_disjoint)
  then show ?thesis unfolding U [symmetric] by simp
qed

lemma growth_less: "table_capacity c \<Longrightarrow> 7 \<le> c \<Longrightarrow> growth c < c"
proof -
  assume c: "table_capacity c" "7 \<le> c"
  have "c \<noteq> 7 \<Longrightarrow> 8 \<le> c" using c by simp
  then show ?thesis using c(2) by (auto simp: growth_def div_greater_zero_iff)
qed

lemma growth_small: "c = 0 \<or> c = 1 \<or> c = 3 \<Longrightarrow> growth c = c"
  by (auto simp: growth_def)

lemma in_group_byte:
  assumes "in_group (capacity t) h n i" "i < capacity t"
  shows "\<exists>j<8. i = (probe_offset (capacity t) h n + j) mod (capacity t + 1) \<and>
    group_byte t (probe_offset (capacity t) h n) j = cell t i \<and> probe_offset (capacity t) h n + j \<le> 2 * capacity t"
proof -
  let ?cap = "capacity t" and ?o = "probe_offset (capacity t) h n"
  obtain j where j: "j < 8" "i = (?o + j) mod (?cap + 1)" using assms(1) by (auto simp: in_group_def)
  have o: "?o \<le> ?cap" by (rule probe_offset_le)
  show ?thesis
  proof (cases "?o + j \<le> 2 * ?cap")
    case True
    then show ?thesis using j by (intro exI [of _ j]) (simp add: group_byte_def)
  next
    case False
    then have small: "?cap < 7" using o j(1) by linarith
    define j' where "j' = (if ?o \<le> i then i - ?o else ?cap + 1 + i - ?o)"
    have j': "j' < 8" "?o + j' = i \<or> ?o + j' = ?cap + 1 + i" using small assms(2) o by (auto simp: j'_def)
    have "?o + j' \<le> 2 * ?cap" using j'(2) assms(2) by auto
    moreover have "(?o + j') mod (?cap + 1) = i"
      using j'(2) assms(2) mod_add_self1 [of "?cap + 1" i] by (elim disjE) (simp_all only: mod_less)
    ultimately show ?thesis using j'(1) by (intro exI [of _ j']) (simp add: group_byte_def)
  qed
qed

lemma visits:
  assumes "shape t" "i < capacity t"
  shows "\<exists>n. 8 * n \<le> capacity t \<and> in_group (capacity t) h n i"
proof (cases "capacity t < 7")
  case True
  then show ?thesis using probe_covers_small [of "capacity t" i h] assms by (intro exI [of _ 0]) (auto simp: shape_def)
next
  case False
  then have "IsValidCapacity (capacity t)" using assms by (auto simp: shape_def table_capacity_def)
  then show ?thesis using probe_covers [of "capacity t" i h] False assms(2) by simp
qed

lemma empty_seen:
  assumes "shape t" "capacity t < 7 \<or> empty_slots t \<noteq> {}"
  shows "\<exists>n. 8 * n \<le> capacity t \<and> has_empty t h n"
proof (cases "capacity t < 7")
  case True
  then have "capacity t = 0 \<or> capacity t = 1 \<or> capacity t = 3" using small_capacity assms(1) by (auto simp: shape_def)
  then have "group_byte t (probe_offset (capacity t) h 0) 7 = kEmpty" by (auto simp: group_byte_def)
  then have "has_empty t h 0" unfolding has_empty_def by (intro exI [of _ 7]) simp
  then show ?thesis by (intro exI [of _ 0]) simp
next
  case False
  then obtain i where i: "i < capacity t" "cell t i = kEmpty" using assms(2) by (auto simp: empty_slots_def)
  obtain n where n: "8 * n \<le> capacity t" "in_group (capacity t) h n i" using visits [OF assms(1) i(1)] by blast
  have "has_empty t h n" using in_group_byte [OF n(2) i(1)] i(2) by (auto simp: has_empty_def)
  with n(1) show ?thesis by blast
qed

lemma table_has_empty:
  assumes "shape t" "counts_ok t"
  shows "\<exists>n. 8 * n \<le> capacity t \<and> has_empty t h n"
proof (rule empty_seen [OF assms(1)])
  have "empty_slots t \<noteq> {}" if "7 \<le> capacity t"
  proof -
    have "growth (capacity t) < capacity t" using growth_less that assms(1) by (simp add: shape_def)
    then have "0 < card (empty_slots t)" using slot_partition [OF assms(1)] assms(2) by (simp add: counts_ok_def)
    then show ?thesis by auto
  qed
  then show "capacity t < 7 \<or> empty_slots t \<noteq> {}" by linarith
qed

section \<open>The search\<close>

lemma full_lane:
  assumes "shape t" "o' \<le> capacity t" "j < 8" "IsFull (group_byte t o' j)"
  shows "full t ((o' + j) mod (capacity t + 1))" "cell t ((o' + j) mod (capacity t + 1)) = group_byte t o' j"
proof -
  let ?p = "(o' + j) mod (capacity t + 1)"
  show c: "cell t ?p = group_byte t o' j" using assms(4) ctrl_values by (auto simp: group_byte_def split: if_splits)
  have "?p < capacity t + 1" by (rule mod_less_divisor) simp
  moreover have "?p \<noteq> capacity t" using c assms(1,4) ctrl_values by (auto simp: shape_def)
  ultimately have "?p < capacity t" by linarith
  then show "full t ?p" using c assms(4) by (simp add: full_def)
qed

lemma match_loop_ok:
  assumes "shape t" "elements_ok P t" "\<forall>j\<in>set js. full t (offset_at seq j)"
  shows "\<exists>r. match_loop t key seq js = Inr r \<and>
    (case r of None \<Rightarrow> \<forall>j\<in>set js. key_at t (offset_at seq j) \<noteq> key
     | Some p \<Rightarrow> full t p \<and> key_at t p = key)"
  using assms(3)
proof (induction js)
  case (Cons j js)
  let ?p = "offset_at seq j"
  have p: "full t ?p" using Cons.prems by simp
  then obtain e where e: "slot_array t ! ?p = Some e" using assms(2) by (auto simp: elements_ok_def placed_def)
  have "?p < length (slot_array t)" using p assms(1) by (simp add: full_def shape_def)
  then have "slot_at t ?p = Inr e" using e by (simp add: slot_at_def)
  moreover have "key_at t ?p = fst e" using e by (simp add: key_at_def)
  ultimately show ?case using Cons p by (auto split: option.splits)
qed simp

text \<open>One group of the search: a match in it is found.\<close>

lemma find_group:
  fixes t :: "('k, 'v) table" and n :: nat
  assumes s: "shape t" and e: "elements_ok P t" and h: "h = start t (p_hash P key)"
  defines "o' \<equiv> probe_offset (capacity t) h n"
  shows "\<exists>r. match_loop t key (seq_at (capacity t) h n)
      (mask_indices (p_tc P) (Match (group_word (group_list t o')) (H2 (p_hash P key)))) = Inr r \<and>
    (case r of None \<Rightarrow> \<forall>i. full t i \<and> in_group (capacity t) h n i \<longrightarrow> key_at t i \<noteq> key
     | Some p \<Rightarrow> full t p \<and> key_at t p = key)"
proof -
  let ?M = "Match (group_word (group_list t o')) (H2 (p_hash P key))"
  let ?seq = "seq_at (capacity t) h n"
  have o: "o' \<le> capacity t" unfolding o'_def by (rule probe_offset_le)
  have tc: "table_capacity (capacity t)" using s by (simp add: shape_def)
  note L = lane_Match [OF group_list_ok(1) [OF s o] H2_full]
  have js: "set (mask_indices (p_tc P) ?M) = {j. lane ?M j}" by (rule mask_indices_set [OF L(3)])
  have off: "offset_at ?seq j = (o' + j) mod (capacity t + 1)" for j by (simp add: offset_at_at [OF tc] o'_def)
  have f: "\<forall>j\<in>set (mask_indices (p_tc P) ?M). full t (offset_at ?seq j)"
  proof
    fix j assume "j \<in> set (mask_indices (p_tc P) ?M)"
    then have "j < 8" "IsFull (group_list t o' ! j)" using L(1) js by blast+
    then show "full t (offset_at ?seq j)" using full_lane(1) [OF s o, of j] off by simp
  qed
  obtain r where r: "match_loop t key ?seq (mask_indices (p_tc P) ?M) = Inr r"
    "case r of None \<Rightarrow> \<forall>j\<in>set (mask_indices (p_tc P) ?M). key_at t (offset_at ?seq j) \<noteq> key
     | Some p \<Rightarrow> full t p \<and> key_at t p = key"
    using match_loop_ok [OF s e f] by blast
  have "key_at t i \<noteq> key" if r0: "r = None" and fi: "full t i" and gi: "in_group (capacity t) h n i" for i
  proof
    assume k: "key_at t i = key"
    then have "cell t i = H2 (p_hash P key)" using e fi by (auto simp: elements_ok_def placed_def key_at_def)
    moreover obtain j where j: "j < 8" "i = (o' + j) mod (capacity t + 1)" "group_byte t o' j = cell t i"
      using in_group_byte [OF gi] fi unfolding o'_def by (auto simp: full_def)
    ultimately have "lane ?M j" using L(2) [of j] by simp
    then have "key_at t (offset_at ?seq j) \<noteq> key" using r(2) r0 js by simp
    then show False using k j(2) off by simp
  qed
  then show ?thesis using r by (intro exI [of _ r]) (auto split: option.splits)
qed

lemma find_loop_ok:
  fixes t :: "('k, 'v) table"
  assumes s: "shape t" and e: "elements_ok P t" and h: "h = start t (p_hash P key)"
    and m: "8 * m \<le> capacity t" "has_empty t h m"
    and before: "\<forall>i. full t i \<and> key_at t i = key \<longrightarrow>
      (\<exists>n'\<ge>n. in_group (capacity t) h n' i \<and> (\<forall>k<n'. \<not> has_empty t h k))"
    and le: "n \<le> m"
  shows "\<exists>r. find_loop P t key (p_hash P key) (seq_at (capacity t) h n) = Inr r \<and>
    (case r of None \<Rightarrow> \<forall>i. full t i \<longrightarrow> key_at t i \<noteq> key | Some p \<Rightarrow> full t p \<and> key_at t p = key)"
  using before le
proof (induction "m - n" arbitrary: n rule: less_induct)
  case less
  let ?o = "probe_offset (capacity t) h n"
  have o: "?o \<le> capacity t" by (rule probe_offset_le)
  have tc: "table_capacity (capacity t)" using s by (simp add: shape_def)
  obtain r where r: "match_loop t key (seq_at (capacity t) h n)
      (mask_indices (p_tc P) (Match (group_word (group_list t ?o)) (H2 (p_hash P key)))) = Inr r"
    "case r of None \<Rightarrow> \<forall>i. full t i \<and> in_group (capacity t) h n i \<longrightarrow> key_at t i \<noteq> key
     | Some p \<Rightarrow> full t p \<and> key_at t p = key"
    using find_group [OF s e h] by blast
  have none: "MaskEmpty (group_word (group_list t ?o)) \<noteq> 0 \<longleftrightarrow> has_empty t h n"
    using lanes_empty(2) [OF s o] by (auto simp: has_empty_def)
  have step: "find_loop P t key (p_hash P key) (seq_at (capacity t) h n) =
      (if r \<noteq> None then Inr r else if has_empty t h n then Inr None
       else if 8 * Suc n \<le> capacity t then find_loop P t key (p_hash P key) (seq_at (capacity t) h (Suc n)) else Inl AssertFailed)"
    by (subst find_loop.simps) (simp add: load_group [OF s o] r(1) none Let_def seq_next_at [OF tc])
  show ?case
  proof (cases r)
    case (Some p)
    then show ?thesis using step r(2) by simp
  next
    case None
    have not_here: "\<exists>n'\<ge>Suc n. in_group (capacity t) h n' i \<and> (\<forall>k<n'. \<not> has_empty t h k)"
      if "full t i" "key_at t i = key" for i
    proof -
      obtain n' where n': "n \<le> n'" "in_group (capacity t) h n' i" "\<forall>k<n'. \<not> has_empty t h k" using less.prems(1) \<open>full t i\<close> \<open>key_at t i = key\<close> by blast
      have "n' \<noteq> n" using r(2) None n'(2) that by auto
      with n' show ?thesis by (intro exI [of _ n']) auto
    qed
    show ?thesis
    proof (cases "has_empty t h n")
      case True
      have "key_at t i \<noteq> key" if "full t i" for i
      proof
        assume "key_at t i = key"
        with not_here that obtain n' where "Suc n \<le> n'" "\<forall>k<n'. \<not> has_empty t h k" by blast
        then show False using True by simp
      qed
      then show ?thesis using step None True by simp
    next
      case False
      then have "n < m" using m(2) less.prems(2) by (cases "n = m") auto
      moreover have "\<exists>r. find_loop P t key (p_hash P key) (seq_at (capacity t) h (Suc n)) = Inr r \<and>
          (case r of None \<Rightarrow> \<forall>i. full t i \<longrightarrow> key_at t i \<noteq> key | Some p \<Rightarrow> full t p \<and> key_at t p = key)"
        using \<open>n < m\<close> not_here by (intro less.hyps) auto
      moreover have "8 * Suc n \<le> capacity t" using \<open>n < m\<close> m(1) by simp
      ultimately show ?thesis using step None False by simp
    qed
  qed
qed

lemma find_key_ok:
  fixes t :: "('k, 'v) table"
  assumes s: "shape t" and e: "elements_ok P t" and "\<exists>n. 8 * n \<le> capacity t \<and> has_empty t (start t (p_hash P key)) n"
  shows "\<exists>r. find_key P t key = Inr r \<and>
    (case r of None \<Rightarrow> \<forall>i. full t i \<longrightarrow> key_at t i \<noteq> key | Some p \<Rightarrow> full t p \<and> key_at t p = key)"
proof -
  let ?h = "start t (p_hash P key)"
  obtain m where m: "8 * m \<le> capacity t" "has_empty t ?h m" using assms(3) by blast
  have "\<forall>i. full t i \<and> key_at t i = key \<longrightarrow> (\<exists>n'\<ge>0. in_group (capacity t) ?h n' i \<and> (\<forall>k<n'. \<not> has_empty t ?h k))"
    using e by (fastforce simp: elements_ok_def placed_def key_at_def reach_def)
  from find_loop_ok [OF s e refl m this] show ?thesis
    by (simp add: find_key_def find_hash_def table_probe_start [OF s])
qed

section \<open>The free slot an insertion finds\<close>

lemma large_group_byte:
  "7 \<le> capacity t \<Longrightarrow> o' \<le> capacity t \<Longrightarrow> j < 8 \<Longrightarrow> group_byte t o' j = cell t ((o' + j) mod (capacity t + 1))"
  by (simp add: group_byte_def)

lemma small_groups:
  assumes "shape t" "capacity t < 7" "o' \<le> capacity t"
  shows "group_byte t o' 7 = kEmpty" "2 * capacity t + 1 - o' < 8" "group_byte t o' (2 * capacity t + 1 - o') = kEmpty"
proof -
  have c: "capacity t = 0 \<or> capacity t = 1 \<or> capacity t = 3" using small_capacity assms by (auto simp: shape_def)
  then show "group_byte t o' 7 = kEmpty" "2 * capacity t + 1 - o' < 8" by (auto simp: group_byte_def)
  have "2 * capacity t < o' + (2 * capacity t + 1 - o')" by linarith
  then show "group_byte t o' (2 * capacity t + 1 - o') = kEmpty" by (simp only: group_byte_def if_True)
qed

lemma small_has_free: "shape t \<Longrightarrow> capacity t < 7 \<Longrightarrow> has_free t h 0"
  using small_groups(1) [OF _ _ probe_offset_le, of t h 0] unfolding has_free_def by (intro exI [of _ 7]) simp

lemma free_lane:
  assumes "shape t" "o' \<le> capacity t" "o' + j \<le> 2 * capacity t" "group_byte t o' j \<in> {kEmpty, kDeleted}"
  shows "(o' + j) mod (capacity t + 1) < capacity t" "cell t ((o' + j) mod (capacity t + 1)) = group_byte t o' j"
proof -
  let ?p = "(o' + j) mod (capacity t + 1)"
  show c: "cell t ?p = group_byte t o' j" using assms(3) by (simp add: group_byte_def)
  have "?p < capacity t + 1" by (rule mod_less_divisor) simp
  moreover have "?p \<noteq> capacity t" using c assms(1,4) ctrl_values by (auto simp: shape_def)
  ultimately show "?p < capacity t" by linarith
qed

abbreviation is_free :: "('k, 'v) table \<Rightarrow> nat \<Rightarrow> bool" where
  "is_free t i \<equiv> i < capacity t \<and> cell t i \<in> {kEmpty, kDeleted}"

text \<open>Where an element may go: the groups before are full, so that it will be found.\<close>

definition spot :: "('k, 'v) table \<Rightarrow> nat \<Rightarrow> nat \<Rightarrow> bool" where
  "spot t h p \<longleftrightarrow> (\<exists>n. 8 * n \<le> capacity t \<and> in_group (capacity t) h n p \<and> (\<forall>n'<n. \<not> has_free t h n'))"

lemma found_is_free:
  assumes s: "shape t" and f: "free_found t h n p" and n: "8 * n \<le> capacity t" and i: "is_free t i"
  shows "is_free t p" "in_group (capacity t) h n p"
proof -
  let ?o = "probe_offset (capacity t) h n"
  have o: "?o \<le> capacity t" by (rule probe_offset_le)
  obtain j where j: "j < 8" "p = (?o + j) mod (capacity t + 1)" "group_byte t ?o j \<in> {kEmpty, kDeleted}"
    "capacity t < 7 \<longrightarrow> (\<forall>j'<j. group_byte t ?o j' \<notin> {kEmpty, kDeleted})"
    using f by (auto simp: free_found_def)
  have "?o + j \<le> 2 * capacity t"
  proof (cases "capacity t < 7")
    case True
    then have "n = 0" using n by linarith
    then have "in_group (capacity t) h n i" using probe_covers_small [of "capacity t" i h] s i True by (simp add: shape_def)
    then obtain j' where j': "group_byte t ?o j' = cell t i" "?o + j' \<le> 2 * capacity t"
      using in_group_byte i by blast
    then have "j \<le> j'" using j(4) True i by (metis linorder_not_le)
    then show ?thesis using j'(2) by linarith
  qed (use o j(1) in linarith)
  from free_lane [OF s o this j(3)] show "is_free t p" using j(2,3) by simp
  show "in_group (capacity t) h n p" using j(1,2) unfolding in_group_def by blast
qed

lemma find_free:
  fixes t :: "('k, 'v) table"
  assumes s: "shape t" and i: "is_free t i"
  shows "\<exists>p n c. find_first_non_full P t hash = Inr ((p, n), t\<lparr>counter := c\<rparr>) \<and> is_free t p \<and> spot t (start t hash) p"
proof -
  let ?h = "start t hash"
  have "\<exists>n. 8 * n \<le> capacity t \<and> has_free t ?h n"
  proof -
    obtain n where n: "8 * n \<le> capacity t" "in_group (capacity t) ?h n i" using visits [OF s] i by blast
    have "has_free t ?h n" using in_group_byte [OF n(2)] i by (auto simp: has_free_def)
    with n(1) show ?thesis by blast
  qed
  then obtain m where "8 * m \<le> capacity t" "has_free t ?h m" by blast
  define n where "n = (LEAST n. has_free t ?h n)"
  have n: "has_free t ?h n" "\<forall>n'<n. \<not> has_free t ?h n'" "n \<le> m"
    using \<open>has_free t ?h m\<close> unfolding n_def by (auto intro: LeastI Least_le dest: not_less_Least)
  then have n8: "8 * n \<le> capacity t" using \<open>8 * m \<le> capacity t\<close> by linarith
  obtain p c where pc: "find_first_non_full P t hash = Inr ((p, 8 * n), t\<lparr>counter := c\<rparr>)" "free_found t ?h n p"
    using find_first_non_full_ok [OF s n8 n(1,2)] by blast
  from found_is_free [OF s pc(2) n8 i] show ?thesis using pc(1) n(2) n8 unfolding spot_def by blast
qed

text \<open>In a small table without a free slot the search ends at the sentinel.\<close>

lemma find_sentinel:
  fixes t :: "('k, 'v) table"
  assumes s: "shape t" and c: "capacity t < 7" and none: "\<forall>i. \<not> is_free t i"
  shows "\<exists>n c. find_first_non_full P t hash = Inr ((capacity t, n), t\<lparr>counter := c\<rparr>)"
proof -
  let ?h = "start t hash" and ?o = "probe_offset (capacity t) (start t hash) 0" and ?cap = "capacity t"
  have o: "?o \<le> ?cap" by (rule probe_offset_le)
  obtain p c where pc: "find_first_non_full P t hash = Inr ((p, 8 * 0), t\<lparr>counter := c\<rparr>)" "free_found t ?h 0 p"
    using find_first_non_full_ok [OF s _ small_has_free [OF s c]] by force
  obtain j where j: "j < 8" "p = (?o + j) mod (?cap + 1)" "group_byte t ?o j \<in> {kEmpty, kDeleted}"
    "\<forall>j'<j. group_byte t ?o j' \<notin> {kEmpty, kDeleted}"
    using pc(2) assms(2) unfolding free_found_def by blast
  have "\<not> ?o + j \<le> 2 * ?cap" using free_lane [OF s o _ j(3)] none j(3) by metis
  moreover have "\<not> 2 * ?cap + 1 - ?o < j" using j(4) small_groups(3) [OF s assms(2) o] by auto
  ultimately have "?o + j = ?cap + (?cap + 1)" using o by linarith
  then have "p = ?cap" unfolding j(2) using mod_wrap [of ?cap ?cap] by simp
  then show ?thesis using pc(1) by auto
qed

section \<open>How reachability carries over\<close>

text \<open>Two tables over the same array: the same capacity and the same address.\<close>

definition same_array :: "('k, 'v) table \<Rightarrow> ('k, 'v) table \<Rightarrow> bool" where
  "same_array t t' \<longleftrightarrow> capacity t' = capacity t \<and> control_at t' = control_at t"

lemma group_byte_cases:
  assumes "capacity t' = capacity t" "o' \<le> capacity t" "j < 8" "group_byte t' o' j = b"
  obtains "b = kEmpty" "group_byte t o' j = kEmpty"
  | x where "x \<le> capacity t" "cell t' x = b" "cell t x = group_byte t o' j"
proof (cases "o' + j > 2 * capacity t")
  case True
  then show thesis using assms that(1) by (simp add: group_byte_def)
next
  case False
  let ?x = "(o' + j) mod (capacity t + 1)"
  have "?x \<le> capacity t" using mod_less_divisor [of "capacity t + 1" "o' + j"] by simp
  then show thesis using False assms that(2) [of ?x] by (simp add: group_byte_def)
qed

lemma has_empty_mono:
  assumes "same_array t t'" "\<forall>x\<le>capacity t. cell t' x = kEmpty \<longrightarrow> cell t x = kEmpty" "has_empty t' h n"
  shows "has_empty t h n"
proof -
  have c: "capacity t' = capacity t" using assms(1) by (simp add: same_array_def)
  let ?o = "probe_offset (capacity t) h n"
  obtain j where j: "j < 8" "group_byte t' ?o j = kEmpty" using assms(3) c by (auto simp: has_empty_def)
  have "group_byte t ?o j = kEmpty" using group_byte_cases [OF c probe_offset_le j] assms(2) by metis
  then show ?thesis using j(1) by (auto simp: has_empty_def)
qed

lemma has_free_mono:
  assumes "same_array t t'" "\<forall>x\<le>capacity t. cell t' x \<in> {kEmpty, kDeleted} \<longrightarrow> cell t x \<in> {kEmpty, kDeleted}" "has_free t' h n"
  shows "has_free t h n"
proof -
  have c: "capacity t' = capacity t" using assms(1) by (simp add: same_array_def)
  let ?o = "probe_offset (capacity t) h n"
  obtain j where j: "j < 8" "group_byte t' ?o j \<in> {kEmpty, kDeleted}" using assms(3) c by (auto simp: has_free_def)
  have "group_byte t ?o j \<in> {kEmpty, kDeleted}"
    using group_byte_cases [OF c probe_offset_le j(1) refl] assms(2) j(2) by (metis insertI1)
  then show ?thesis using j(1) by (auto simp: has_free_def)
qed

lemma has_empty_free: "has_empty t h n \<Longrightarrow> has_free t h n"
  by (auto simp: has_empty_def has_free_def)

lemma reach_mono:
  assumes "same_array t t'" "\<forall>x\<le>capacity t. cell t' x = kEmpty \<longrightarrow> cell t x = kEmpty" "reach t h i"
  shows "reach t' h i"
  using assms(3) has_empty_mono [OF assms(1,2)] assms(1) unfolding reach_def same_array_def by metis

lemma spot_mono:
  assumes "same_array t t'" "\<forall>x\<le>capacity t. cell t' x \<in> {kEmpty, kDeleted} \<longrightarrow> cell t x \<in> {kEmpty, kDeleted}" "spot t h i"
  shows "spot t' h i"
  using assms(3) has_free_mono [OF assms(1,2)] assms(1) unfolding spot_def same_array_def by metis

lemma spot_reach: "spot t h i \<Longrightarrow> reach t h i"
  using has_empty_free unfolding spot_def reach_def by blast

lemma start_same: "same_array t t' \<Longrightarrow> start t' hash = start t hash"
  by (simp add: same_array_def start_def)

section \<open>Filling a free slot\<close>

lemma table_map_eqI:
  assumes "elements_ok P t" "\<And>k v. m k = Some v \<longleftrightarrow> (\<exists>i. full t i \<and> slot_array t ! i = Some (k, v))"
  shows "table_map t = m"
proof
  fix k
  show "table_map t k = m k"
    using table_map_Some [OF assms(1)] assms(2) by (metis option.exhaust)
qed

text \<open>The table \<open>t'\<close> is \<open>t\<close> with the element put into the free slot \<open>p\<close>.\<close>

definition filled :: "'k policy \<Rightarrow> ('k, 'v) table \<Rightarrow> nat \<Rightarrow> 'k \<times> 'v \<Rightarrow> ('k, 'v) table \<Rightarrow> bool" where
  "filled P t p e t' \<longleftrightarrow> shape t' \<and> same_array t t' \<and>
     (\<forall>x\<le>capacity t. cell t' x = (if x = p then H2 (p_hash P (fst e)) else cell t x)) \<and>
     slot_array t' = (slot_array t)[p := Some e]"

lemma filled_shape: "filled P t p e t' \<Longrightarrow> shape t'"
  by (simp add: filled_def)

lemma filled_full:
  assumes "filled P t p e t'" "is_free t p"
  shows "full t' i \<longleftrightarrow> i = p \<or> full t i" "\<not> full t p"
    "deleted_slots t' = deleted_slots t - {p}" "empty_slots t' = empty_slots t - {p}"
proof -
  have c: "cell t' x = (if x = p then H2 (p_hash P (fst e)) else cell t x)" if "x < capacity t" for x
    using assms that by (simp add: filled_def)
  have cap: "capacity t' = capacity t" using assms by (simp add: filled_def same_array_def)
  show "full t' i \<longleftrightarrow> i = p \<or> full t i" "\<not> full t p" using c cap assms(2) ctrl_values H2_full by (auto simp: full_def)
  show "deleted_slots t' = deleted_slots t - {p}" "empty_slots t' = empty_slots t - {p}"
    unfolding deleted_slots_def empty_slots_def cap using c by (auto split: if_splits)
qed

lemma filled_ok:
  assumes s: "shape t" and e: "elements_ok P t" and f: "filled P t p e t'" and free: "is_free t p"
    and sp: "spot t (start t (p_hash P (fst e))) p" and new: "\<forall>i. full t i \<longrightarrow> key_at t i \<noteq> fst e"
  shows "elements_ok P t'" "table_map t' = (table_map t)(fst e \<mapsto> snd e)" "card {i. full t' i} = Suc (card {i. full t i})"
proof -
  note F = filled_full [OF f free]
  have sa: "same_array t t'" and len: "p < length (slot_array t)" using f free s by (auto simp: filled_def shape_def)
  have slots: "slot_array t' ! i = (if i = p then Some e else slot_array t ! i)" if "full t' i" for i
    using f len that s by (auto simp: filled_def full_def shape_def nth_list_update same_array_def)
  have mono: "\<forall>x\<le>capacity t. cell t' x = kEmpty \<longrightarrow> cell t x = kEmpty"
    using f by (auto simp: filled_def split: if_splits)
  have free': "\<forall>x\<le>capacity t. cell t' x \<in> {kEmpty, kDeleted} \<longrightarrow> cell t x \<in> {kEmpty, kDeleted}"
    using f by (auto simp: filled_def split: if_splits)
  have placed': "placed P t' i" if fi: "full t' i" for i
  proof (cases "i = p")
    case True
    have "reach t' (start t' (p_hash P (fst e))) p"
      using spot_reach [OF spot_mono [OF sa free' sp]] start_same [OF sa] by simp
    then show ?thesis using f free slots [OF fi] True by (auto simp: placed_def filled_def)
  next
    case False
    then have "placed P t i" using e F(1) fi by (auto simp: elements_ok_def)
    then obtain e' where e': "slot_array t ! i = Some e'" "cell t i = H2 (p_hash P (fst e'))"
      "reach t (start t (p_hash P (fst e'))) i" by (auto simp: placed_def)
    moreover have "cell t' i = cell t i" using f False fi by (auto simp: filled_def full_def same_array_def)
    ultimately show ?thesis using False slots [OF fi] reach_mono [OF sa mono] start_same [OF sa] by (auto simp: placed_def)
  qed
  have keys: "key_at t' i = (if i = p then fst e else key_at t i)" if "full t' i" for i
    using slots [OF that] by (simp add: key_at_def)
  have "inj_on (key_at t') {i. full t' i}"
  proof (rule inj_onI)
    fix x y assume xy: "x \<in> {i. full t' i}" "y \<in> {i. full t' i}" "key_at t' x = key_at t' y"
    then have "x = p \<or> full t x" "y = p \<or> full t y" using F(1) by auto
    moreover have "inj_on (key_at t) {i. full t i}" using e by (simp add: elements_ok_def)
    ultimately show "x = y" using xy keys new by (cases "x = p"; cases "y = p") (auto dest: inj_onD)
  qed
  with placed' show e': "elements_ok P t'" by (simp add: elements_ok_def)
  show "table_map t' = (table_map t)(fst e \<mapsto> snd e)"
  proof (rule table_map_eqI [OF e'])
    fix k v
    have "(\<exists>i. full t' i \<and> slot_array t' ! i = Some (k, v)) \<longleftrightarrow>
        e = (k, v) \<or> (\<exists>i. full t i \<and> slot_array t ! i = Some (k, v))"
      using F(1,2) slots by (metis option.inject)
    moreover have "k \<noteq> fst e" if "full t i" "slot_array t ! i = Some (k, v)" for i using new that by (auto simp: key_at_def)
    ultimately show "((table_map t)(fst e \<mapsto> snd e)) k = Some v \<longleftrightarrow> (\<exists>i. full t' i \<and> slot_array t' ! i = Some (k, v))"
      using table_map_Some [OF e, of k v] by (cases e) auto
  qed
  have "{i. full t' i} = insert p {i. full t i}" using F(1) by auto
  then show "card {i. full t' i} = Suc (card {i. full t i})" using F(2) by simp
qed

text \<open>The counters are not part of what the search looks at.\<close>

lemma frame_bytes [simp]:
  "group_byte (t\<lparr>counter := c\<rparr>) = group_byte t" "group_byte (t\<lparr>growth_left := g\<rparr>) = group_byte t"
  "group_byte (t\<lparr>tab_size := z\<rparr>) = group_byte t"
  by (simp_all add: group_byte_def fun_eq_iff)

lemma frame_shape [simp]:
  "shape (t\<lparr>counter := c\<rparr>) = shape t" "shape (t\<lparr>growth_left := g\<rparr>) = shape t" "shape (t\<lparr>tab_size := z\<rparr>) = shape t"
  by (simp_all add: shape_def)

lemma shape_slots [simp]: "length a = length (slot_array t) \<Longrightarrow> shape (t\<lparr>slot_array := a\<rparr>) = shape t"
  by (simp add: shape_def)

lemma frame_search [simp]:
  "start (t\<lparr>counter := c\<rparr>) = start t" "start (t\<lparr>growth_left := g\<rparr>) = start t" "start (t\<lparr>tab_size := z\<rparr>) = start t"
  "spot (t\<lparr>counter := c\<rparr>) = spot t" "spot (t\<lparr>growth_left := g\<rparr>) = spot t" "spot (t\<lparr>tab_size := z\<rparr>) = spot t"
  "reach (t\<lparr>counter := c\<rparr>) = reach t" "reach (t\<lparr>growth_left := g\<rparr>) = reach t" "reach (t\<lparr>tab_size := z\<rparr>) = reach t"
  by (simp_all add: start_def spot_def reach_def has_free_def has_empty_def fun_eq_iff)

lemma frame_elements [simp]:
  "elements_ok P (t\<lparr>counter := c\<rparr>) = elements_ok P t" "elements_ok P (t\<lparr>growth_left := g\<rparr>) = elements_ok P t"
  "elements_ok P (t\<lparr>tab_size := z\<rparr>) = elements_ok P t"
  "full (t\<lparr>counter := c\<rparr>) = full t" "full (t\<lparr>growth_left := g\<rparr>) = full t" "full (t\<lparr>tab_size := z\<rparr>) = full t"
  "key_at (t\<lparr>counter := c\<rparr>) = key_at t" "key_at (t\<lparr>growth_left := g\<rparr>) = key_at t" "key_at (t\<lparr>tab_size := z\<rparr>) = key_at t"
  "table_map (t\<lparr>counter := c\<rparr>) = table_map t" "table_map (t\<lparr>growth_left := g\<rparr>) = table_map t"
  "table_map (t\<lparr>tab_size := z\<rparr>) = table_map t"
  by (simp_all add: elements_ok_def full_def key_at_def placed_def table_map_def elements_def fun_eq_iff inj_on_def)

lemma frame_slots [simp]:
  "deleted_slots (t\<lparr>counter := c\<rparr>) = deleted_slots t" "deleted_slots (t\<lparr>growth_left := g\<rparr>) = deleted_slots t"
  "deleted_slots (t\<lparr>tab_size := z\<rparr>) = deleted_slots t"
  "empty_slots (t\<lparr>counter := c\<rparr>) = empty_slots t" "empty_slots (t\<lparr>growth_left := g\<rparr>) = empty_slots t"
  "empty_slots (t\<lparr>tab_size := z\<rparr>) = empty_slots t"
  by (simp_all add: deleted_slots_def empty_slots_def)

lemma fill:
  assumes "shape t" "is_free t p"
  shows "\<exists>t1 t2. SetCtrl t p (H2 (p_hash P (fst e))) = Inr t1 \<and> set_slot t1 p (Some e) = Inr t2 \<and> filled P t p e t2 \<and>
    t1 = t\<lparr>control := control t2\<rparr> \<and> t2 = t\<lparr>control := control t2, slot_array := (slot_array t)[p := Some e]\<rparr>"
proof -
  obtain t1 where t1: "SetCtrl t p (H2 (p_hash P (fst e))) = Inr t1" "shape t1" "t1 = t\<lparr>control := control t1\<rparr>"
    "\<forall>x\<le>capacity t. cell t1 x = (if x = p then H2 (p_hash P (fst e)) else cell t x)"
    using SetCtrl_ok [OF assms(1) _ slot_byte_values(3)] assms(2) by blast
  have f: "capacity t1 = capacity t" "slot_array t1 = slot_array t" "control_at t1 = control_at t"
    by (subst t1(3), simp)+
  let ?t2 = "t1\<lparr>slot_array := (slot_array t)[p := Some e]\<rparr>"
  have "set_slot t1 p (Some e) = Inr ?t2" using assms f by (simp add: set_slot_def shape_def)
  moreover have "shape ?t2" using t1(2) f by (simp add: shape_def)
  then have "filled P t p e ?t2" using t1(4) f by (simp add: filled_def same_array_def)
  ultimately show ?thesis using t1(1,3) by (intro exI [of _ t1] exI [of _ ?t2]) auto
qed

end
