(* ===== verification/Rehash.thy ===== *)
theory Rehash
  imports HashTable
begin

text \<open>
  Rehashing: the move into an array of another capacity and the removal of deleted bytes in place. Both
  keep the map of the table and leave no deleted byte. The proofs follow the loops of the code: \<open>transferred\<close> is
  the state of the first loop after some slots of the old array, \<open>sorting\<close> the state of the second, in which
  a deleted byte marks an element that is still to be placed.
\<close>

section \<open>Rehashing into a new array\<close>

lemma resize_slot_ok:
  fixes t t' :: "('k, 'v) table"
  assumes s: "shape t'" and e: "elements_ok P t'" and free: "is_free t' q"
    and i: "i < length oc" "i < length os" "IsFull (oc ! i)" "os ! i = Some e" and new: "\<forall>x. full t' x \<longrightarrow> key_at t' x \<noteq> fst e"
  shows "\<exists>t2 p c. resize_slot P oc os i t' = Inr t2 \<and> is_free t' p \<and> spot t' (start t' (p_hash P (fst e))) p \<and>
    filled P t' p e t2 \<and> t2 = t'\<lparr>counter := c, control := control t2, slot_array := (slot_array t')[p := Some e]\<rparr>"
proof -
  obtain p n c where p: "find_first_non_full P t' (p_hash P (fst e)) = Inr ((p, n), t'\<lparr>counter := c\<rparr>)"
    "is_free t' p" "spot t' (start t' (p_hash P (fst e))) p"
    using find_free [OF s free] by blast
  obtain t1 t2 where t2: "SetCtrl (t'\<lparr>counter := c\<rparr>) p (H2 (p_hash P (fst e))) = Inr t1" "set_slot t1 p (Some e) = Inr t2"
    "filled P (t'\<lparr>counter := c\<rparr>) p e t2" "t2 = t'\<lparr>counter := c, control := control t2, slot_array := (slot_array t')[p := Some e]\<rparr>"
    using fill [of "t'\<lparr>counter := c\<rparr>" p P e] s p(2) by auto
  have "filled P t' p e t2" using t2(3) by (simp add: filled_def same_array_def)
  with t2 p i show ?thesis by (auto simp: resize_slot_def Let_def)
qed

lemma free_slot_exists:
  assumes "shape t" "card {i. full t i} < capacity t"
  shows "\<exists>i. is_free t i"
proof -
  have "0 < card (empty_slots t) + card (deleted_slots t)" using slot_partition [OF assms(1)] assms(2) by linarith
  then have "empty_slots t \<noteq> {} \<or> deleted_slots t \<noteq> {}" by auto
  then show ?thesis by (auto simp: empty_slots_def deleted_slots_def)
qed

lemma growth_le: "growth c \<le> c"
  by (simp add: growth_def)

text \<open>What holds after the first \<open>n\<close> slots of the old table \<open>t\<close> are moved into the new array \<open>t0\<close>.\<close>

definition transferred :: "'k policy \<Rightarrow> ('k, 'v) table \<Rightarrow> ('k, 'v) table \<Rightarrow> nat \<Rightarrow> ('k, 'v) table \<Rightarrow> bool" where
  "transferred P t t0 n t' \<longleftrightarrow> shape t' \<and> elements_ok P t' \<and> same_array t0 t' \<and> deleted_slots t' = {} \<and>
     tab_size t' = tab_size t0 \<and> growth_left t' = growth_left t0 \<and> allocs t' = allocs t0 \<and>
     card {i. full t' i} = card {i. full t i \<and> i < n} \<and>
     (\<forall>k v. table_map t' k = Some v \<longleftrightarrow> (\<exists>i<n. full t i \<and> slot_array t ! i = Some (k, v)))"

lemma moved_new:
  assumes e: "elements_ok P t" and m: "transferred P t t0 n t'" and n: "full t n" "slot_array t ! n = Some e"
  shows "\<forall>x. full t' x \<longrightarrow> key_at t' x \<noteq> fst e"
proof (intro allI impI notI)
  fix x assume x: "full t' x" "key_at t' x = fst e"
  have "elements_ok P t'" using m by (simp add: transferred_def)
  then have "table_map t' (fst e) \<noteq> None" using table_map_None [of P t' "fst e"] x by blast
  then obtain v where "table_map t' (fst e) = Some v" by blast
  then obtain i where i: "i < n" "full t i" "slot_array t ! i = Some (fst e, v)" using m unfolding transferred_def by blast
  then have "key_at t i = key_at t n" using n by (simp add: key_at_def)
  moreover have "inj_on (key_at t) {i. full t i}" using e by (simp add: elements_ok_def)
  ultimately show False using i n by (auto dest: inj_onD)
qed

lemma moved_Suc:
  assumes "\<not> full t n" "transferred P t t0 n t'"
  shows "transferred P t t0 (Suc n) t'"
proof -
  have "full t i \<and> i < Suc n \<longleftrightarrow> full t i \<and> i < n" for i using assms(1) by (auto simp: less_Suc_eq)
  moreover have "(\<exists>i<Suc n. full t i \<and> Q i) \<longleftrightarrow> (\<exists>i<n. full t i \<and> Q i)" for Q using assms(1) by (auto simp: less_Suc_eq)
  ultimately show ?thesis using assms(2) by (simp add: transferred_def)
qed

lemma moved_step:
  assumes s: "shape t" and e: "elements_ok P t" and m: "transferred P t t0 n t'" and n: "full t n" and c: "card {i. full t i} \<le> capacity t0"
  shows "\<exists>t2. resize_slot P (control t) (slot_array t) n t' = Inr t2 \<and> transferred P t t0 (Suc n) t2"
proof -
  obtain el where el: "slot_array t ! n = Some el" using e n by (auto simp: elements_ok_def placed_def)
  have t': "shape t'" "elements_ok P t'" "capacity t' = capacity t0" using m by (auto simp: transferred_def same_array_def)
  have split: "{i. full t i \<and> i < Suc n} = insert n {i. full t i \<and> i < n}" using n by (auto simp: less_Suc_eq)
  have fin: "finite {i. full t i \<and> i < n}" by simp
  have "card {i. full t i \<and> i < Suc n} \<le> card {i. full t i}" by (rule card_mono) auto
  then have "card {i. full t' i} < capacity t'" using m c t'(3) split fin by (simp add: transferred_def)
  then obtain q where "is_free t' q" using free_slot_exists [OF t'(1)] by blast
  note new = moved_new [OF e m n el]
  have len: "n < length (control t)" "n < length (slot_array t)" using s n by (auto simp: shape_def full_def)
  obtain t2 p c where t2: "resize_slot P (control t) (slot_array t) n t' = Inr t2" "is_free t' p"
    "spot t' (start t' (p_hash P (fst el))) p" "filled P t' p el t2"
    "t2 = t'\<lparr>counter := c, control := control t2, slot_array := (slot_array t')[p := Some el]\<rparr>"
    using resize_slot_ok [OF t'(1,2) \<open>is_free t' q\<close> len _ el new] n unfolding full_def by blast
  note F = filled_ok [OF t'(1,2) t2(4,2,3) new]
  have "deleted_slots t2 = {}" using filled_full(3) [OF t2(4,2)] m by (simp add: transferred_def)
  moreover have "tab_size t2 = tab_size t'" "growth_left t2 = growth_left t'" "allocs t2 = allocs t'" by (subst t2(5), simp)+
  moreover have "table_map t2 k = Some v \<longleftrightarrow> (\<exists>i<Suc n. full t i \<and> slot_array t ! i = Some (k, v))" for k v
  proof -
    have none: "table_map t' (fst el) = None" using table_map_None [OF t'(2)] new by blast
    have "table_map t2 k = Some v \<longleftrightarrow> el = (k, v) \<or> table_map t' k = Some v"
      using F(2) none by (cases el) auto
    then show ?thesis using m n el by (auto simp: transferred_def less_Suc_eq)
  qed
  moreover have "card {i. full t2 i} = card {i. full t i \<and> i < Suc n}" using F(3) m split fin by (simp add: transferred_def)
  moreover have "shape t2" "same_array t0 t2" using t2(4) m by (auto simp: filled_def same_array_def transferred_def)
  ultimately show ?thesis using t2(1) F(1) m by (intro exI [of _ t2]) (simp add: transferred_def)
qed

lemma resize_fold:
  assumes s: "shape t" and e: "elements_ok P t" and m: "transferred P t t0 0 t0" and c: "card {i. full t i} \<le> capacity t0"
    and "n \<le> capacity t"
  shows "\<exists>t'. rfold (resize_slot P (control t) (slot_array t)) [0..<n] t0 = Inr t' \<and> transferred P t t0 n t'"
  using assms(5)
proof (induction n)
  case (Suc n)
  then obtain t' where t': "rfold (resize_slot P (control t) (slot_array t)) [0..<n] t0 = Inr t'" "transferred P t t0 n t'" by auto
  have "\<exists>t2. resize_slot P (control t) (slot_array t) n t' = Inr t2 \<and> transferred P t t0 (Suc n) t2"
  proof (cases "full t n")
    case True
    then show ?thesis by (rule moved_step [OF s e t'(2) _ c])
  next
    case False
    then show ?thesis using moved_Suc [OF False t'(2)] Suc.prems s by (auto simp: resize_slot_def full_def shape_def)
  qed
  then show ?case using t'(1) by (auto simp: rfold_append)
qed (use m in simp)

text \<open>A fresh array.\<close>

definition fresh_control :: "nat \<Rightarrow> ctrl_t list" where
  "fresh_control c = (replicate (c + 1 + NumClonedBytes) kEmpty)[c := kSentinel]"

lemma fresh_shape:
  assumes "table_capacity (capacity t)" "control t = fresh_control (capacity t)" "length (slot_array t) = capacity t"
  shows "shape t" "{i. full t i} = {}" "deleted_slots t = {}"
proof -
  have c: "cell t i = (if i = capacity t then kSentinel else kEmpty)" if "i < capacity t + 8" for i
    using assms(2) that by (auto simp: fresh_control_def NumClonedBytes_def kWidth_def nth_list_update nth_Cons' simp del: replicate_Suc)
  then show "shape t" using assms by (auto simp: shape_def fresh_control_def NumClonedBytes_def kWidth_def)
  show "{i. full t i} = {}" "deleted_slots t = {}" using c ctrl_values by (auto simp: full_def deleted_slots_def)
qed

lemma ResetCtrl_ok:
  assumes "IsValidCapacity (capacity t)" "tab_size t \<le> growth (capacity t)"
  shows "ResetCtrl t = Inr (t\<lparr>control := fresh_control (capacity t), growth_left := growth (capacity t) - tab_size t\<rparr>)"
  using assms by (simp add: ResetCtrl_def ResetGrowthLeft_def CapacityToGrowth_eq growth_def size_minus_def fresh_control_def)

lemma no_full_map: "{i. full t i} = {} \<Longrightarrow> elements_ok P t \<and> table_map t = Map.empty"
proof -
  assume f: "{i. full t i} = {}"
  then have e: "elements_ok P t" by (auto simp: elements_ok_def)
  with table_map_None [OF e] f show ?thesis by auto
qed

lemma resize_ok:
  fixes t :: "('k, 'v) table"
  assumes ok: "table_ok P t" and c: "IsValidCapacity c" "tab_size t \<le> growth c"
  shows "\<exists>t'. resize P t c = Inr t' \<and> table_ok P t' \<and> capacity t' = c \<and> table_map t' = table_map t \<and>
    deleted_slots t' = {} \<and> tab_size t' = tab_size t \<and> growth_left t' = growth c - tab_size t"
proof -
  have t: "shape t" "elements_ok P t" "tab_size t = card {i. full t i}" using ok by (auto simp: table_ok_def counts_ok_def)
  let ?t0 = "t\<lparr>capacity := c, control_at := p_alloc P (allocs t), allocs := allocs t + 1, slot_array := replicate c None,
      control := fresh_control c, growth_left := growth c - tab_size t\<rparr>"
  have tc: "table_capacity c" "c \<noteq> 0" using c(1) by (auto simp: table_capacity_def IsValidCapacity_def)
  have init: "resize P t c = rfold (resize_slot P (control t) (slot_array t)) [0..<capacity t] ?t0"
    using c tc(2) ResetCtrl_ok [of "t\<lparr>capacity := c, control_at := p_alloc P (allocs t), allocs := allocs t + 1, slot_array := replicate c None\<rparr>"]
    by (simp add: resize_def set_capacity_def InitializeSlots_def assert_def Let_def)
  note f = fresh_shape [of ?t0, simplified, OF tc(1)]
  have "transferred P t ?t0 0 ?t0"
    using f no_full_map [of ?t0 P] by (simp add: transferred_def same_array_def)
  moreover have "card {i. full t i} \<le> capacity ?t0" using t(3) c(2) growth_le [of c] by simp
  ultimately obtain t' where t': "resize P t c = Inr t'" "transferred P t ?t0 (capacity t) t'"
    using resize_fold [OF t(1,2), of ?t0 "capacity t"] unfolding init by blast
  have full: "full t i \<and> i < capacity t \<longleftrightarrow> full t i" for i by (auto simp: full_def)
  have ex: "(\<exists>i<capacity t. full t i \<and> Q i) \<longleftrightarrow> (\<exists>i. full t i \<and> Q i)" for Q by (auto simp: full_def)
  have "table_map t' = table_map t"
  proof
    fix k show "table_map t' k = table_map t k"
      using t'(2) table_map_Some [OF t(2), of k] unfolding transferred_def ex by (metis option.exhaust)
  qed
  moreover have "counts_ok t'" using t'(2) t(3) c(2) by (simp add: transferred_def counts_ok_def full same_array_def)
  ultimately show ?thesis using t' by (intro exI [of _ t']) (simp add: transferred_def table_ok_def same_array_def)
qed

section \<open>The conversion of the control bytes\<close>

lemma convert_loop_ok:
  assumes "cap + 1 = 8 * N" "cap + 8 \<le> length c" "k \<le> N"
  shows "convert_loop P cap (8 * k) (map convert_byte (take (8 * k) c) @ drop (8 * k) c) =
    Inr (map convert_byte (take (cap + 1) c) @ drop (cap + 1) c)"
  using assms(3)
proof (induction "N - k" arbitrary: k)
  case 0
  then have "8 * k = cap + 1" using assms(1) by simp
  then show ?case by (subst convert_loop.simps) simp
next
  case (Suc d)
  then have k: "k < N" by simp
  then have b: "8 * k < cap" "8 * k + 8 \<le> length c" using assms(1,2) by linarith+
  let ?c = "map convert_byte (take (8 * k) c) @ drop (8 * k) c"
  let ?g = "take 8 (drop (8 * k) c)"
  have len: "length ?c = length c" "length ?g = 8" using b by simp_all
  have g: "take 8 (drop (8 * k) ?c) = ?g" using b by simp
  have "GroupPortableImpl (p_tc P) (p_ord P) ?c (8 * k) = Inr (group_word ?g)"
    using GroupPortableImpl_load [of "8 * k" ?c] b len g by simp
  moreover have "ConvertSpecialToEmptyAndFullToDeleted (p_tc P) (p_ord P) (group_word ?g) ?c (8 * k) =
      Inr (map convert_byte (take (8 * Suc k) c) @ drop (8 * Suc k) c)"
  proof -
    have "take (8 * Suc k) c = take (8 * k) c @ ?g" using take_add [of "8 * k" 8 c] by (simp add: add.commute)
    then have "take (8 * k) ?c @ map convert_byte ?g @ drop (8 * k + 8) ?c = map convert_byte (take (8 * Suc k) c) @ drop (8 * Suc k) c"
      using b by (simp add: add.commute)
    then show ?thesis using Convert_store [of "8 * k" ?c ?g] b len by simp
  qed
  ultimately have "convert_loop P cap (8 * k) ?c =
      convert_loop P cap (8 * Suc k) (map convert_byte (take (8 * Suc k) c) @ drop (8 * Suc k) c)"
    using b(1) by (subst convert_loop.simps) (simp add: kWidth_def add.commute)
  also have "\<dots> = Inr (map convert_byte (take (cap + 1) c) @ drop (cap + 1) c)"
    using Suc k by (intro Suc.hyps(1)) simp_all
  finally show ?case .
qed

lemma capacity_groups:
  assumes "IsValidCapacity c" "7 \<le> c"
  obtains q where "c + 1 = 8 * 2 ^ q"
proof -
  obtain m where m: "c + 1 = 2 ^ m" using valid_capacityE [OF assms(1)] by metis
  have "3 \<le> m"
  proof (rule ccontr)
    assume "\<not> 3 \<le> m"
    then have "(2::nat) ^ m \<le> 2 ^ 2" by (intro power_increasing) auto
    then show False using m assms(2) by simp
  qed
  then have "(2::nat) ^ m = 2 ^ 3 * 2 ^ (m - 3)" by (metis le_add_diff_inverse power_add)
  with m show thesis by (intro that [of "m - 3"]) simp
qed

lemma Convert_ok:
  fixes t :: "('k, 'v) table"
  assumes s: "shape t" and c: "7 \<le> capacity t"
  shows "\<exists>c'. ConvertDeletedToEmptyAndFullToDeleted P (control t) (capacity t) = Inr c' \<and> shape (t\<lparr>control := c'\<rparr>) \<and>
    (\<forall>i<capacity t. c' ! i = convert_byte (cell t i))"
proof -
  let ?cap = "capacity t" and ?c = "control t"
  have len: "?cap + 8 \<le> length ?c" and sent: "?c ! ?cap = kSentinel" and v: "IsValidCapacity ?cap"
    using s c by (auto simp: shape_def table_capacity_def)
  obtain q where q: "?cap + 1 = 8 * 2 ^ q" using capacity_groups [OF v c] by blast
  let ?d = "map convert_byte (take (?cap + 1) ?c) @ drop (?cap + 1) ?c"
  have loop: "convert_loop P ?cap 0 ?c = Inr ?d" using convert_loop_ok [OF q len, of 0 P] by simp
  let ?e = "take (?cap + 1) ?d @ take NumClonedBytes ?d @ drop (?cap + 1 + NumClonedBytes) ?d"
  have n7: "NumClonedBytes = 7" by (simp add: NumClonedBytes_def kWidth_def)
  have "length ?d = length ?c" using len by simp
  then have "length (take NumClonedBytes ?d) = NumClonedBytes" "?cap + 1 + NumClonedBytes \<le> length ?d"
    using len unfolding n7 length_take by linarith+
  then have cpy: "memcpy ?d (?cap + 1) (take NumClonedBytes ?d) = Inr ?e" by (simp only: memcpy_def if_True)
  let ?r = "?e[?cap := kSentinel]"
  have r: "ConvertDeletedToEmptyAndFullToDeleted P ?c ?cap = Inr ?r"
    using len sent v loop cpy by (simp add: ConvertDeletedToEmptyAndFullToDeleted_def assert_def)
  have d: "?d ! i = convert_byte (?c ! i)" if "i < ?cap" for i using that len by (simp add: nth_append)
  have e1: "?r ! i = convert_byte (?c ! i)" if "i < ?cap" for i
    using that len d [OF that] by (simp add: nth_append)
  have e2: "?r ! ?cap = kSentinel" using len by simp
  have e3: "?r ! (?cap + 1 + j) = convert_byte (?c ! j)" if "j < 7" for j
    using that len c d [of j] unfolding n7 by (simp add: nth_append)
  have sb: "slot_byte (convert_byte b)" for b by (simp add: convert_byte_def)
  have "length ?r = length ?c" using len n7 by simp
  with r e1 e2 e3 obtain c' where c': "ConvertDeletedToEmptyAndFullToDeleted P ?c ?cap = Inr c'" "length c' = length ?c"
    "\<And>i. i < ?cap \<Longrightarrow> c' ! i = convert_byte (?c ! i)" "c' ! ?cap = kSentinel"
    "\<And>j. j < 7 \<Longrightarrow> c' ! (?cap + 1 + j) = convert_byte (?c ! j)" by blast
  then have "shape (t\<lparr>control := c'\<rparr>)" using s sb c by (simp add: shape_def)
  then show ?thesis using c' by blast
qed

section \<open>Elements that need not move\<close>

text \<open>The groups of a probe sequence are aligned to each other, so an index tells in which group a slot lies.\<close>

lemma probe_index_eq:
  assumes cap: "cap + 1 = 8 * N" and v: "table_capacity cap"
  shows "probe_index cap off i = nat ((int i - int off) mod int (cap + 1)) div 8"
  unfolding probe_index_def int_and_capacity [OF v] kWidth_def ..

lemma in_group_index:
  assumes cap: "cap + 1 = 8 * N" and v: "table_capacity cap" and i: "in_group cap h n i"
  shows "probe_index cap (probe_offset cap h 0) i = triangle n mod N"
proof -
  let ?o = "h mod (cap + 1)" and ?T = "triangle n"
  obtain j where j: "j < 8" "i = (probe_offset cap h n + j) mod (cap + 1)" using i by (auto simp: in_group_def)
  have "i = (?o + (8 * ?T + j)) mod (cap + 1)" unfolding j(2) probe_offset_def by (simp add: mod_simps add.assoc)
  then have "int i = (int ?o + int (8 * ?T + j)) mod int (cap + 1)" by (simp only: zmod_int of_nat_add)
  then have "(int i - int ?o) mod int (cap + 1) = (int ?o + int (8 * ?T + j) - int ?o) mod int (cap + 1)"
    by (simp only: mod_diff_left_eq)
  also have "\<dots> = int ((8 * ?T + j) mod (cap + 1))" by (simp only: add_diff_cancel_left' zmod_int)
  finally have "probe_index cap ?o i = (8 * ?T + j) mod (8 * N) div 8"
    unfolding probe_index_eq [OF cap v] cap by simp
  also have "\<dots> = ?T mod N" using j(1) by (simp add: mod_mult2_eq)
  finally show ?thesis by (simp add: probe_offset_def triangle_def)
qed

lemma index_in_group:
  assumes cap: "cap + 1 = 8 * N" and v: "table_capacity cap" and i: "i \<le> cap"
    and x: "probe_index cap (probe_offset cap h 0) i = triangle n mod N"
  shows "in_group cap h n i"
proof -
  let ?o = "h mod (cap + 1)" and ?T = "triangle n"
  define d where "d = nat ((int i - int ?o) mod int (cap + 1))"
  have d: "int d = (int i - int ?o) mod int (cap + 1)" by (simp add: d_def)
  have "(int ?o + int d) mod int (cap + 1) = (int ?o + (int i - int ?o)) mod int (cap + 1)"
    unfolding d by (simp only: mod_add_right_eq)
  then have "int ((?o + d) mod (cap + 1)) = int (i mod (cap + 1))" by (simp only: zmod_int of_nat_add add_diff_eq add_diff_cancel_left')
  then have od: "(?o + d) mod (cap + 1) = i" using i by simp
  have "d div 8 = ?T mod N" using x unfolding probe_index_eq [OF cap v] by (simp add: probe_offset_def triangle_def d_def)
  then have "8 * ?T mod (8 * N) = 8 * (d div 8)" by (simp only: mult_mod_right [symmetric])
  then have "(?o + 8 * ?T + d mod 8) mod (cap + 1) = (?o + 8 * (d div 8) + d mod 8) mod (cap + 1)"
    unfolding cap by (metis mod_add_cong mod_add_left_eq mod_add_right_eq)
  also have "\<dots> = i" using od by (simp add: add.assoc)
  finally have "i = (probe_offset cap h n + d mod 8) mod (cap + 1)"
    unfolding probe_offset_def by (metis mod_add_left_eq add.assoc)
  then show ?thesis unfolding in_group_def by (metis mod_less_divisor zero_less_numeral)
qed

section \<open>Placing the elements in place\<close>

text \<open>The slots that hold an element while a deleted byte marks one that is still to be placed.\<close>

abbreviation occupied :: "('k, 'v) table \<Rightarrow> nat \<Rightarrow> bool" where
  "occupied t i \<equiv> i < capacity t \<and> cell t i \<noteq> kEmpty"

text \<open>
  The state of the loop at slot \<open>i\<close>, for a table that started with the elements \<open>E\<close>: the elements are in the
  occupied slots, no key twice; the slots before \<open>i\<close> are done; a full slot is a spot of its element.
\<close>

definition sorting :: "'k policy \<Rightarrow> ('k \<times> 'v) set \<Rightarrow> ('k, 'v) table \<Rightarrow> nat \<Rightarrow> bool" where
  "sorting P E t i \<longleftrightarrow> shape t \<and> 7 \<le> capacity t \<and>
     (\<forall>x. occupied t x \<longrightarrow> slot_array t ! x \<noteq> None) \<and> inj_on (key_at t) {x. occupied t x} \<and>
     (\<lambda>x. the (slot_array t ! x)) ` {x. occupied t x} = E \<and>
     (\<forall>x<i. x < capacity t \<longrightarrow> cell t x \<noteq> kDeleted) \<and>
     (\<forall>x. full t x \<longrightarrow> cell t x = H2 (p_hash P (key_at t x)) \<and> spot t (start t (p_hash P (key_at t x))) x)"

lemma occupied_cases: "shape t \<Longrightarrow> occupied t x \<longleftrightarrow> full t x \<or> x \<in> deleted_slots t"
  using ctrl_values by (auto simp: full_def deleted_slots_def shape_def slot_byte_def)

lemma sorting_counter: "sorting P E t i \<Longrightarrow> sorting P E (t\<lparr>counter := c\<rparr>) i"
  by (simp add: sorting_def)

text \<open>
  A round of the loop permutes the elements: \<open>f\<close> says where the element of a slot came from, and the element
  of slot \<open>i\<close> is now placed at \<open>p\<close>.
\<close>

lemma sorting_permute:
  assumes st: "sorting P E t i" and s: "shape t'" and sa: "same_array t t'"
    and f: "bij_betw f {x. occupied t' x} {x. occupied t x}" "\<And>x. occupied t' x \<Longrightarrow> slot_array t' ! x = slot_array t ! f x"
    and free: "\<forall>x\<le>capacity t. cell t' x \<in> {kEmpty, kDeleted} \<longrightarrow> cell t x \<in> {kEmpty, kDeleted}"
    and p: "f p = i" "cell t' p = H2 (p_hash P (key_at t i))" "spot t (start t (p_hash P (key_at t i))) p"
    and full: "\<And>x. full t' x \<Longrightarrow> x = p \<or> full t x \<and> f x = x \<and> cell t' x = cell t x"
    and passed: "\<And>x. x < i' \<Longrightarrow> x < capacity t \<Longrightarrow> cell t' x \<noteq> kDeleted"
  shows "sorting P E t' i'"
proof -
  have key: "key_at t' x = key_at t (f x)" if "occupied t' x" for x using f(2) that by (simp add: key_at_def)
  have im: "f ` {x. occupied t' x} = {x. occupied t x}" and inj: "inj_on f {x. occupied t' x}"
    using f(1) by (auto simp: bij_betw_def)
  have "inj_on (key_at t) {x. occupied t x}" using st by (simp add: sorting_def)
  then have "inj_on (key_at t \<circ> f) {x. occupied t' x}" using inj im by (intro comp_inj_on) simp_all
  then have 1: "inj_on (key_at t') {x. occupied t' x}" using key by (simp add: inj_on_def)
  have "(\<lambda>x. the (slot_array t' ! x)) ` {x. occupied t' x} = (\<lambda>x. the (slot_array t ! x)) ` f ` {x. occupied t' x}"
    unfolding image_image using f(2) by (intro image_cong) auto
  then have 2: "(\<lambda>x. the (slot_array t' ! x)) ` {x. occupied t' x} = E" unfolding im using st by (simp add: sorting_def)
  have 3: "\<forall>x. occupied t' x \<longrightarrow> slot_array t' ! x \<noteq> None"
  proof (intro allI impI)
    fix x assume x: "occupied t' x"
    then have "occupied t (f x)" using im by blast
    then show "slot_array t' ! x \<noteq> None" using f(2) [OF x] st by (simp add: sorting_def)
  qed
  have 4: "cell t' x = H2 (p_hash P (key_at t' x)) \<and> spot t' (start t' (p_hash P (key_at t' x))) x" if x: "full t' x" for x
  proof -
    have "occupied t' x" using x ctrl_values by (auto simp: full_def)
    then have k: "key_at t' x = key_at t (f x)" by (rule key)
    have "cell t' x = H2 (p_hash P (key_at t (f x))) \<and> spot t (start t (p_hash P (key_at t (f x)))) x"
      using full [OF x] p st by (auto simp: sorting_def)
    then show ?thesis using k spot_mono [OF sa free] start_same [OF sa] by simp
  qed
  have cap: "capacity t' = capacity t" using sa by (simp add: same_array_def)
  then have 5: "\<forall>x<i'. x < capacity t' \<longrightarrow> cell t' x \<noteq> kDeleted" "7 \<le> capacity t'"
    using passed st by (auto simp: sorting_def)
  show ?thesis using s 1 2 3 4 5 unfolding sorting_def by blast
qed

text \<open>The element stays where it is.\<close>

lemma sorting_stays:
  assumes st: "sorting P E t i" and i: "i < capacity t" "cell t i = kDeleted"
    and sp: "spot t (start t (p_hash P (key_at t i))) i"
  shows "\<exists>t'. SetCtrl t i (H2 (p_hash P (key_at t i))) = Inr t' \<and> sorting P E t' (Suc i) \<and> t' = t\<lparr>control := control t'\<rparr>"
proof -
  have s: "shape t" using st by (simp add: sorting_def)
  let ?b = "H2 (p_hash P (key_at t i))"
  obtain t' where t': "SetCtrl t i ?b = Inr t'" "shape t'" "t' = t\<lparr>control := control t'\<rparr>"
    "\<forall>x\<le>capacity t. cell t' x = (if x = i then ?b else cell t x)"
    using SetCtrl_ok [OF s i(1) slot_byte_values(3)] by blast
  have f: "capacity t' = capacity t" "slot_array t' = slot_array t" "control_at t' = control_at t" by (subst t'(3), simp)+
  have c: "cell t' x = (if x = i then ?b else cell t x)" if "x < capacity t" for x using t'(4) that by simp
  have occ: "occupied t' x \<longleftrightarrow> occupied t x" for x using c f(1) i ctrl_values by (cases "x = i") auto
  have "sorting P E t' (Suc i)"
  proof (rule sorting_permute [OF st t'(2), of id i])
    show "x = i \<or> full t x \<and> id x = x \<and> cell t' x = cell t x" if "full t' x" for x
      using that c f(1) by (auto simp: full_def)
    show "cell t' x \<noteq> kDeleted" if "x < Suc i" "x < capacity t" for x
      using that st c [of x] by (auto simp: sorting_def less_Suc_eq)
  qed (use t'(4) f sp c i occ in \<open>auto simp: same_array_def\<close>)
  with t'(1,3) show ?thesis by blast
qed

text \<open>The element moves to an empty slot.\<close>

lemma sorting_moves:
  assumes st: "sorting P E t i" and i: "i < capacity t" "cell t i = kDeleted" and e: "slot_array t ! i = Some e"
    and p: "p < capacity t" "cell t p = kEmpty" and sp: "spot t (start t (p_hash P (fst e))) p"
  shows "\<exists>t'. rbind (SetCtrl t p (H2 (p_hash P (fst e)))) (\<lambda>t. rbind (set_slot t p (Some e)) (\<lambda>t.
      rbind (set_slot t i None) (\<lambda>t. SetCtrl t i kEmpty))) = Inr t' \<and> sorting P E t' (Suc i) \<and>
    t' = t\<lparr>control := control t', slot_array := slot_array t'\<rparr>"
proof -
  have s: "shape t" and len: "length (slot_array t) = capacity t" using st by (auto simp: sorting_def shape_def)
  have ip: "i \<noteq> p" using i p ctrl_values by auto
  have k: "key_at t i = fst e" using e by (simp add: key_at_def)
  obtain t1 t2 where t2: "SetCtrl t p (H2 (p_hash P (fst e))) = Inr t1" "set_slot t1 p (Some e) = Inr t2" "filled P t p e t2"
    "t2 = t\<lparr>control := control t2, slot_array := (slot_array t)[p := Some e]\<rparr>"
    using fill [OF s, of p P e] p by blast
  let ?t3 = "t2\<lparr>slot_array := (slot_array t)[p := Some e, i := None]\<rparr>"
  have f2: "slot_array t2 = (slot_array t)[p := Some e]" "capacity t2 = capacity t" "control_at t2 = control_at t" by (subst t2(4), simp)+
  have t3: "set_slot t2 i None = Inr ?t3" using f2 i len by (simp add: set_slot_def)
  have s3: "shape ?t3" using filled_shape [OF t2(3)] f2 by simp
  have "i < capacity ?t3" using i f2 by simp
  then obtain t' where t': "SetCtrl ?t3 i kEmpty = Inr t'" "shape t'" "t' = ?t3\<lparr>control := control t'\<rparr>"
    "\<forall>x\<le>capacity ?t3. cell t' x = (if x = i then kEmpty else cell ?t3 x)"
    using SetCtrl_ok [OF s3 _ slot_byte_values(1)] by blast
  have f: "capacity t' = capacity t" "slot_array t' = (slot_array t)[p := Some e, i := None]" "control_at t' = control_at t"
    using f2 by (subst t'(3), simp)+
  have c: "cell t' x = (if x = i then kEmpty else if x = p then H2 (p_hash P (fst e)) else cell t x)" if "x \<le> capacity t" for x
    using t'(4) t2(3) that f2 by (simp add: filled_def)
  have occ: "{x. occupied t' x} = insert p ({x. occupied t x} - {i})" using c f(1) i p ip by (auto split: if_splits)
  have "sorting P E t' (Suc i)"
  proof (rule sorting_permute [OF st t'(2), of "id(p := i)" p])
    have "p \<notin> {x. occupied t x}" "i \<in> {x. occupied t x}" using p i ctrl_values by auto
    then show "bij_betw (id(p := i)) {x. occupied t' x} {x. occupied t x}"
      unfolding occ bij_betw_def by (auto simp: inj_on_def)
    show "slot_array t' ! x = slot_array t ! (id(p := i)) x" if "occupied t' x" for x
      using that c [of x] f len p(1) e ip by (auto simp: nth_list_update split: if_splits)
    show "x = p \<or> full t x \<and> (id(p := i)) x = x \<and> cell t' x = cell t x" if "full t' x" for x
      using that c [of x] f(1) ctrl_values by (auto simp: full_def split: if_splits)
    show "cell t' x \<noteq> kDeleted" if "x < Suc i" "x < capacity t" for x
      using that st c [of x] ctrl_values by (auto simp: sorting_def less_Suc_eq)
    show "\<forall>x\<le>capacity t. cell t' x \<in> {kEmpty, kDeleted} \<longrightarrow> cell t x \<in> {kEmpty, kDeleted}"
      using c i by auto
  qed (use c f sp k p ip in \<open>auto simp: same_array_def\<close>)
  moreover have "t' = t\<lparr>control := control t', slot_array := slot_array t'\<rparr>"
    unfolding f(2) by (subst t'(3), subst t2(4)) simp
  ultimately show ?thesis using t2(1,2) t3 t'(1) by (intro exI [of _ t']) simp
qed

text \<open>The element changes places with one that is still to be placed.\<close>

lemma sorting_swaps:
  assumes st: "sorting P E t i" and i: "i < capacity t" "cell t i = kDeleted" and e: "slot_array t ! i = Some e"
    and p: "p < capacity t" "cell t p = kDeleted" "p \<noteq> i" and sp: "spot t (start t (p_hash P (fst e))) p"
  shows "\<exists>t'. rbind (SetCtrl t p (H2 (p_hash P (fst e)))) (\<lambda>t. rbind (slot_at t p) (\<lambda>e'. rbind (set_slot t p (Some e)) (\<lambda>t.
      set_slot t i (Some e')))) = Inr t' \<and> sorting P E t' i \<and> t' = t\<lparr>control := control t', slot_array := slot_array t'\<rparr>"
proof -
  have s: "shape t" and len: "length (slot_array t) = capacity t" using st by (auto simp: sorting_def shape_def)
  have k: "key_at t i = fst e" using e by (simp add: key_at_def)
  obtain e' where e': "slot_array t ! p = Some e'" using st p ctrl_values by (fastforce simp: sorting_def)
  obtain t1 t2 where t2: "SetCtrl t p (H2 (p_hash P (fst e))) = Inr t1" "set_slot t1 p (Some e) = Inr t2" "filled P t p e t2"
    "t1 = t\<lparr>control := control t2\<rparr>" "t2 = t\<lparr>control := control t2, slot_array := (slot_array t)[p := Some e]\<rparr>"
    using fill [OF s, of p P e] p by blast
  let ?t3 = "t2\<lparr>slot_array := (slot_array t)[p := Some e, i := Some e']\<rparr>"
  have f2: "slot_array t2 = (slot_array t)[p := Some e]" "capacity t2 = capacity t" "control_at t2 = control_at t" by (subst t2(5), simp)+
  have at: "slot_at t1 p = Inr e'" using e' p len by (subst t2(4)) (simp add: slot_at_def)
  have t3: "set_slot t2 i (Some e') = Inr ?t3" using f2 i len by (simp add: set_slot_def)
  have c: "cell ?t3 x = (if x = p then H2 (p_hash P (fst e)) else cell t x)" if "x \<le> capacity t" for x
    using t2(3) that by (simp add: filled_def)
  have occ: "{x. occupied ?t3 x} = {x. occupied t x}" using c f2 i p ctrl_values by (auto split: if_splits)
  have "sorting P E ?t3 i"
  proof (rule sorting_permute [OF st, of _ "id(p := i, i := p)" p])
    show "shape ?t3" using filled_shape [OF t2(3)] f2 by simp
    have "p \<in> {x. occupied t x}" "i \<in> {x. occupied t x}" using p i ctrl_values by auto
    then show "bij_betw (id(p := i, i := p)) {x. occupied ?t3 x} {x. occupied t x}"
      unfolding occ bij_betw_def by (auto simp: inj_on_def)
    show "slot_array ?t3 ! x = slot_array t ! (id(p := i, i := p)) x" if "occupied ?t3 x" for x
      using that f2 len p i e e' by (auto simp: nth_list_update)
    show "x = p \<or> full t x \<and> (id(p := i, i := p)) x = x \<and> cell ?t3 x = cell t x" if "full ?t3 x" for x
      using that c [of x] f2 i ctrl_values by (auto simp: full_def split: if_splits)
    show "cell ?t3 x \<noteq> kDeleted" if "x < i" "x < capacity t" for x
      using that st c [of x] by (auto simp: sorting_def)
    show "\<forall>x\<le>capacity t. cell ?t3 x \<in> {kEmpty, kDeleted} \<longrightarrow> cell t x \<in> {kEmpty, kDeleted}"
      using c by auto
  qed (use c f2 sp k p in \<open>auto simp: same_array_def\<close>)
  moreover have "?t3 = t\<lparr>control := control ?t3, slot_array := slot_array ?t3\<rparr>" by (subst t2(5)) simp
  ultimately show ?thesis using t2(1,2) at t3 by (intro exI [of _ ?t3]) simp
qed

lemma probe_start: "shape t \<Longrightarrow> table_probe t hash = Inr seq \<Longrightarrow> seq_offset seq = probe_offset (capacity t) (start t hash) 0"
  by (auto simp: table_probe_start)

lemma same_group_spot:
  assumes s: "shape t" "7 \<le> capacity t" and p: "spot t h p" and i: "i < capacity t"
    and eq: "probe_index (capacity t) (probe_offset (capacity t) h 0) p = probe_index (capacity t) (probe_offset (capacity t) h 0) i"
  shows "spot t h i"
proof -
  have v: "IsValidCapacity (capacity t)" "table_capacity (capacity t)" using s by (auto simp: shape_def table_capacity_def)
  obtain q where q: "capacity t + 1 = 8 * 2 ^ q" using capacity_groups [OF v(1) s(2)] by blast
  obtain n where n: "8 * n \<le> capacity t" "in_group (capacity t) h n p" "\<forall>n'<n. \<not> has_free t h n'"
    using p by (auto simp: spot_def)
  have "in_group (capacity t) h n i" using in_group_index [OF q v(2) n(2)] i eq by (intro index_in_group [OF q v(2)]) simp_all
  with n show ?thesis by (auto simp: spot_def)
qed

lemma drop_slot_ok:
  fixes t :: "('k, 'v) table"
  assumes st: "sorting P E t i" and i: "i < capacity t"
  shows "\<exists>stay t' c. drop_deletes_slot P t i = Inr (stay, t') \<and> sorting P E t' (if stay then i else Suc i) \<and>
    t' = t\<lparr>counter := c, control := control t', slot_array := slot_array t'\<rparr>"
proof -
  have s: "shape t" "7 \<le> capacity t" "length (slot_array t) = capacity t" using st by (auto simp: sorting_def shape_def)
  have at: "ctrl_at t i = Inr (cell t i)" using s(1) i by (auto simp: ctrl_at_def shape_def)
  show ?thesis
  proof (cases "cell t i = kDeleted")
    case False
    then have "drop_deletes_slot P t i = Inr (False, t)" by (simp add: drop_deletes_slot_def at IsDeleted_def)
    moreover have "sorting P E t (Suc i)" using st False by (auto simp: sorting_def less_Suc_eq)
    ultimately show ?thesis by (intro exI [of _ False] exI [of _ t] exI [of _ "counter t"]) simp
  next
    case True
    then obtain e where e: "slot_array t ! i = Some e" using st i ctrl_values by (fastforce simp: sorting_def)
    let ?hash = "p_hash P (fst e)"
    have k: "key_at t i = fst e" using e by (simp add: key_at_def)
    obtain p n c where p: "find_first_non_full P t ?hash = Inr ((p, n), t\<lparr>counter := c\<rparr>)" "is_free t p" "spot t (start t ?hash) p"
      using find_free [OF s(1), of i P ?hash] i True by blast
    define u where "u = t\<lparr>counter := c\<rparr>"
    have u: "sorting P E u i" "capacity u = capacity t" "cell u i = kDeleted" "slot_array u = slot_array t" "shape u"
      "start u = start t" "spot u = spot t" "control u = control t" "key_at u i = fst e"
      using sorting_counter [OF st] True s k by (simp_all add: u_def)
    have e0: "slot_at t i = Inr e" using e i s by (simp add: slot_at_def)
    have seq: "table_probe u ?hash = Inr (seq_at (capacity t) (start t ?hash) 0)" using table_probe_start [OF u(5)] u by simp
    let ?off = "probe_offset (capacity t) (start t ?hash) 0"
    have cp: "ctrl_at u p = Inr (cell t p)" using p(2) s(1) u by (auto simp: ctrl_at_def shape_def)
    have step: "drop_deletes_slot P t i =
        (if probe_index (capacity t) ?off p = probe_index (capacity t) ?off i then rbind (SetCtrl u i (H2 ?hash)) (\<lambda>t. Inr (False, t))
         else if IsEmpty (cell t p) then
           rbind (rbind (SetCtrl u p (H2 ?hash)) (\<lambda>t. rbind (set_slot t p (Some e)) (\<lambda>t. rbind (set_slot t i None) (\<lambda>t. SetCtrl t i kEmpty)))) (\<lambda>t. Inr (False, t))
         else assert (IsDeleted (cell t p))
           (rbind (rbind (SetCtrl u p (H2 ?hash)) (\<lambda>t. rbind (slot_at t p) (\<lambda>e'. rbind (set_slot t p (Some e)) (\<lambda>t. set_slot t i (Some e'))))) (\<lambda>t. Inr (True, t))))"
      unfolding drop_deletes_slot_def at u_def [symmetric]
      using True e0 p(1) seq cp u(2) by (simp add: IsDeleted_def Let_def rbind_assoc u_def [symmetric])
    have frame: "t' = t\<lparr>counter := c, control := control t', slot_array := slot_array t'\<rparr>"
      if "t' = u\<lparr>control := control t', slot_array := slot_array t'\<rparr>" for t'
      using that by (simp add: u_def)
    consider "probe_index (capacity t) ?off p = probe_index (capacity t) ?off i"
      | "probe_index (capacity t) ?off p \<noteq> probe_index (capacity t) ?off i" "cell t p = kEmpty"
      | "probe_index (capacity t) ?off p \<noteq> probe_index (capacity t) ?off i" "cell t p = kDeleted" using p(2) by blast
    then show ?thesis
    proof cases
      case 1
      then have "spot u (start u (p_hash P (key_at u i))) i" using same_group_spot [OF s(1,2) p(3) i] u by simp
      then obtain t' where "SetCtrl u i (H2 ?hash) = Inr t'" "sorting P E t' (Suc i)" "t' = u\<lparr>control := control t'\<rparr>"
        using sorting_stays [OF u(1)] i u by auto
      moreover from this(3) have "t' = u\<lparr>control := control t', slot_array := slot_array t'\<rparr>" by (metis table.surjective table.update_convs(3))
      ultimately show ?thesis using 1 step frame by (intro exI [of _ False] exI [of _ t'] exI [of _ c]) simp
    next
      case 2
      then obtain t' where "rbind (SetCtrl u p (H2 ?hash)) (\<lambda>t. rbind (set_slot t p (Some e)) (\<lambda>t.
          rbind (set_slot t i None) (\<lambda>t. SetCtrl t i kEmpty))) = Inr t'" "sorting P E t' (Suc i)"
        "t' = u\<lparr>control := control t', slot_array := slot_array t'\<rparr>"
        using sorting_moves [OF u(1), of e p] i u e p by auto
      with 2 step frame show ?thesis by (intro exI [of _ False] exI [of _ t'] exI [of _ c]) (simp add: IsEmpty_def)
    next
      case 3
      then have "p \<noteq> i" by auto
      then obtain t' where "rbind (SetCtrl u p (H2 ?hash)) (\<lambda>t. rbind (slot_at t p) (\<lambda>e'. rbind (set_slot t p (Some e)) (\<lambda>t.
          set_slot t i (Some e')))) = Inr t'" "sorting P E t' i" "t' = u\<lparr>control := control t', slot_array := slot_array t'\<rparr>"
        using sorting_swaps [OF u(1), of e p] i u e p 3 by auto
      with 3 step frame show ?thesis using ctrl_values
        by (intro exI [of _ True] exI [of _ t'] exI [of _ c]) (simp add: IsEmpty_def IsDeleted_def assert_def)
    qed
  qed
qed

lemma drop_loop_ok:
  "sorting P E t i \<Longrightarrow> i \<le> capacity t \<Longrightarrow>
     \<exists>t' c. drop_deletes_loop P t i = Inr t' \<and> sorting P E t' (capacity t) \<and>
       t' = t\<lparr>counter := c, control := control t', slot_array := slot_array t'\<rparr>"
proof (induction P t i rule: drop_deletes_loop.induct)
  case (1 P t i)
  show ?case
  proof (cases "i < capacity t")
    case True
    obtain stay u c where u: "drop_deletes_slot P t i = Inr (stay, u)" "sorting P E u (if stay then i else Suc i)"
      "u = t\<lparr>counter := c, control := control u, slot_array := slot_array u\<rparr>"
      using drop_slot_ok [OF 1(2) True] by blast
    have cap: "capacity u = capacity t" by (subst u(3)) simp
    have "\<exists>t' c. drop_deletes_loop P u (if stay then i else i + 1) = Inr t' \<and> sorting P E t' (capacity u) \<and>
        t' = u\<lparr>counter := c, control := control t', slot_array := slot_array t'\<rparr>"
      using True u cap by (intro 1(1) [OF True u(1) refl]) auto
    then obtain t' d where t': "drop_deletes_loop P u (if stay then i else i + 1) = Inr t'" "sorting P E t' (capacity u)"
      "t' = u\<lparr>counter := d, control := control t', slot_array := slot_array t'\<rparr>" by blast
    have "t' = t\<lparr>counter := d, control := control t', slot_array := slot_array t'\<rparr>"
      by (subst t'(3), subst u(3)) simp
    then show ?thesis using True u(1) t' cap by (subst drop_deletes_loop.simps) auto
  next
    case False
    then have "i = capacity t" using 1(3) by simp
    then show ?thesis using 1(2) False by (subst drop_deletes_loop.simps) (auto intro: exI [of _ "counter t"])
  qed
qed


text \<open>At the start every element is still to be placed, at the end none is.\<close>

lemma sorting_starts:
  assumes s: "shape (t\<lparr>control := c\<rparr>)" "7 \<le> capacity t" and e: "elements_ok P t"
    and c: "\<forall>i<capacity t. c ! i = convert_byte (cell t i)"
  shows "sorting P (set (elements t)) (t\<lparr>control := c\<rparr>) 0"
proof -
  have occ: "occupied (t\<lparr>control := c\<rparr>) x \<longleftrightarrow> full t x" for x
    using c ctrl_values by (auto simp: convert_byte_def full_def split: if_splits)
  have none: "\<not> full (t\<lparr>control := c\<rparr>) x" for x using c ctrl_values by (auto simp: full_def convert_byte_def)
  have "key_at (t\<lparr>control := c\<rparr>) = key_at t" by (simp add: key_at_def fun_eq_iff)
  moreover have "slot_array t ! x \<noteq> None" if "full t x" for x using e that by (auto simp: elements_ok_def placed_def)
  moreover have "set (elements t) = (\<lambda>x. the (slot_array t ! x)) ` {x. full t x}" by (auto simp: elements_def full_def)
  moreover have "inj_on (key_at t) {x. full t x}" using e by (simp add: elements_ok_def)
  ultimately show ?thesis unfolding sorting_def occ using s none by simp
qed

lemma sorting_ends:
  assumes st: "sorting P (set (elements t)) t' (capacity t')" and e: "elements_ok P t"
  shows "elements_ok P t'" "deleted_slots t' = {}" "table_map t' = table_map t" "card {i. full t' i} = card {i. full t i}"
proof -
  have s: "shape t'" using st by (simp add: sorting_def)
  show d: "deleted_slots t' = {}" using st by (auto simp: sorting_def deleted_slots_def)
  then have occ: "occupied t' x \<longleftrightarrow> full t' x" for x using occupied_cases [OF s, of x] by blast
  have some: "\<exists>a. slot_array t' ! x = Some a" if "full t' x" for x using st that by (simp add: sorting_def occ)
  have placed: "placed P t' x" if x: "full t' x" for x
  proof -
    obtain a where a: "slot_array t' ! x = Some a" using some [OF x] by blast
    then have "key_at t' x = fst a" by (simp add: key_at_def)
    then show ?thesis using a st x spot_reach unfolding placed_def sorting_def by metis
  qed
  have inj: "inj_on (key_at t') {x. full t' x}" using st by (simp add: sorting_def occ)
  with placed show e': "elements_ok P t'" by (simp add: elements_ok_def)
  have E: "(\<lambda>x. the (slot_array t' ! x)) ` {x. full t' x} = set (elements t)" using st by (simp add: sorting_def occ)
  have E0: "set (elements t) = (\<lambda>x. the (slot_array t ! x)) ` {x. full t x}" by (auto simp: elements_def full_def)
  have some0: "\<exists>a. slot_array t ! x = Some a" if "full t x" for x using e that by (auto simp: elements_ok_def placed_def)
  show "table_map t' = table_map t"
  proof (rule table_map_eqI [OF e'])
    fix k v
    have "(\<exists>i. full t' i \<and> slot_array t' ! i = Some (k, v)) \<longleftrightarrow> (k, v) \<in> set (elements t)"
      unfolding E [symmetric] using some by force
    moreover have "(\<exists>i. full t i \<and> slot_array t ! i = Some (k, v)) \<longleftrightarrow> (k, v) \<in> set (elements t)"
      unfolding E0 using some0 by force
    ultimately show "table_map t k = Some v \<longleftrightarrow> (\<exists>i. full t' i \<and> slot_array t' ! i = Some (k, v))"
      using table_map_Some [OF e] by simp
  qed
  have inj': "inj_on (\<lambda>x. the (slot_array u ! x)) {x. full u x}" if "inj_on (key_at u) {x. full u x}" for u :: "('a, 'b) table"
    using that unfolding key_at_def inj_on_def by metis
  have "card {i. full t' i} = card (set (elements t))" unfolding E [symmetric] using inj' [OF inj] by (simp add: card_image)
  also have "\<dots> = card {i. full t i}" unfolding E0 using inj' [of t] e by (simp add: card_image elements_ok_def)
  finally show "card {i. full t' i} = card {i. full t i}" .
qed

lemma DropDeletes_ok:
  fixes t :: "('k, 'v) table"
  assumes ok: "table_ok P t" and c: "7 \<le> capacity t"
  shows "\<exists>t'. DropDeletesWithoutResize P t = Inr t' \<and> table_ok P t' \<and> capacity t' = capacity t \<and> table_map t' = table_map t \<and>
    deleted_slots t' = {} \<and> tab_size t' = tab_size t \<and> growth_left t' = growth (capacity t) - tab_size t"
proof -
  have t: "shape t" "elements_ok P t" "tab_size t = card {i. full t i}" "tab_size t \<le> growth (capacity t)"
    using ok by (auto simp: table_ok_def counts_ok_def)
  have v: "IsValidCapacity (capacity t)" "\<not> is_small (capacity t)"
    using t(1) c by (auto simp: shape_def table_capacity_def is_small_def kWidth_def)
  obtain c' where c': "ConvertDeletedToEmptyAndFullToDeleted P (control t) (capacity t) = Inr c'" "shape (t\<lparr>control := c'\<rparr>)"
    "\<forall>i<capacity t. c' ! i = convert_byte (cell t i)" using Convert_ok [OF t(1) c] by blast
  let ?u = "t\<lparr>control := c'\<rparr>"
  obtain t' d where t': "drop_deletes_loop P ?u 0 = Inr t'" "sorting P (set (elements t)) t' (capacity ?u)"
    "t' = ?u\<lparr>counter := d, control := control t', slot_array := slot_array t'\<rparr>"
    using drop_loop_ok [OF sorting_starts [OF c'(2) c t(2) c'(3)]] by blast
  have f: "capacity t' = capacity t" "tab_size t' = tab_size t" by (subst t'(3), simp)+
  have st: "sorting P (set (elements t)) t' (capacity t')" using t'(2) f by simp
  note E = sorting_ends [OF st t(2)]
  let ?r = "t'\<lparr>growth_left := growth (capacity t) - tab_size t\<rparr>"
  have "ResetGrowthLeft t' = Inr ?r"
    using v(1) t(4) f by (simp add: ResetGrowthLeft_def CapacityToGrowth_eq growth_def size_minus_def)
  then have "DropDeletesWithoutResize P t = Inr ?r" using v c'(1) t'(1) by (simp add: DropDeletesWithoutResize_def assert_def)
  moreover have "table_ok P ?r" using E st t f by (simp add: table_ok_def counts_ok_def sorting_def)
  ultimately show ?thesis using E f by (intro exI [of _ ?r]) simp
qed

text \<open>Before an insertion into a table without room: there is room afterwards, and no deleted byte.\<close>

lemma growth_double: "table_capacity c \<Longrightarrow> growth c < growth (2 * c + 1)"
proof -
  assume c: "table_capacity c"
  show ?thesis
  proof (cases "c < 7")
    case True
    then have "c = 0 \<or> c = 1 \<or> c = 3" using small_capacity c by blast
    then show ?thesis by (auto simp: growth_def)
  next
    case False
    then show ?thesis by (auto simp: growth_def)
  qed
qed

lemma load_factor: "table_capacity c \<Longrightarrow> 8 < c \<Longrightarrow> n * 32 \<le> c * 25 \<Longrightarrow> n < growth c"
  by (simp add: growth_def)

lemma rehash_and_grow_ok:
  assumes ok: "table_ok P t"
  shows "\<exists>t'. rehash_and_grow_if_necessary P t = Inr t' \<and> table_ok P t' \<and> table_map t' = table_map t \<and>
    deleted_slots t' = {} \<and> tab_size t' = tab_size t \<and> 0 < growth_left t'"
proof -
  have t: "shape t" "tab_size t \<le> growth (capacity t)" "table_capacity (capacity t)"
    using ok by (auto simp: table_ok_def counts_ok_def shape_def)
  show ?thesis
  proof (cases "capacity t > 8 \<and> tab_size t * 32 \<le> capacity t * 25")
    case True
    then have "tab_size t < growth (capacity t)" using load_factor t(3) by blast
    then show ?thesis using True DropDeletes_ok [OF ok] by (auto simp: rehash_and_grow_if_necessary_def kWidth_def)
  next
    case False
    have v: "IsValidCapacity (capacity t) \<or> capacity t = 0" using t(3) by (simp add: table_capacity_def)
    then obtain c where c: "NextCapacity (capacity t) = Inr c" "IsValidCapacity c" using NextCapacity_valid by blast
    then have "c = 2 * capacity t + 1" using v by (simp add: NextCapacity_def assert_def)
    then have "tab_size t < growth c" using growth_double [OF t(3)] t(2) by simp
    then show ?thesis using False c resize_ok [OF ok c(2)] by (auto simp: rehash_and_grow_if_necessary_def kWidth_def)
  qed
qed

end
