(* ===== verification/TableOps.thy ===== *)
theory TableOps
  imports Rehash
begin

text \<open>
  The operations of the hash table on its map: lookup, insertion (with the growth it may need), assignment,
  erasure, clearing and reservation. Each keeps the invariant, returns, and changes the map as its name says.
\<close>

section \<open>Lookup\<close>

lemma find_ok:
  assumes "table_ok P t"
  shows "\<exists>r. find_key P t key = Inr r \<and>
    (case r of None \<Rightarrow> table_map t key = None
     | Some i \<Rightarrow> full t i \<and> (\<exists>v. slot_array t ! i = Some (key, v) \<and> table_map t key = Some v))"
proof -
  have t: "shape t" "elements_ok P t" "counts_ok t" using assms by (auto simp: table_ok_def)
  obtain r where r: "find_key P t key = Inr r"
    "case r of None \<Rightarrow> \<forall>i. full t i \<longrightarrow> key_at t i \<noteq> key | Some p \<Rightarrow> full t p \<and> key_at t p = key"
    using find_key_ok [OF t(1,2) table_has_empty [OF t(1,3)]] by blast
  show ?thesis
  proof (cases r)
    case None
    then show ?thesis using r table_map_None [OF t(2)] by auto
  next
    case (Some i)
    then have i: "full t i" "key_at t i = key" using r(2) by auto
    then obtain a where "slot_array t ! i = Some a" using t(2) by (auto simp: elements_ok_def placed_def)
    with i have "slot_array t ! i = Some (key, snd a)" by (simp add: key_at_def prod_eq_iff)
    with i Some r(1) table_map_Some [OF t(2)] show ?thesis by auto
  qed
qed

text \<open>A key is in one slot only.\<close>

lemma full_key_unique:
  assumes "elements_ok P t" "full t i" "full t j" "key_at t i = key_at t j"
  shows "i = j"
  using assms by (auto simp: elements_ok_def dest: inj_onD)

section \<open>Insertion\<close>

lemma counts_room:
  assumes "table_ok P t" "0 < growth_left t"
  shows "\<exists>i. is_free t i"
proof -
  have t: "shape t" "tab_size t = card {i. full t i}" "growth_left t + tab_size t \<le> growth (capacity t)"
    using assms by (auto simp: table_ok_def counts_ok_def)
  then have "card {i. full t i} < capacity t" using assms(2) growth_le [of "capacity t"] by linarith
  then show ?thesis using free_slot_exists [OF t(1)] by blast
qed

lemma no_room:
  assumes "table_ok P t" "\<forall>i. \<not> is_free t i"
  shows "capacity t < 7" "growth_left t = 0"
proof -
  have t: "shape t" "counts_ok t" using assms by (auto simp: table_ok_def)
  have "empty_slots t = {}" using assms(2) by (auto simp: empty_slots_def)
  then have p: "card {i. full t i} + card (deleted_slots t) = capacity t" using slot_partition [OF t(1)] by simp
  show "capacity t < 7"
  proof (rule ccontr)
    assume "\<not> capacity t < 7"
    then have "growth (capacity t) < capacity t" using growth_less t(1) by (simp add: shape_def)
    then show False using p t(2) by (simp add: counts_ok_def)
  qed
  show "growth_left t = 0" using p t(2) growth_le [of "capacity t"] by (simp add: counts_ok_def)
qed

text \<open>The last steps of \<^verbatim>\<open>prepare_insert\<close>, at the free slot it has chosen.\<close>

definition claim_slot :: "('k, 'v) table \<Rightarrow> nat \<Rightarrow> 64 word \<Rightarrow> (nat \<times> ('k, 'v) table) res" where
  "claim_slot t p hash =
     rbind (increment_size t) (\<lambda>t.
     rbind (ctrl_at t p) (\<lambda>c.
     rbind (size_minus (growth_left t) (of_bool (IsEmpty c))) (\<lambda>left.
     rbind (SetCtrl (t\<lparr>growth_left := left\<rparr>) p (H2 hash)) (\<lambda>t.
     Inr (p, t)))))"

lemma table_ok_counter [simp]: "table_ok P (t\<lparr>counter := c\<rparr>) = table_ok P t"
  by (simp add: table_ok_def counts_ok_def)

lemma prepare_insert_chooses:
  fixes t :: "('k, 'v) table"
  assumes ok: "table_ok P t"
  shows "\<exists>u p. prepare_insert P t hash = claim_slot u p hash \<and> table_ok P u \<and> table_map u = table_map t \<and>
    tab_size u = tab_size t \<and> is_free u p \<and> spot u (start u hash) p \<and> (0 < growth_left u \<or> cell u p = kDeleted)"
proof -
  have s: "shape t" using ok by (simp add: table_ok_def)
  have ctrl: "ctrl_at (v\<lparr>counter := c\<rparr>) x = Inr (cell v x)" if "shape v" "x \<le> capacity v" for v :: "('k, 'v) table" and x c
    using that by (auto simp: ctrl_at_def shape_def)
  have unfold: "prepare_insert P t hash =
      rbind (find_first_non_full P t hash) (\<lambda>((offset, probe_length), t).
      rbind (ctrl_at t offset) (\<lambda>c.
      rbind (if growth_left t = 0 \<and> \<not> IsDeleted c then
               rbind (rehash_and_grow_if_necessary P t) (\<lambda>t.
               rbind (find_first_non_full P t hash) (\<lambda>((offset, probe_length), t). Inr (offset, t)))
             else Inr (offset, t)) (\<lambda>(offset, t). claim_slot t offset hash)))"
    by (simp add: prepare_insert_def claim_slot_def)
  have grow: ?thesis if f: "find_first_non_full P t hash = Inr ((p, n), t\<lparr>counter := c\<rparr>)" and p: "p \<le> capacity t"
    and g: "growth_left t = 0" "cell t p \<noteq> kDeleted" for p n c
  proof -
    obtain t' where t': "rehash_and_grow_if_necessary P (t\<lparr>counter := c\<rparr>) = Inr t'" "table_ok P t'"
      "table_map t' = table_map t" "tab_size t' = tab_size t" "0 < growth_left t'"
      using rehash_and_grow_ok [of P "t\<lparr>counter := c\<rparr>"] ok by auto
    have s': "shape t'" using t'(2) by (simp add: table_ok_def)
    obtain i where "is_free t' i" using counts_room [OF t'(2,5)] by blast
    then obtain p' n' c' where p': "find_first_non_full P t' hash = Inr ((p', n'), t'\<lparr>counter := c'\<rparr>)" "is_free t' p'"
      "spot t' (start t' hash) p'" using find_free [OF s'] by blast
    then have "prepare_insert P t hash = claim_slot (t'\<lparr>counter := c'\<rparr>) p' hash"
      unfolding unfold using f ctrl [OF s p] g t'(1) by (simp add: IsDeleted_def)
    then show ?thesis using t' p' by (intro exI [of _ "t'\<lparr>counter := c'\<rparr>"] exI [of _ p']) simp
  qed
  show ?thesis
  proof (cases "\<exists>i. is_free t i")
    case True
    then obtain p n c where p: "find_first_non_full P t hash = Inr ((p, n), t\<lparr>counter := c\<rparr>)" "is_free t p"
      "spot t (start t hash) p" using find_free [OF s] by blast
    show ?thesis
    proof (cases "growth_left t = 0 \<and> cell t p \<noteq> kDeleted")
      case True
      then show ?thesis using grow [OF p(1)] p(2) by simp
    next
      case False
      then have "prepare_insert P t hash = claim_slot (t\<lparr>counter := c\<rparr>) p hash"
        unfolding unfold using p(1,2) ctrl [OF s] by (auto simp: IsDeleted_def)
      then show ?thesis using ok p False by (intro exI [of _ "t\<lparr>counter := c\<rparr>"] exI [of _ p]) auto
    qed
  next
    case False
    then have none: "\<forall>i. \<not> is_free t i" by blast
    obtain n c where "find_first_non_full P t hash = Inr ((capacity t, n), t\<lparr>counter := c\<rparr>)"
      using find_sentinel [OF s no_room(1) [OF ok none] none] by blast
    moreover have "cell t (capacity t) \<noteq> kDeleted" using s ctrl_values by (auto simp: shape_def)
    ultimately show ?thesis using grow no_room(2) [OF ok none] by blast
  qed
qed

lemma claim_ok:
  fixes u :: "('k, 'v) table"
  assumes ok: "table_ok P u" and p: "is_free u p" "spot u (start u (p_hash P (fst e))) p"
    and room: "0 < growth_left u \<or> cell u p = kDeleted" and new: "table_map u (fst e) = None"
  shows "\<exists>w t'. claim_slot u p (p_hash P (fst e)) = Inr (p, w) \<and> set_slot w p (Some e) = Inr t' \<and> table_ok P t' \<and>
    table_map t' = (table_map u)(fst e \<mapsto> snd e) \<and> tab_size t' = Suc (tab_size u) \<and> full t' p \<and> slot_array t' ! p = Some e"
proof -
  have u: "shape u" "elements_ok P u" "tab_size u = card {i. full u i}"
    "growth_left u + tab_size u + card (deleted_slots u) = growth (capacity u)"
    using ok by (auto simp: table_ok_def counts_ok_def)
  let ?left = "growth_left u - of_bool (cell u p = kEmpty)"
  let ?v = "u\<lparr>tab_size := tab_size u + 1, growth_left := ?left\<rparr>"
  have "p \<notin> {i. full u i}" using p(1) ctrl_values by (auto simp: full_def)
  then have "{i. full u i} \<subset> {..<capacity u}" using p(1) by (auto simp: full_def)
  then have "card {i. full u i} < capacity u" using psubset_card_mono [of "{..<capacity u}"] by simp
  then have inc: "increment_size u = Inr (u\<lparr>tab_size := tab_size u + 1\<rparr>)" using u(3) by (simp add: increment_size_def assert_def)
  have sv: "shape ?v" "is_free ?v p" using u(1) p(1) by simp_all
  obtain w t' where w: "SetCtrl ?v p (H2 (p_hash P (fst e))) = Inr w" "set_slot w p (Some e) = Inr t'" "filled P ?v p e t'"
    "t' = ?v\<lparr>control := control t', slot_array := (slot_array ?v)[p := Some e]\<rparr>"
    using fill [OF sv, of P e] by blast
  have "ctrl_at (u\<lparr>tab_size := tab_size u + 1\<rparr>) p = Inr (cell u p)" using u(1) p(1) by (auto simp: ctrl_at_def shape_def)
  moreover have "size_minus (growth_left u) (of_bool (cell u p = kEmpty)) = Inr ?left"
    using room ctrl_values by (auto simp: size_minus_def)
  ultimately have c: "claim_slot u p (p_hash P (fst e)) = Inr (p, w)"
    using inc w(1) by (simp add: claim_slot_def IsEmpty_def)
  have f: "filled P u p e t'" using w(3) by (simp add: filled_def same_array_def)
  have new': "\<forall>i. full u i \<longrightarrow> key_at u i \<noteq> fst e" using table_map_None [OF u(2)] new by blast
  note F = filled_ok [OF u(1,2) f p new'] and G = filled_full [OF f p(1)]
  have g: "tab_size t' = tab_size u + 1" "growth_left t' = ?left" "capacity t' = capacity u"
    "slot_array t' = (slot_array u)[p := Some e]" by (subst w(4), simp)+
  have "?left + card (deleted_slots t') = growth_left u + card (deleted_slots u) - 1" "0 < growth_left u + card (deleted_slots u)"
  proof -
    consider "cell u p = kEmpty" "p \<notin> deleted_slots u" "0 < growth_left u"
      | "cell u p \<noteq> kEmpty" "p \<in> deleted_slots u" "0 < card (deleted_slots u)"
      using p(1) room ctrl_values by (fastforce simp: deleted_slots_def card_gt_0_iff)
    then show "?left + card (deleted_slots t') = growth_left u + card (deleted_slots u) - 1"
      "0 < growth_left u + card (deleted_slots u)"
      unfolding G(3) by (cases; simp add: card_Diff_singleton_if)+
  qed
  then have "?left + (tab_size u + 1) + card (deleted_slots t') = growth (capacity u)" using u(4) by linarith
  then have "counts_ok t'" using F(3) u(3) g unfolding counts_ok_def by simp
  then have "table_ok P t'" using F(1) filled_shape [OF f] by (simp add: table_ok_def)
  moreover have "slot_array t' ! p = Some e" using g(4) p(1) u(1) by (simp add: shape_def)
  ultimately show ?thesis using c w(2) F(2) g(1) G(1) by (intro exI [of _ w] exI [of _ t']) simp
qed

text \<open>A new key: its slot is prepared and filled, and the assertion that it is found there holds.\<close>

lemma insert_new:
  fixes t :: "('k, 'v) table"
  assumes ok: "table_ok P t" and new: "table_map t (fst e) = None"
  shows "\<exists>i w t'. find_or_prepare_insert P t (fst e) = Inr (i, True, w) \<and> emplace_at P w i e = Inr t' \<and> table_ok P t' \<and>
    table_map t' = (table_map t)(fst e \<mapsto> snd e) \<and> tab_size t' = Suc (tab_size t) \<and> full t' i \<and> slot_array t' ! i = Some e"
proof -
  obtain u p where u: "prepare_insert P t (p_hash P (fst e)) = claim_slot u p (p_hash P (fst e))" "table_ok P u"
    "table_map u = table_map t" "tab_size u = tab_size t" "is_free u p" "spot u (start u (p_hash P (fst e))) p"
    "0 < growth_left u \<or> cell u p = kDeleted"
    using prepare_insert_chooses [OF ok] by blast
  obtain w t' where w: "claim_slot u p (p_hash P (fst e)) = Inr (p, w)" "set_slot w p (Some e) = Inr t'" "table_ok P t'"
    "table_map t' = (table_map u)(fst e \<mapsto> snd e)" "tab_size t' = Suc (tab_size u)" "full t' p" "slot_array t' ! p = Some e"
    using claim_ok [OF u(2,5,6,7)] new u(3) by auto
  have "find_key P t (fst e) = Inr None" using find_ok [OF ok, of "fst e"] new by (auto split: option.splits)
  then have "find_or_prepare_insert P t (fst e) = Inr (p, True, w)"
    using u(1) w(1) by (auto simp: find_or_prepare_insert_def find_key_def find_hash_def res_simps Let_def)
  moreover have "find_key P t' (fst e) = Inr (Some p)"
  proof -
    obtain r where r: "find_key P t' (fst e) = Inr r"
      "case r of None \<Rightarrow> table_map t' (fst e) = None
       | Some i \<Rightarrow> full t' i \<and> (\<exists>v. slot_array t' ! i = Some (fst e, v) \<and> table_map t' (fst e) = Some v)"
      using find_ok [OF w(3)] by blast
    then obtain i where "r = Some i" using w(4) by (cases r) auto
    have "full t' i" "\<exists>v. slot_array t' ! i = Some (fst e, v)" using r(2) unfolding \<open>r = Some i\<close> option.case by blast+
    then obtain v where i: "r = Some i" "full t' i" "slot_array t' ! i = Some (fst e, v)" using \<open>r = Some i\<close> by blast
    have "elements_ok P t'" using w(3) by (simp add: table_ok_def)
    then have "i = p" using full_key_unique [of P t' i p] i w(6,7) by (simp add: key_at_def)
    with r(1) i(1) show ?thesis by simp
  qed
  then have "emplace_at P w p e = Inr t'" using w(2) by (simp add: emplace_at_def assert_def)
  ultimately show ?thesis using w u(3,4) by (intro exI [of _ p] exI [of _ w] exI [of _ t']) simp
qed

lemma insert_old:
  assumes ok: "table_ok P t" and old: "table_map t k = Some v"
  shows "\<exists>i. find_or_prepare_insert P t k = Inr (i, False, t) \<and> full t i \<and> slot_array t ! i = Some (k, v)"
proof -
  obtain i where i: "find_key P t k = Inr (Some i)" "full t i" "slot_array t ! i = Some (k, v)"
    using find_ok [OF ok, of k] old by (auto split: option.splits)
  then have "find_or_prepare_insert P t k = Inr (i, False, t)"
    by (auto simp: find_or_prepare_insert_def find_key_def find_hash_def res_simps Let_def)
  with i show ?thesis by blast
qed

text \<open>Writing the value of an element that is there.\<close>

lemma assign_ok:
  fixes t :: "('k, 'v) table"
  assumes ok: "table_ok P t" and i: "full t i" "slot_array t ! i = Some (k, v)"
  shows "\<exists>t'. set_slot t i (Some (k, v')) = Inr t' \<and> table_ok P t' \<and> table_map t' = (table_map t)(k \<mapsto> v') \<and>
    tab_size t' = tab_size t \<and> full t' i \<and> slot_array t' ! i = Some (k, v')"
proof -
  have t: "shape t" "elements_ok P t" "counts_ok t" using ok by (auto simp: table_ok_def)
  define u where "u = t\<lparr>slot_array := (slot_array t)[i := Some (k, v')]\<rparr>"
  have len: "i < length (slot_array t)" using i(1) t(1) by (auto simp: full_def shape_def)
  have set: "set_slot t i (Some (k, v')) = Inr u" using len by (simp add: set_slot_def u_def)
  have full: "full u = full t" "deleted_slots u = deleted_slots t" by (auto simp: full_def deleted_slots_def fun_eq_iff u_def)
  have key: "key_at u x = key_at t x" for x using i(2) len by (cases "x = i") (simp_all add: key_at_def u_def)
  have slot: "slot_array u ! x = (if x = i then Some (k, v') else slot_array t ! x)" for x using len by (simp add: u_def)
  have gb: "group_byte u = group_byte t" by (simp add: group_byte_def fun_eq_iff u_def)
  have f: "capacity u = capacity t" "control_at u = control_at t" "control u = control t" "tab_size u = tab_size t"
    "growth_left u = growth_left t" "shape u" using t(1) by (simp_all add: u_def)
  with gb have reach: "reach u = reach t" "start u = start t" by (simp_all add: reach_def has_empty_def start_def fun_eq_iff)
  have "placed P u x" if "full t x" for x
    using t(2) that i(2) reach slot [of x] f by (fastforce simp: elements_ok_def placed_def)
  then have e: "elements_ok P u" using t(2) unfolding elements_ok_def full by (simp add: key inj_on_def)
  have "table_map u = (table_map t)(k \<mapsto> v')"
  proof (rule table_map_eqI [OF e])
    fix k' w
    have other: "x = i" if "full t x" "slot_array t ! x = Some (k, w)" for x w
      using full_key_unique [OF t(2), of x i] that i by (simp add: key_at_def)
    show "((table_map t)(k \<mapsto> v')) k' = Some w \<longleftrightarrow> (\<exists>x. full u x \<and> slot_array u ! x = Some (k', w))"
    proof (cases "k' = k")
      case True
      have "w = v'" if x: "full t x" "slot_array u ! x = Some (k, w)" for x
      proof -
        have "x = i" using other [OF x(1), of w] x(2) slot [of x] by argo
        then show ?thesis using x(2) slot [of i] by simp
      qed
      then show ?thesis unfolding full True using i(1) slot [of i] by auto
    next
      case False
      have "(\<exists>x. full t x \<and> slot_array u ! x = Some (k', w)) \<longleftrightarrow> (\<exists>x. full t x \<and> slot_array t ! x = Some (k', w))"
        unfolding slot using False i(2) by (metis option.inject prod.inject)
      then show ?thesis unfolding full using False table_map_Some [OF t(2)] by simp
    qed
  qed
  moreover have "counts_ok u" using t(3) f by (simp add: counts_ok_def full)
  ultimately show ?thesis using set f e i(1) full slot by (intro exI [of _ u]) (simp add: table_ok_def)
qed

section \<open>The operations that insert\<close>

lemma insert_cases:
  assumes "table_ok P t"
  obtains (New) i w t' where "table_map t k = None" "find_or_prepare_insert P t k = Inr (i, True, w)" "emplace_at P w i (k, v) = Inr t'"
    "table_ok P t'" "table_map t' = (table_map t)(k \<mapsto> v)" "tab_size t' = Suc (tab_size t)" "full t' i" "slot_array t' ! i = Some (k, v)"
  | (Old) i v0 where "table_map t k = Some v0" "find_or_prepare_insert P t k = Inr (i, False, t)" "full t i" "slot_array t ! i = Some (k, v0)"
proof (cases "table_map t k")
  case None
  then show thesis using insert_new [OF assms, of "(k, v)"] New by auto
next
  case (Some v0)
  then show thesis using insert_old [OF assms Some] Old by blast
qed

lemma emplace_ok:
  assumes "table_ok P t"
  shows "\<exists>i t'. EmplaceDecomposable P t (k, v) = Inr (i, table_map t k = None, t') \<and> table_ok P t' \<and> full t' i \<and>
    table_map t' = (case table_map t k of None \<Rightarrow> (table_map t)(k \<mapsto> v) | Some _ \<Rightarrow> table_map t) \<and>
    slot_array t' ! i = Some (k, the (table_map t' k))"
  by (rule insert_cases [OF assms, of k v]) (use assms in \<open>auto simp: EmplaceDecomposable_def\<close>)

lemma try_emplace_ok:
  assumes "table_ok P t"
  shows "\<exists>i t'. try_emplace P t k v = Inr (i, table_map t k = None, t') \<and> table_ok P t' \<and> full t' i \<and>
    table_map t' = (case table_map t k of None \<Rightarrow> (table_map t)(k \<mapsto> v) | Some _ \<Rightarrow> table_map t) \<and>
    slot_array t' ! i = Some (k, the (table_map t' k))"
  by (rule insert_cases [OF assms, of k v]) (use assms in \<open>auto simp: try_emplace_def\<close>)

lemma slot_at_full: "shape t \<Longrightarrow> full t i \<Longrightarrow> slot_array t ! i = Some e \<Longrightarrow> slot_at t i = Inr e"
  by (auto simp: slot_at_def full_def shape_def)

lemma table_ok_shape: "table_ok P t \<Longrightarrow> shape t"
  by (simp add: table_ok_def)

lemma insert_or_assign_ok:
  assumes "table_ok P t"
  shows "\<exists>i t'. insert_or_assign P t k v = Inr (i, table_map t k = None, t') \<and> table_ok P t' \<and> full t' i \<and>
    table_map t' = (table_map t)(k \<mapsto> v) \<and> slot_array t' ! i = Some (k, v)"
proof (rule insert_cases [OF assms, of k v])
  fix i v0 assume o: "table_map t k = Some v0" "find_or_prepare_insert P t k = Inr (i, False, t)" "full t i" "slot_array t ! i = Some (k, v0)"
  then obtain t' where "set_slot t i (Some (k, v)) = Inr t'" "table_ok P t'" "table_map t' = (table_map t)(k \<mapsto> v)"
    "full t' i" "slot_array t' ! i = Some (k, v)" using assign_ok [OF assms o(3,4)] by blast
  with o slot_at_full [OF table_ok_shape [OF assms] o(3,4)] show ?thesis by (simp add: insert_or_assign_def)
qed (auto simp: insert_or_assign_def)

lemma subscript_ok:
  assumes "table_ok P t"
  shows "\<exists>t'. subscript P initial t k = Inr (case table_map t k of None \<Rightarrow> initial | Some v \<Rightarrow> v, t') \<and> table_ok P t' \<and>
    table_map t' = (case table_map t k of None \<Rightarrow> (table_map t)(k \<mapsto> initial) | Some _ \<Rightarrow> table_map t)"
proof -
  obtain i t' where t': "try_emplace P t k initial = Inr (i, table_map t k = None, t')" "table_ok P t'" "full t' i"
    "table_map t' = (case table_map t k of None \<Rightarrow> (table_map t)(k \<mapsto> initial) | Some _ \<Rightarrow> table_map t)"
    "slot_array t' ! i = Some (k, the (table_map t' k))" using try_emplace_ok [OF assms] by blast
  then have "slot_at t' i = Inr (k, the (table_map t' k))" using slot_at_full table_ok_shape by blast
  then show ?thesis using t' by (auto simp: subscript_def split: option.splits)
qed

lemma at_key_ok:
  assumes "table_ok P t"
  shows "at_key P t k = (case table_map t k of None \<Rightarrow> Inl OutOfRange | Some v \<Rightarrow> Inr v)"
  using find_ok [OF assms, of k] slot_at_full [OF table_ok_shape [OF assms]]
  by (auto simp: at_key_def split: option.splits)

section \<open>Erasure\<close>

text \<open>
  The test of \<^verbatim>\<open>EraseMetaOnly\<close>: if fewer than eight bytes in a row around slot \<open>i\<close> are not empty, then every
  group that contains the slot has an empty byte, and no search ever went past it.
\<close>

definition watched :: "('k, 'v) table \<Rightarrow> nat \<Rightarrow> bool" where
  "watched t i \<longleftrightarrow> (\<forall>o'\<le>capacity t. \<forall>j<8. (o' + j) mod (capacity t + 1) = i \<longrightarrow> (\<exists>j'<8. group_byte t o' j' = kEmpty))"

lemma window:
  fixes t :: "('k, 'v) table"
  assumes cap: "7 \<le> capacity t" and i: "i < capacity t"
    and a: "a < 8" "group_byte t i a = kEmpty"
    and b: "b < 8" "group_byte t (nat ((int i - 8) mod int (capacity t + 1))) (7 - b) = kEmpty" and ab: "a + b < 8"
  shows "watched t i"
  unfolding watched_def
proof (intro allI impI)
  fix o' j assume o: "o' \<le> capacity t" and j: "j < 8" "(o' + j) mod (capacity t + 1) = i"
  let ?M = "capacity t + 1"
  let ?ib = "nat ((int i - 8) mod int ?M)"
  have ib: "int ?ib = (int i - 8) mod int ?M" by simp
  then have ib_le: "?ib \<le> capacity t" using pos_mod_bound [of "int ?M" "int i - 8"] by linarith
  show "\<exists>j'<8. group_byte t o' j' = kEmpty"
  proof (cases "j + a < 8")
    case True
    have "(o' + (j + a)) mod ?M = (i + a) mod ?M" using j(2) by (metis add.assoc mod_add_left_eq)
    then have "group_byte t o' (j + a) = group_byte t i a"
      using large_group_byte [OF cap o True] large_group_byte [OF cap _ a(1), of i] i by simp
    with True a(2) show ?thesis by auto
  next
    case False
    then have bj: "b < j" using ab by linarith
    define l where "l = j - 1 - b"
    have l: "l < 8" "int l = int j - 1 - int b" using bj j(1) by (auto simp: l_def)
    have "int (o' + l) = int (o' + j) - (1 + int b)" using l(2) by simp
    then have "int ((o' + l) mod ?M) = (int (o' + j) - (1 + int b)) mod int ?M" by (simp only: zmod_int)
    also have "\<dots> = (int i - (1 + int b)) mod int ?M" unfolding j(2) [symmetric] zmod_int by (simp only: mod_diff_left_eq)
    also have "\<dots> = (int i - 8 + int (7 - b)) mod int ?M" using b(1) by (simp add: of_nat_diff algebra_simps)
    also have "\<dots> = (int ?ib + int (7 - b)) mod int ?M" unfolding ib by (simp only: mod_add_left_eq)
    also have "\<dots> = int ((?ib + (7 - b)) mod ?M)" by (simp only: zmod_int of_nat_add)
    finally have "(o' + l) mod ?M = (?ib + (7 - b)) mod ?M" by (simp only: of_nat_eq_iff)
    then have "group_byte t o' l = group_byte t ?ib (7 - b)"
      using large_group_byte [OF cap o l(1)] large_group_byte [OF cap ib_le, of "7 - b"] by simp
    with l(1) b(2) show ?thesis by auto
  qed
qed

text \<open>The table \<open>t'\<close> is \<open>t\<close> with slot \<open>i\<close> freed.\<close>

definition freed :: "('k, 'v) table \<Rightarrow> nat \<Rightarrow> ctrl_t \<Rightarrow> ('k, 'v) table \<Rightarrow> bool" where
  "freed t i b t' \<longleftrightarrow> shape t' \<and> same_array t t' \<and> (\<forall>x\<le>capacity t. cell t' x = (if x = i then b else cell t x)) \<and>
     slot_array t' = (slot_array t)[i := None]"

lemma freed_full:
  assumes "freed t i b t'" "full t i" "b \<in> {kEmpty, kDeleted}"
  shows "full t' x \<longleftrightarrow> x \<noteq> i \<and> full t x" "deleted_slots t' = (if b = kDeleted then insert i (deleted_slots t) else deleted_slots t)"
proof -
  have c: "cell t' x = (if x = i then b else cell t x)" if "x < capacity t" for x
    using assms that by (simp add: freed_def)
  have cap: "capacity t' = capacity t" "i < capacity t" "IsFull (cell t i)"
    using assms by (auto simp: freed_def same_array_def full_def)
  show "full t' x \<longleftrightarrow> x \<noteq> i \<and> full t x" using c cap assms(3) ctrl_values by (cases "x = i") (auto simp: full_def)
  show "deleted_slots t' = (if b = kDeleted then insert i (deleted_slots t) else deleted_slots t)"
    unfolding deleted_slots_def using c cap assms(3) ctrl_values by (auto split: if_splits)
qed

lemma freed_reach:
  fixes t t' :: "('k, 'v) table"
  assumes f: "freed t i b t'" and w: "b = kDeleted \<or> capacity t < 7 \<or> watched t i" and r: "reach t h x"
  shows "reach t' h x"
proof -
  have sa: "same_array t t'" and cap: "capacity t' = capacity t" using f by (auto simp: freed_def same_array_def)
  obtain n where n: "8 * n \<le> capacity t" "in_group (capacity t) h n x" "\<forall>n'<n. \<not> has_empty t h n'" using r by (auto simp: reach_def)
  have "\<not> has_empty t' h n'" if "n' < n" for n'
  proof
    assume "has_empty t' h n'"
    let ?o = "probe_offset (capacity t) h n'"
    have cap7: "7 \<le> capacity t" using n(1) that by linarith
    obtain j where j: "j < 8" "group_byte t' ?o j = kEmpty" using \<open>has_empty t' h n'\<close> cap by (auto simp: has_empty_def)
    let ?x = "(?o + j) mod (capacity t + 1)"
    have o: "?o \<le> capacity t" by (rule probe_offset_le)
    have "?x \<le> capacity t" using mod_less_divisor [of "capacity t + 1" "?o + j"] by simp
    then have "cell t' ?x = (if ?x = i then b else cell t ?x)" using f unfolding freed_def by blast
    moreover have "cell t' ?x = kEmpty" using j large_group_byte [of t' ?o j] cap cap7 o by simp
    ultimately have c: "(if ?x = i then b else cell t ?x) = kEmpty" by simp
    show False
    proof (cases "?x = i")
      case True
      then have "watched t i" using w c cap7 ctrl_values by auto
      then have "has_empty t h n'" using True o j(1) unfolding watched_def has_empty_def by blast
      then show False using n(3) that by blast
    next
      case False
      then have "group_byte t ?o j = kEmpty" using c large_group_byte [OF cap7 o j(1)] by simp
      then have "has_empty t h n'" using j(1) by (auto simp: has_empty_def)
      then show False using n(3) that by blast
    qed
  qed
  then show ?thesis using n cap by (auto simp: reach_def)
qed

lemma freed_ok:
  fixes t t' :: "('k, 'v) table"
  assumes e: "elements_ok P t" and f: "freed t i b t'" and i: "full t i" and b: "b \<in> {kEmpty, kDeleted}"
    and w: "b = kDeleted \<or> capacity t < 7 \<or> watched t i"
  shows "elements_ok P t'" "table_map t' = (table_map t)(key_at t i := None)" "Suc (card {x. full t' x}) = card {x. full t x}"
proof -
  note F = freed_full [OF f i b]
  have sa: "same_array t t'" using f by (simp add: freed_def)
  have slot: "slot_array t' ! x = slot_array t ! x" if "full t' x" for x using f that F(1) by (simp add: freed_def)
  have key: "key_at t' x = key_at t x" if "full t' x" for x using slot [OF that] by (simp add: key_at_def)
  have "placed P t' x" if x: "full t' x" for x
  proof -
    have tx: "full t x" "x \<noteq> i" using x F(1) by auto
    then obtain a where a: "slot_array t ! x = Some a" "cell t x = H2 (p_hash P (fst a))" "reach t (start t (p_hash P (fst a))) x"
      using e by (auto simp: elements_ok_def placed_def)
    moreover have "cell t' x = cell t x" using f tx by (auto simp: freed_def full_def)
    ultimately show ?thesis using slot [OF x] freed_reach [OF f w] start_same [OF sa] by (auto simp: placed_def)
  qed
  moreover have "inj_on (key_at t') {x. full t' x}"
  proof (rule inj_onI)
    fix x y assume xy: "x \<in> {x. full t' x}" "y \<in> {x. full t' x}" "key_at t' x = key_at t' y"
    then show "x = y" using full_key_unique [OF e, of x y] key F(1) by auto
  qed
  ultimately show e': "elements_ok P t'" by (simp add: elements_ok_def)
  show "table_map t' = (table_map t)(key_at t i := None)"
  proof (rule table_map_eqI [OF e'])
    fix k v
    have "(\<exists>x. full t' x \<and> slot_array t' ! x = Some (k, v)) \<longleftrightarrow> (\<exists>x. x \<noteq> i \<and> full t x \<and> slot_array t ! x = Some (k, v))"
      using F(1) slot by metis
    also have "\<dots> \<longleftrightarrow> k \<noteq> key_at t i \<and> (\<exists>x. full t x \<and> slot_array t ! x = Some (k, v))"
    proof -
      have "x \<noteq> i \<longleftrightarrow> k \<noteq> key_at t i" if "full t x" "slot_array t ! x = Some (k, v)" for x
        using full_key_unique [OF e, of x i] that i by (auto simp: key_at_def)
      then show ?thesis by blast
    qed
    finally show "((table_map t)(key_at t i := None)) k = Some v \<longleftrightarrow> (\<exists>x. full t' x \<and> slot_array t' ! x = Some (k, v))"
      using table_map_Some [OF e, of k v] by simp
  qed
  have "{x. full t x} = insert i {x. full t' x}" "i \<notin> {x. full t' x}" using F(1) i by auto
  then show "Suc (card {x. full t' x}) = card {x. full t x}" by simp
qed

lemma never_full_watched:
  fixes t :: "('k, 'v) table"
  assumes s: "shape t" and i: "i < capacity t" and cap: "7 \<le> capacity t"
  defines "ib \<equiv> nat ((int i - int kWidth) AND int (capacity t))"
  defines "after \<equiv> MaskEmpty (group_word (group_list t i))" and "before \<equiv> MaskEmpty (group_word (group_list t ib))"
  assumes never: "before \<noteq> 0" "after \<noteq> 0" "mask_TrailingZeros tc after + mask_LeadingZeros tc before < kWidth"
  shows "watched t i"
proof -
  have v: "table_capacity (capacity t)" using s by (simp add: shape_def)
  have ib: "ib = nat ((int i - 8) mod int (capacity t + 1))" unfolding ib_def int_and_capacity [OF v] kWidth_def by simp
  have "int ib = (int i - 8) mod int (capacity t + 1)" unfolding ib by simp
  then have ib_le: "ib \<le> capacity t" using pos_mod_bound [of "int (capacity t + 1)" "int i - 8"] by linarith
  have i_le: "i \<le> capacity t" using i by simp
  note A = lanes_empty [OF s i_le] and B = lanes_empty [OF s ib_le]
  have a: "LowestBitSet tc after < 8" "group_byte t i (LowestBitSet tc after) = kEmpty"
    using LowestBitSet(1) [OF A(3), of tc] A(1) never(2) unfolding after_def by blast+
  have b: "HighestBitSet tc before < 8" "group_byte t ib (HighestBitSet tc before) = kEmpty"
    using HighestBitSet(1) [OF B(3), of tc] B(1) never(1) unfolding before_def by blast+
  have "mask_TrailingZeros tc after = LowestBitSet tc after" "mask_LeadingZeros tc before = 7 - HighestBitSet tc before"
    using mask_zeros [OF A(3)] mask_zeros [OF B(3)] never(1,2) unfolding after_def before_def by blast+
  then have ab: "LowestBitSet tc after + (7 - HighestBitSet tc before) < 8" using never(3) by (simp add: kWidth_def)
  have "group_byte t (nat ((int i - 8) mod int (capacity t + 1))) (7 - (7 - HighestBitSet tc before)) = kEmpty"
    unfolding ib [symmetric] using b by simp
  then show ?thesis by (intro window [OF cap i a _ _ ab]) simp_all
qed

lemma erase_at_frame:
  fixes t :: "('k, 'v) table"
  assumes ok: "table_ok P t" and i: "full t i"
  shows "\<exists>t' b. erase_at P t i = Inr t' \<and> table_ok P t' \<and> table_map t' = (table_map t)(key_at t i := None) \<and>
    freed t i b t' \<and> b \<in> {kEmpty, kDeleted} \<and> Suc (tab_size t') = tab_size t"
proof -
  have t: "shape t" "elements_ok P t" "tab_size t = card {i. full t i}"
    "growth_left t + tab_size t + card (deleted_slots t) = growth (capacity t)"
    using ok by (auto simp: table_ok_def counts_ok_def)
  have ic: "i < capacity t" "IsFull (cell t i)" "length (slot_array t) = capacity t" "i < length (control t)"
    using i t(1) by (auto simp: full_def shape_def)
  have "0 < tab_size t" using t(3) i by (auto simp: card_gt_0_iff)
  define u where "u = t\<lparr>slot_array := (slot_array t)[i := None], tab_size := tab_size t - 1\<rparr>"
  have u: "shape u" "capacity u = capacity t" "control u = control t" "control_at u = control_at t" using t(1) by (simp_all add: u_def)
  have gb: "group_byte u = group_byte t" by (simp add: u_def group_byte_def fun_eq_iff)
  define ib where "ib = nat ((int i - int kWidth) AND int (capacity t))"
  have v: "table_capacity (capacity t)" using t(1) by (simp add: shape_def)
  have "int ib = (int i - int kWidth) mod int (capacity t + 1)" unfolding ib_def int_and_capacity [OF v] by simp
  then have ib_le: "ib \<le> capacity t" using pos_mod_bound [of "int (capacity t + 1)" "int i - int kWidth"] by linarith
  define wnf where "wnf \<longleftrightarrow> MaskEmpty (group_word (group_list t ib)) \<noteq> 0 \<and> MaskEmpty (group_word (group_list t i)) \<noteq> 0 \<and>
    mask_TrailingZeros (p_tc P) (MaskEmpty (group_word (group_list t i))) +
    mask_LeadingZeros (p_tc P) (MaskEmpty (group_word (group_list t ib))) < kWidth"
  let ?b = "if wnf then kEmpty else kDeleted"
  have iu: "i < capacity u" and sb: "slot_byte ?b" using ic u by simp_all
  obtain w where w: "SetCtrl u i ?b = Inr w" "shape w" "w = u\<lparr>control := control w\<rparr>"
    "\<forall>x\<le>capacity u. cell w x = (if x = i then ?b else cell u x)"
    using SetCtrl_ok [OF u(1) iu sb] by blast
  let ?t' = "w\<lparr>growth_left := growth_left w + of_bool wnf\<rparr>"
  have load: "load_group P u i = Inr (group_word (group_list t i))" "load_group P u ib = Inr (group_word (group_list t ib))"
    using load_group [OF u(1), of i P] load_group [OF u(1), of ib P] less_imp_le [OF ic(1)] ib_le unfolding gb u(2) by blast+
  have run: "erase_at P t i = Inr ?t'"
  proof -
    have "set_slot t i None = Inr (t\<lparr>slot_array := (slot_array t)[i := None]\<rparr>)" using ic by (simp add: set_slot_def)
    moreover have "decrement_size (t\<lparr>slot_array := (slot_array t)[i := None]\<rparr>) = Inr u"
      using \<open>0 < tab_size t\<close> by (simp add: decrement_size_def assert_def u_def)
    ultimately show ?thesis using ic load w(1) u(2) unfolding erase_at_def EraseMetaOnly_def
      by (simp add: ctrl_at_def assert_def Let_def wnf_def [symmetric] ib_def [symmetric])
  qed
  have fw: "slot_array w = (slot_array t)[i := None]" "capacity w = capacity t" "control_at w = control_at t"
    "tab_size w = tab_size t - 1" "growth_left w = growth_left t" by (subst w(3), simp add: u_def)+
  have f: "freed t i ?b ?t'" using w(2,4) u fw by (simp add: freed_def same_array_def)
  have "?b = kDeleted \<or> capacity t < 7 \<or> watched t i"
    using never_full_watched [OF t(1) ic(1), of "p_tc P"] unfolding wnf_def ib_def by (cases "capacity t < 7") auto
  note F = freed_ok [OF t(2) f i _ this] and G = freed_full [OF f i]
  have b: "?b \<in> {kEmpty, kDeleted}" by simp
  have "i \<notin> deleted_slots t" using ic(2) ctrl_values by (auto simp: deleted_slots_def)
  then have "card (deleted_slots ?t') = card (deleted_slots t) + of_bool (\<not> wnf)" using G(2) [OF b] ctrl_values by auto
  moreover have size: "tab_size w + 1 = tab_size t" using fw(4) \<open>0 < tab_size t\<close> by simp
  ultimately have "counts_ok ?t'" using F(3) [OF b] t(3,4) fw by (auto simp: counts_ok_def of_bool_def)
  then have "table_ok P ?t'" using F(1) [OF b] f by (simp add: table_ok_def freed_def)
  with run F(2) [OF b] f b size show ?thesis by (intro exI [of _ ?t'] exI [of _ ?b]) simp
qed

lemma erase_at_ok:
  assumes "table_ok P t" "full t i"
  shows "\<exists>t'. erase_at P t i = Inr t' \<and> table_ok P t' \<and> table_map t' = (table_map t)(key_at t i := None)"
  using erase_at_frame [OF assms] by blast

lemma erase_key_ok:
  assumes "table_ok P t"
  shows "\<exists>t'. erase_key P t k = Inr (if table_map t k = None then 0 else 1, t') \<and> table_ok P t' \<and> table_map t' = (table_map t)(k := None)"
proof -
  obtain r where r: "find_key P t k = Inr r"
    "case r of None \<Rightarrow> table_map t k = None
     | Some i \<Rightarrow> full t i \<and> (\<exists>v. slot_array t ! i = Some (k, v) \<and> table_map t k = Some v)"
    using find_ok [OF assms] by blast
  show ?thesis
  proof (cases r)
    case None
    then show ?thesis using r assms by (auto simp: erase_key_def)
  next
    case (Some i)
    then obtain v where i: "full t i" "slot_array t ! i = Some (k, v)" "table_map t k = Some v" using r(2) by auto
    then have "key_at t i = k" by (simp add: key_at_def)
    then show ?thesis using Some r(1) i erase_at_ok [OF assms i(1)] by (auto simp: erase_key_def)
  qed
qed

section \<open>Empty tables, clearing\<close>

lemma empty_table_ok:
  assumes "table_capacity (capacity t)" "{i. full t i} = {}" "shape t" "deleted_slots t = {}" "tab_size t = 0"
    "growth_left t = growth (capacity t)"
  shows "table_ok P t \<and> table_map t = Map.empty"
  using assms no_full_map [OF assms(2), of P] unfolding table_ok_def counts_ok_def by simp

lemma empty_group_ok:
  assumes "control t = EmptyGroup" "capacity t = 0" "slot_array t = []" "tab_size t = 0" "growth_left t = 0"
  shows "table_ok P t \<and> table_map t = Map.empty"
proof (rule empty_table_ok)
  have "length EmptyGroup = 16" "EmptyGroup ! 0 = kSentinel" "\<forall>j\<in>set [0..<7]. EmptyGroup ! (1 + j) = kEmpty" by code_simp+
  then show "shape t" using assms by (auto simp: shape_def table_capacity_def)
qed (use assms in \<open>auto simp: table_capacity_def full_def deleted_slots_def growth_def\<close>)

lemma CommonFields_ok: "t = CommonFields addr cnt n \<Longrightarrow> table_ok P t \<and> table_map t = Map.empty"
  by (rule empty_group_ok) (simp_all add: CommonFields_def)

lemma destroy_slots_ok:
  fixes t :: "('k, 'v) table"
  assumes s: "shape t"
  shows "\<exists>a. destroy_slots t = Inr (t\<lparr>slot_array := a\<rparr>) \<and> length a = capacity t"
proof -
  let ?I = "\<lambda>u. \<exists>a. u = t\<lparr>slot_array := a\<rparr> \<and> length a = capacity t"
  let ?f = "\<lambda>i u. rbind (ctrl_at u i) (\<lambda>c. if IsFull c then set_slot u i None else Inr u)"
  have "\<exists>u. rfold ?f [0..<capacity t] t = Inr u \<and> ?I u"
  proof (rule rfold_invariant)
    have "t = t\<lparr>slot_array := slot_array t\<rparr>" "length (slot_array t) = capacity t" using s by (simp_all add: shape_def)
    then show "?I t" by blast
    fix i u assume i: "i \<in> set [0..<capacity t]" and "?I u"
    then obtain a where a: "u = t\<lparr>slot_array := a\<rparr>" "length a = capacity t" by blast
    then have "ctrl_at u i = Inr (cell t i)" using i s by (auto simp: ctrl_at_def shape_def)
    moreover have "set_slot u i None = Inr (t\<lparr>slot_array := a[i := None]\<rparr>)" using a i by (simp add: set_slot_def)
    ultimately have "?f i u = Inr (if IsFull (cell t i) then t\<lparr>slot_array := a[i := None]\<rparr> else u)" by simp
    moreover have "?I (if IsFull (cell t i) then t\<lparr>slot_array := a[i := None]\<rparr> else u)" using a by auto
    ultimately show "\<exists>s'. ?f i u = Inr s' \<and> ?I s'" by blast
  qed
  then show ?thesis by (auto simp: destroy_slots_def)
qed

lemma ClearBackingArray_ok:
  assumes c: "IsValidCapacity (capacity t)" and len: "length (slot_array t) = capacity t"
  shows "\<exists>t'. ClearBackingArray P addr t reuse = Inr t' \<and> table_ok P t' \<and> table_map t' = Map.empty"
proof (cases reuse)
  case True
  let ?t = "t\<lparr>tab_size := 0, control := fresh_control (capacity t), growth_left := growth (capacity t)\<rparr>"
  have tc: "table_capacity (capacity t)" using c by (simp add: table_capacity_def)
  have "ResetCtrl (t\<lparr>tab_size := 0\<rparr>) = Inr ?t" using ResetCtrl_ok [of "t\<lparr>tab_size := 0\<rparr>"] c by simp
  moreover have "table_ok P ?t \<and> table_map ?t = Map.empty"
    using fresh_shape [of ?t] tc len by (intro empty_table_ok) simp_all
  ultimately show ?thesis using True by (simp add: ClearBackingArray_def Let_def)
next
  case False
  then show ?thesis
    using empty_group_ok [of "t\<lparr>tab_size := 0, control := EmptyGroup, control_at := addr, slot_array := [], growth_left := 0, capacity := 0\<rparr>" P]
    by (simp add: ClearBackingArray_def Let_def)
qed

lemma clear_ok:
  assumes ok: "table_ok P t"
  shows "\<exists>t'. clear P addr t = Inr t' \<and> table_ok P t' \<and> table_map t' = Map.empty"
proof (cases "capacity t = 0")
  case True
  then have "{i. full t i} = {}" by (simp add: full_def)
  then show ?thesis using True ok no_full_map [of t P] by (simp add: clear_def)
next
  case False
  have s: "shape t" using ok by (simp add: table_ok_def)
  then have v: "IsValidCapacity (capacity t)" using False by (simp add: shape_def table_capacity_def)
  obtain a where a: "destroy_slots t = Inr (t\<lparr>slot_array := a\<rparr>)" "length a = capacity t" using destroy_slots_ok [OF s] by blast
  then show ?thesis using False v ClearBackingArray_ok [of "t\<lparr>slot_array := a\<rparr>" P addr "capacity t < 128"]
    by (simp add: clear_def)
qed

section \<open>Reservation\<close>

lemma growth_mono: "c \<le> d \<Longrightarrow> growth c \<le> growth d"
  unfolding growth_def by (auto; linarith)

lemma nat_or_bounds: "(m :: nat) \<le> n OR m" "n < 2 ^ k \<Longrightarrow> m < 2 ^ k \<Longrightarrow> n OR m < 2 ^ k"
proof -
  have "int m \<le> int m OR int n" by (rule or_greater_eq) simp
  then have "int m \<le> int (n OR m)" by (simp add: of_nat_or_eq or.commute)
  then show "m \<le> n OR m" by (simp only: of_nat_le_iff)
  assume "n < 2 ^ k" "m < 2 ^ k"
  then have "int n < 2 ^ k" "int m < 2 ^ k" by (metis of_nat_less_iff of_nat_numeral of_nat_power)+
  then have "int n OR int m < 2 ^ k" by (intro OR_upper) simp_all
  then have "int (n OR m) < int (2 ^ k)" by (simp add: of_nat_or_eq)
  then show "n OR m < 2 ^ k" by (simp only: of_nat_less_iff)
qed

lemma reserve_ok:
  fixes t :: "('k, 'v) table"
  assumes ok: "table_ok P t" and n: "GrowthToLowerboundCapacity n < 2 ^ 64"
  shows "\<exists>t'. reserve P t n = Inr t' \<and> table_ok P t' \<and> table_map t' = table_map t \<and> n \<le> tab_size t' + growth_left t'"
proof (cases "n > tab_size t + growth_left t")
  case True
  let ?c = "NormalizeCapacity (p_tc P) (GrowthToLowerboundCapacity n)"
  have c: "IsValidCapacity ?c" "n \<le> growth ?c" using NormalizeCapacity_least(1) [OF n] sized_for [OF n] by blast+
  then have "tab_size t \<le> growth ?c" using True by linarith
  then show ?thesis using resize_ok [OF ok c(1)] True c(2) by (auto simp: reserve_def Let_def)
qed (use ok in \<open>simp add: reserve_def\<close>)

lemma rehash_ok:
  fixes t :: "('k, 'v) table"
  assumes ok: "table_ok P t" and n: "n < 2 ^ 64" and z: "GrowthToLowerboundCapacity (tab_size t) < 2 ^ 64"
  shows "\<exists>t'. rehash P addr t n = Inr t' \<and> table_ok P t' \<and> table_map t' = table_map t \<and> n \<le> capacity t'"
proof -
  have t: "shape t" "elements_ok P t" "tab_size t = card {i. full t i}" using ok by (auto simp: table_ok_def counts_ok_def)
  let ?x = "n OR GrowthToLowerboundCapacity (tab_size t)"
  let ?m = "NormalizeCapacity (p_tc P) ?x"
  have x: "?x < 2 ^ 64" "GrowthToLowerboundCapacity (tab_size t) \<le> ?x" "n \<le> ?x"
    using nat_or_bounds(2) [OF n z] nat_or_bounds(1) [of "GrowthToLowerboundCapacity (tab_size t)" n]
      nat_or_bounds(1) [of n "GrowthToLowerboundCapacity (tab_size t)"] by (simp_all add: or.commute)
  have N: "IsValidCapacity ?m" "?x \<le> ?m" using NormalizeCapacity_least(1,2) [OF x(1)] by blast+
  have "NormalizeCapacity (p_tc P) (GrowthToLowerboundCapacity (tab_size t)) \<le> ?m"
    using NormalizeCapacity_least(3) [OF z N(1)] le_trans [OF x(2) N(2)] by blast
  then have fits: "tab_size t \<le> growth ?m" using sized_for [OF z, of "p_tc P"] growth_mono le_trans by blast
  consider "n = 0" "capacity t = 0" | "n = 0" "capacity t \<noteq> 0" "tab_size t = 0"
    | "\<not> (n = 0 \<and> capacity t = 0)" "\<not> (n = 0 \<and> tab_size t = 0)"
    by (cases "n = 0"; cases "capacity t = 0") auto
  then show ?thesis
  proof cases
    case 1
    then show ?thesis using ok by (simp add: rehash_def)
  next
    case 2
    then have "IsValidCapacity (capacity t)" "length (slot_array t) = capacity t" using t(1) by (auto simp: shape_def table_capacity_def)
    moreover have "table_map t = Map.empty" using 2 t no_full_map [of t P] by simp
    ultimately show ?thesis using 2 ClearBackingArray_ok [of t P addr False] by (simp add: rehash_def)
  next
    case 3
    then have r: "rehash P addr t n = (if n = 0 \<or> ?m > capacity t then resize P t ?m else Inr t)"
      unfolding rehash_def Let_def by argo
    show ?thesis
    proof (cases "n = 0 \<or> ?m > capacity t")
      case True
      then show ?thesis using r resize_ok [OF ok N(1) fits] x(3) N(2) by auto
    next
      case False
      then show ?thesis using r ok x(3) N(2) by auto
    qed
  qed
qed

end
