(* ===== verification/Iteration.thy ===== *)
theory Iteration
  imports TableOps
begin

text \<open>
  Iteration over the hash table: advancing an iterator skips the empty and deleted slots a group at a time,
  and a traversal from \<^verbatim>\<open>begin()\<close> to \<^verbatim>\<open>end()\<close> meets every element exactly once.
\<close>

section \<open>Skipping free slots\<close>

lemma CountLeading_ok:
  fixes tc :: toolchain and bs :: group
  assumes "length bs = 8" "\<forall>b\<in>set bs. ctrl_byte b"
  defines "n \<equiv> CountLeadingEmptyOrDeleted tc (group_word bs)"
  shows "n \<le> 8" "\<forall>j<n. bs ! j = kEmpty \<or> bs ! j = kDeleted" "n < 8 \<Longrightarrow> \<not> (bs ! n = kEmpty \<or> bs ! n = kDeleted)"
proof -
  let ?g = "group_word bs"
  define m where "m = (?g OR NOT (drop_bit 7 ?g)) AND lsbs"
  have bits: "bit m (8 * j) \<longleftrightarrow> \<not> (bs ! j = kEmpty \<or> bs ! j = kDeleted)" if j: "j < 8" for j
  proof -
    have "bit ?g (8 * j) = bit (bs ! j) 0" "bit ?g (8 * j + 7) = bit (bs ! j) 7"
      using bit_group [OF assms(1) j, of 0] bit_group [OF assms(1) j, of 7] by simp_all
    moreover have "ctrl_byte (bs ! j)" using assms(1,2) j by simp
    ultimately show ?thesis using ctrl_byte_bits(2) [of "bs ! j"] j
      by (auto simp: m_def bit_and_iff bit_or_iff bit_not_iff bit_drop_bit_eq bit_lsbs add.commute)
  qed
  have only: "n = 8 * (n div 8) \<and> n div 8 < 8" if "bit m n" for n
  proof -
    have "n < 64" "n mod 8 = 0" using that by (simp_all add: m_def bit_and_iff bit_lsbs)
    then show ?thesis using mult_div_mod_eq [of 8 n] by linarith
  qed
  have n: "n = nat (countr_zero tc m) div 8" by (simp add: n_def CountLeadingEmptyOrDeleted_def m_def drop_bit_eq_div)
  show "n \<le> 8" "\<forall>j<n. bs ! j = kEmpty \<or> bs ! j = kDeleted" "n < 8 \<Longrightarrow> \<not> (bs ! n = kEmpty \<or> bs ! n = kDeleted)"
  proof -
    consider "m = 0" "n = 8" | "m \<noteq> 0" "n = nat_trailing (unat m) div 8" using n by (cases "m = 0") (auto simp: countr_zero_eq)
    then have "n \<le> 8 \<and> (\<forall>j<n. bs ! j = kEmpty \<or> bs ! j = kDeleted) \<and> (n < 8 \<longrightarrow> \<not> (bs ! n = kEmpty \<or> bs ! n = kDeleted))"
    proof cases
      case 1
      then show ?thesis using bits by simp
    next
      case 2
      have t: "8 * n = nat_trailing (unat m)" "n < 8" using only [OF trailing_bit(1) [OF 2(1)]] 2(2) by auto
      have "bit m (8 * n)" using trailing_bit(1) [OF 2(1)] t by simp
      moreover have "\<not> bit m (8 * j)" if "j < n" for j using trailing_bit(2) [OF 2(1)] t that by simp
      ultimately show ?thesis using bits t(2) by auto
    qed
    then show "n \<le> 8" "\<forall>j<n. bs ! j = kEmpty \<or> bs ! j = kDeleted" "n < 8 \<Longrightarrow> \<not> (bs ! n = kEmpty \<or> bs ! n = kDeleted)" by auto
  qed
qed

lemma group_byte_ahead: "pos + j \<le> capacity t \<Longrightarrow> group_byte t pos j = cell t (pos + j)"
  by (auto simp: group_byte_def)

lemma skip_group:
  fixes t :: "('k, 'v) table" and tc :: toolchain and pos :: nat
  assumes s: "shape t" and pos: "pos \<le> capacity t"
  defines "n \<equiv> CountLeadingEmptyOrDeleted tc (group_word (group_list t pos))"
  shows "pos + n \<le> capacity t" "\<forall>i. pos \<le> i \<and> i < pos + n \<longrightarrow> \<not> full t i" "cell t pos \<in> {kEmpty, kDeleted} \<Longrightarrow> 0 < n"
proof -
  note C = CountLeading_ok [OF group_list_ok [OF s pos], of tc, folded n_def]
  have free: "group_byte t pos j = kEmpty \<or> group_byte t pos j = kDeleted" if "j < n" for j using C(1,2) that by auto
  show le: "pos + n \<le> capacity t"
  proof (rule ccontr)
    assume "\<not> pos + n \<le> capacity t"
    then have "capacity t - pos < n" using pos by linarith
    from free [OF this] show False using s pos ctrl_values group_byte_ahead [of pos "capacity t - pos" t] by (auto simp: shape_def)
  qed
  show "\<forall>i. pos \<le> i \<and> i < pos + n \<longrightarrow> \<not> full t i"
  proof (intro allI impI)
    fix i assume i: "pos \<le> i \<and> i < pos + n"
    then have "cell t i = kEmpty \<or> cell t i = kDeleted" using free [of "i - pos"] group_byte_ahead [of pos "i - pos" t] le by auto
    then show "\<not> full t i" using ctrl_values by (auto simp: full_def)
  qed
  show "0 < n" if "cell t pos \<in> {kEmpty, kDeleted}"
    using C(3) that pos group_byte_ahead [of pos 0 t] by (cases "n = 0") auto
qed

text \<open>The next full slot from a position on.\<close>

definition next_full :: "('k, 'v) table \<Rightarrow> nat \<Rightarrow> nat option" where
  "next_full t pos = List.find (full t) [pos..<capacity t]"

lemma next_full_skip:
  assumes "\<forall>i. pos \<le> i \<and> i < pos' \<longrightarrow> \<not> full t i" "pos \<le> pos'" "pos' \<le> capacity t"
  shows "next_full t pos = next_full t pos'"
proof -
  have "[pos..<capacity t] = [pos..<pos'] @ [pos'..<capacity t]" using assms(2,3) by (metis le_add_diff_inverse upt_add_eq_append)
  moreover have "List.find Q (xs @ ys) = List.find Q ys" if "\<forall>x\<in>set xs. \<not> Q x" for Q and xs ys :: "nat list"
    using that by (induction xs) auto
  ultimately show ?thesis using assms(1) by (simp add: next_full_def)
qed

lemma skip_ok:
  fixes t :: "('k, 'v) table"
  assumes "shape t" "pos \<le> capacity t"
  shows "skip_empty_or_deleted P t pos = Inr (next_full t pos)"
  using assms(2)
proof (induction "capacity t - pos" arbitrary: pos rule: less_induct)
  case less
  have s: "shape t" "capacity t < length (control t)" using assms(1) by (auto simp: shape_def)
  have at: "ctrl_at t pos = Inr (cell t pos)" using s(2) less.prems by (simp add: ctrl_at_def)
  have cell: "cell t pos = kSentinel \<or> slot_byte (cell t pos)" "cell t pos = kSentinel \<longleftrightarrow> pos = capacity t"
    using s(1) less.prems by (auto simp: shape_def le_less)
  have "ctrl_byte (cell t pos)" using cell(1) slot_byte_ctrl ctrl_values by auto
  then have iff: "IsEmptyOrDeleted (cell t pos) \<longleftrightarrow> cell t pos \<in> {kEmpty, kDeleted}"
    using ctrl_values by (auto simp: ctrl_byte_def IsEmptyOrDeleted_iff IsFull_iff)
  show ?case
  proof (cases "cell t pos \<in> {kEmpty, kDeleted}")
    case True
    define n where "n = CountLeadingEmptyOrDeleted (p_tc P) (group_word (group_list t pos))"
    note G = skip_group [OF s(1) less.prems, of "p_tc P", folded n_def]
    have "0 < n" using G(3) True by blast
    then have "skip_empty_or_deleted P t pos = skip_empty_or_deleted P t (pos + n)"
      using True iff at load_group [OF s(1) less.prems, of P] s(2) less.prems
      by (subst skip_empty_or_deleted.simps) (simp add: n_def Let_def del: upt_conv_Cons)
    also have "\<dots> = Inr (next_full t (pos + n))" using \<open>0 < n\<close> G(1) by (intro less.hyps) linarith+
    also have "next_full t (pos + n) = next_full t pos" using next_full_skip [OF G(2) _ G(1)] by simp
    finally show ?thesis .
  next
    case False
    then have step: "skip_empty_or_deleted P t pos = Inr (if pos = capacity t then None else Some pos)"
      using at iff cell(2) by (subst skip_empty_or_deleted.simps) simp
    have "full t pos" if "pos \<noteq> capacity t" using that False cell less.prems by (auto simp: full_def slot_byte_def)
    then have "next_full t pos = (if pos = capacity t then None else Some pos)"
      using less.prems by (auto simp: next_full_def upt_conv_Cons)
    with step show ?thesis by simp
  qed
qed

section \<open>A traversal\<close>

text \<open>
  The range-based loop \<^verbatim>\<open>for (auto& e : table)\<close>: the slots met from an iterator on. \<open>fuel\<close> bounds the number
  of rounds; a traversal that needs more has no result.
\<close>

fun traverse :: "'k policy \<Rightarrow> ('k, 'v) table \<Rightarrow> nat \<Rightarrow> nat option \<Rightarrow> nat list res option" where
  "traverse P t fuel None = Some (Inr [])"
| "traverse P t 0 (Some i) = None"
| "traverse P t (Suc fuel) (Some i) =
     (case next_iter P t i of
        Inl e \<Rightarrow> Some (Inl e)
      | Inr it \<Rightarrow> map_option (\<lambda>r. rbind r (\<lambda>is. Inr (i # is))) (traverse P t fuel it))"

abbreviation full_from :: "('k, 'v) table \<Rightarrow> nat \<Rightarrow> nat list" where
  "full_from t pos \<equiv> filter (full t) [pos..<capacity t]"

lemma full_from_next: "full_from t pos = (case next_full t pos of None \<Rightarrow> [] | Some i \<Rightarrow> i # full_from t (Suc i))"
proof (induction "capacity t - pos" arbitrary: pos)
  case 0
  then show ?case by (simp add: next_full_def)
next
  case (Suc d)
  then have pos: "pos < capacity t" by simp
  then show ?case using Suc(1) [of "Suc pos"] Suc(2) by (simp add: next_full_def upt_conv_Cons)
qed

lemma next_full_Some: "next_full t pos = Some i \<Longrightarrow> pos \<le> i \<and> full t i"
  by (auto simp: next_full_def find_Some_iff)

lemma traverse_ok:
  assumes s: "shape t" and "length (full_from t pos) \<le> fuel" "pos \<le> capacity t"
  shows "traverse P t fuel (next_full t pos) = Some (Inr (full_from t pos))"
  using assms(2,3)
proof (induction fuel arbitrary: pos)
  case 0
  then have "next_full t pos = None" using full_from_next [of t pos] by (cases "next_full t pos") auto
  then show ?case using 0 by simp
next
  case (Suc fuel)
  show ?case
  proof (cases "next_full t pos")
    case None
    then show ?thesis using full_from_next [of t pos] by simp
  next
    case (Some i)
    have i: "pos \<le> i" "full t i" using next_full_Some [OF Some] by auto
    have ff: "full_from t pos = i # full_from t (Suc i)" using full_from_next [of t pos] Some by simp
    have ic: "i < capacity t" "i < length (control t)" "IsFull (cell t i)" using i(2) s by (auto simp: full_def shape_def)
    then have "next_iter P t i = Inr (next_full t (Suc i))"
      using skip_ok [OF s, of "Suc i" P] by (simp add: next_iter_def ctrl_at_def assert_def)
    moreover have "traverse P t fuel (next_full t (Suc i)) = Some (Inr (full_from t (Suc i)))"
      using Suc.prems ff ic by (intro Suc.IH) simp_all
    ultimately show ?thesis using Some ff by simp
  qed
qed

lemma traverse_begin:
  assumes "table_ok P t" "tab_size t \<le> fuel"
  shows "\<exists>is. rbind (begin_iter P t) (\<lambda>it. Inr (traverse P t fuel it)) = Inr (Some (Inr is)) \<and> sorted is \<and> distinct is \<and>
    set is = {i. full t i} \<and> length is = tab_size t"
proof -
  have t: "shape t" "tab_size t = card {i. full t i}" using assms(1) by (auto simp: table_ok_def counts_ok_def)
  have set: "set (full_from t 0) = {i. full t i}" by (auto simp: full_def)
  have "length (full_from t 0) = card (set (full_from t 0))" by (rule distinct_card [symmetric]) simp
  then have len: "length (full_from t 0) = tab_size t" unfolding set t(2) .
  have "begin_iter P t = Inr (next_full t 0)" using skip_ok [OF t(1), of 0 P] by (simp add: begin_iter_def)
  then show ?thesis using traverse_ok [OF t(1), of 0 fuel P] len assms(2) set by (intro exI [of _ "full_from t 0"]) (simp add: sorted_wrt_filter)
qed

end
