(* ===== verification/FlatHashMap.thy ===== *)
theory FlatHashMap
  imports Iteration Board
begin

text \<open>
  \<^verbatim>\<open>flat_hash_map\<close> as the game uses it. The locale \<open>map_machine\<close> is the contract of a map whose operations
  run one after the other: every step does to the abstract map what the specification says and answers the
  same. The locale \<open>hash_map\<close> states the contract operation by operation; it gives the first one, and the
  hash table is an interpretation of it. The index of the board, \<^verbatim>\<open>m_entityAtPos\<close>, is then carried out on
  the hash table and shown to be the map the board's model keeps.
\<close>

section \<open>The specification\<close>

datatype ('k, 'v) map_op = Find 'k | Assign 'k 'v | Emplace 'k 'v | Subscript 'k | Erase 'k | Clear | Reserve nat

datatype 'v answer = Found "'v option" | Inserted bool | Value 'v | Erased nat | Done

fun spec_step :: "'v \<Rightarrow> ('k, 'v) map_op \<Rightarrow> ('k \<rightharpoonup> 'v) \<Rightarrow> 'v answer \<times> ('k \<rightharpoonup> 'v)" where
  "spec_step z (Find k) m = (Found (m k), m)"
| "spec_step z (Assign k v) m = (Inserted (m k = None), m(k \<mapsto> v))"
| "spec_step z (Emplace k v) m = (Inserted (m k = None), case m k of None \<Rightarrow> m(k \<mapsto> v) | Some _ \<Rightarrow> m)"
| "spec_step z (Subscript k) m = (case m k of None \<Rightarrow> (Value z, m(k \<mapsto> z)) | Some v \<Rightarrow> (Value v, m))"
| "spec_step z (Erase k) m = (Erased (if m k = None then 0 else 1), m(k := None))"
| "spec_step z Clear m = (Done, Map.empty)"
| "spec_step z (Reserve n) m = (Done, m)"

fun spec_run :: "'v \<Rightarrow> ('k, 'v) map_op list \<Rightarrow> ('k \<rightharpoonup> 'v) \<Rightarrow> 'v answer list \<times> ('k \<rightharpoonup> 'v)" where
  "spec_run z [] m = ([], m)"
| "spec_run z (op # ops) m =
     (let (a, m) = spec_step z op m; (as, m) = spec_run z ops m in (a # as, m))"

text \<open>A reservation is for a number of elements whose table can be addressed.\<close>

fun legal :: "('k, 'v) map_op \<Rightarrow> bool" where
  "legal (Reserve n) \<longleftrightarrow> GrowthToLowerboundCapacity n < 2 ^ 64"
| "legal _ \<longleftrightarrow> True"

fun run_steps :: "('o \<Rightarrow> 's \<Rightarrow> ('a \<times> 's) res) \<Rightarrow> 'o list \<Rightarrow> 's \<Rightarrow> ('a list \<times> 's) res" where
  "run_steps step [] s = Inr ([], s)"
| "run_steps step (op # ops) s =
     rbind (step op s) (\<lambda>(a, s). rbind (run_steps step ops s) (\<lambda>(as, s). Inr (a # as, s)))"

section \<open>The contracts\<close>

locale map_machine =
  fixes inv :: "'s \<Rightarrow> bool" and abs :: "'s \<Rightarrow> 'k \<rightharpoonup> 'v" and step :: "('k, 'v) map_op \<Rightarrow> 's \<Rightarrow> ('v answer \<times> 's) res"
    and z :: 'v
  assumes step_refines: "inv s \<Longrightarrow> legal op \<Longrightarrow> \<exists>a s'. step op s = Inr (a, s') \<and> inv s' \<and> spec_step z op (abs s) = (a, abs s')"
begin

lemma run_refines:
  "inv s \<Longrightarrow> \<forall>op\<in>set ops. legal op \<Longrightarrow>
     \<exists>as s'. run_steps step ops s = Inr (as, s') \<and> inv s' \<and> spec_run z ops (abs s) = (as, abs s')"
proof (induction ops arbitrary: s)
  case (Cons op ops)
  then obtain a s' where s': "step op s = Inr (a, s')" "inv s'" "spec_step z op (abs s) = (a, abs s')"
    using step_refines [of s op] by auto
  then obtain as s'' where "run_steps step ops s' = Inr (as, s'')" "inv s''" "spec_run z ops (abs s') = (as, abs s'')"
    using Cons by fastforce
  with s' show ?case by simp
qed simp

end

fun dispatch :: "('s \<Rightarrow> 'k \<Rightarrow> 'v option res) \<Rightarrow> ('s \<Rightarrow> 'k \<Rightarrow> 'v \<Rightarrow> (bool \<times> 's) res) \<Rightarrow> ('s \<Rightarrow> 'k \<Rightarrow> 'v \<Rightarrow> (bool \<times> 's) res) \<Rightarrow>
    ('s \<Rightarrow> 'k \<Rightarrow> ('v \<times> 's) res) \<Rightarrow> ('s \<Rightarrow> 'k \<Rightarrow> (nat \<times> 's) res) \<Rightarrow> ('s \<Rightarrow> 's res) \<Rightarrow> ('s \<Rightarrow> nat \<Rightarrow> 's res) \<Rightarrow>
    ('k, 'v) map_op \<Rightarrow> 's \<Rightarrow> ('v answer \<times> 's) res" where
  "dispatch look put add entry remove wipe grow (Find k) s = rbind (look s k) (\<lambda>r. Inr (Found r, s))"
| "dispatch look put add entry remove wipe grow (Assign k v) s = rbind (put s k v) (\<lambda>(b, s). Inr (Inserted b, s))"
| "dispatch look put add entry remove wipe grow (Emplace k v) s = rbind (add s k v) (\<lambda>(b, s). Inr (Inserted b, s))"
| "dispatch look put add entry remove wipe grow (Subscript k) s = rbind (entry s k) (\<lambda>(v, s). Inr (Value v, s))"
| "dispatch look put add entry remove wipe grow (Erase k) s = rbind (remove s k) (\<lambda>(n, s). Inr (Erased n, s))"
| "dispatch look put add entry remove wipe grow Clear s = rbind (wipe s) (\<lambda>s. Inr (Done, s))"
| "dispatch look put add entry remove wipe grow (Reserve n) s = rbind (grow s n) (\<lambda>s. Inr (Done, s))"

locale hash_map =
  fixes inv :: "'s \<Rightarrow> bool" and abs :: "'s \<Rightarrow> 'k \<rightharpoonup> 'v"
    and look :: "'s \<Rightarrow> 'k \<Rightarrow> 'v option res" and put :: "'s \<Rightarrow> 'k \<Rightarrow> 'v \<Rightarrow> (bool \<times> 's) res"
    and add :: "'s \<Rightarrow> 'k \<Rightarrow> 'v \<Rightarrow> (bool \<times> 's) res" and entry :: "'s \<Rightarrow> 'k \<Rightarrow> ('v \<times> 's) res"
    and remove :: "'s \<Rightarrow> 'k \<Rightarrow> (nat \<times> 's) res" and wipe :: "'s \<Rightarrow> 's res" and grow :: "'s \<Rightarrow> nat \<Rightarrow> 's res" and z :: 'v
  assumes look: "inv s \<Longrightarrow> look s k = Inr (abs s k)"
    and put: "inv s \<Longrightarrow> \<exists>s'. put s k v = Inr (abs s k = None, s') \<and> inv s' \<and> abs s' = (abs s)(k \<mapsto> v)"
    and add: "inv s \<Longrightarrow> \<exists>s'. add s k v = Inr (abs s k = None, s') \<and> inv s' \<and>
        abs s' = (case abs s k of None \<Rightarrow> (abs s)(k \<mapsto> v) | Some _ \<Rightarrow> abs s)"
    and entry: "inv s \<Longrightarrow> \<exists>s'. entry s k = Inr (case abs s k of None \<Rightarrow> z | Some v \<Rightarrow> v, s') \<and> inv s' \<and>
        abs s' = (case abs s k of None \<Rightarrow> (abs s)(k \<mapsto> z) | Some _ \<Rightarrow> abs s)"
    and remove: "inv s \<Longrightarrow> \<exists>s'. remove s k = Inr (if abs s k = None then 0 else 1, s') \<and> inv s' \<and> abs s' = (abs s)(k := None)"
    and wipe: "inv s \<Longrightarrow> \<exists>s'. wipe s = Inr s' \<and> inv s' \<and> abs s' = Map.empty"
    and grow: "inv s \<Longrightarrow> GrowthToLowerboundCapacity n < 2 ^ 64 \<Longrightarrow> \<exists>s'. grow s n = Inr s' \<and> inv s' \<and> abs s' = abs s"
begin

lemma dispatch_refines:
  assumes "inv s" "legal op"
  shows "\<exists>a s'. dispatch look put add entry remove wipe grow op s = Inr (a, s') \<and> inv s' \<and> spec_step z op (abs s) = (a, abs s')"
proof (cases op)
  case (Subscript k)
  then show ?thesis using entry [OF assms(1), of k] by (auto split: option.splits)
next
  case (Find k)
  then show ?thesis using look [OF assms(1), of k] assms(1) by simp
next
  case (Assign k v)
  then show ?thesis using put [OF assms(1), of k v] by auto
next
  case (Emplace k v)
  then show ?thesis using add [OF assms(1), of k v] by auto
next
  case (Erase k)
  then show ?thesis using remove [OF assms(1), of k] by auto
next
  case Clear
  then show ?thesis using wipe [OF assms(1)] by auto
next
  case (Reserve n)
  then show ?thesis using grow [OF assms(1), of n] assms(2) by auto
qed

end

sublocale hash_map \<subseteq> machine: map_machine inv abs "dispatch look put add entry remove wipe grow" z
  by unfold_locales (rule dispatch_refines)

section \<open>The hash table\<close>

text \<open>The operations without the iterators they return.\<close>

definition table_find :: "'k policy \<Rightarrow> ('k, 'v) table \<Rightarrow> 'k \<Rightarrow> 'v option res" where
  "table_find P t k =
     rbind (find_key P t k) (\<lambda>it.
     case it of None \<Rightarrow> Inr None | Some i \<Rightarrow> rbind (slot_at t i) (\<lambda>e. Inr (Some (snd e))))"

definition table_assign :: "'k policy \<Rightarrow> ('k, 'v) table \<Rightarrow> 'k \<Rightarrow> 'v \<Rightarrow> (bool \<times> ('k, 'v) table) res" where
  "table_assign P t k v = rbind (insert_or_assign P t k v) (\<lambda>(i, inserted, t). Inr (inserted, t))"

definition table_emplace :: "'k policy \<Rightarrow> ('k, 'v) table \<Rightarrow> 'k \<Rightarrow> 'v \<Rightarrow> (bool \<times> ('k, 'v) table) res" where
  "table_emplace P t k v = rbind (EmplaceDecomposable P t (k, v)) (\<lambda>(i, inserted, t). Inr (inserted, t))"

definition table_step :: "'k policy \<Rightarrow> 64 word \<Rightarrow> 'v \<Rightarrow> ('k, 'v) map_op \<Rightarrow> ('k, 'v) table \<Rightarrow> ('v answer \<times> ('k, 'v) table) res" where
  "table_step P addr z =
     dispatch (table_find P) (table_assign P) (table_emplace P) (subscript P z) (erase_key P) (clear P addr) (reserve P)"

lemma table_find_ok: "table_ok P t \<Longrightarrow> table_find P t k = Inr (table_map t k)"
  using find_ok [of P t k] slot_at_full [OF table_ok_shape, of P t] by (auto simp: table_find_def split: option.splits)

interpretation flat: hash_map "table_ok P" table_map "table_find P" "table_assign P" "table_emplace P" "subscript P z"
  "erase_key P" "clear P addr" "reserve P" z for P :: "'k policy" and z :: 'v and addr
proof
  fix s :: "('k, 'v) table" and k v n
  assume ok: "table_ok P s"
  show "table_find P s k = Inr (table_map s k)" by (rule table_find_ok [OF ok])
  show "\<exists>s'. table_assign P s k v = Inr (table_map s k = None, s') \<and> table_ok P s' \<and> table_map s' = (table_map s)(k \<mapsto> v)"
    using insert_or_assign_ok [OF ok, of k v] by (auto simp: table_assign_def)
  show "\<exists>s'. table_emplace P s k v = Inr (table_map s k = None, s') \<and> table_ok P s' \<and>
      table_map s' = (case table_map s k of None \<Rightarrow> (table_map s)(k \<mapsto> v) | Some _ \<Rightarrow> table_map s)"
    using emplace_ok [OF ok, of k v] by (auto simp: table_emplace_def)
  show "\<exists>s'. subscript P z s k = Inr (case table_map s k of None \<Rightarrow> z | Some v \<Rightarrow> v, s') \<and> table_ok P s' \<and>
      table_map s' = (case table_map s k of None \<Rightarrow> (table_map s)(k \<mapsto> z) | Some _ \<Rightarrow> table_map s)"
    by (rule subscript_ok [OF ok])
  show "\<exists>s'. erase_key P s k = Inr (if table_map s k = None then 0 else 1, s') \<and> table_ok P s' \<and> table_map s' = (table_map s)(k := None)"
    by (rule erase_key_ok [OF ok])
  show "\<exists>s'. clear P addr s = Inr s' \<and> table_ok P s' \<and> table_map s' = Map.empty" by (rule clear_ok [OF ok])
  show "\<exists>s'. reserve P s n = Inr s' \<and> table_ok P s' \<and> table_map s' = table_map s" if "GrowthToLowerboundCapacity n < 2 ^ 64"
    using reserve_ok [OF ok that] by blast
qed

section \<open>The index of the board\<close>

text \<open>
  \<^verbatim>\<open>HashMap<Point, OwnedEntity> m_entityAtPos\<close>: the statements of \<^verbatim>\<open>addEntity\<close>, \<^verbatim>\<open>moveEntity\<close>, \<^verbatim>\<open>removeEntity\<close>,
  \<^verbatim>\<open>getEntity\<close> and \<^verbatim>\<open>getStatus\<close> that use it, on the hash table. A moved-from pointer is null.
\<close>

type_synonym index = "(point, eid option) table"

definition index_contains :: "point policy \<Rightarrow> index \<Rightarrow> point \<Rightarrow> bool res" where
  "index_contains P t p = contains P t p"

definition index_get :: "point policy \<Rightarrow> index \<Rightarrow> point \<Rightarrow> eid option res" where
  "index_get P t p =
     rbind (find_key P t p) (\<lambda>it.
     case it of Some j \<Rightarrow> rbind (slot_at t j) (\<lambda>en. Inr (snd en)) | None \<Rightarrow> Inr None)"

definition index_add :: "point policy \<Rightarrow> index \<Rightarrow> point \<Rightarrow> eid \<Rightarrow> index res" where
  "index_add P t p i =
     rbind (try_emplace P t p None) (\<lambda>(j, inserted, t).
     rbind (slot_at t j) (\<lambda>entry.
     assert (snd entry = None) (set_slot t j (Some (fst entry, Some i)))))"

definition index_move :: "point policy \<Rightarrow> index \<Rightarrow> point \<Rightarrow> eid \<Rightarrow> point \<Rightarrow> index res" where
  "index_move P t from i to =
     rbind (find_key P t from) (\<lambda>it.
     case it of None \<Rightarrow> Inl AssertFailed
     | Some j \<Rightarrow>
         rbind (slot_at t j) (\<lambda>en.
         assert (snd en = Some i)
         (rbind (set_slot t j (Some (fst en, None))) (\<lambda>t.
          rbind (erase_at P t j) (\<lambda>t.
          rbind (try_emplace P t to None) (\<lambda>(j, inserted, t).
          rbind (slot_at t j) (\<lambda>target.
          assert (snd target = None) (set_slot t j (Some (fst target, snd en))))))))))"

definition index_remove :: "point policy \<Rightarrow> index \<Rightarrow> point \<Rightarrow> eid \<Rightarrow> index res" where
  "index_remove P t p i =
     rbind (find_key P t p) (\<lambda>it.
     case it of None \<Rightarrow> Inl AssertFailed
     | Some j \<Rightarrow> rbind (slot_at t j) (\<lambda>en. assert (snd en = Some i) (erase_at P t j)))"

text \<open>\<^verbatim>\<open>absl::Hash<Point>\<close>: the table of the board hashes a point by its coordinates.\<close>

definition point_policy :: "host \<Rightarrow> 64 word \<Rightarrow> (nat \<Rightarrow> 64 word) \<Rightarrow> point policy" where
  "point_policy h counter_at alloc_at =
     \<lparr>p_tc = toolchain h, p_ord = order h,
      p_hash = (\<lambda>p. case hash_value h (AbslHashValue h) p of Inr s \<Rightarrow> s | Inl _ \<Rightarrow> 0),
      p_counter_at = counter_at, p_alloc = alloc_at\<rparr>"

definition index_of :: "point policy \<Rightarrow> index \<Rightarrow> board \<Rightarrow> bool" where
  "index_of P t b \<longleftrightarrow> table_ok P t \<and> table_map t = m_entityAtPos b"

text \<open>\<open>operator[]\<close>, the assertion that the entry is null, and the assignment.\<close>

lemma index_add_ok:
  assumes ok: "table_ok P t" and free: "table_map t p = None \<or> table_map t p = Some None"
  shows "\<exists>t'. index_add P t p i = Inr t' \<and> table_ok P t' \<and> table_map t' = (table_map t)(p \<mapsto> Some i)"
proof -
  obtain j t1 where t1: "try_emplace P t p None = Inr (j, table_map t p = None, t1)" "table_ok P t1" "full t1 j"
    "table_map t1 = (case table_map t p of None \<Rightarrow> (table_map t)(p \<mapsto> None) | Some _ \<Rightarrow> table_map t)"
    "slot_array t1 ! j = Some (p, the (table_map t1 p))"
    using try_emplace_ok [OF ok, of p None] by blast
  have "table_map t1 = (table_map t)(p \<mapsto> None)" using t1(4) free by auto
  then have j: "slot_array t1 ! j = Some (p, None)" "(table_map t1)(p \<mapsto> Some i) = (table_map t)(p \<mapsto> Some i)" using t1(5) by auto
  then obtain t' where "set_slot t1 j (Some (p, Some i)) = Inr t'" "table_ok P t'" "table_map t' = (table_map t1)(p \<mapsto> Some i)"
    using assign_ok [OF t1(2,3) j(1), of "Some i"] by blast
  moreover have "slot_at t1 j = Inr (p, None)" using slot_at_full [OF table_ok_shape [OF t1(2)] t1(3) j(1)] .
  ultimately show ?thesis using t1(1) j(2) by (simp add: index_add_def assert_def)
qed

lemma index_add_taken:
  assumes ok: "table_ok P t" and taken: "table_map t p = Some (Some i')"
  shows "index_add P t p i = Inl AssertFailed"
proof -
  obtain j t1 where t1: "try_emplace P t p None = Inr (j, False, t1)" "table_ok P t1" "full t1 j" "slot_array t1 ! j = Some (p, Some i')"
    using try_emplace_ok [OF ok, of p None] taken by auto
  then have "slot_at t1 j = Inr (p, Some i')" using slot_at_full table_ok_shape by blast
  with t1(1) show ?thesis by (simp add: index_add_def assert_def)
qed

lemma addEntity_index:
  assumes "index_of P t b" "store b i = Some e"
  shows "case addEntity b i of Inl err \<Rightarrow> index_add P t (pos e) i = Inl err
    | Inr b' \<Rightarrow> \<exists>t'. index_add P t (pos e) i = Inr t' \<and> index_of P t' b'"
proof -
  have t: "table_ok P t" "table_map t = m_entityAtPos b" using assms(1) by (auto simp: index_of_def)
  show ?thesis
  proof (cases "\<exists>i'. m_entityAtPos b (pos e) = Some (Some i')")
    case True
    then show ?thesis using index_add_taken [OF t(1)] t(2) assms(2) by (auto simp: addEntity_def deref_def assert_def)
  next
    case False
    then have f: "m_entityAtPos b (pos e) = None \<or> m_entityAtPos b (pos e) = Some None"
      by (metis option.exhaust)
    then show ?thesis using index_add_ok [OF t(1), of "pos e" i] t(2) assms(2)
      by (auto simp: addEntity_def deref_def assert_def index_of_def)
  qed
qed

lemma index_find:
  assumes "table_ok P t"
  shows "table_map t p = None \<Longrightarrow> find_key P t p = Inr None"
    "table_map t p = Some v \<Longrightarrow> \<exists>j. find_key P t p = Inr (Some j) \<and> full t j \<and> slot_array t ! j = Some (p, v) \<and> slot_at t j = Inr (p, v)"
  using find_ok [OF assms, of p] slot_at_full [OF table_ok_shape [OF assms]] by (auto split: option.splits)

lemma index_move_split:
  assumes ok: "table_ok P t" and at: "table_map t from = Some (Some i)"
  shows "\<exists>t'. index_move P t from i to = index_add P t' to i \<and> table_ok P t' \<and> table_map t' = (table_map t)(from := None)"
proof -
  obtain j where j: "find_key P t from = Inr (Some j)" "full t j" "slot_array t ! j = Some (from, Some i)" "slot_at t j = Inr (from, Some i)"
    using index_find(2) [OF ok at] by blast
  obtain t1 where t1: "set_slot t j (Some (from, None)) = Inr t1" "table_ok P t1" "table_map t1 = (table_map t)(from \<mapsto> None)"
    "full t1 j" "slot_array t1 ! j = Some (from, None)" using assign_ok [OF ok j(2,3)] by blast
  obtain t2 where t2: "erase_at P t1 j = Inr t2" "table_ok P t2" "table_map t2 = (table_map t1)(key_at t1 j := None)"
    using erase_at_ok [OF t1(2,4)] by blast
  have "key_at t1 j = from" using t1(5) by (simp add: key_at_def)
  then have "table_map t2 = (table_map t)(from := None)" using t2(3) t1(3) by simp
  moreover have "index_move P t from i to = index_add P t2 to i"
    using j t1(1) t2(1) by (simp add: index_move_def index_add_def assert_def) (simp only: snd_conv)
  ultimately show ?thesis using t2(2) by blast
qed

lemma moveEntity_index:
  assumes "index_of P t b" "store b i = Some e"
  shows "case moveEntity b i to of Inl err \<Rightarrow> index_move P t (pos e) i to = Inl err
    | Inr b' \<Rightarrow> \<exists>t'. index_move P t (pos e) i to = Inr t' \<and> index_of P t' b'"
proof -
  have t: "table_ok P t" "table_map t = m_entityAtPos b" using assms(1) by (auto simp: index_of_def)
  have d: "m_entityAtPos (dirtyVision b' i None) = m_entityAtPos b'" for b' by simp
  consider "m_entityAtPos b (pos e) = Some (Some i)" | "m_entityAtPos b (pos e) = None"
    | it where "m_entityAtPos b (pos e) = Some it" "it \<noteq> Some i" by blast
  then show ?thesis
  proof cases
    case 1
    then obtain t' where t': "index_move P t (pos e) i to = index_add P t' to i" "table_ok P t'"
      "table_map t' = (m_entityAtPos b)(pos e := None)" using index_move_split [OF t(1), of "pos e" i to] t(2) by auto
    let ?rest = "(m_entityAtPos b)(pos e := None)"
    show ?thesis
    proof (cases "\<exists>i'. ?rest to = Some (Some i')")
      case True
      then show ?thesis using index_add_taken [OF t'(2)] t' 1 assms(2) by (auto simp: moveEntity_def deref_def assert_def Let_def)
    next
      case False
      then have f: "?rest to = None \<or> ?rest to = Some None" by (metis option.exhaust)
      then have "(case ?rest to of None \<Rightarrow> None | Some en \<Rightarrow> en) = None" by auto
      then have "\<exists>b'. moveEntity b i to = Inr b' \<and> m_entityAtPos b' = ?rest(to \<mapsto> Some i)"
        using 1 assms(2) by (simp add: moveEntity_def deref_def assert_def Let_def d)
      then show ?thesis using index_add_ok [OF t'(2), of to i] t' f by (auto simp: index_of_def)
    qed
  next
    case 2
    then show ?thesis using index_find(1) [OF t(1)] t(2) assms(2) by (simp add: moveEntity_def deref_def index_move_def)
  next
    case (3 it)
    then show ?thesis using index_find(2) [OF t(1), of "pos e" it] t(2) assms(2)
      by (auto simp: moveEntity_def deref_def index_move_def assert_def)
  qed
qed

lemma removeEntity_index:
  assumes "index_of P t b" "store b i = Some e"
  shows "case removeEntity b i of Inl err \<Rightarrow> index_remove P t (pos e) i = Inl err
    | Inr b' \<Rightarrow> \<exists>t'. index_remove P t (pos e) i = Inr t' \<and> index_of P t' b'"
proof -
  have t: "table_ok P t" "table_map t = m_entityAtPos b" using assms(1) by (auto simp: index_of_def)
  show ?thesis
  proof (cases "m_entityAtPos b (pos e)")
    case None
    then show ?thesis using index_find(1) [OF t(1)] t(2) assms(2) by (simp add: removeEntity_def deref_def index_remove_def)
  next
    case (Some it)
    then obtain j where j: "find_key P t (pos e) = Inr (Some j)" "full t j" "slot_array t ! j = Some (pos e, it)" "slot_at t j = Inr (pos e, it)"
      using index_find(2) [OF t(1), of "pos e" it] t(2) by auto
    have "key_at t j = pos e" using j(3) by (simp add: key_at_def)
    then show ?thesis using erase_at_ok [OF t(1) j(2)] j Some t(2) assms(2)
      by (auto simp: removeEntity_def deref_def index_remove_def assert_def index_of_def)
  qed
qed

lemma reads_index:
  assumes "index_of P t b"
  shows "index_get P t p = Inr (getEntity b p)" "index_contains P t p = Inr (m_entityAtPos b p \<noteq> None)"
proof -
  have t: "table_ok P t" "table_map t = m_entityAtPos b" using assms by (auto simp: index_of_def)
  show "index_get P t p = Inr (getEntity b p)" "index_contains P t p = Inr (m_entityAtPos b p \<noteq> None)"
    using index_find [OF t(1), of p] t(2)
    by (cases "m_entityAtPos b p"; auto simp: index_get_def index_contains_def contains_def getEntity_def)+
qed

text \<open>Every finite map has a table, so every board has an index.\<close>

lemma table_exists: "finite (dom m) \<Longrightarrow> \<exists>t. table_ok P t \<and> table_map t = (m :: 'k \<rightharpoonup> 'v)"
proof (induction "dom m" arbitrary: m rule: finite_induct)
  case empty
  then have "m = Map.empty" by auto
  then show ?case using CommonFields_ok [OF refl, of P] by blast
next
  case (insert k A)
  then have "A = dom (m(k := None))" by auto
  with insert.hyps(3) obtain t where t: "table_ok P t" "table_map t = m(k := None)" by blast
  obtain v where "m k = Some v" using insert.hyps(4) by blast
  then have "(m(k := None))(k \<mapsto> v) = m" by auto
  then show ?case using insert_or_assign_ok [OF t(1), of k v] t(2) by auto
qed

lemma index_exists:
  assumes "index_ok b"
  shows "\<exists>t. index_of P t b"
proof -
  have "dom (m_entityAtPos b) \<subseteq> (\<lambda>i. pos (the (store b i))) ` set (m_entities b)"
  proof
    fix p assume "p \<in> dom (m_entityAtPos b)"
    then obtain en where "m_entityAtPos b p = Some en" by blast
    then obtain i e where "i \<in> set (m_entities b)" "store b i = Some e" "pos e = p"
      using assms unfolding index_ok_def by blast
    then show "p \<in> (\<lambda>i. pos (the (store b i))) ` set (m_entities b)" by force
  qed
  then have "finite (dom (m_entityAtPos b))" by (rule finite_subset) simp
  from table_exists [OF this] show ?thesis by (simp add: index_of_def)
qed

section \<open>Probing, in the terms of the code\<close>

lemma seq_steps: "table_capacity cap \<Longrightarrow> (seq_next ^^ n) (seq_at cap h 0) = seq_at cap h n"
  by (induction n) (simp_all add: seq_next_at)

lemma probe_reaches:
  assumes v: "IsValidCapacity cap" and i: "i \<le> cap"
  shows "\<exists>seq n j. probe ctrl cap hash = Inr seq \<and> seq_index ((seq_next ^^ n) seq) \<le> cap \<and> j < kWidth \<and>
    offset_at ((seq_next ^^ n) seq) j = i"
proof -
  have tc: "table_capacity cap" using v by (simp add: table_capacity_def)
  let ?h = "unat (H1 hash ctrl)"
  have "\<exists>n. 8 * n \<le> cap \<and> in_group cap ?h n i"
  proof (cases "cap < 8")
    case True
    then show ?thesis using probe_covers_small [OF tc True i] by (intro exI [of _ 0]) simp
  next
    case False
    then show ?thesis using probe_covers [OF v _ i] by simp
  qed
  then obtain n j where n: "8 * n \<le> cap" "j < 8" "i = (probe_offset cap ?h n + j) mod (cap + 1)" by (auto simp: in_group_def)
  then have "seq_index ((seq_next ^^ n) (seq_at cap ?h 0)) \<le> cap" "offset_at ((seq_next ^^ n) (seq_at cap ?h 0)) j = i"
    by (simp_all add: seq_steps [OF tc] offset_at_at [OF tc])
  then show ?thesis using n(2) probe_seq_at [OF tc, of ctrl hash]
    by (intro exI [of _ "seq_at cap ?h 0"] exI [of _ n] exI [of _ j]) (simp add: kWidth_def)
qed

section \<open>A concrete instance\<close>

definition nat_policy :: "nat policy" where
  "nat_policy = \<lparr>p_tc = Gnu, p_ord = LittleEndian, p_hash = of_nat, p_counter_at = 64, p_alloc = (\<lambda>n. of_nat (4096 * n))\<rparr>"

definition host64 :: host where
  "host64 = \<lparr>intrinsic = True, toolchain = Gnu, order = LittleEndian, size8 = True, kSeed = 4096\<rparr>"

end
