(* ===== verification/TableValues.thy ===== *)
theory TableValues
  imports Iteration HashState
begin

text \<open>
  Tables as values (\<^verbatim>\<open>container/internal/raw_hash_set.h\<close>): construction, copies and moves, comparison and hashing,
  erasing many elements, merging and node handles. A range-based \<^verbatim>\<open>for\<close> runs from \<^verbatim>\<open>begin()\<close> by \<^verbatim>\<open>operator++\<close> to \<^verbatim>\<open>end()\<close>. The fields
  \<open>counter\<close> and \<open>allocs\<close> stand for surroundings all tables share: a constructor takes them from the table it
  reads, and \<open>merge\<close> hands them on to the table it took from. Allocators compare equal, as those of \<^verbatim>\<open>HashMap\<close> do;
  \<^verbatim>\<open>size_t\<close> has 64 bits.
\<close>

section \<open>Iterators\<close>

definition deref_iter :: "('k, 'v) table \<Rightarrow> nat \<Rightarrow> ('k \<times> 'v) res" where
  "deref_iter t i = rbind (ctrl_at t i) (\<lambda>c. assert (IsFull c) (slot_at t i))"

definition AssertIsValidForComparison :: "('k, 'v) table \<Rightarrow> nat option \<Rightarrow> unit res" where
  "AssertIsValidForComparison t it =
     (case it of None \<Rightarrow> Inr () | Some i \<Rightarrow> rbind (ctrl_at t i) (\<lambda>c. assert (IsFull c) (Inr ())))"

definition iter_eq :: "('k, 'v) table \<Rightarrow> nat option \<Rightarrow> nat option \<Rightarrow> bool res" where
  "iter_eq t a b =
     rbind (AssertIsValidForComparison t a) (\<lambda>_. rbind (AssertIsValidForComparison t b) (\<lambda>_. Inr (a = b)))"

text \<open>An iterator moves forward, inside the control bytes: the loops below end.\<close>

lemma skip_forward:
  "skip_empty_or_deleted P t pos = Inr (Some j) \<Longrightarrow> pos \<le> j \<and> j < length (control t)"
proof (induction P t pos rule: skip_empty_or_deleted.induct)
  case (1 P t pos)
  have p: "pos < length (control t)" using 1(2)
    by (subst (asm) skip_empty_or_deleted.simps) (auto simp: res_simps ctrl_at_def split: if_splits)
  show ?case
  proof (cases "IsEmptyOrDeleted (control t ! pos)")
    case True
    then obtain g where g: "load_group P t pos = Inr g" "0 < CountLeadingEmptyOrDeleted (p_tc P) g"
      "skip_empty_or_deleted P t (pos + CountLeadingEmptyOrDeleted (p_tc P) g) = Inr (Some j)"
      using 1(2) p by (subst (asm) skip_empty_or_deleted.simps) (auto simp: res_simps ctrl_at_def Let_def split: if_splits)
    then show ?thesis using 1(1) [OF True refl _ g(3)] p by simp
  next
    case False
    then show ?thesis using 1(2) p
      by (subst (asm) skip_empty_or_deleted.simps) (auto simp: res_simps ctrl_at_def split: if_splits)
  qed
qed

lemma next_iter_forward: "next_iter P t i = Inr (Some j) \<Longrightarrow> i < j \<and> j < length (control t)"
  using skip_forward [of P t "i + 1" j] by (auto simp: next_iter_def res_simps)

definition ahead_of :: "('k, 'v) table \<Rightarrow> nat option \<Rightarrow> nat" where
  "ahead_of t it = (case it of None \<Rightarrow> 0 | Some i \<Rightarrow> Suc (length (control t) - i))"

lemma next_iter_ahead:
  assumes "next_iter P t i = Inr it" "length (control t') = length (control t)"
  shows "ahead_of t' it < ahead_of t (Some i)"
  using next_iter_forward [of P t i] assms by (cases it) (auto simp: ahead_of_def)

function for_each :: "'k policy \<Rightarrow> ('k, 'v) table \<Rightarrow> ('k \<times> 'v \<Rightarrow> 's \<Rightarrow> 's res) \<Rightarrow> nat option \<Rightarrow> 's \<Rightarrow> 's res" where
  "for_each P t body None s = Inr s"
| "for_each P t body (Some i) s =
     rbind (deref_iter t i) (\<lambda>e.
     rbind (body e s) (\<lambda>s.
     case next_iter P t i of Inl err \<Rightarrow> Inl err | Inr it \<Rightarrow> for_each P t body it s))"
  by pat_completeness auto

termination
  by (relation "measure (\<lambda>(P, t, body, it, s). ahead_of t it)") (auto intro: next_iter_ahead)

section \<open>Construction, copies and moves\<close>

definition raw_hash_set :: "'k policy \<Rightarrow> 64 word \<Rightarrow> 64 word \<Rightarrow> nat \<Rightarrow> nat \<Rightarrow> ('k, 'v) table res" where
  "raw_hash_set P addr cnt n bucket_count =
     (let t = CommonFields addr cnt n in
      if bucket_count \<noteq> 0 then
        rbind (set_capacity t (NormalizeCapacity (p_tc P) bucket_count)) (\<lambda>t. InitializeSlots P t)
      else Inr t)"

definition SelectBucketCountForIterRange :: "bool \<Rightarrow> nat \<Rightarrow> nat \<Rightarrow> nat" where
  "SelectBucketCountForIterRange random_access distance bucket_count =
     (if bucket_count \<noteq> 0 then bucket_count
      else if random_access then GrowthToLowerboundCapacity distance
      else 0)"

definition insert_range :: "'k policy \<Rightarrow> ('k, 'v) table \<Rightarrow> ('k \<times> 'v) list \<Rightarrow> ('k, 'v) table res" where
  "insert_range P t es = rfold (\<lambda>e t. rbind (EmplaceDecomposable P t e) (\<lambda>(i, inserted, t). Inr t)) es t"

definition raw_hash_set_range ::
    "'k policy \<Rightarrow> 64 word \<Rightarrow> 64 word \<Rightarrow> nat \<Rightarrow> bool \<Rightarrow> ('k \<times> 'v) list \<Rightarrow> nat \<Rightarrow> ('k, 'v) table res" where
  "raw_hash_set_range P addr cnt n random_access es bucket_count =
     rbind (raw_hash_set P addr cnt n (SelectBucketCountForIterRange random_access (length es) bucket_count)) (\<lambda>t.
     insert_range P t es)"

text \<open>The body of the copy constructor's loop; the counters are set once, after the loop.\<close>

definition copy_slot :: "'k policy \<Rightarrow> 'k \<times> 'v \<Rightarrow> ('k, 'v) table \<Rightarrow> ('k, 'v) table res" where
  "copy_slot P v t =
     (let hash = p_hash P (fst v) in
      rbind (find_first_non_full P t hash) (\<lambda>((offset, probe_length), t).
      rbind (SetCtrl t offset (H2 hash)) (\<lambda>t.
      emplace_at P t offset v)))"

definition copy_construct :: "'k policy \<Rightarrow> 64 word \<Rightarrow> ('k, 'v) table \<Rightarrow> ('k, 'v) table res" where
  "copy_construct P addr that =
     rbind (raw_hash_set P addr (counter that) (allocs that) 0) (\<lambda>t.
     let size = tab_size that in
     if size = 0 then Inr t
     else
       rbind (reserve P t size) (\<lambda>t.
       rbind (begin_iter P that) (\<lambda>it.
       rbind (for_each P that (copy_slot P) it t) (\<lambda>t.
       rbind (size_minus (growth_left t) size) (\<lambda>left.
       Inr (t\<lparr>tab_size := size, growth_left := left\<rparr>))))))"

definition move_construct :: "64 word \<Rightarrow> ('k, 'v) table \<Rightarrow> ('k, 'v) table \<times> ('k, 'v) table" where
  "move_construct addr that = (that, CommonFields addr (counter that) (allocs that))"

definition table_swap :: "('k, 'v) table \<Rightarrow> ('k, 'v) table \<Rightarrow> ('k, 'v) table \<times> ('k, 'v) table" where
  "table_swap this that = (that, this)"

definition destruct :: "('k, 'v) table \<Rightarrow> unit res" where
  "destruct t = (let cap = capacity t in if cap = 0 then Inr () else rbind (destroy_slots t) (\<lambda>t. Inr ()))"

definition copy_assign :: "'k policy \<Rightarrow> 64 word \<Rightarrow> ('k, 'v) table \<Rightarrow> ('k, 'v) table \<Rightarrow> ('k, 'v) table res" where
  "copy_assign P addr this that =
     rbind (copy_construct P addr that) (\<lambda>tmp.
     let (this, tmp) = table_swap this tmp in
     rbind (destruct tmp) (\<lambda>_. Inr this))"

definition move_assign :: "64 word \<Rightarrow> ('k, 'v) table \<Rightarrow> ('k, 'v) table \<Rightarrow> (('k, 'v) table \<times> ('k, 'v) table) res" where
  "move_assign addr this that =
     (let (tmp, that) = move_construct addr that; (this, tmp) = table_swap this tmp in
      rbind (destruct tmp) (\<lambda>_. Inr (this, that)))"

section \<open>Comparison and hashing\<close>

function eq_loop :: "'k policy \<Rightarrow> ('k, 'v) table \<Rightarrow> ('k, 'v) table \<Rightarrow> nat option \<Rightarrow> bool res" where
  "eq_loop P outer inner None = Inr True"
| "eq_loop P outer inner (Some i) =
     rbind (deref_iter outer i) (\<lambda>elem.
     rbind (find_key P inner (fst elem)) (\<lambda>it.
     case it of None \<Rightarrow> Inr False
     | Some j \<Rightarrow>
         rbind (deref_iter inner j) (\<lambda>e.
         if e \<noteq> elem then Inr False
         else case next_iter P outer i of Inl err \<Rightarrow> Inl err | Inr it \<Rightarrow> eq_loop P outer inner it)))"
  by pat_completeness auto

termination
  by (relation "measure (\<lambda>(P, outer, inner, it). ahead_of outer it)") (auto intro: next_iter_ahead)

definition table_eq :: "'k policy \<Rightarrow> ('k, 'v) table \<Rightarrow> ('k, 'v) table \<Rightarrow> bool res" where
  "table_eq P a b =
     (if tab_size a \<noteq> tab_size b then Inr False
      else
        let (outer, inner) = (if capacity a > capacity b then (b, a) else (a, b)) in
        rbind (begin_iter P outer) (eq_loop P outer inner))"

definition hash_table :: "host \<Rightarrow> (64 word \<Rightarrow> 'k \<times> 'v \<Rightarrow> 64 word res) \<Rightarrow> 'k policy \<Rightarrow> 64 word \<Rightarrow> ('k, 'v) table \<Rightarrow> 64 word res" where
  "hash_table h combine P state t =
     rbind (begin_iter P t) (\<lambda>it.
     rbind (for_each P t (\<lambda>e es. Inr (es @ [e])) it []) (\<lambda>es.
     rbind (combine_unordered h combine state es) (\<lambda>state.
     hash_bytes h state (of_nat (tab_size t) :: 64 word))))"

definition equal_range :: "'k policy \<Rightarrow> ('k, 'v) table \<Rightarrow> 'k \<Rightarrow> (nat option \<times> nat option) res" where
  "equal_range P t key =
     rbind (find_key P t key) (\<lambda>it.
     case it of None \<Rightarrow> Inr (it, it) | Some i \<Rightarrow> rbind (next_iter P t i) (\<lambda>nxt. Inr (it, nxt)))"

section \<open>Erasing many elements\<close>

lemma EraseMetaOnly_length: "EraseMetaOnly P t i = Inr t' \<Longrightarrow> length (control t') = length (control t)"
  by (auto simp: EraseMetaOnly_def SetCtrl_def decrement_size_def Let_def res_simps assert_def split: if_splits)

lemma set_slot_control: "set_slot t i e = Inr t' \<Longrightarrow> control t' = control t"
  by (auto simp: set_slot_def split: if_splits)

lemma erase_at_length: "erase_at P t i = Inr t' \<Longrightarrow> length (control t') = length (control t)"
  by (auto simp: erase_at_def res_simps dest!: EraseMetaOnly_length set_slot_control)

text \<open>\<^verbatim>\<open>it++\<close> advances before the element is erased.\<close>

function erase_if_loop :: "'k policy \<Rightarrow> ('k \<times> 'v \<Rightarrow> bool) \<Rightarrow> ('k, 'v) table \<Rightarrow> nat option \<Rightarrow> ('k, 'v) table res" where
  "erase_if_loop P pred t None = Inr t"
| "erase_if_loop P pred t (Some i) =
     rbind (deref_iter t i) (\<lambda>e.
     case next_iter P t i of Inl err \<Rightarrow> Inl err
     | Inr nxt \<Rightarrow>
         if pred e then (case erase_at P t i of Inl err \<Rightarrow> Inl err | Inr t' \<Rightarrow> erase_if_loop P pred t' nxt)
         else erase_if_loop P pred t nxt)"
  by pat_completeness auto

termination
  by (relation "measure (\<lambda>(P, pred, t, it). ahead_of t it)") (auto intro: next_iter_ahead dest: erase_at_length)

definition EraseIf :: "'k policy \<Rightarrow> ('k \<times> 'v \<Rightarrow> bool) \<Rightarrow> ('k, 'v) table \<Rightarrow> (nat \<times> ('k, 'v) table) res" where
  "EraseIf P pred t =
     (let initial_size = tab_size t in
      rbind (begin_iter P t) (\<lambda>it.
      rbind (erase_if_loop P pred t it) (\<lambda>t.
      rbind (size_minus initial_size (tab_size t)) (\<lambda>erased.
      Inr (erased, t)))))"

function erase_range_loop :: "'k policy \<Rightarrow> ('k, 'v) table \<Rightarrow> nat option \<Rightarrow> nat option \<Rightarrow> ('k, 'v) table res" where
  "erase_range_loop P t first stop =
     rbind (iter_eq t first stop) (\<lambda>at_end.
     if at_end then Inr t
     else
       case first of None \<Rightarrow> Inl AssertFailed
       | Some i \<Rightarrow>
           (case next_iter P t i of Inl err \<Rightarrow> Inl err
            | Inr nxt \<Rightarrow> (case erase_at P t i of Inl err \<Rightarrow> Inl err | Inr t' \<Rightarrow> erase_range_loop P t' nxt stop)))"
  by pat_completeness auto

termination
  by (relation "measure (\<lambda>(P, t, first, stop). ahead_of t first)") (auto intro: next_iter_ahead dest: erase_at_length)

declare erase_range_loop.simps [simp del]

definition erase_range ::
    "'k policy \<Rightarrow> 64 word \<Rightarrow> ('k, 'v) table \<Rightarrow> nat option \<Rightarrow> nat option \<Rightarrow> (nat option \<times> ('k, 'v) table) res" where
  "erase_range P addr t first stop =
     (if tab_size t = 0 then Inr (None, t)
      else
        rbind (begin_iter P t) (\<lambda>b.
        rbind (iter_eq t first b) (\<lambda>from_begin.
        rbind (if from_begin then iter_eq t stop None else Inr False) (\<lambda>all.
        if all then
          rbind (destroy_slots t) (\<lambda>t.
          rbind (ClearBackingArray P addr t True) (\<lambda>t. Inr (None, t)))
        else rbind (erase_range_loop P t first stop) (\<lambda>t. Inr (stop, t))))))"

section \<open>Merging and node handles\<close>

text \<open>\<open>InsertSlot\<close>: the element moves into the table if its key is new; the flag says whether it did.\<close>

definition InsertSlot :: "'k policy \<Rightarrow> ('k, 'v) table \<Rightarrow> 'k \<times> 'v \<Rightarrow> (nat \<times> bool \<times> ('k, 'v) table) res" where
  "InsertSlot P t e =
     rbind (find_or_prepare_insert P t (fst e)) (\<lambda>(i, inserted, t).
     if inserted then rbind (set_slot t i (Some e)) (\<lambda>t. Inr (i, inserted, t)) else Inr (i, inserted, t))"

text \<open>A slot whose element was moved out is raw memory; its control byte is erased.\<close>

definition erase_moved :: "'k policy \<Rightarrow> ('k, 'v) table \<Rightarrow> nat \<Rightarrow> ('k, 'v) table res" where
  "erase_moved P t i = rbind (set_slot t i None) (\<lambda>t. EraseMetaOnly P t i)"

lemma erase_moved_length: "erase_moved P t i = Inr t' \<Longrightarrow> length (control t') = length (control t)"
  by (auto simp: erase_moved_def res_simps dest!: EraseMetaOnly_length set_slot_control)

function merge_loop ::
    "'k policy \<Rightarrow> 'k policy \<Rightarrow> ('k, 'v) table \<Rightarrow> ('k, 'v) table \<Rightarrow> nat option \<Rightarrow> (('k, 'v) table \<times> ('k, 'v) table) res" where
  "merge_loop P Q this src None = Inr (this, src)"
| "merge_loop P Q this src (Some i) =
     (case next_iter Q src i of Inl err \<Rightarrow> Inl err
      | Inr nxt \<Rightarrow>
          rbind (slot_at src i) (\<lambda>e.
          rbind (InsertSlot P this e) (\<lambda>(j, inserted, this).
          if inserted then (case erase_moved Q src i of Inl err \<Rightarrow> Inl err | Inr src' \<Rightarrow> merge_loop P Q this src' nxt)
          else merge_loop P Q this src nxt)))"
  by pat_completeness auto

termination
  by (relation "measure (\<lambda>(P, Q, this, src, it). ahead_of src it)") (auto intro: next_iter_ahead dest: erase_moved_length)

definition merge :: "'k policy \<Rightarrow> 'k policy \<Rightarrow> ('k, 'v) table \<Rightarrow> ('k, 'v) table \<Rightarrow> (('k, 'v) table \<times> ('k, 'v) table) res" where
  "merge P Q this src =
     rbind (begin_iter Q src) (\<lambda>it.
     rbind (merge_loop P Q this src it) (\<lambda>(this, src).
     Inr (this, src\<lparr>counter := counter this, allocs := allocs this\<rparr>)))"

text \<open>A node handle is an element outside of any table, or nothing.\<close>

definition extract_at :: "'k policy \<Rightarrow> ('k, 'v) table \<Rightarrow> nat \<Rightarrow> (('k \<times> 'v) option \<times> ('k, 'v) table) res" where
  "extract_at P t i =
     rbind (deref_iter t i) (\<lambda>e. rbind (erase_moved P t i) (\<lambda>t. Inr (Some e, t)))"

definition extract_key :: "'k policy \<Rightarrow> ('k, 'v) table \<Rightarrow> 'k \<Rightarrow> (('k \<times> 'v) option \<times> ('k, 'v) table) res" where
  "extract_key P t key =
     rbind (find_key P t key) (\<lambda>it. case it of None \<Rightarrow> Inr (None, t) | Some i \<Rightarrow> extract_at P t i)"

definition insert_node ::
    "'k policy \<Rightarrow> ('k, 'v) table \<Rightarrow> ('k \<times> 'v) option \<Rightarrow> (nat option \<times> bool \<times> ('k \<times> 'v) option \<times> ('k, 'v) table) res" where
  "insert_node P t node =
     (case node of None \<Rightarrow> Inr (None, False, None, t)
      | Some elem \<Rightarrow>
          rbind (InsertSlot P t elem) (\<lambda>(i, inserted, t).
          if inserted then Inr (Some i, True, None, t) else Inr (Some i, False, node, t)))"

section \<open>Loops over a table\<close>

lemma full_slot:
  assumes "shape t" "elements_ok P t" "full t i"
  obtains k v where "slot_array t ! i = Some (k, v)" "slot_at t i = Inr (k, v)" "deref_iter t i = Inr (k, v)" "key_at t i = k"
    "table_map t k = Some v"
proof -
  obtain e where e: "slot_array t ! i = Some e" using assms(2,3) by (auto simp: elements_ok_def placed_def)
  moreover have "slot_at t i = Inr e" by (rule slot_at_full [OF assms(1,3) e])
  moreover have "deref_iter t i = Inr e" using \<open>slot_at t i = Inr e\<close> assms(1,3)
    by (auto simp: deref_iter_def ctrl_at_def full_def shape_def)
  moreover have "table_map t (fst e) = Some (snd e)" using table_map_Some [OF assms(2), of "fst e" "snd e"] assms(3) e by auto
  ultimately show thesis using that [of "fst e" "snd e"] by (simp add: key_at_def)
qed

lemma begin_ok: "shape t \<Longrightarrow> begin_iter P t = Inr (next_full t 0)"
  by (simp add: begin_iter_def skip_ok)

lemma next_ok: "shape t \<Longrightarrow> full t i \<Longrightarrow> next_iter P t i = Inr (next_full t (Suc i))"
  using skip_ok [of t "Suc i" P] by (auto simp: next_iter_def ctrl_at_def full_def shape_def)

lemma next_full_None: "next_full t pos = None \<Longrightarrow> pos \<le> i \<Longrightarrow> \<not> full t i"
  by (auto simp: next_full_def find_None_iff full_def)

lemma next_full_least:
  assumes "next_full t pos = Some i"
  shows "pos \<le> i" "full t i" "\<And>x. pos \<le> x \<Longrightarrow> x < i \<Longrightarrow> \<not> full t x"
proof -
  show "pos \<le> i" "full t i" using next_full_Some [OF assms] by auto
  obtain m where m: "m < length [pos..<capacity t]" "full t ([pos..<capacity t] ! m)" "i = [pos..<capacity t] ! m"
    "\<forall>j<m. \<not> full t ([pos..<capacity t] ! j)"
    using assms by (auto simp: next_full_def find_Some_iff)
  fix x assume x: "pos \<le> x" "x < i"
  then show "\<not> full t x" using m(1,3) m(4) [rule_format, of "x - pos"] by simp
qed

lemma next_full_split: "next_full t pos = Some i \<Longrightarrow> full t x \<Longrightarrow> pos \<le> x \<longleftrightarrow> x = i \<or> Suc i \<le> x"
  using next_full_least [of t pos i] by (meson Suc_leI le_trans lessI less_imp_le linorder_cases order_refl)

lemma next_full_cong:
  assumes "capacity t' = capacity t" "\<And>x. pos \<le> x \<Longrightarrow> full t' x \<longleftrightarrow> full t x"
  shows "next_full t' pos = next_full t pos"
  unfolding next_full_def assms(1) using assms(2) by (intro find_cong) auto

text \<open>Induction along the full slots, for a table that may change behind the iterator.\<close>

lemma next_full_induct [case_names stop step]:
  assumes "\<And>t pos. next_full t pos = None \<Longrightarrow> Q t pos"
    and "\<And>t pos i. next_full t pos = Some i \<Longrightarrow> full t i \<Longrightarrow> (\<And>t'. capacity t' = capacity t \<Longrightarrow> Q t' (Suc i)) \<Longrightarrow> Q t pos"
  shows "Q t pos"
proof (induction "capacity t - pos" arbitrary: t pos rule: less_induct)
  case less
  show ?case
  proof (cases "next_full t pos")
    case (Some i)
    have "pos \<le> i" "full t i" using next_full_Some [OF Some] by auto
    then have "capacity t - Suc i < capacity t - pos" by (auto simp: full_def)
    then show ?thesis using less assms(2) [OF Some \<open>full t i\<close>] by metis
  qed (rule assms(1))
qed

definition elements_from :: "('k, 'v) table \<Rightarrow> nat \<Rightarrow> ('k \<times> 'v) list" where
  "elements_from t pos = map (\<lambda>i. the (slot_array t ! i)) (full_from t pos)"

lemma elements_from_0: "elements_from t 0 = elements t"
  unfolding elements_from_def elements_def by (rule arg_cong [where f = "map _"], rule filter_cong) (auto simp: full_def)

lemma elements_from_next:
  "elements_from t pos = (case next_full t pos of None \<Rightarrow> [] | Some i \<Rightarrow> the (slot_array t ! i) # elements_from t (Suc i))"
  unfolding elements_from_def by (subst full_from_next) (simp split: option.splits)

lemma for_each_ok:
  assumes "shape t" "elements_ok P t"
  shows "for_each P t body (next_full t pos) s = rfold body (elements_from t pos) s"
  using assms
proof (induction t pos arbitrary: s rule: next_full_induct)
  case (stop t pos)
  then show ?case by (subst elements_from_next) simp
next
  case (step t pos i)
  then obtain k v where e: "slot_array t ! i = Some (k, v)" "deref_iter t i = Inr (k, v)" using full_slot by metis
  then show ?case using step(1,2) next_ok [OF step(4,2)] step(3) [OF refl step(4,5)]
    by (subst elements_from_next) (simp cong: rbind_cong)
qed

lemma for_each_elements:
  assumes "table_ok P t"
  shows "rbind (begin_iter P t) (\<lambda>it. for_each P t body it s) = rfold body (elements t) s"
  using for_each_ok [of t P body 0 s] assms by (simp add: table_ok_def begin_ok elements_from_0)

section \<open>Comparison and hashing are those of the map\<close>

lemma elements_map:
  assumes "elements_ok P t"
  shows "(k, v) \<in> set (elements t) \<longleftrightarrow> table_map t k = Some v"
  using elements_distinct [of t] assms by (simp add: table_map_def elements_ok_def)

lemma length_elements: "length (elements t) = card {i. full t i}"
proof -
  have "{i. full t i} = set (full_from t 0)" by (auto simp: full_def)
  moreover have "distinct (full_from t 0)" by simp
  ultimately have "card {i. full t i} = length (full_from t 0)" by (metis distinct_card)
  then show ?thesis by (simp add: elements_from_0 [symmetric] elements_from_def)
qed

lemma card_dom:
  assumes "table_ok P t"
  shows "card (dom (table_map t)) = tab_size t" "finite (dom (table_map t))"
proof -
  have d: "distinct (map fst (elements t))" using elements_distinct assms by (auto simp: table_ok_def elements_ok_def)
  have "dom (table_map t) = set (map fst (elements t))" by (simp add: table_map_def dom_map_of_conv_image_fst)
  then show "card (dom (table_map t)) = tab_size t" "finite (dom (table_map t))"
    using distinct_card [OF d] assms length_elements [of t] by (simp_all add: table_ok_def counts_ok_def)
qed

lemma eq_loop_ok:
  assumes "table_ok P inner" "shape t" "elements_ok P t"
  shows "eq_loop P t inner (next_full t pos) = Inr (\<forall>(k, v)\<in>set (elements_from t pos). table_map inner k = Some v)"
  using assms(2,3)
proof (induction t pos rule: next_full_induct)
  case (stop t pos)
  then show ?case by (subst elements_from_next) simp
next
  case (step t pos i)
  obtain k v where e: "slot_array t ! i = Some (k, v)" "deref_iter t i = Inr (k, v)"
    using full_slot [OF step(4,5,2)] by metis
  obtain r where r: "find_key P inner k = Inr r" "case r of None \<Rightarrow> table_map inner k = None
      | Some j \<Rightarrow> full inner j \<and> (\<exists>v. slot_array inner ! j = Some (k, v) \<and> table_map inner k = Some v)"
    using find_ok [OF assms(1)] by blast
  have i: "shape inner" "elements_ok P inner" using assms(1) by (auto simp: table_ok_def)
  have "eq_loop P t inner (Some i) =
      Inr (table_map inner k = Some v \<and> (\<forall>(k, v)\<in>set (elements_from t (Suc i)). table_map inner k = Some v))"
  proof (cases r)
    case None
    then show ?thesis using e r by simp
  next
    case (Some j)
    then have j: "full inner j" using r(2) by auto
    obtain k' w where w: "slot_array inner ! j = Some (k', w)" "deref_iter inner j = Inr (k', w)" "table_map inner k' = Some w"
      using full_slot [OF i j] by metis
    then show ?thesis using e r Some next_ok [OF step(4,2)] step(3) [OF refl step(4,5)] by auto
  qed
  then show ?case using step(1) e elements_from_next [of t pos] by simp
qed

lemma table_eq_ok:
  assumes "table_ok P a" "table_ok P b"
  shows "table_eq P a b = Inr (table_map a = table_map b)"
proof -
  have sub: "rbind (begin_iter P t) (eq_loop P t u) = Inr (table_map t \<subseteq>\<^sub>m table_map u)" if "table_ok P t" "table_ok P u" for t u :: "('a, 'b) table"
  proof -
    have t: "shape t" "elements_ok P t" using that by (auto simp: table_ok_def)
    have "(\<forall>(k, v)\<in>set (elements t). table_map u k = Some v) \<longleftrightarrow> (\<forall>k v. table_map t k = Some v \<longrightarrow> table_map u k = Some v)"
      using elements_map [OF t(2)] by (metis (mono_tags, lifting) case_prodI2 case_prodD)
    then have "(\<forall>(k, v)\<in>set (elements t). table_map u k = Some v) \<longleftrightarrow> table_map t \<subseteq>\<^sub>m table_map u"
      by (auto simp: map_le_def dom_def)
    then show ?thesis using eq_loop_ok [OF that(2) t, of 0] begin_ok [OF t(1), of P] by (simp add: elements_from_0)
  qed
  have eq: "table_map t = table_map u" if "table_map t \<subseteq>\<^sub>m table_map u" "tab_size t = tab_size u" "table_ok P t" "table_ok P u" for t u :: "('a, 'b) table"
  proof -
    have "dom (table_map t) = dom (table_map u)"
      using card_subset_eq [OF card_dom(2) [OF that(4)] map_le_implies_dom_le [OF that(1)]] card_dom(1) that by metis
    with that(1) show ?thesis using map_le_antisym [of "table_map t" "table_map u"] by (auto simp: map_le_def)
  qed
  have "tab_size a = tab_size b" if "table_map a = table_map b" using card_dom(1) assms that by metis
  then show ?thesis using sub [OF assms] sub [OF assms(2,1)] eq [OF _ _ assms] eq [OF _ _ assms(2,1)]
    by (auto simp: table_eq_def map_le_refl)
qed

lemma elements_perm:
  assumes "table_ok P a" "table_ok P b" "table_map a = table_map b"
  shows "mset (elements a) = mset (elements b)"
proof -
  have "set (elements a) = set (elements b)"
    using elements_map [of P a] elements_map [of P b] assms by (auto simp: table_ok_def)
  moreover have "distinct (elements a)" "distinct (elements b)"
    using elements_distinct [of a] elements_distinct [of b] assms by (auto simp: table_ok_def elements_ok_def distinct_map)
  ultimately show ?thesis using set_eq_iff_mset_eq_distinct by blast
qed

lemma hash_table_elements:
  assumes "table_ok P t"
  shows "hash_table h combine P state t =
    rbind (combine_unordered h combine state (elements t)) (\<lambda>state. hash_bytes h state (of_nat (tab_size t) :: 64 word))"
proof -
  have collect: "rfold (\<lambda>e es. Inr (es @ [e])) xs ys = Inr (ys @ xs)" for xs ys :: "('a \<times> 'b) list"
    by (induction xs arbitrary: ys) auto
  have "hash_table h combine P state t = rbind (rbind (begin_iter P t) (\<lambda>it. for_each P t (\<lambda>e es. Inr (es @ [e])) it []))
      (\<lambda>es. rbind (combine_unordered h combine state es) (\<lambda>state. hash_bytes h state (of_nat (tab_size t) :: 64 word)))"
    by (simp add: hash_table_def rbind_assoc)
  then show ?thesis unfolding for_each_elements [OF assms] collect by simp
qed

lemma hash_table_eq:
  assumes "table_ok P a" "table_ok P b" "table_map a = table_map b" "\<And>e. returns (combine (Seed h) e)"
  shows "hash_table h combine P state a = hash_table h combine P state b"
proof -
  have "combine_unordered h combine state (elements a) = combine_unordered h combine state (elements b)"
    using unordered_perm [OF _ elements_perm [OF assms(1-3)]] assms(4) by blast
  moreover have "tab_size a = tab_size b" using card_dom(1) assms(1-3) by metis
  ultimately show ?thesis by (simp add: hash_table_elements [OF assms(1)] hash_table_elements [OF assms(2)])
qed

section \<open>Construction and copies\<close>

lemma raw_hash_set_ok:
  assumes "bucket_count < 2 ^ 64"
  shows "\<exists>t :: ('k, 'v) table. raw_hash_set P addr cnt n bucket_count = Inr t \<and> table_ok P t \<and> table_map t = Map.empty"
proof (cases "bucket_count = 0")
  case True
  then show ?thesis using CommonFields_ok [OF refl, of P addr cnt n] by (simp add: raw_hash_set_def)
next
  case False
  let ?c = "NormalizeCapacity (p_tc P) bucket_count"
  let ?t = "CommonFields addr cnt n\<lparr>capacity := ?c, control_at := p_alloc P n, allocs := n + 1, slot_array := replicate ?c None,
      control := fresh_control ?c, growth_left := growth ?c\<rparr> :: ('k, 'v) table"
  have c: "IsValidCapacity ?c" using NormalizeCapacity_least(1) [OF assms] .
  then have tc: "table_capacity ?c" "?c \<noteq> 0" by (auto simp: table_capacity_def IsValidCapacity_def)
  have "raw_hash_set P addr cnt n bucket_count = Inr ?t"
    using c False tc(2) ResetCtrl_ok [of "CommonFields addr cnt n\<lparr>capacity := ?c, control_at := p_alloc P n, allocs := n + 1,
        slot_array := replicate ?c None\<rparr>"]
    by (simp add: raw_hash_set_def set_capacity_def InitializeSlots_def assert_def CommonFields_def)
  moreover have "table_ok P ?t \<and> table_map ?t = Map.empty"
    by (rule empty_table_ok) (use tc(1) fresh_shape [of ?t] in \<open>simp_all add: CommonFields_def\<close>)
  ultimately show ?thesis by blast
qed

lemma insert_range_ok:
  assumes "table_ok P t"
  shows "\<exists>t'. insert_range P t es = Inr t' \<and> table_ok P t' \<and> table_map t' = map_of es ++ table_map t"
  using assms
proof (induction es arbitrary: t)
  case Nil
  then show ?case by (simp add: insert_range_def)
next
  case (Cons e es)
  obtain i t1 where t1: "EmplaceDecomposable P t (fst e, snd e) = Inr (i, table_map t (fst e) = None, t1)" "table_ok P t1"
    "table_map t1 = (case table_map t (fst e) of None \<Rightarrow> (table_map t)(fst e \<mapsto> snd e) | Some _ \<Rightarrow> table_map t)"
    using emplace_ok [OF Cons.prems] by blast
  obtain t' where t': "insert_range P t1 es = Inr t'" "table_ok P t'" "table_map t' = map_of es ++ table_map t1"
    using Cons.IH [OF t1(2)] by blast
  have "map_of es ++ table_map t1 = map_of (e # es) ++ table_map t"
    using t1(3) by (cases e) (auto simp: fun_eq_iff map_add_def split: option.splits)
  with t'(3) have "table_map t' = map_of (e # es) ++ table_map t" by metis
  moreover have "insert_range P t (e # es) = Inr t'" using t1(1) t'(1) by (simp add: insert_range_def)
  ultimately show ?case using t'(2) by blast
qed

lemma raw_hash_set_range_ok:
  assumes "SelectBucketCountForIterRange random_access (length es) bucket_count < 2 ^ 64"
  shows "\<exists>t. raw_hash_set_range P addr cnt n random_access es bucket_count = Inr t \<and> table_ok P t \<and> table_map t = map_of es"
proof -
  obtain t :: "('a, 'b) table" where t: "raw_hash_set P addr cnt n (SelectBucketCountForIterRange random_access (length es) bucket_count) = Inr t"
    "table_ok P t" "table_map t = Map.empty" using raw_hash_set_ok [OF assms] by blast
  then show ?thesis using insert_range_ok [OF t(2), of es] by (auto simp: raw_hash_set_range_def)
qed

lemma find_placed:
  assumes s: "shape t" and e: "elements_ok P t" and room: "deleted_slots t = {}" "card {i. full t i} \<le> growth (capacity t)"
    and p: "full t p" "slot_array t ! p = Some v"
  shows "find_key P t (fst v) = Inr (Some p)"
proof -
  have "card (empty_slots t) \<noteq> 0" if "7 \<le> capacity t"
  proof -
    have "growth (capacity t) < capacity t" using growth_less [OF _ that] s by (simp add: shape_def)
    moreover have "card {i. full t i} + card (empty_slots t) = capacity t" using slot_partition [OF s] room(1) by simp
    ultimately show ?thesis using room(2) by linarith
  qed
  then have "capacity t < 7 \<or> empty_slots t \<noteq> {}" by (cases "capacity t < 7") auto
  then obtain r where r: "find_key P t (fst v) = Inr r"
    "case r of None \<Rightarrow> \<forall>i. full t i \<longrightarrow> key_at t i \<noteq> fst v | Some q \<Rightarrow> full t q \<and> key_at t q = fst v"
    using find_key_ok [OF s e empty_seen [OF s]] by blast
  have k: "key_at t p = fst v" using p(2) by (simp add: key_at_def)
  then obtain q where q: "r = Some q" using r(2) p(1) by (cases r) auto
  then have "full t q" "key_at t q = key_at t p" using r(2) k by simp_all
  then show ?thesis using r(1) q full_key_unique [OF e _ p(1)] by blast
qed

text \<open>What holds after the elements \<open>xs\<close> are copied into the array \<open>t0\<close>.\<close>

definition copied :: "'k policy \<Rightarrow> ('k, 'v) table \<Rightarrow> ('k \<times> 'v) list \<Rightarrow> ('k, 'v) table \<Rightarrow> bool" where
  "copied P t0 xs t \<longleftrightarrow> shape t \<and> elements_ok P t \<and> same_array t0 t \<and> deleted_slots t = {} \<and> tab_size t = tab_size t0 \<and>
     growth_left t = growth_left t0 \<and> card {i. full t i} = length xs \<and> table_map t = map_of xs"

lemma copy_slot_ok:
  fixes t t0 :: "('k, 'v) table"
  assumes c: "copied P t0 xs t" and room: "length xs < growth (capacity t0)" and new: "fst v \<notin> fst ` set xs"
  shows "\<exists>t'. copy_slot P v t = Inr t' \<and> copied P t0 (v # xs) t'"
proof -
  have t: "shape t" "elements_ok P t" "same_array t0 t" "deleted_slots t = {}" "card {i. full t i} = length xs"
    "table_map t = map_of xs" "capacity t = capacity t0" using c by (auto simp: copied_def same_array_def)
  have "card {i. full t i} < capacity t" using room growth_le [of "capacity t0"] t(5,7) by simp
  then obtain q where "is_free t q" using free_slot_exists [OF t(1)] by blast
  then obtain p n c where p: "find_first_non_full P t (p_hash P (fst v)) = Inr ((p, n), t\<lparr>counter := c\<rparr>)" "is_free t p"
    "spot t (start t (p_hash P (fst v))) p" using find_free [OF t(1)] by blast
  obtain t1 t2 where t2: "SetCtrl (t\<lparr>counter := c\<rparr>) p (H2 (p_hash P (fst v))) = Inr t1" "set_slot t1 p (Some v) = Inr t2"
    "filled P (t\<lparr>counter := c\<rparr>) p v t2" "t2 = t\<lparr>counter := c, control := control t2, slot_array := (slot_array t)[p := Some v]\<rparr>"
    using fill [of "t\<lparr>counter := c\<rparr>" p P v] t(1) p(2) by auto
  have f: "filled P t p v t2" using t2(3) by (simp add: filled_def same_array_def)
  have none: "\<forall>x. full t x \<longrightarrow> key_at t x \<noteq> fst v"
    using table_map_None [OF t(2), of "fst v"] new t(6) by (simp add: map_of_eq_None_iff)
  note F = filled_ok [OF t(1,2) f p(2,3) none] and G = filled_full [OF f p(2)]
  have same: "tab_size t2 = tab_size t" "growth_left t2 = growth_left t" "slot_array t2 = (slot_array t)[p := Some v]"
    "capacity t2 = capacity t" "control_at t2 = control_at t" by (subst t2(4), simp)+
  have "table_map t2 = map_of (v # xs)" using F(2) t(6) by (cases v) simp
  then have C: "copied P t0 (v # xs) t2" using c F(1,3) G(3) f same t(5) by (simp add: copied_def same_array_def filled_def)
  have "slot_array t2 ! p = Some v" using same(3) p(2) t(1) by (simp add: shape_def)
  moreover have "card {i. full t2 i} \<le> growth (capacity t2)" using C room same(4) t(7) by (simp add: copied_def)
  ultimately have "find_key P t2 (fst v) = Inr (Some p)"
    using find_placed [of t2 P p v] C G(1) by (simp add: copied_def)
  then show ?thesis using C p(1) t2(1,2) by (simp add: copy_slot_def emplace_at_def assert_def Let_def)
qed

lemma copy_fold:
  assumes "copied P t0 ys t" "length ys + length xs \<le> growth (capacity t0)" "distinct (map fst (rev xs @ ys))"
  shows "\<exists>t'. rfold (copy_slot P) xs t = Inr t' \<and> copied P t0 (rev xs @ ys) t'"
  using assms
proof (induction xs arbitrary: t ys)
  case (Cons v xs)
  obtain t1 where t1: "copy_slot P v t = Inr t1" "copied P t0 (v # ys) t1"
    using copy_slot_ok [OF Cons.prems(1), of v] Cons.prems(2,3) by auto
  then show ?case using Cons.IH [OF t1(2)] Cons.prems(2,3) by auto
qed simp

lemma copy_construct_ok:
  fixes that :: "('k, 'v) table"
  assumes ok: "table_ok P that" and size: "GrowthToLowerboundCapacity (tab_size that) < 2 ^ 64"
  shows "\<exists>t. copy_construct P addr that = Inr t \<and> table_ok P t \<and> table_map t = table_map that"
proof -
  have e: "elements_ok P that" "tab_size that = length (elements that)" "distinct (map fst (elements that))"
    using ok length_elements [of that] elements_distinct by (auto simp: table_ok_def counts_ok_def elements_ok_def)
  let ?t = "CommonFields addr (counter that) (allocs that) :: ('k, 'v) table"
  have t: "table_ok P ?t" "table_map ?t = Map.empty" using CommonFields_ok [OF refl] by blast+
  have start: "raw_hash_set P addr (counter that) (allocs that) 0 = Inr ?t" by (simp add: raw_hash_set_def)
  show ?thesis
  proof (cases "tab_size that = 0")
    case True
    then have "table_map that = Map.empty" using e(2) by (simp add: table_map_def)
    then show ?thesis using t start True by (auto simp: copy_construct_def)
  next
    case False
    let ?c = "NormalizeCapacity (p_tc P) (GrowthToLowerboundCapacity (tab_size that))"
    have c: "IsValidCapacity ?c" "tab_size that \<le> growth ?c" using NormalizeCapacity_least(1) [OF size] sized_for [OF size] by blast+
    have "reserve P ?t (tab_size that) = resize P ?t ?c" using False by (simp add: reserve_def CommonFields_def)
    moreover have "tab_size ?t = 0" by (simp add: CommonFields_def)
    ultimately obtain t0 where t0: "reserve P ?t (tab_size that) = Inr t0" "table_ok P t0" "capacity t0 = ?c" "table_map t0 = Map.empty"
      "deleted_slots t0 = {}" "tab_size t0 = 0" "growth_left t0 = growth ?c"
      using resize_ok [OF t(1) c(1)] t(2) by auto
    have "copied P t0 [] t0" using t0 by (simp add: copied_def same_array_def table_ok_def counts_ok_def)
    then obtain t' where t': "rfold (copy_slot P) (elements that) t0 = Inr t'" "copied P t0 (rev (elements that)) t'"
      using copy_fold [of P t0 "[]" t0 "elements that"] c(2) e t0(3) by (auto simp: rev_map [symmetric])
    let ?t' = "t'\<lparr>tab_size := tab_size that, growth_left := growth ?c - tab_size that\<rparr>"
    have "copy_construct P addr that = Inr ?t'"
      using start False t0(1,7) t' c(2) for_each_elements [OF ok, of "copy_slot P" t0]
      by (simp add: copy_construct_def Let_def size_minus_def copied_def rbind_assoc [symmetric])
    moreover have "map_of (rev (elements that)) = table_map that"
      using e(3) unfolding table_map_def by (intro map_of_inject_set [THEN iffD2]) (auto simp: rev_map [symmetric])
    moreover have "table_ok P ?t'" using t'(2) c(2) t0(3) e(2)
      by (simp add: table_ok_def counts_ok_def copied_def same_array_def)
    ultimately show ?thesis using t'(2) by (intro exI [of _ ?t']) (simp add: copied_def)
  qed
qed

section \<open>Erasing many elements\<close>

text \<open>What remains when the slots in \<open>D\<close> are erased.\<close>

definition without_slots :: "('k, 'v) table \<Rightarrow> nat set \<Rightarrow> ('k, 'v) table \<Rightarrow> bool" where
  "without_slots t D t' \<longleftrightarrow> capacity t' = capacity t \<and> (\<forall>x. full t' x \<longleftrightarrow> full t x \<and> x \<notin> D) \<and>
     (\<forall>x. full t' x \<longrightarrow> slot_array t' ! x = slot_array t ! x)"

lemma without_none: "without_slots t {} t"
  by (simp add: without_slots_def)

lemma without_trans: "without_slots t D t' \<Longrightarrow> without_slots t' E u \<Longrightarrow> without_slots t (D \<union> E) u"
  by (auto simp: without_slots_def)

lemma without_cong: "without_slots t D t' \<Longrightarrow> (\<And>x. full t x \<Longrightarrow> x \<in> D \<longleftrightarrow> x \<in> E) \<Longrightarrow> without_slots t E t'"
  by (auto simp: without_slots_def)

lemma without_next:
  assumes "without_slots t {i} t'"
  shows "next_full t' (Suc i) = next_full t (Suc i)"
  by (rule next_full_cong) (use assms in \<open>auto simp: without_slots_def\<close>)

lemma without_map:
  assumes "elements_ok P t" "elements_ok P t'" "without_slots t D t'"
  shows "table_map t' k = Some v \<longleftrightarrow> (\<exists>i. full t i \<and> i \<notin> D \<and> slot_array t ! i = Some (k, v))"
  unfolding table_map_Some [OF assms(2)] using assms(3) by (auto simp: without_slots_def)

lemma erase_without:
  assumes "table_ok P t" "full t i"
  obtains t' where "erase_at P t i = Inr t'" "erase_moved P t i = Inr t'" "table_ok P t'" "without_slots t {i} t'"
    "table_map t' = (table_map t)(key_at t i := None)"
proof -
  obtain t' b where t': "erase_at P t i = Inr t'" "table_ok P t'" "freed t i b t'" "b \<in> {kEmpty, kDeleted}"
    "table_map t' = (table_map t)(key_at t i := None)"
    using erase_at_frame [OF assms] by blast
  have "erase_moved P t i = Inr t'"
    using t'(1) assms(2) by (auto simp: erase_at_def erase_moved_def ctrl_at_def full_def split: if_splits)
  moreover have "without_slots t {i} t'"
    using freed_full(1) [OF t'(3) assms(2) t'(4)] t'(3) by (auto simp: without_slots_def freed_def same_array_def)
  ultimately show thesis using that t' by blast
qed

lemma option_ext: "(\<And>v. x = Some v \<longleftrightarrow> y = Some v) \<Longrightarrow> x = y"
  by (metis option.exhaust)

lemma erase_if_loop_ok:
  assumes "table_ok P t"
  shows "\<exists>t'. erase_if_loop P pred t (next_full t pos) = Inr t' \<and> table_ok P t' \<and>
    without_slots t {i. pos \<le> i \<and> pred (the (slot_array t ! i))} t'"
  using assms
proof (induction t pos rule: next_full_induct)
  case (stop t pos)
  have "without_slots t {i. pos \<le> i \<and> pred (the (slot_array t ! i))} t"
    by (rule without_cong [OF without_none]) (use next_full_None [OF stop(1)] in blast)
  then show ?case using stop by auto
next
  case (step t pos i)
  have t: "shape t" "elements_ok P t" using step(4) by (auto simp: table_ok_def)
  obtain k v where e: "slot_array t ! i = Some (k, v)" "deref_iter t i = Inr (k, v)" using full_slot [OF t step(2)] by metis
  note nxt = next_ok [OF t(1) step(2), of P]
  show ?case
  proof (cases "pred (k, v)")
    case True
    obtain u where u: "erase_at P t i = Inr u" "table_ok P u" "without_slots t {i} u" using erase_without [OF step(4,2)] by metis
    have "capacity u = capacity t" using u(3) by (simp add: without_slots_def)
    then obtain t' where t': "erase_if_loop P pred u (next_full u (Suc i)) = Inr t'" "table_ok P t'"
      "without_slots u {j. Suc i \<le> j \<and> pred (the (slot_array u ! j))} t'" using step(3) u(2) by blast
    have "without_slots t ({i} \<union> {j. Suc i \<le> j \<and> pred (the (slot_array u ! j))}) t'" by (rule without_trans [OF u(3) t'(3)])
    then have "without_slots t {j. pos \<le> j \<and> pred (the (slot_array t ! j))} t'"
      by (rule without_cong) (use u(3) True e(1) in \<open>auto simp: without_slots_def next_full_split [OF step(1)]\<close>)
    then show ?thesis using step(1) e nxt True u(1) t' without_next [OF u(3)] by auto
  next
    case False
    obtain t' where t': "erase_if_loop P pred t (next_full t (Suc i)) = Inr t'" "table_ok P t'"
      "without_slots t {j. Suc i \<le> j \<and> pred (the (slot_array t ! j))} t'" using step(3,4) by blast
    have "without_slots t {j. pos \<le> j \<and> pred (the (slot_array t ! j))} t'"
      by (rule without_cong [OF t'(3)]) (use False e(1) in \<open>auto simp: next_full_split [OF step(1)]\<close>)
    then show ?thesis using step(1) e nxt False t' by auto
  qed
qed

lemma EraseIf_ok:
  assumes "table_ok P t"
  shows "\<exists>n t'. EraseIf P pred t = Inr (n, t') \<and> table_ok P t' \<and> n + tab_size t' = tab_size t \<and>
    table_map t' = (\<lambda>k. case table_map t k of None \<Rightarrow> None | Some v \<Rightarrow> if pred (k, v) then None else Some v)"
proof -
  have t: "shape t" "elements_ok P t" using assms by (auto simp: table_ok_def)
  obtain t' where t': "erase_if_loop P pred t (next_full t 0) = Inr t'" "table_ok P t'"
    "without_slots t {i. 0 \<le> i \<and> pred (the (slot_array t ! i))} t'" using erase_if_loop_ok [OF assms] by blast
  have "{i. full t' i} \<subseteq> {i. full t i}" using t'(3) by (auto simp: without_slots_def)
  then have "tab_size t' \<le> tab_size t" using assms t'(2) card_mono [OF finite_full] by (simp add: table_ok_def counts_ok_def)
  moreover have "table_map t' k = (case table_map t k of None \<Rightarrow> None | Some v \<Rightarrow> if pred (k, v) then None else Some v)" for k
  proof -
    have e': "elements_ok P t'" using t'(2) by (simp add: table_ok_def)
    have "table_map t' k = Some v \<longleftrightarrow> table_map t k = Some v \<and> \<not> pred (k, v)" for v
      unfolding without_map [OF t(2) e' t'(3)] table_map_Some [OF t(2)] by auto
    then show ?thesis by (intro option_ext) (auto split: option.splits)
  qed
  moreover have "EraseIf P pred t = Inr (tab_size t - tab_size t', t')"
    using t'(1) begin_ok [OF t(1), of P] calculation(1) by (simp add: EraseIf_def size_minus_def Let_def)
  ultimately show ?thesis using t'(2) by (intro exI conjI) (auto simp: fun_eq_iff)
qed

text \<open>A range: the slots from \<open>first\<close> up to, not including, \<open>stop\<close>; \<open>None\<close> is the end.\<close>

fun before :: "nat \<Rightarrow> nat option \<Rightarrow> bool" where
  "before i None = True"
| "before i (Some s) = (i < s)"

lemma iter_eq_ok:
  assumes "shape t" "\<forall>i. a = Some i \<longrightarrow> full t i" "\<forall>i. b = Some i \<longrightarrow> full t i"
  shows "iter_eq t a b = Inr (a = b)"
  using assms by (cases a; cases b) (auto simp: iter_eq_def AssertIsValidForComparison_def ctrl_at_def full_def shape_def)

lemma erase_range_loop_ok:
  assumes "table_ok P t" "\<forall>s. stop = Some s \<longrightarrow> full t s \<and> pos \<le> s"
  shows "\<exists>t'. erase_range_loop P t (next_full t pos) stop = Inr t' \<and> table_ok P t' \<and>
    without_slots t {i. pos \<le> i \<and> before i stop} t'"
  using assms
proof (induction t pos rule: next_full_induct)
  case (stop t pos)
  have s: "shape t" using stop(2) by (simp add: table_ok_def)
  have none: "stop = None" using stop(1,3) next_full_None by (cases stop) auto
  have "without_slots t {i. pos \<le> i \<and> before i None} t"
    by (rule without_cong [OF without_none]) (use next_full_None [OF stop(1)] in blast)
  then show ?case using stop iter_eq_ok [OF s, of None None] none by (subst erase_range_loop.simps) auto
next
  case (step t pos i)
  have t: "shape t" "elements_ok P t" using step(4) by (auto simp: table_ok_def)
  have eq: "iter_eq t (Some i) stop = Inr (Some i = stop)" by (rule iter_eq_ok [OF t(1)]) (use step(2,5) in auto)
  show ?case
  proof (cases "stop = Some i")
    case True
    have "without_slots t {j. pos \<le> j \<and> before j stop} t"
      by (rule without_cong [OF without_none]) (use True in \<open>auto simp: next_full_split [OF step(1)]\<close>)
    then show ?thesis using step(1,4) eq True by (subst erase_range_loop.simps) auto
  next
    case False
    obtain u where u: "erase_at P t i = Inr u" "table_ok P u" "without_slots t {i} u" using erase_without [OF step(4,2)] by metis
    have ahead: "Suc i \<le> s \<and> full u s" if "stop = Some s" for s
      using step(5) that False u(3) next_full_split [OF step(1)] by (auto simp: without_slots_def)
    have "capacity u = capacity t" using u(3) by (simp add: without_slots_def)
    then obtain t' where t': "erase_range_loop P u (next_full u (Suc i)) stop = Inr t'" "table_ok P t'"
      "without_slots u {j. Suc i \<le> j \<and> before j stop} t'" using step(3) [of u] u(2) ahead by blast
    have "before i stop" using ahead by (cases stop) auto
    with without_trans [OF u(3) t'(3)] have "without_slots t {j. pos \<le> j \<and> before j stop} t'"
      by (rule_tac without_cong) (auto simp: next_full_split [OF step(1)])
    then show ?thesis using step(1) eq False next_ok [OF t(1) step(2), of P] u(1) t' without_next [OF u(3)]
      by (subst erase_range_loop.simps) auto
  qed
qed

text \<open>
  \<^verbatim>\<open>erase(first, last)\<close> on a range of the table erases the elements of the range, also when it takes the shortcut for
  the whole table, and returns \<^verbatim>\<open>last\<close>.
\<close>

lemma erase_range_ok:
  assumes ok: "table_ok P t" and stop: "\<forall>s. stop = Some s \<longrightarrow> full t s \<and> pos \<le> s"
  shows "\<exists>t'. erase_range P addr t (next_full t pos) stop = Inr (stop, t') \<and> table_ok P t' \<and>
    (\<forall>k v. table_map t' k = Some v \<longleftrightarrow> (\<exists>i. full t i \<and> \<not> (pos \<le> i \<and> before i stop) \<and> slot_array t ! i = Some (k, v)))"
proof -
  have t: "shape t" "elements_ok P t" "tab_size t = card {i. full t i}" using ok by (auto simp: table_ok_def counts_ok_def)
  have first: "iter_eq t (next_full t pos) (next_full t 0) = Inr (next_full t pos = next_full t 0)"
    by (rule iter_eq_ok [OF t(1)]) (auto dest: next_full_Some)
  have last: "iter_eq t stop None = Inr (stop = None)" by (rule iter_eq_ok [OF t(1)]) (use stop in auto)
  consider "tab_size t = 0" | "tab_size t \<noteq> 0" "next_full t pos = next_full t 0" "stop = None"
    | "tab_size t \<noteq> 0" "\<not> (next_full t pos = next_full t 0 \<and> stop = None)" by blast
  then show ?thesis
  proof cases
    case 1
    then have none: "\<And>i. \<not> full t i" using t(3) by simp
    then have "stop = None" using stop by (cases stop) auto
    then show ?thesis using 1 ok none by (intro exI [of _ t]) (simp add: erase_range_def table_map_Some [OF t(2)] del: not_Some_eq)
  next
    case 2
    then have "capacity t \<noteq> 0" using t(3) by (auto simp: full_def)
    then have cap: "IsValidCapacity (capacity t)" using t(1) by (simp add: shape_def table_capacity_def)
    obtain a where a: "destroy_slots t = Inr (t\<lparr>slot_array := a\<rparr>)" "length a = capacity t" using destroy_slots_ok [OF t(1)] by blast
    then obtain t' where t': "ClearBackingArray P addr (t\<lparr>slot_array := a\<rparr>) True = Inr t'" "table_ok P t'" "table_map t' = Map.empty"
      using ClearBackingArray_ok [of "t\<lparr>slot_array := a\<rparr>" P addr True] cap by auto
    have "pos \<le> i" if "full t i" for i
      using that 2(2) next_full_None [of t 0 i] next_full_split [of t 0 _ i] next_full_split [of t pos _ i] by (cases "next_full t 0") auto
    then show ?thesis using 2 a t' begin_ok [OF t(1), of P] first last by (auto simp: erase_range_def)
  next
    case 3
    obtain t' where t': "erase_range_loop P t (next_full t pos) stop = Inr t'" "table_ok P t'"
      "without_slots t {i. pos \<le> i \<and> before i stop} t'" using erase_range_loop_ok [OF assms] by blast
    have "erase_range P addr t (next_full t pos) stop = Inr (stop, t')"
      using 3 t'(1) begin_ok [OF t(1), of P] first last by (auto simp: erase_range_def)
    moreover have "elements_ok P t'" using t'(2) by (simp add: table_ok_def)
    ultimately show ?thesis using t'(2) without_map [OF t(2) _ t'(3)] by auto
  qed
qed

lemma equal_range_ok:
  assumes "table_ok P t"
  shows "\<exists>first stop. equal_range P t k = Inr (first, stop) \<and>
    (case table_map t k of None \<Rightarrow> first = None \<and> stop = None
     | Some v \<Rightarrow> \<exists>i. first = Some i \<and> slot_array t ! i = Some (k, v) \<and> (\<forall>j. full t j \<and> i \<le> j \<and> before j stop \<longleftrightarrow> j = i))"
proof -
  have s: "shape t" using assms by (simp add: table_ok_def)
  obtain r where r: "find_key P t k = Inr r"
    "case r of None \<Rightarrow> table_map t k = None
     | Some i \<Rightarrow> full t i \<and> (\<exists>v. slot_array t ! i = Some (k, v) \<and> table_map t k = Some v)"
    using find_ok [OF assms] by blast
  show ?thesis
  proof (cases r)
    case None
    then show ?thesis using r by (simp add: equal_range_def)
  next
    case (Some i)
    then obtain v where i: "full t i" "slot_array t ! i = Some (k, v)" "table_map t k = Some v" using r(2) by auto
    have "full t j \<and> i \<le> j \<and> before j (next_full t (Suc i)) \<longleftrightarrow> j = i" for j
      using i(1) next_full_None [of t "Suc i" j] next_full_least [of t "Suc i"]
      by (cases "next_full t (Suc i)") (auto simp: not_less_eq_eq le_Suc_eq dest: le_antisym, metis Suc_leI le_neq_implies_less)
    then show ?thesis using Some r(1) i next_ok [OF s i(1), of P] by (simp add: equal_range_def)
  qed
qed

section \<open>Merging and node handles\<close>

lemma InsertSlot_new:
  assumes "table_ok P t" "table_map t k = None"
  obtains i t' where "InsertSlot P t (k, v) = Inr (i, True, t')" "table_ok P t'" "table_map t' = (table_map t)(k \<mapsto> v)"
proof -
  obtain i w t' where w: "find_or_prepare_insert P t k = Inr (i, True, w)" "emplace_at P w i (k, v) = Inr t'" "table_ok P t'"
    "table_map t' = (table_map t)(k \<mapsto> v)" using insert_new [OF assms(1), of "(k, v)"] assms(2) by auto
  then have "set_slot w i (Some (k, v)) = Inr t'" by (auto simp: emplace_at_def res_simps)
  then show thesis using that w by (simp add: InsertSlot_def)
qed

lemma InsertSlot_old:
  assumes "table_ok P t" "table_map t k \<noteq> None"
  obtains i where "InsertSlot P t (k, v) = Inr (i, False, t)"
  using insert_old [OF assms(1), of k] assms(2) that by (auto simp: InsertSlot_def)

lemma without_elements:
  assumes "without_slots t {i} t'"
  shows "elements_from t' (Suc i) = elements_from t (Suc i)"
proof -
  have "full_from t' (Suc i) = full_from t (Suc i)" using assms by (auto simp: without_slots_def intro!: filter_cong)
  then show ?thesis using assms unfolding elements_from_def by (auto simp: without_slots_def)
qed

lemma map_add_taken: "m k \<noteq> None \<Longrightarrow> f(k \<mapsto> v) ++ m = f ++ m"
  by (auto simp: map_add_def fun_eq_iff split: option.splits)

lemma map_add_new: "m k = None \<Longrightarrow> f(k \<mapsto> v) ++ m = f ++ m(k \<mapsto> v)"
  by (auto simp: map_add_def fun_eq_iff split: option.splits)

lemma merge_loop_ok:
  assumes "table_ok P this" "table_ok Q src"
  shows "\<exists>this' src'. merge_loop P Q this src (next_full src pos) = Inr (this', src') \<and> table_ok P this' \<and> table_ok Q src' \<and>
    table_map this' = map_of (elements_from src pos) ++ table_map this \<and>
    without_slots src {i. pos \<le> i \<and> table_map this (key_at src i) = None} src'"
  using assms
proof (induction src pos arbitrary: this rule: next_full_induct)
  case (stop src pos)
  have "without_slots src {i. pos \<le> i \<and> table_map this (key_at src i) = None} src"
    by (rule without_cong [OF without_none]) (use next_full_None [OF stop(1)] in blast)
  then show ?case using stop elements_from_next [of src pos] by auto
next
  case (step src pos i)
  have s: "shape src" "elements_ok Q src" using step(5) by (auto simp: table_ok_def)
  obtain k v where e: "slot_array src ! i = Some (k, v)" "slot_at src i = Inr (k, v)" "key_at src i = k" using full_slot [OF s step(2)] by metis
  have els: "elements_from src pos = (k, v) # elements_from src (Suc i)" using step(1) e elements_from_next [of src pos] by simp
  note nxt = next_ok [OF s(1) step(2), of Q] and split = next_full_split [OF step(1)]
  show ?case
  proof (cases "table_map this k")
    case None
    obtain j this1 where t1: "InsertSlot P this (k, v) = Inr (j, True, this1)" "table_ok P this1" "table_map this1 = (table_map this)(k \<mapsto> v)"
      using InsertSlot_new [OF step(4) None] by metis
    obtain src1 where s1: "erase_moved Q src i = Inr src1" "table_ok Q src1" "without_slots src {i} src1"
      using erase_without [OF step(5,2)] by metis
    have "capacity src1 = capacity src" using s1(3) by (simp add: without_slots_def)
    from step(3) [OF this t1(2) s1(2)]
    obtain this' src' where r: "merge_loop P Q this1 src1 (next_full src1 (Suc i)) = Inr (this', src')" "table_ok P this'" "table_ok Q src'"
      "table_map this' = map_of (elements_from src1 (Suc i)) ++ table_map this1"
      "without_slots src1 {j. Suc i \<le> j \<and> table_map this1 (key_at src1 j) = None} src'"
      by blast
    have keys: "key_at src1 x = key_at src x \<and> key_at src x \<noteq> k" if "full src x" "x \<noteq> i" for x
    proof
      show "key_at src1 x = key_at src x" using that s1(3) by (simp add: without_slots_def key_at_def)
      show "key_at src x \<noteq> k" using full_key_unique [OF s(2) that(1) step(2)] that(2) unfolding e(3) by blast
    qed
    have "table_map this' = map_of (elements_from src pos) ++ table_map this"
      using r(4) t1(3) els without_elements [OF s1(3)] map_add_new [of "table_map this" k _ v] None by simp
    moreover have "without_slots src {j. pos \<le> j \<and> table_map this (key_at src j) = None} src'"
      by (rule without_cong [OF without_trans [OF s1(3) r(5)]]) (use None e(3) keys t1(3) split in auto)
    moreover have "merge_loop P Q this src (next_full src pos) = Inr (this', src')"
      using step(1) nxt e(2) t1(1) s1(1) r(1) without_next [OF s1(3)] by simp
    ultimately show ?thesis using r(2,3) by blast
  next
    case (Some w)
    obtain j where t1: "InsertSlot P this (k, v) = Inr (j, False, this)" using InsertSlot_old [OF step(4)] Some by blast
    obtain this' src' where r: "merge_loop P Q this src (next_full src (Suc i)) = Inr (this', src')" "table_ok P this'" "table_ok Q src'"
      "table_map this' = map_of (elements_from src (Suc i)) ++ table_map this"
      "without_slots src {j. Suc i \<le> j \<and> table_map this (key_at src j) = None} src'"
      using step(3) [OF refl step(4,5)] by blast
    have "table_map this' = map_of (elements_from src pos) ++ table_map this" using r(4) els Some map_add_taken [of "table_map this" k _ v] by simp
    moreover have "without_slots src {j. pos \<le> j \<and> table_map this (key_at src j) = None} src'"
      by (rule without_cong [OF r(5)]) (use Some e(3) split in auto)
    moreover have "merge_loop P Q this src (next_full src pos) = Inr (this', src')" using step(1) nxt e(2) t1 r(1) by simp
    ultimately show ?thesis using r(2,3) by blast
  qed
qed

lemma table_ok_surroundings:
  fixes t :: "('k, 'v) table"
  shows "table_ok P (t\<lparr>counter := c, allocs := n\<rparr>) = table_ok P t" "table_map (t\<lparr>counter := c, allocs := n\<rparr>) = table_map t"
proof -
  have b: "group_byte (t\<lparr>allocs := n\<rparr>) = group_byte t" "full (t\<lparr>allocs := n\<rparr>) = full t" "start (t\<lparr>allocs := n\<rparr>) = start t"
    by (simp_all add: group_byte_def full_def start_def fun_eq_iff)
  then have "reach (t\<lparr>allocs := n\<rparr>) = reach t" by (simp add: reach_def has_empty_def fun_eq_iff)
  with b have "table_ok P (t\<lparr>allocs := n\<rparr>) = table_ok P t" "table_map (t\<lparr>allocs := n\<rparr>) = table_map t" for t :: "('k, 'v) table"
    by (auto simp: table_ok_def shape_def elements_ok_def placed_def key_at_def inj_on_def counts_ok_def deleted_slots_def table_map_def elements_def
        group_byte_def full_def start_def reach_def has_empty_def)
  then show "table_ok P (t\<lparr>counter := c, allocs := n\<rparr>) = table_ok P t" "table_map (t\<lparr>counter := c, allocs := n\<rparr>) = table_map t" by simp_all
qed

lemma merge_ok:
  assumes "table_ok P this" "table_ok Q src"
  shows "\<exists>this' src'. merge P Q this src = Inr (this', src') \<and> table_ok P this' \<and> table_ok Q src' \<and>
    table_map this' = table_map src ++ table_map this \<and> table_map src' = table_map src |` dom (table_map this)"
proof -
  have s: "shape src" "elements_ok Q src" using assms(2) by (auto simp: table_ok_def)
  obtain this' src' where r: "merge_loop P Q this src (next_full src 0) = Inr (this', src')" "table_ok P this'" "table_ok Q src'"
    "table_map this' = map_of (elements_from src 0) ++ table_map this"
    "without_slots src {i. 0 \<le> i \<and> table_map this (key_at src i) = None} src'"
    using merge_loop_ok [OF assms] by blast
  let ?src = "src'\<lparr>counter := counter this', allocs := allocs this'\<rparr>"
  have frame: "table_ok Q ?src" "table_map ?src = table_map src'"
    using r(3) table_ok_surroundings by blast+
  have e': "elements_ok Q src'" using r(3) by (simp add: table_ok_def)
  have "table_map src' k = (table_map src |` dom (table_map this)) k" for k
  proof (rule option_ext)
    fix v show "table_map src' k = Some v \<longleftrightarrow> (table_map src |` dom (table_map this)) k = Some v"
      unfolding without_map [OF s(2) e' r(5)] using table_map_Some [OF s(2), of k v]
      by (auto simp: restrict_map_def key_at_def)
  qed
  then have "table_map src' = table_map src |` dom (table_map this)" by blast
  moreover have "merge P Q this src = Inr (this', ?src)" using r(1) begin_ok [OF s(1), of Q] by (simp add: merge_def)
  ultimately show ?thesis using r(2,4) frame by (auto simp: elements_from_0 table_map_def)
qed

lemma extract_key_ok:
  assumes "table_ok P t"
  shows "\<exists>t'. extract_key P t k = Inr (map_option (Pair k) (table_map t k), t') \<and> table_ok P t' \<and> table_map t' = (table_map t)(k := None)"
proof -
  have t: "shape t" "elements_ok P t" using assms by (auto simp: table_ok_def)
  obtain r where r: "find_key P t k = Inr r"
    "case r of None \<Rightarrow> table_map t k = None
     | Some i \<Rightarrow> full t i \<and> (\<exists>v. slot_array t ! i = Some (k, v) \<and> table_map t k = Some v)"
    using find_ok [OF assms] by blast
  show ?thesis
  proof (cases r)
    case None
    then show ?thesis using r assms by (auto simp: extract_key_def)
  next
    case (Some i)
    then obtain v where i: "full t i" "slot_array t ! i = Some (k, v)" "table_map t k = Some v" using r(2) by auto
    moreover from full_slot [OF t i(1)] obtain k' v' where "slot_array t ! i = Some (k', v')" "deref_iter t i = Inr (k', v')" by metis
    ultimately have "deref_iter t i = Inr (k, v)" "key_at t i = k" by (simp_all add: key_at_def)
    moreover obtain t' where "erase_moved P t i = Inr t'" "table_ok P t'" "table_map t' = (table_map t)(key_at t i := None)"
      using erase_without [OF assms i(1)] by metis
    ultimately show ?thesis using Some r(1) i(3) by (simp add: extract_key_def extract_at_def)
  qed
qed

text \<open>Extracting a key and inserting the node again gives the same map.\<close>

lemma extract_insert:
  assumes "table_ok P t"
  shows "\<exists>node t1 it t2. extract_key P t k = Inr (node, t1) \<and> insert_node P t1 node = Inr (it, table_map t k \<noteq> None, None, t2) \<and>
    table_ok P t2 \<and> table_map t2 = table_map t"
proof -
  obtain t1 where t1: "extract_key P t k = Inr (map_option (Pair k) (table_map t k), t1)" "table_ok P t1"
    "table_map t1 = (table_map t)(k := None)" using extract_key_ok [OF assms] by blast
  show ?thesis
  proof (cases "table_map t k")
    case None
    then show ?thesis using t1 by (auto simp: insert_node_def)
  next
    case (Some v)
    have "table_map t1 k = None" using t1(3) by simp
    from InsertSlot_new [OF t1(2) this]
    obtain i t2 where "InsertSlot P t1 (k, v) = Inr (i, True, t2)" "table_ok P t2" "table_map t2 = (table_map t1)(k \<mapsto> v)" by metis
    then show ?thesis using t1 Some by (intro exI [of _ "Some (k, v)"] exI [of _ t1] exI [of _ "Some i"] exI [of _ t2]) (simp add: insert_node_def fun_upd_idem)
  qed
qed

section \<open>Assignment\<close>

lemma destruct_ok: "table_ok P t \<Longrightarrow> destruct t = Inr ()"
  using destroy_slots_ok [OF table_ok_shape] by (fastforce simp: destruct_def Let_def)

lemma copy_assign_ok:
  assumes "table_ok P this" "table_ok P that" "GrowthToLowerboundCapacity (tab_size that) < 2 ^ 64"
  shows "\<exists>t. copy_assign P addr this that = Inr t \<and> table_ok P t \<and> table_map t = table_map that"
  using copy_construct_ok [OF assms(2,3), of addr] destruct_ok [OF assms(1)]
  by (auto simp: copy_assign_def table_swap_def)

lemma move_assign_ok:
  assumes "table_ok P this" "table_ok P that"
  shows "\<exists>that'. move_assign addr this that = Inr (that, that') \<and> table_ok P that' \<and> table_map that' = Map.empty"
  using CommonFields_ok [OF refl, of P addr "counter that" "allocs that"] destruct_ok [OF assms(1)]
  by (simp add: move_assign_def table_swap_def move_construct_def)

end
