(* ===== verification/TableLayout.thy ===== *)
theory TableLayout
  imports Probe
begin

text \<open>
  The memory of a hash table (\<^verbatim>\<open>container/internal/raw_hash_set.h\<close>): where the control bytes and the slots lie in the
  backing array, the check that two iterators belong to one table, which relies on that, and the size field,
  which shares a word with the flag of sampled tables. Sizes in bytes are natural numbers, the rounding of
  the slot offset is done on 64-bit words. The size of a sampling handle is a parameter.
\<close>

unbundle bit_operations_syntax

section \<open>The backing array\<close>

definition ControlOffset :: "nat \<Rightarrow> bool \<Rightarrow> nat" where
  "ControlOffset infoz_size has_infoz = (if has_infoz then infoz_size else 0) + 8"

definition NumGenerationBytes :: nat where "NumGenerationBytes = 0"

definition GenerationOffset :: "nat \<Rightarrow> nat \<Rightarrow> bool \<Rightarrow> nat res" where
  "GenerationOffset infoz_size capacity has_infoz =
     assert (IsValidCapacity capacity)
     (let num_control_bytes = capacity + 1 + NumClonedBytes in
      Inr (ControlOffset infoz_size has_infoz + num_control_bytes))"

definition SlotOffset :: "nat \<Rightarrow> nat \<Rightarrow> 64 word \<Rightarrow> bool \<Rightarrow> 64 word res" where
  "SlotOffset infoz_size capacity slot_align has_infoz =
     assert (IsValidCapacity capacity)
     (rbind (GenerationOffset infoz_size capacity has_infoz) (\<lambda>g.
      Inr ((of_nat (g + NumGenerationBytes) + slot_align - 1) AND (NOT slot_align + 1))))"

definition AllocSize :: "nat \<Rightarrow> nat \<Rightarrow> nat \<Rightarrow> 64 word \<Rightarrow> bool \<Rightarrow> 64 word res" where
  "AllocSize infoz_size capacity slot_size slot_align has_infoz =
     rbind (SlotOffset infoz_size capacity slot_align has_infoz) (\<lambda>s.
     Inr (s + of_nat capacity * of_nat slot_size))"

text \<open>A null pointer is \<open>None\<close>.\<close>

definition AreItersFromSameContainer :: "nat option \<Rightarrow> nat option \<Rightarrow> nat \<Rightarrow> nat \<Rightarrow> bool" where
  "AreItersFromSameContainer ctrl_a ctrl_b slot_a slot_b =
     (case (ctrl_a, ctrl_b) of
        (Some a, Some b) \<Rightarrow>
          let (a, b, low_slot, hi_slot) = (if a > b then (b, a, slot_b, slot_a) else (a, b, slot_a, slot_b))
          in b < low_slot \<and> low_slot \<le> hi_slot
      | _ \<Rightarrow> True)"

section \<open>The size field\<close>

definition HasInfozShift :: nat where "HasInfozShift = 1"

definition HasInfozMask :: "64 word" where "HasInfozMask = push_bit HasInfozShift 1 - 1"

definition size_of_word :: "64 word \<Rightarrow> 64 word" where "size_of_word w = drop_bit HasInfozShift w"

definition set_size_word :: "64 word \<Rightarrow> 64 word \<Rightarrow> 64 word" where
  "set_size_word w s = push_bit HasInfozShift s OR (w AND HasInfozMask)"

definition increment_size_word :: "64 word \<Rightarrow> 64 word" where
  "increment_size_word w = w + push_bit HasInfozShift 1"

definition decrement_size_word :: "64 word \<Rightarrow> 64 word" where
  "decrement_size_word w = w - push_bit HasInfozShift 1"

definition has_infoz_word :: "64 word \<Rightarrow> bool" where "has_infoz_word w \<longleftrightarrow> w AND HasInfozMask \<noteq> 0"

definition set_has_infoz_word :: "64 word \<Rightarrow> bool \<Rightarrow> 64 word" where
  "set_has_infoz_word w has_infoz = push_bit HasInfozShift (size_of_word w) OR of_bool has_infoz"

section \<open>The slots are aligned and clear of the control bytes\<close>

lemma unat_round_down: "unat (push_bit k (drop_bit k x)) = unat (x :: 64 word) div 2 ^ k * 2 ^ k"
proof -
  have "unat x div 2 ^ k * 2 ^ k < 2 ^ 64"
    using le_less_trans [OF div_times_less_eq_dividend unsigned_less [of x]] by simp
  moreover have "unat (push_bit k (drop_bit k x)) = take_bit 64 (push_bit k (drop_bit k (unat x)))"
    using unat_less [of x] by (subst unsigned_push_bit_eq, subst unsigned_drop_bit_eq) (simp add: take_bit_nat_eq_self)
  ultimately show ?thesis by (simp add: take_bit_nat_eq_self push_bit_nat_def drop_bit_nat_def)
qed

lemma round_up:
  assumes "n + 2 ^ k \<le> (2 :: nat) ^ 64" "k < 64"
  shows "unat ((of_nat n + (2 :: 64 word) ^ k - 1) AND (NOT (2 ^ k) + 1)) = (n + 2 ^ k - 1) div 2 ^ k * 2 ^ k"
proof -
  let ?x = "of_nat n + (2 :: 64 word) ^ k - 1"
  have "n + 2 ^ k = Suc (n + 2 ^ k - 1)" by simp
  then have "of_nat (n + 2 ^ k) = (of_nat (n + 2 ^ k - 1) + 1 :: 64 word)" using of_nat_Suc [of "n + 2 ^ k - 1", where 'a = "64 word"] by (simp add: add.commute)
  then have "of_nat n + (2 :: 64 word) ^ k = of_nat (n + 2 ^ k - 1) + 1" by simp
  then have x: "?x = of_nat (n + 2 ^ k - 1)" by simp
  have ux: "unat ?x = n + 2 ^ k - 1" unfolding x using assms by (simp add: unat_of_nat_small)
  have "NOT (2 ^ k) + 1 = (NOT (mask k) :: 64 word)" by (simp add: not_eq_complement mask_eq_decr_exp)
  then have "?x AND (NOT (2 ^ k) + 1) = push_bit k (drop_bit k ?x)"
    by (intro bit_word_eqI) (auto simp: bit_simps)
  then show ?thesis using ux unat_round_down [of k ?x] by simp
qed

lemma SlotOffset_ok:
  fixes k :: nat
  defines "g \<equiv> \<lambda>infoz_size capacity has_infoz. ControlOffset infoz_size has_infoz + (capacity + 1 + NumClonedBytes)"
  assumes "IsValidCapacity capacity" "k < 64" "g infoz_size capacity has_infoz + 2 ^ k \<le> 2 ^ 64"
  shows "\<exists>s. SlotOffset infoz_size capacity (2 ^ k) has_infoz = Inr s \<and> 2 ^ k dvd unat s \<and>
    g infoz_size capacity has_infoz \<le> unat s \<and> unat s < g infoz_size capacity has_infoz + 2 ^ k"
proof -
  let ?g = "g infoz_size capacity has_infoz"
  let ?s = "(of_nat ?g + (2 :: 64 word) ^ k - 1) AND (NOT (2 ^ k) + 1)"
  have "SlotOffset infoz_size capacity (2 ^ k) has_infoz = Inr ?s"
    using assms(2) by (simp add: SlotOffset_def GenerationOffset_def NumGenerationBytes_def g_def Let_def)
  moreover have u: "unat ?s = (?g + 2 ^ k - 1) div 2 ^ k * 2 ^ k" by (rule round_up [OF assms(4,3)])
  moreover have "unat ?s + (?g + 2 ^ k - 1) mod 2 ^ k = ?g + 2 ^ k - 1" unfolding u by (rule div_mult_mod_eq)
  moreover have "(?g + 2 ^ k - 1) mod 2 ^ k < 2 ^ k" "0 < ?g" by (simp_all add: g_def ControlOffset_def)
  ultimately have "?g \<le> unat ?s \<and> unat ?s < ?g + 2 ^ k" by linarith
  then show ?thesis using \<open>SlotOffset _ _ _ _ = _\<close> u by (intro exI [of _ ?s]) simp
qed

text \<open>Iterators at slots \<open>i\<close> and \<open>j\<close> of one table pass the check that they belong to the same container.\<close>

lemma same_container:
  assumes "IsValidCapacity capacity" "k < 64" "SlotOffset infoz_size capacity (2 ^ k) has_infoz = Inr s"
    "ControlOffset infoz_size has_infoz + (capacity + 1 + NumClonedBytes) + 2 ^ k \<le> 2 ^ 64" "i < capacity" "j < capacity"
  shows "AreItersFromSameContainer
    (Some (mem + ControlOffset infoz_size has_infoz + i)) (Some (mem + ControlOffset infoz_size has_infoz + j))
    (mem + unat s + i * slot_size) (mem + unat s + j * slot_size)"
proof -
  have "ControlOffset infoz_size has_infoz + (capacity + 1 + NumClonedBytes) \<le> unat s"
    using SlotOffset_ok [OF assms(1,2,4)] assms(3) by auto
  then have "ControlOffset infoz_size has_infoz + i < unat s" "ControlOffset infoz_size has_infoz + j < unat s" using assms(5,6) by auto
  moreover have "i * slot_size \<le> j * slot_size" if "i \<le> j" for i j using that by (rule mult_le_mono1)
  ultimately show ?thesis
    by (cases "i \<le> j") (simp_all add: AreItersFromSameContainer_def Let_def trans_less_add1)
qed

section \<open>The size field keeps size and flag apart\<close>

lemma HasInfozMask_eq: "HasInfozMask = 1"
  by (simp add: HasInfozMask_def HasInfozShift_def)

lemma has_infoz_odd: "has_infoz_word w \<longleftrightarrow> odd w"
  by (simp add: has_infoz_word_def HasInfozMask_eq and_one_eq odd_iff_mod_2_eq_one)

lemma set_size_word_ok:
  assumes "unat s < 2 ^ 63"
  shows "size_of_word (set_size_word w s) = s" "has_infoz_word (set_size_word w s) = has_infoz_word w"
proof -
  have "\<not> bit s n" if "63 \<le> n" for n
  proof -
    have "unat s div 2 ^ n = 0" using less_le_trans [OF assms power_increasing [OF that, of 2]] by simp
    then have "\<not> bit (unat s) n" unfolding bit_iff_odd by simp
    then show ?thesis by (simp add: bit_unat)
  qed
  note high = this
  have one: "bit (1 :: 64 word) n \<longleftrightarrow> n = 0" for n by (simp add: bit_1_iff)
  show "size_of_word (set_size_word w s) = s"
  proof (rule bit_word_eqI)
    fix n assume "n < LENGTH(64)"
    then show "bit (size_of_word (set_size_word w s)) n = bit s n" using high [of n]
      unfolding size_of_word_def set_size_word_def HasInfozMask_eq bit_drop_bit_eq bit_or_iff bit_and_iff bit_push_bit_iff comp_def one
      by (cases "n < 63") (auto simp: HasInfozShift_def)
  qed
  show "has_infoz_word (set_size_word w s) = has_infoz_word w"
    unfolding has_infoz_odd set_size_word_def HasInfozMask_eq by (simp add: HasInfozShift_def even_or_iff even_and_iff)
qed

lemma set_has_infoz_word_ok:
  "has_infoz_word (set_has_infoz_word w b) = b" "size_of_word (set_has_infoz_word w b) = size_of_word w"
proof -
  show "has_infoz_word (set_has_infoz_word w b) = b"
    unfolding has_infoz_odd set_has_infoz_word_def by (simp add: HasInfozShift_def even_or_iff)
  show "size_of_word (set_has_infoz_word w b) = size_of_word w"
  proof (rule bit_word_eqI)
    fix n assume "n < LENGTH(64)"
    then show "bit (size_of_word (set_has_infoz_word w b)) n = bit (size_of_word w) n"
      unfolding size_of_word_def set_has_infoz_word_def bit_drop_bit_eq bit_or_iff bit_push_bit_iff comp_def
      by (auto simp: HasInfozShift_def bit_of_bool_iff dest: bit_imp_le_length)
  qed
qed

text \<open>Counting up and down in steps of two changes the size by one and leaves the flag.\<close>

lemma count_size_word:
  assumes "unat w + 2 < 2 ^ 64"
  shows "unat (size_of_word (increment_size_word w)) = unat (size_of_word w) + 1"
    "has_infoz_word (increment_size_word w) = has_infoz_word w"
    "decrement_size_word (increment_size_word w) = w"
proof -
  have two: "push_bit HasInfozShift 1 = (2 :: 64 word)" by (simp add: HasInfozShift_def)
  have "unat (w + 2) = unat w + 2" using assms by (simp add: unat_word_ariths)
  moreover have "unat (size_of_word x) = unat x div 2" for x
    unfolding size_of_word_def HasInfozShift_def by (simp add: unat_drop_bit_div)
  ultimately show "unat (size_of_word (increment_size_word w)) = unat (size_of_word w) + 1"
    unfolding increment_size_word_def two by simp
  show "has_infoz_word (increment_size_word w) = has_infoz_word w" "decrement_size_word (increment_size_word w) = w"
    unfolding has_infoz_odd increment_size_word_def decrement_size_word_def two by simp_all
qed

end
