(* ===== verification/Foundations.thy ===== *)
theory Foundations
  imports HashState Int128
begin

text \<open>
  The properties of the foundations the game's containers stand on: byte order, bit operations, 128-bit
  integers, and the hash functions. Each is stated for every toolchain, every byte order and with or
  without a built-in 128-bit integer type, so that the code paths the preprocessor selects are all covered.
\<close>

section \<open>Byte order\<close>

text \<open>C39. The order of bytes in memory does not depend on the host: storing with \<open>little_endian::Store64\<close>
  puts the low byte first and with \<open>big_endian::Store64\<close> last, whatever the host's order and the byte
  swap of the toolchain; a load of the same order on any other host reads the value back, and a load of the
  other order reads it with its bytes reversed.\<close>

theorem store_load_layout:
  assumes "in_bounds mem p 8"
  shows "(\<exists>m. LE_Store64 tc ord mem p v = Inr m \<and> length m = length mem \<and>
       take 8 (drop (nat p) m) = le_bytes v \<and> LE_Load64 tc' ord' m p = Inr v \<and> BE_Load64 tc' ord' m p = Inr (bswap v)) \<and>
     (\<exists>m. BE_Store64 tc ord mem p v = Inr m \<and> length m = length mem \<and>
       take 8 (drop (nat p) m) = rev (le_bytes v) \<and> BE_Load64 tc' ord' m p = Inr v \<and> LE_Load64 tc' ord' m p = Inr (bswap v))"
proof -
  define M where "M ord = take (nat p) mem @ host_bytes ord v @ drop (nat p + 8) mem" for ord
  have p: "0 \<le> p" "nat p + 8 \<le> length mem" using assms by (auto simp: in_bounds_def)
  have s: "mem_store ord mem p v = Inr (M ord)" for ord using assms by (simp add: mem_store_def M_def)
  have m: "take 8 (drop (nat p) (M ord)) = host_bytes ord v" "length (M ord) = length mem" for ord
    using p by (simp_all add: M_def)
  then have b: "in_bounds (M ord) p 8" for ord using assms by (simp add: in_bounds_def)
  have l: "mem_load o1 (M o2) p = Inr (host_word o1 (host_bytes o2 v) :: 64 word)" for o1 o2
    using b [of o2] m(1) [of o2] by (simp add: mem_load_def)
  have h: "host_word BigEndian (host_bytes LittleEndian v) = bswap v" "host_word LittleEndian (host_bytes BigEndian v) = bswap v"
    "host_bytes LittleEndian v = le_bytes v" "host_bytes BigEndian v = rev (le_bytes v)"
    by (simp_all add: host_word_def host_bytes_def bswap_def)
  have "host_word LittleEndian (le_bytes v) = v" "host_word BigEndian (rev (le_bytes v)) = v"
    by (simp_all add: host_word_def)
  with h show ?thesis unfolding Store_layout Load_layout s
    using l [of LittleEndian LittleEndian] l [of BigEndian LittleEndian] l [of LittleEndian BigEndian] l [of BigEndian BigEndian] m
    by simp
qed

theorem store_load_layout_witness:
  "(\<exists>m. LE_Store64 Msvc64 BigEndian (replicate 9 0) 1 5 = Inr m \<and> length m = length (replicate 9 (0 :: 8 word)) \<and>
       take 8 (drop (nat 1) m) = le_bytes (5 :: 64 word) \<and> LE_Load64 Generic LittleEndian m 1 = Inr 5 \<and>
       BE_Load64 Generic LittleEndian m 1 = Inr (bswap 5)) \<and>
     (\<exists>m. BE_Store64 Msvc64 BigEndian (replicate 9 0) 1 5 = Inr m \<and> length m = length (replicate 9 (0 :: 8 word)) \<and>
       take 8 (drop (nat 1) m) = rev (le_bytes (5 :: 64 word)) \<and> BE_Load64 Generic LittleEndian m 1 = Inr 5 \<and>
       LE_Load64 Generic LittleEndian m 1 = Inr (bswap 5))"
  by (rule store_load_layout) (simp add: in_bounds_def)

section \<open>Bits\<close>

text \<open>C40. The bit counts mean what their names say, for unsigned types of 8, 16, 32 and 64 bits and for
  every implementation: \<open>bit_width\<close> is the number of digits of a nonzero value, \<open>countl_zero\<close> what is missing
  to the width of the type, \<open>countr_zero\<close> the exponent of the largest power of two that divides it,
  \<open>bit_floor\<close> the largest power of two not above it, and \<open>bit_ceil\<close> the smallest not below it, where that
  is representable.\<close>

theorem bit_counts:
  fixes x :: "'a::len word"
  assumes "LENGTH('a) \<in> {8, 16, 32, 64}" "x \<noteq> 0"
  shows "\<exists>w t. bit_width tc x = int (Suc w) \<and> 2 ^ w \<le> unat x \<and> unat x < 2 ^ Suc w \<and>
    countl_zero tc x = int LENGTH('a) - int (Suc w) \<and> unat (bit_floor tc x) = 2 ^ w \<and>
    countr_zero tc x = int t \<and> 2 ^ t dvd unat x \<and> \<not> 2 ^ Suc t dvd unat x \<and>
    (unat x \<le> 2 ^ (LENGTH('a) - 1) \<longrightarrow>
       unat x \<le> unat (bit_ceil tc x) \<and> has_single_bit (bit_ceil tc x) \<and>
       (\<forall>k. unat x \<le> 2 ^ k \<longrightarrow> unat (bit_ceil tc x) \<le> 2 ^ k))"
proof -
  let ?w = "nat_width (unat x) - 1" and ?t = "nat_trailing (unat x)"
  have x: "0 < unat x" using assms(2) by (simp add: unat_gt_0)
  then have w: "nat_width (unat x) = Suc ?w" by (simp add: nat_width.simps [of "unat x"])
  obtain m where m: "unat x = 2 ^ ?t * (2 * m + 1)" using word_trailing [OF assms(2)] by blast
  have "\<not> 2 ^ Suc ?t dvd unat x"
  proof
    assume "2 ^ Suc ?t dvd unat x"
    then have "2 ^ ?t * 2 dvd 2 ^ ?t * (2 * m + 1)" using m by (metis power_Suc2)
    then have "2 dvd 2 * m + 1" using dvd_times_left_cancel_iff [of "2 ^ ?t" 2 "2 * m + 1"] by simp
    then show False by simp
  qed
  moreover have "2 ^ ?t dvd unat x" using m by (metis dvd_triv_left)
  moreover have "unat x \<le> unat (bit_ceil tc x) \<and> has_single_bit (bit_ceil tc x) \<and>
       (\<forall>k. unat x \<le> 2 ^ k \<longrightarrow> unat (bit_ceil tc x) \<le> 2 ^ k)" if "unat x \<le> 2 ^ (LENGTH('a) - 1)"
  proof -
    have c: "unat (bit_ceil tc x) = 2 ^ nat_width (unat x - 1)" by (rule bit_ceil_eq [OF assms(1) that])
    have "unat x - 1 < 2 ^ nat_width (unat x - 1)" using nat_width_le_iff by blast
    moreover have "nat_width (unat x - 1) \<le> k" if "unat x \<le> 2 ^ k" for k using that x by (simp add: nat_width_le_iff)
    ultimately show ?thesis using c by (auto simp: has_single_bit_iff intro: power_increasing)
  qed
  ultimately show ?thesis
    using nat_width_bounds [of "unat x"] x w bit_width_eq [OF assms(1), of tc x] countl_zero_eq [OF assms(1), of tc x]
      bit_floor_eq [OF assms, of tc] countr_zero_eq [OF assms(1), of tc x] assms(2)
    by (intro exI [of _ ?w] exI [of _ ?t] conjI) auto
qed

theorem bit_counts_witness:
  "\<exists>w t. bit_width Generic (12 :: 8 word) = int (Suc w) \<and> 2 ^ w \<le> unat (12 :: 8 word) \<and> unat (12 :: 8 word) < 2 ^ Suc w \<and>
    countl_zero Generic (12 :: 8 word) = int LENGTH(8) - int (Suc w) \<and> unat (bit_floor Generic (12 :: 8 word)) = 2 ^ w \<and>
    countr_zero Generic (12 :: 8 word) = int t \<and> 2 ^ t dvd unat (12 :: 8 word) \<and> \<not> 2 ^ Suc t dvd unat (12 :: 8 word) \<and>
    (unat (12 :: 8 word) \<le> 2 ^ (LENGTH(8) - 1) \<longrightarrow>
       unat (12 :: 8 word) \<le> unat (bit_ceil Generic (12 :: 8 word)) \<and> has_single_bit (bit_ceil Generic (12 :: 8 word)) \<and>
       (\<forall>k. unat (12 :: 8 word) \<le> 2 ^ k \<longrightarrow> unat (bit_ceil Generic (12 :: 8 word)) \<le> 2 ^ k))"
  by (rule bit_counts) simp_all

section \<open>128-bit integers\<close>

text \<open>C36. The 128-bit unsigned integers made of two halves compute exactly what a 128-bit machine word
  computes, with and without the built-in type: addition, subtraction, negation and multiplication wrap
  modulo two to the 128, the bitwise operators and the shifts by less than 128 agree, and so do equality
  and order.\<close>

theorem uint128_operators:
  assumes "k < 128"
  shows "to_int128 (u128_add intr x y) = to_int128 x + to_int128 y \<and>
    to_int128 (u128_sub intr x y) = to_int128 x - to_int128 y \<and>
    to_int128 (u128_neg intr x) = - to_int128 x \<and>
    to_int128 (u128_mul intr tc x y) = to_int128 x * to_int128 y \<and>
    to_int128 (u128_not intr x) = NOT (to_int128 x) \<and>
    to_int128 (u128_or intr x y) = to_int128 x OR to_int128 y \<and>
    to_int128 (u128_and intr x y) = to_int128 x AND to_int128 y \<and>
    to_int128 (u128_xor intr x y) = to_int128 x XOR to_int128 y \<and>
    to_int128 (u128_shl intr x k) = push_bit k (to_int128 x) \<and>
    to_int128 (u128_shr intr x k) = drop_bit k (to_int128 x) \<and>
    (u128_eq intr x y \<longleftrightarrow> to_int128 x = to_int128 y) \<and> (u128_less intr x y \<longleftrightarrow> to_int128 x < to_int128 y)"
  using assms by (simp del: to_int128_inject)

theorem uint128_operators_witness:
  "to_int128 (u128_mul False Generic (MakeUint128 1 (- 1)) (MakeUint128 3 5)) =
     to_int128 (MakeUint128 1 (- 1)) * to_int128 (MakeUint128 3 5) \<and>
   to_int128 (u128_shl False (MakeUint128 1 (- 1)) 100) = push_bit 100 (to_int128 (MakeUint128 1 (- 1)))"
  using uint128_operators [of 100 False "MakeUint128 1 (- 1)" "MakeUint128 3 5" Generic] by simp

text \<open>C37. Long division: for every nonzero divisor the shift-and-subtract loop returns the quotient and the
  remainder of the values, on every toolchain. Signed division truncates towards zero and the remainder has
  the sign of the dividend. A zero divisor fails the assertion, as does the quotient of the minimum by -1,
  which is not representable.\<close>

theorem division_exact:
  "(if to_int128 v = 0 then DivModImpl intr tc a v = Inl AssertFailed
    else \<exists>q r. DivModImpl intr tc a v = Inr (q, r) \<and>
      unat (to_int128 q) = unat (to_int128 a) div unat (to_int128 v) \<and>
      unat (to_int128 r) = unat (to_int128 a) mod unat (to_int128 v)) \<and>
   (if signed128 y = 0 \<or> x = Int128Min \<and> y = int128_signed (- 1 :: 32 word)
    then i128_div tc x y = Inl AssertFailed \<and> i128_mod tc x y = Inl AssertFailed
    else \<exists>q r. i128_div tc x y = Inr q \<and> i128_mod tc x y = Inr r \<and>
      signed128 q = signed128 x sdiv signed128 y \<and> signed128 r = signed128 x smod signed128 y)"
proof (rule conjI)
  have "v = uint128_unsigned (0 :: 32 word)" if "to_int128 v = 0" using that by (metis to_int128_const(1) to_int128_inject)
  then show "if to_int128 v = 0 then DivModImpl intr tc a v = Inl AssertFailed
    else \<exists>q r. DivModImpl intr tc a v = Inr (q, r) \<and>
      unat (to_int128 q) = unat (to_int128 a) div unat (to_int128 v) \<and>
      unat (to_int128 r) = unat (to_int128 a) mod unat (to_int128 v)"
    using DivModImpl_zero [of intr tc a] DivModImpl_correct [of v intr tc a]
    by (cases "to_int128 v = 0") simp_all
qed (use i128_div_zero [of y tc x] i128_div_mod [of y x tc] in
  \<open>auto simp: i128_div_def i128_mod_def assert_def i128_neq_def i128_eq_iff\<close>)

text \<open>C38. Printing a 128-bit integer and reading the text as a decimal numeral gives the integer back,
  signed and unsigned; and with every base, case and prefix flag the text is that of the digits of the
  value, although it is produced in chunks of at most 64 bits.\<close>

theorem printing_roundtrip:
  "(\<exists>s. uint128_ToString intr tc u = Inr s \<and> read_int s = int (unat (to_int128 u))) \<and>
   (\<exists>s. int128_ToString intr tc v = Inr s \<and> read_int s = signed128 v) \<and>
   Uint128ToFormattedString intr tc u flags =
     Inr (base_prefix flags (unat (to_int128 u)) @
       map (digit (uppercase flags)) (nat_digits (base_of (basefield flags)) (unat (to_int128 u))))"
  using ToString_reads(1) [of intr tc u] ToString_reads(2) [of intr tc v] Uint128ToFormattedString_eq [of intr tc u flags]
  by (auto simp: show_digits_def)

section \<open>Hashing\<close>

text \<open>C35. CityHash reads only the bytes it is given and always returns, for every length; the 32-bit and
  the 64-bit hash of the bytes are the same on every toolchain and every byte order.\<close>

theorem city_portable:
  assumes "in_bounds mem s len"
  shows "\<exists>h32 h64. \<forall>tc ord. CityHash32 tc ord mem s len = Inr h32 \<and> CityHash64 tc ord mem s len = Inr h64"
proof -
  obtain h32 h64 where "CityHash32 Gnu LittleEndian mem s len = Inr h32" "CityHash64 Gnu LittleEndian mem s len = Inr h64"
    using CityHash32_returns [OF assms] CityHash64_returns [OF assms] unfolding returns_def by blast
  then have "CityHash32 tc ord mem s len = Inr h32 \<and> CityHash64 tc ord mem s len = Inr h64" for tc ord
    using city32_host [of tc ord mem s len] city64_host [of tc ord mem s len] by simp
  then show ?thesis by blast
qed

theorem city_portable_witness:
  "\<exists>h32 h64. \<forall>tc ord. CityHash32 tc ord [1, 2, 3] 0 3 = Inr h32 \<and> CityHash64 tc ord [1, 2, 3] 0 3 = Inr h64"
  by (rule city_portable) (simp add: in_bounds_def)

text \<open>C33. Hashing a range that arrives in pieces gives the hash of the contiguous range, wherever it is cut
  and whatever the buffer held before: \<open>add_buffer\<close> for every piece and \<open>finalize\<close> at the end return the
  state \<open>combine_contiguous\<close> returns for the concatenation, and it returns one.\<close>

theorem piecewise_is_contiguous:
  assumes "length garbage = PiecewiseChunkSize"
  shows "\<exists>s'. combine_pieces (combine_contiguous h) garbage s pieces = Inr s' \<and>
    combine_contiguous h s (concat pieces) = Inr s'"
  using mixing.pieces_combine [OF assms, of h s pieces] combine_contiguous_returns [of h s "concat pieces"]
  by (simp add: returns_def)

theorem piecewise_is_contiguous_witness:
  "\<exists>s'. combine_pieces (combine_contiguous \<lparr>intrinsic = True, toolchain = Gnu, order = LittleEndian, size8 = True, kSeed = 4096\<rparr>)
       (replicate 1024 7) 1 [[1, 2], replicate 2000 3, [4]] = Inr s' \<and>
     combine_contiguous \<lparr>intrinsic = True, toolchain = Gnu, order = LittleEndian, size8 = True, kSeed = 4096\<rparr> 1
       (concat [[1, 2], replicate 2000 3, [4]]) = Inr s'"
  by (rule piecewise_is_contiguous) (simp add: PiecewiseChunkSize_def)

text \<open>C34. The fast path for integers returns what the general path returns, as its comment says: mixing
  the value directly equals combining its bytes, for unsigned types of 8, 16, 32 and 64 bits, both byte
  orders and both sizes of \<open>size_t\<close>.\<close>

theorem integral_fast_path:
  fixes v :: "'a::len word"
  assumes "LENGTH('a) \<in> {8, 16, 32, 64}"
  shows "hash_value h (hash_bytes h) v = Inr (hash_integral h v)"
  by (rule hash_fast_path [OF assms])

theorem integral_fast_path_witness:
  "hash_value \<lparr>intrinsic = False, toolchain = Generic, order = BigEndian, size8 = False, kSeed = 4096\<rparr>
     (hash_bytes \<lparr>intrinsic = False, toolchain = Generic, order = BigEndian, size8 = False, kSeed = 4096\<rparr>) (258 :: 16 word) =
   Inr (hash_integral \<lparr>intrinsic = False, toolchain = Generic, order = BigEndian, size8 = False, kSeed = 4096\<rparr> (258 :: 16 word))"
  by (rule integral_fast_path) simp

end
