(* ===== verification/HashValues.thy ===== *)
theory HashValues
  imports HashState "HOL-Library.List_Lexorder" "HOL-Library.Sublist"
begin

text \<open>
  The values the hash framework accepts, \<^verbatim>\<open>absl/hash/internal/hash.h\<close>: one definition for each overload of
  \<^verbatim>\<open>AbslHashValue\<close>, with the hash state \<^verbatim>\<open>H\<close> and the hashing of the elements as arguments, as the templates
  have them. Two hash states are instances: the mixing state that computes the hash, and the state of
  \<^verbatim>\<open>spy_hash_state.h\<close> that records what a value expands to. The overloads are tied together over a
  universe of types (\<open>hty\<close>) and values (\<open>hval\<close>): the choice of the overload is by type, as in
  \<^verbatim>\<open>HashSelect\<close>.
\<close>

section \<open>Hash states\<close>

text \<open>
  What the overloads use of a hash state: a fresh one, the mixing of a range of bytes, and the mixing of
  the states of the elements of an unordered container.
\<close>

record 's hash_api =
  initial :: 's
  contiguous :: "'s \<Rightarrow> memory \<Rightarrow> 's res"
  RunCombineUnordered :: "'s \<Rightarrow> 's list \<Rightarrow> 's res"

definition MixingHashState :: "host \<Rightarrow> 64 word hash_api" where
  "MixingHashState h =
     \<lparr>initial = Seed h,
      contiguous = combine_contiguous h,
      RunCombineUnordered = (\<lambda>state inner_states. hash_bytes h state (fold unordered_add inner_states 0))\<rparr>"

text \<open>The spy keeps the ranges it is given, a long range in chunks; the elements of an unordered container are sorted.\<close>

definition spy_contiguous :: "memory list \<Rightarrow> memory \<Rightarrow> memory list res" where
  "spy_contiguous hash_representation data =
     rbind (if length data > PiecewiseChunkSize
            then chunks_loop (\<lambda>rep c. Inr (rep @ [c])) hash_representation data
            else Inr (hash_representation, data)) (\<lambda>(rep, data).
     Inr (rep @ [data]))"

definition spy_unordered :: "memory list \<Rightarrow> memory list list \<Rightarrow> memory list res" where
  "spy_unordered hash_representation inner = Inr (hash_representation @ sort (map concat inner))"

definition SpyHashState :: "memory list hash_api" where
  "SpyHashState = \<lparr>initial = [], contiguous = spy_contiguous, RunCombineUnordered = spy_unordered\<rparr>"

datatype CompareResult = kEqual | kASuffixB | kBSuffixA | kUnequal

definition Compare :: "memory list \<Rightarrow> memory list \<Rightarrow> CompareResult" where
  "Compare a b =
     (let a_flat = concat a; b_flat = concat b in
      if a_flat = b_flat then kEqual
      else if suffix b_flat a_flat then kBSuffixA
      else if suffix a_flat b_flat then kASuffixB
      else kUnequal)"

section \<open>Basic types\<close>

text \<open>
  \<^verbatim>\<open>size_t\<close> and \<^verbatim>\<open>uintptr_t\<close> have the same width. A number of that type is an integral value, so it is
  hashed by its bytes.
\<close>

definition size_t_bytes :: "host \<Rightarrow> nat" where
  "size_t_bytes h = (if size8 h then 8 else 4)"

definition size_bytes :: "host \<Rightarrow> nat \<Rightarrow> memory" where
  "size_bytes h n =
     (if size8 h then host_bytes (order h) (of_nat n :: 64 word) else host_bytes (order h) (of_nat n :: 32 word))"

definition hash_size :: "host \<Rightarrow> 's hash_api \<Rightarrow> 's \<Rightarrow> nat \<Rightarrow> 's res" where
  "hash_size h H state n = contiguous H state (size_bytes h n)"

definition hash_bool :: "'s hash_api \<Rightarrow> 's \<Rightarrow> bool \<Rightarrow> 's res" where
  "hash_bool H state value = contiguous H state [if value then 1 else 0]"

text \<open>An enum is given by the bytes of its underlying type.\<close>

definition hash_enum :: "'s hash_api \<Rightarrow> 's \<Rightarrow> memory \<Rightarrow> 's res" where
  "hash_enum H state e = contiguous H state e"

text \<open>
  A floating-point number is given by its IEEE representation; both zeros compare equal to 0, that is, the bits
  below the sign are all zero.
\<close>

definition is_zero :: "'a::len word \<Rightarrow> bool" where
  "is_zero value \<longleftrightarrow> take_bit (LENGTH('a) - 1) value = 0"

definition hash_float :: "host \<Rightarrow> 's hash_api \<Rightarrow> 's \<Rightarrow> 'a::len word \<Rightarrow> 's res" where
  "hash_float h H state value =
     contiguous H state (host_bytes (order h) (if is_zero value then 0 else value))"

definition hash_pointer :: "'s hash_api \<Rightarrow> 's \<Rightarrow> memory \<Rightarrow> 's res" where
  "hash_pointer H state v = rbind (contiguous H state v) (\<lambda>state. contiguous H state v)"

definition hash_nullptr :: "host \<Rightarrow> 's hash_api \<Rightarrow> 's \<Rightarrow> 's res" where
  "hash_nullptr h H state = hash_pointer H state (replicate (size_t_bytes h) 0)"

definition salient_ptm_size :: "toolchain \<Rightarrow> nat \<Rightarrow> nat \<Rightarrow> nat" where
  "salient_ptm_size tc align n =
     (if tc = Msvc64 \<or> tc = Msvc32 then
        if align = 4 then n
        else if n = 24 then 20 else if n = 16 then 12 else n
      else n)"

definition hash_member :: "host \<Rightarrow> 's hash_api \<Rightarrow> nat \<Rightarrow> 's \<Rightarrow> memory \<Rightarrow> 's res" where
  "hash_member h H align state ptr =
     contiguous H state (take (salient_ptm_size (toolchain h) align (length ptr)) ptr)"

section \<open>Composite types\<close>

text \<open>\<^verbatim>\<open>HashStateBase::combine\<close>: the values one after the other, each by its own way of hashing.\<close>

definition combine_values :: "('s \<Rightarrow> 's res) list \<Rightarrow> 's \<Rightarrow> 's res" where
  "combine_values invokes state = rfold (\<lambda>invoke state. invoke state) invokes state"

definition hash_pair ::
  "('s \<Rightarrow> 'a \<Rightarrow> 's res) \<Rightarrow> ('s \<Rightarrow> 'b \<Rightarrow> 's res) \<Rightarrow> 's \<Rightarrow> 'a \<times> 'b \<Rightarrow> 's res" where
  "hash_pair combine1 combine2 state p =
     combine_values [\<lambda>s. combine1 s (fst p), \<lambda>s. combine2 s (snd p)] state"

definition hash_tuple :: "('s \<Rightarrow> 'v \<Rightarrow> 's res) list \<Rightarrow> 's \<Rightarrow> 'v list \<Rightarrow> 's res" where
  "hash_tuple combines state t = combine_values (map2 (\<lambda>combine x s. combine s x) combines t) state"

definition hash_unique_ptr :: "'s hash_api \<Rightarrow> 's \<Rightarrow> memory \<Rightarrow> 's res" where
  "hash_unique_ptr H state ptr = hash_pointer H state ptr"

definition hash_shared_ptr :: "'s hash_api \<Rightarrow> 's \<Rightarrow> memory \<Rightarrow> 's res" where
  "hash_shared_ptr H state ptr = hash_pointer H state ptr"

text \<open>
  \<^verbatim>\<open>hash_range_or_bytes\<close>: a range of uniquely represented objects (\<open>reps\<close> holds their bytes) is hashed as
  one range of bytes, any other range element by element.
\<close>

definition combine_each :: "('s \<Rightarrow> 'v \<Rightarrow> 's res) \<Rightarrow> 's \<Rightarrow> 'v list \<Rightarrow> 's res" where
  "combine_each combine state data = rfold (\<lambda>x state. combine state x) data state"

definition combine_range ::
  "'s hash_api \<Rightarrow> ('v \<Rightarrow> memory) option \<Rightarrow> ('s \<Rightarrow> 'v \<Rightarrow> 's res) \<Rightarrow> 's \<Rightarrow> 'v list \<Rightarrow> 's res" where
  "combine_range H unique combine state data =
     (case unique of
        Some rep \<Rightarrow> contiguous H state (concat (map rep data))
      | None \<Rightarrow> combine_each combine state data)"

definition hash_string_view :: "host \<Rightarrow> 's hash_api \<Rightarrow> 's \<Rightarrow> memory \<Rightarrow> 's res" where
  "hash_string_view h H state str =
     rbind (contiguous H state str) (\<lambda>state. hash_size h H state (length str))"

text \<open>The wide strings and their views: characters of two or four bytes.\<close>

definition hash_basic_string :: "host \<Rightarrow> 's hash_api \<Rightarrow> 's \<Rightarrow> memory list \<Rightarrow> 's res" where
  "hash_basic_string h H state str =
     rbind (contiguous H state (concat str)) (\<lambda>state. hash_size h H state (length str))"

definition hash_basic_string_view :: "host \<Rightarrow> 's hash_api \<Rightarrow> 's \<Rightarrow> memory list \<Rightarrow> 's res" where
  "hash_basic_string_view h H state str =
     rbind (contiguous H state (concat str)) (\<lambda>state. hash_size h H state (length str))"

section \<open>Containers\<close>

definition hash_array ::
  "'s hash_api \<Rightarrow> ('v \<Rightarrow> memory) option \<Rightarrow> ('s \<Rightarrow> 'v \<Rightarrow> 's res) \<Rightarrow> 's \<Rightarrow> 'v list \<Rightarrow> 's res" where
  "hash_array H unique combine state array = combine_range H unique combine state array"

definition hash_deque :: "host \<Rightarrow> 's hash_api \<Rightarrow> ('s \<Rightarrow> 'v \<Rightarrow> 's res) \<Rightarrow> 's \<Rightarrow> 'v list \<Rightarrow> 's res" where
  "hash_deque h H combine state deque =
     rbind (combine_each combine state deque) (\<lambda>state. hash_size h H state (length deque))"

text \<open>A forward list counts its elements on the way.\<close>

definition hash_forward_list :: "host \<Rightarrow> 's hash_api \<Rightarrow> ('s \<Rightarrow> 'v \<Rightarrow> 's res) \<Rightarrow> 's \<Rightarrow> 'v list \<Rightarrow> 's res" where
  "hash_forward_list h H combine state list =
     rbind (rfold (\<lambda>t (state, size). rbind (combine state t) (\<lambda>state. Inr (state, size + 1)))
              list (state, 0)) (\<lambda>(state, size).
     hash_size h H state size)"

definition hash_list :: "host \<Rightarrow> 's hash_api \<Rightarrow> ('s \<Rightarrow> 'v \<Rightarrow> 's res) \<Rightarrow> 's \<Rightarrow> 'v list \<Rightarrow> 's res" where
  "hash_list h H combine state list =
     rbind (combine_each combine state list) (\<lambda>state. hash_size h H state (length list))"

definition hash_vector ::
  "host \<Rightarrow> 's hash_api \<Rightarrow> ('v \<Rightarrow> memory) option \<Rightarrow> ('s \<Rightarrow> 'v \<Rightarrow> 's res) \<Rightarrow> 's \<Rightarrow> 'v list \<Rightarrow> 's res" where
  "hash_vector h H unique combine state vector =
     rbind (combine_range H unique combine state vector) (\<lambda>state.
     hash_size h H state (length vector))"

text \<open>
  \<^verbatim>\<open>vector<bool>\<close>: bit by bit in pieces on a big-endian machine with libstdc++, by \<^verbatim>\<open>std::hash\<close> elsewhere. A new
  combiner's buffer holds arbitrary bytes (\<open>garbage\<close>).
\<close>

definition hash_vector_bool_pieces :: "host \<Rightarrow> 's hash_api \<Rightarrow> memory \<Rightarrow> 's \<Rightarrow> bool list \<Rightarrow> 's res" where
  "hash_vector_bool_pieces h H garbage state vector =
     rbind (combine_pieces (contiguous H) garbage state (map (\<lambda>i. [if i then 1 else 0]) vector)) (\<lambda>state.
     hash_size h H state (length vector))"

definition hash_vector_bool_std :: "host \<Rightarrow> 's hash_api \<Rightarrow> (bool list \<Rightarrow> nat) \<Rightarrow> 's \<Rightarrow> bool list \<Rightarrow> 's res" where
  "hash_vector_bool_std h H std_hash state vector =
     combine_values [\<lambda>s. hash_size h H s (std_hash vector), \<lambda>s. hash_size h H s (length vector)] state"

definition hash_map :: "host \<Rightarrow> 's hash_api \<Rightarrow> ('s \<Rightarrow> 'v \<Rightarrow> 's res) \<Rightarrow> 's \<Rightarrow> 'v list \<Rightarrow> 's res" where
  "hash_map h H combine state c =
     rbind (combine_each combine state c) (\<lambda>state. hash_size h H state (length c))"

definition hash_multimap :: "host \<Rightarrow> 's hash_api \<Rightarrow> ('s \<Rightarrow> 'v \<Rightarrow> 's res) \<Rightarrow> 's \<Rightarrow> 'v list \<Rightarrow> 's res" where
  "hash_multimap h H combine state c =
     rbind (combine_each combine state c) (\<lambda>state. hash_size h H state (length c))"

definition hash_set :: "host \<Rightarrow> 's hash_api \<Rightarrow> ('s \<Rightarrow> 'v \<Rightarrow> 's res) \<Rightarrow> 's \<Rightarrow> 'v list \<Rightarrow> 's res" where
  "hash_set h H combine state c =
     rbind (combine_each combine state c) (\<lambda>state. hash_size h H state (length c))"

definition hash_multiset :: "host \<Rightarrow> 's hash_api \<Rightarrow> ('s \<Rightarrow> 'v \<Rightarrow> 's res) \<Rightarrow> 's \<Rightarrow> 'v list \<Rightarrow> 's res" where
  "hash_multiset h H combine state c =
     rbind (combine_each combine state c) (\<lambda>state. hash_size h H state (length c))"

text \<open>
  \<^verbatim>\<open>CombineUnorderedCallback\<close>: every element is combined into a fresh state, which the callback keeps;
  \<^verbatim>\<open>combine_unordered\<close> gives the states to the hash state.
\<close>

definition inner_states :: "'s \<Rightarrow> ('s \<Rightarrow> 'v \<Rightarrow> 's res) \<Rightarrow> 'v list \<Rightarrow> 's list res" where
  "inner_states fresh combine elements =
     rfold (\<lambda>x states. rbind (combine fresh x) (\<lambda>inner_state. Inr (states @ [inner_state]))) elements []"

definition combine_unordered_of :: "'s hash_api \<Rightarrow> ('s \<Rightarrow> 'v \<Rightarrow> 's res) \<Rightarrow> 's \<Rightarrow> 'v list \<Rightarrow> 's res" where
  "combine_unordered_of H combine state elements =
     rbind (inner_states (initial H) combine elements) (RunCombineUnordered H state)"

definition hash_unordered_set :: "host \<Rightarrow> 's hash_api \<Rightarrow> ('s \<Rightarrow> 'v \<Rightarrow> 's res) \<Rightarrow> 's \<Rightarrow> 'v list \<Rightarrow> 's res" where
  "hash_unordered_set h H combine state s =
     rbind (combine_unordered_of H combine state s) (\<lambda>state. hash_size h H state (length s))"

definition hash_unordered_multiset :: "host \<Rightarrow> 's hash_api \<Rightarrow> ('s \<Rightarrow> 'v \<Rightarrow> 's res) \<Rightarrow> 's \<Rightarrow> 'v list \<Rightarrow> 's res" where
  "hash_unordered_multiset h H combine state s =
     rbind (combine_unordered_of H combine state s) (\<lambda>state. hash_size h H state (length s))"

definition hash_unordered_map :: "host \<Rightarrow> 's hash_api \<Rightarrow> ('s \<Rightarrow> 'v \<Rightarrow> 's res) \<Rightarrow> 's \<Rightarrow> 'v list \<Rightarrow> 's res" where
  "hash_unordered_map h H combine state s =
     rbind (combine_unordered_of H combine state s) (\<lambda>state. hash_size h H state (length s))"

definition hash_unordered_multimap :: "host \<Rightarrow> 's hash_api \<Rightarrow> ('s \<Rightarrow> 'v \<Rightarrow> 's res) \<Rightarrow> 's \<Rightarrow> 'v list \<Rightarrow> 's res" where
  "hash_unordered_multimap h H combine state s =
     rbind (combine_unordered_of H combine state s) (\<lambda>state. hash_size h H state (length s))"

section \<open>Wrappers and bit sets\<close>

definition hash_reference :: "('s \<Rightarrow> 'v \<Rightarrow> 's res) \<Rightarrow> 's \<Rightarrow> 'v \<Rightarrow> 's res" where
  "hash_reference combine state opt = combine state opt"

definition hash_optional :: "'s hash_api \<Rightarrow> ('s \<Rightarrow> 'v \<Rightarrow> 's res) \<Rightarrow> 's \<Rightarrow> 'v option \<Rightarrow> 's res" where
  "hash_optional H combine state opt =
     rbind (case opt of Some x \<Rightarrow> combine state x | None \<Rightarrow> Inr state) (\<lambda>state.
     hash_bool H state (opt \<noteq> None))"

text \<open>A variant holds the index of its alternative and a value of it; a valueless one has the index \<^verbatim>\<open>variant_npos\<close>, the largest \<^verbatim>\<open>size_t\<close>.\<close>

definition variant_npos :: "host \<Rightarrow> nat" where
  "variant_npos h = 2 ^ (8 * size_t_bytes h) - 1"

definition hash_variant ::
  "host \<Rightarrow> 's hash_api \<Rightarrow> ('s \<Rightarrow> 'v \<Rightarrow> 's res) list \<Rightarrow> 's \<Rightarrow> (nat \<times> 'v) option \<Rightarrow> 's res" where
  "hash_variant h H combines state v =
     (case v of
        Some (i, x) \<Rightarrow>
          if i < length combines
          then rbind ((combines ! i) state x) (\<lambda>state. hash_size h H state i)
          else Inl OutOfRange
      | None \<Rightarrow> hash_size h H state (variant_npos h))"

definition hash_bitset :: "host \<Rightarrow> 's hash_api \<Rightarrow> memory \<Rightarrow> 's \<Rightarrow> bool list \<Rightarrow> 's res" where
  "hash_bitset h H garbage state bits =
     rbind (combine_pieces (contiguous H) garbage state (map (\<lambda>i. [if bits ! i then 1 else 0]) [0..<length bits])) (\<lambda>state.
     hash_size h H state (length bits))"

end
