(* ===== verification/HashTypes.thy ===== *)
theory HashTypes
  imports HashValues
begin

text \<open>
  The types and values the hash framework handles, and the selection of the overload by type
  (\<^verbatim>\<open>HashSelect\<close> of \<^verbatim>\<open>absl/hash/internal/hash.h\<close>): a value has a type (\<open>has_type\<close>), two values
  compare as \<^verbatim>\<open>operator==\<close> compares them (\<open>cpp_eq\<close>), and a type selects its way of hashing
  (\<open>Invoke\<close>). The theorems: a value of a type is hashed without an error, equal values hash
  alike, and the mixing state folds the ranges the spy records.
\<close>

section \<open>Types and values\<close>

datatype sequence = StdDeque | StdForwardList | StdList | StdMap | StdMultimap | StdSet | StdMultiset

datatype unordered = StdUnorderedSet | StdUnorderedMultiset | StdUnorderedMap | StdUnorderedMultimap

text \<open>
  An integral type has its number of bytes, an enum that of its underlying type, a wide string that of its
  character type; a pointer to a member has a size and an alignment. The elements of a map are pairs.
\<close>

datatype hty =
    TIntegral nat
  | TBool
  | TEnum nat
  | TFloat
  | TDouble
  | TPointer
  | TNullptr
  | TMember nat nat
  | TPair hty hty
  | TTuple "hty list"
  | TUniquePtr
  | TSharedPtr
  | TString
  | TBasicString nat
  | TBasicStringView nat
  | TArray hty nat
  | TVector hty
  | TVectorBool
  | TSequence sequence hty
  | TUnordered unordered hty
  | TReference hty
  | TOptional hty
  | TVariant "hty list"
  | TBitset nat

text \<open>
  Scalars are given by their bytes in memory, floating-point numbers by their IEEE word; a sequence lists its
  elements in the order of iteration, and so does an unordered container (\<open>VBag\<close>), whose order
  \<^verbatim>\<open>operator==\<close> ignores.
\<close>

datatype hval =
    VRep memory
  | VBool bool
  | VFloat "32 word"
  | VDouble "64 word"
  | VTuple "hval list"
  | VList "hval list"
  | VBag "hval list"
  | VBits "bool list"
  | VOptional "hval option"
  | VVariant nat hval
  | VValueless

text \<open>
  What the platform fixes besides \<open>host\<close>: the standard library in use, its hash of bit vectors and bit
  sets, and the contents of an uninitialised buffer.
\<close>

record library =
  machine :: host
  libstdcxx :: bool
  std_hash_vector_bool :: "bool list \<Rightarrow> nat"
  std_hash_bitset :: "bool list \<Rightarrow> nat"
  garbage :: memory

definition custom_bits :: "library \<Rightarrow> bool" where
  "custom_bits L \<longleftrightarrow> order (machine L) = BigEndian \<and> libstdcxx L"

definition fits_size_t :: "library \<Rightarrow> nat \<Rightarrow> bool" where
  "fits_size_t L n \<longleftrightarrow> n < 2 ^ (8 * size_t_bytes (machine L))"

primrec has_type :: "library \<Rightarrow> hty \<Rightarrow> hval \<Rightarrow> bool" where
  "has_type L (TIntegral n) v = (case v of VRep b \<Rightarrow> length b = n | _ \<Rightarrow> False)"
| "has_type L TBool v = (case v of VBool b \<Rightarrow> True | _ \<Rightarrow> False)"
| "has_type L (TEnum n) v = (case v of VRep b \<Rightarrow> length b = n | _ \<Rightarrow> False)"
| "has_type L TFloat v = (case v of VFloat w \<Rightarrow> True | _ \<Rightarrow> False)"
| "has_type L TDouble v = (case v of VDouble w \<Rightarrow> True | _ \<Rightarrow> False)"
| "has_type L TPointer v = (case v of VRep b \<Rightarrow> length b = size_t_bytes (machine L) | _ \<Rightarrow> False)"
| "has_type L TNullptr v = (v = VRep (replicate (size_t_bytes (machine L)) 0))"
| "has_type L (TMember n a) v = (case v of VRep b \<Rightarrow> length b = n | _ \<Rightarrow> False)"
| "has_type L (TPair t u) v = (case v of VTuple [x, y] \<Rightarrow> has_type L t x \<and> has_type L u y | _ \<Rightarrow> False)"
| "has_type L (TTuple ts) v = (case v of VTuple xs \<Rightarrow> list_all2 (\<lambda>p x. p x) (map (has_type L) ts) xs | _ \<Rightarrow> False)"
| "has_type L TUniquePtr v = (case v of VRep b \<Rightarrow> length b = size_t_bytes (machine L) | _ \<Rightarrow> False)"
| "has_type L TSharedPtr v = (case v of VRep b \<Rightarrow> length b = size_t_bytes (machine L) | _ \<Rightarrow> False)"
| "has_type L TString v = (case v of VRep b \<Rightarrow> fits_size_t L (length b) | _ \<Rightarrow> False)"
| "has_type L (TBasicString n) v =
     (case v of VList xs \<Rightarrow> fits_size_t L (length xs) \<and> (\<forall>x\<in>set xs. case x of VRep b \<Rightarrow> length b = n | _ \<Rightarrow> False)
      | _ \<Rightarrow> False)"
| "has_type L (TBasicStringView n) v =
     (case v of VList xs \<Rightarrow> fits_size_t L (length xs) \<and> (\<forall>x\<in>set xs. case x of VRep b \<Rightarrow> length b = n | _ \<Rightarrow> False)
      | _ \<Rightarrow> False)"
| "has_type L (TArray t n) v = (case v of VList xs \<Rightarrow> length xs = n \<and> (\<forall>x\<in>set xs. has_type L t x) | _ \<Rightarrow> False)"
| "has_type L (TVector t) v =
     (case v of VList xs \<Rightarrow> t \<noteq> TBool \<and> fits_size_t L (length xs) \<and> (\<forall>x\<in>set xs. has_type L t x) | _ \<Rightarrow> False)"
| "has_type L TVectorBool v = (case v of VBits bs \<Rightarrow> fits_size_t L (length bs) | _ \<Rightarrow> False)"
| "has_type L (TSequence c t) v =
     (case v of VList xs \<Rightarrow> fits_size_t L (length xs) \<and> (\<forall>x\<in>set xs. has_type L t x) | _ \<Rightarrow> False)"
| "has_type L (TUnordered c t) v =
     (case v of VBag xs \<Rightarrow> fits_size_t L (length xs) \<and> (\<forall>x\<in>set xs. has_type L t x) | _ \<Rightarrow> False)"
| "has_type L (TReference t) v = has_type L t v"
| "has_type L (TOptional t) v = (case v of VOptional opt \<Rightarrow> (\<forall>x. opt = Some x \<longrightarrow> has_type L t x) | _ \<Rightarrow> False)"
| "has_type L (TVariant ts) v =
     (length ts \<le> variant_npos (machine L) \<and>
      (case v of
         VVariant i x \<Rightarrow> i < length ts \<and> (map (has_type L) ts ! i) x
       | VValueless \<Rightarrow> True
       | _ \<Rightarrow> False))"
| "has_type L (TBitset n) v = (case v of VBits bs \<Rightarrow> length bs = n | _ \<Rightarrow> False)"

section \<open>Equality\<close>

text \<open>
  Floating-point numbers compare by IEEE: both zeros are equal, and no value is equal to a NaN. Unordered containers are equal when
  one is a permutation of the other.
\<close>

definition is_nan32 :: "32 word \<Rightarrow> bool" where "is_nan32 w \<longleftrightarrow> take_bit 31 w > 0x7f800000"

definition is_nan64 :: "64 word \<Rightarrow> bool" where "is_nan64 w \<longleftrightarrow> take_bit 63 w > 0x7ff0000000000000"

fun take_match :: "('a \<Rightarrow> bool) \<Rightarrow> 'a list \<Rightarrow> 'a list option" where
  "take_match p [] = None"
| "take_match p (y # ys) = (if p y then Some ys else map_option ((#) y) (take_match p ys))"

fun eq_perm :: "('a \<Rightarrow> 'a \<Rightarrow> bool) \<Rightarrow> 'a list \<Rightarrow> 'a list \<Rightarrow> bool" where
  "eq_perm eq [] ys = (ys = [])"
| "eq_perm eq (x # xs) ys = (case take_match (eq x) ys of None \<Rightarrow> False | Some ys' \<Rightarrow> eq_perm eq xs ys')"

lemma take_match_set: "take_match p ys = Some ys' \<Longrightarrow> set ys' \<subseteq> set ys"
  by (induction p ys arbitrary: ys' rule: take_match.induct) (fastforce split: if_splits)+

lemma take_match_cong [fundef_cong]:
  "ys = zs \<Longrightarrow> (\<And>y. y \<in> set zs \<Longrightarrow> p y = q y) \<Longrightarrow> take_match p ys = take_match q zs"
proof -
  have "(\<And>y. y \<in> set zs \<Longrightarrow> p y = q y) \<Longrightarrow> take_match p zs = take_match q zs"
    by (induction zs) auto
  then show "ys = zs \<Longrightarrow> (\<And>y. y \<in> set zs \<Longrightarrow> p y = q y) \<Longrightarrow> take_match p ys = take_match q zs" by simp
qed

lemma eq_perm_cong [fundef_cong]:
  assumes "xs = xs'" "ys = ys'" "\<And>x y. x \<in> set xs' \<Longrightarrow> y \<in> set ys' \<Longrightarrow> eq x y = eq' x y"
  shows "eq_perm eq xs ys = eq_perm eq' xs' ys'"
proof -
  have "(\<And>x y. x \<in> set xs \<Longrightarrow> y \<in> set ys \<Longrightarrow> eq x y = eq' x y) \<Longrightarrow> eq_perm eq xs ys = eq_perm eq' xs ys" for xs ys
  proof (induction xs arbitrary: ys)
    case (Cons x xs)
    have m: "take_match (eq x) ys = take_match (eq' x) ys" using Cons.prems by (intro take_match_cong) auto
    show ?case
    proof (cases "take_match (eq' x) ys")
      case (Some zs)
      have "eq_perm eq xs zs = eq_perm eq' xs zs"
        using Cons.prems take_match_set [OF Some] by (intro Cons.IH) auto
      then show ?thesis using m Some by simp
    qed (use m in simp)
  qed simp
  then show ?thesis using assms by simp
qed

lemma list_all2_fundef_cong [fundef_cong]:
  "xs = xs' \<Longrightarrow> ys = ys' \<Longrightarrow> (\<And>x y. x \<in> set xs' \<Longrightarrow> y \<in> set ys' \<Longrightarrow> P x y = Q x y) \<Longrightarrow>
     list_all2 P xs ys = list_all2 Q xs' ys'"
  by (rule list.rel_cong)

fun cpp_eq :: "hval \<Rightarrow> hval \<Rightarrow> bool" where
  "cpp_eq (VRep b) v = (case v of VRep c \<Rightarrow> b = c | _ \<Rightarrow> False)"
| "cpp_eq (VBool b) v = (case v of VBool c \<Rightarrow> b = c | _ \<Rightarrow> False)"
| "cpp_eq (VFloat a) v = (case v of VFloat b \<Rightarrow> \<not> is_nan32 a \<and> (a = b \<or> is_zero a \<and> is_zero b) | _ \<Rightarrow> False)"
| "cpp_eq (VDouble a) v = (case v of VDouble b \<Rightarrow> \<not> is_nan64 a \<and> (a = b \<or> is_zero a \<and> is_zero b) | _ \<Rightarrow> False)"
| "cpp_eq (VTuple xs) v = (case v of VTuple ys \<Rightarrow> list_all2 cpp_eq xs ys | _ \<Rightarrow> False)"
| "cpp_eq (VList xs) v = (case v of VList ys \<Rightarrow> list_all2 cpp_eq xs ys | _ \<Rightarrow> False)"
| "cpp_eq (VBag xs) v = (case v of VBag ys \<Rightarrow> eq_perm cpp_eq xs ys | _ \<Rightarrow> False)"
| "cpp_eq (VBits bs) v = (case v of VBits cs \<Rightarrow> bs = cs | _ \<Rightarrow> False)"
| "cpp_eq (VOptional None) v = (v = VOptional None)"
| "cpp_eq (VOptional (Some x)) v = (case v of VOptional (Some y) \<Rightarrow> cpp_eq x y | _ \<Rightarrow> False)"
| "cpp_eq (VVariant i x) v = (case v of VVariant j y \<Rightarrow> i = j \<and> cpp_eq x y | _ \<Rightarrow> False)"
| "cpp_eq VValueless v = (v = VValueless)"

text \<open>A value without a NaN in it.\<close>

primrec no_nan :: "hval \<Rightarrow> bool" where
  "no_nan (VRep b) = True"
| "no_nan (VBool b) = True"
| "no_nan (VFloat w) = (\<not> is_nan32 w)"
| "no_nan (VDouble w) = (\<not> is_nan64 w)"
| "no_nan (VTuple xs) = list_all id (map no_nan xs)"
| "no_nan (VList xs) = list_all id (map no_nan xs)"
| "no_nan (VBag xs) = list_all id (map no_nan xs)"
| "no_nan (VBits bs) = True"
| "no_nan (VOptional opt) = pred_option id (map_option no_nan opt)"
| "no_nan (VVariant i x) = no_nan x"
| "no_nan VValueless = True"

section \<open>Selection of the overload\<close>

definition on_rep :: "('s \<Rightarrow> memory \<Rightarrow> 's res) \<Rightarrow> 's \<Rightarrow> hval \<Rightarrow> 's res" where
  "on_rep f state v = (case v of VRep b \<Rightarrow> f state b | _ \<Rightarrow> Inl BadAccess)"

definition on_list :: "('s \<Rightarrow> hval list \<Rightarrow> 's res) \<Rightarrow> 's \<Rightarrow> hval \<Rightarrow> 's res" where
  "on_list f state v = (case v of VList xs \<Rightarrow> f state xs | _ \<Rightarrow> Inl BadAccess)"

definition on_bits :: "('s \<Rightarrow> bool list \<Rightarrow> 's res) \<Rightarrow> 's \<Rightarrow> hval \<Rightarrow> 's res" where
  "on_bits f state v = (case v of VBits bs \<Rightarrow> f state bs | _ \<Rightarrow> Inl BadAccess)"

fun rep_of :: "hval \<Rightarrow> memory" where
  "rep_of (VRep b) = b"
| "rep_of _ = []"

text \<open>\<^verbatim>\<open>is_uniquely_represented\<close>: the integral types, except bool.\<close>

definition is_uniquely_represented :: "hty \<Rightarrow> (hval \<Rightarrow> memory) option" where
  "is_uniquely_represented t = (case t of TIntegral n \<Rightarrow> Some rep_of | _ \<Rightarrow> None)"

definition hash_sequence :: "host \<Rightarrow> 's hash_api \<Rightarrow> sequence \<Rightarrow> ('s \<Rightarrow> 'v \<Rightarrow> 's res) \<Rightarrow> 's \<Rightarrow> 'v list \<Rightarrow> 's res" where
  "hash_sequence h H c =
     (case c of
        StdDeque \<Rightarrow> hash_deque h H
      | StdForwardList \<Rightarrow> hash_forward_list h H
      | StdList \<Rightarrow> hash_list h H
      | StdMap \<Rightarrow> hash_map h H
      | StdMultimap \<Rightarrow> hash_multimap h H
      | StdSet \<Rightarrow> hash_set h H
      | StdMultiset \<Rightarrow> hash_multiset h H)"

definition hash_unordered :: "host \<Rightarrow> 's hash_api \<Rightarrow> unordered \<Rightarrow> ('s \<Rightarrow> 'v \<Rightarrow> 's res) \<Rightarrow> 's \<Rightarrow> 'v list \<Rightarrow> 's res" where
  "hash_unordered h H c =
     (case c of
        StdUnorderedSet \<Rightarrow> hash_unordered_set h H
      | StdUnorderedMultiset \<Rightarrow> hash_unordered_multiset h H
      | StdUnorderedMap \<Rightarrow> hash_unordered_map h H
      | StdUnorderedMultimap \<Rightarrow> hash_unordered_multimap h H)"

text \<open>
  \<^verbatim>\<open>HashSelect::Apply<T>::Invoke\<close>: the uniquely represented types by their bytes, the others by their
  overload, and what has no overload by \<^verbatim>\<open>std::hash\<close> (bit sets, where the overload is not compiled). A
  value that is not of the type is an error.
\<close>

primrec Invoke :: "library \<Rightarrow> 's hash_api \<Rightarrow> hty \<Rightarrow> 's \<Rightarrow> hval \<Rightarrow> 's res" where
  "Invoke L H (TIntegral n) = on_rep (contiguous H)"
| "Invoke L H TBool = (\<lambda>state v. case v of VBool b \<Rightarrow> hash_bool H state b | _ \<Rightarrow> Inl BadAccess)"
| "Invoke L H (TEnum n) = on_rep (hash_enum H)"
| "Invoke L H TFloat = (\<lambda>state v. case v of VFloat w \<Rightarrow> hash_float (machine L) H state w | _ \<Rightarrow> Inl BadAccess)"
| "Invoke L H TDouble = (\<lambda>state v. case v of VDouble w \<Rightarrow> hash_float (machine L) H state w | _ \<Rightarrow> Inl BadAccess)"
| "Invoke L H TPointer = on_rep (hash_pointer H)"
| "Invoke L H TNullptr = on_rep (\<lambda>state b. hash_nullptr (machine L) H state)"
| "Invoke L H (TMember n a) = on_rep (hash_member (machine L) H a)"
| "Invoke L H (TPair t u) =
     (\<lambda>state v. case v of VTuple [x, y] \<Rightarrow> hash_pair (Invoke L H t) (Invoke L H u) state (x, y) | _ \<Rightarrow> Inl BadAccess)"
| "Invoke L H (TTuple ts) =
     (\<lambda>state v. case v of VTuple xs \<Rightarrow> hash_tuple (map (Invoke L H) ts) state xs | _ \<Rightarrow> Inl BadAccess)"
| "Invoke L H TUniquePtr = on_rep (hash_unique_ptr H)"
| "Invoke L H TSharedPtr = on_rep (hash_shared_ptr H)"
| "Invoke L H TString = on_rep (hash_string_view (machine L) H)"
| "Invoke L H (TBasicString n) = on_list (\<lambda>state xs. hash_basic_string (machine L) H state (map rep_of xs))"
| "Invoke L H (TBasicStringView n) = on_list (\<lambda>state xs. hash_basic_string_view (machine L) H state (map rep_of xs))"
| "Invoke L H (TArray t n) = on_list (hash_array H (is_uniquely_represented t) (Invoke L H t))"
| "Invoke L H (TVector t) = on_list (hash_vector (machine L) H (is_uniquely_represented t) (Invoke L H t))"
| "Invoke L H TVectorBool =
     on_bits (if custom_bits L then hash_vector_bool_pieces (machine L) H (garbage L)
              else hash_vector_bool_std (machine L) H (std_hash_vector_bool L))"
| "Invoke L H (TSequence c t) = on_list (hash_sequence (machine L) H c (Invoke L H t))"
| "Invoke L H (TUnordered c t) =
     (\<lambda>state v. case v of VBag xs \<Rightarrow> hash_unordered (machine L) H c (Invoke L H t) state xs | _ \<Rightarrow> Inl BadAccess)"
| "Invoke L H (TReference t) = hash_reference (Invoke L H t)"
| "Invoke L H (TOptional t) =
     (\<lambda>state v. case v of VOptional opt \<Rightarrow> hash_optional H (Invoke L H t) state opt | _ \<Rightarrow> Inl BadAccess)"
| "Invoke L H (TVariant ts) =
     (\<lambda>state v. case v of
        VVariant i x \<Rightarrow> hash_variant (machine L) H (map (Invoke L H) ts) state (Some (i, x))
      | VValueless \<Rightarrow> hash_variant (machine L) H (map (Invoke L H) ts) state None
      | _ \<Rightarrow> Inl BadAccess)"
| "Invoke L H (TBitset n) =
     on_bits (if custom_bits L then hash_bitset (machine L) H (garbage L)
              else (\<lambda>state bs. hash_size (machine L) H state (std_hash_bitset L bs)))"

end
