(* ===== verification/HashLaws.thy ===== *)
theory HashLaws
  imports HashTypes
begin

text \<open>
  What holds of the overloads over any hash state that keeps a contract, and of the two hash states:
  simulation between hash states, the absence of errors for typed values, and equal hashes for equal values.
\<close>

section \<open>Simulation between hash states\<close>

definition res_map :: "('a \<Rightarrow> 'b) \<Rightarrow> 'a res \<Rightarrow> 'b res" where
  "res_map f m = rbind m (\<lambda>a. Inr (f a))"

lemma res_map_simps [simp]: "res_map f (Inr a) = Inr (f a)" "res_map f (Inl e) = Inl e"
  by (simp_all add: res_map_def)

lemma res_map_rbind: "res_map f (rbind m g) = rbind m (\<lambda>a. res_map f (g a))"
  by (cases m) auto

lemma rbind_res_map: "rbind (res_map f m) g = rbind m (\<lambda>a. g (f a))"
  by (cases m) auto

lemma res_map_returns: "returns (res_map f m) \<longleftrightarrow> returns m"
  by (cases m) (auto simp: returns_def)

lemma rfold_sim:
  "(\<And>x s. x \<in> set xs \<Longrightarrow> g x (f s) = res_map f (k x s)) \<Longrightarrow> rfold g xs (f s) = res_map f (rfold k xs s)"
  by (induction xs arbitrary: s) (auto simp: res_map_rbind rbind_res_map)

lemma rfold_Nil_eq: "rfold f [] = Inr"
  by (rule ext) simp

lemma rfold_Cons_eq: "rfold f (x # xs) = (\<lambda>s. rbind (f x s) (rfold f xs))"
  by (rule ext) simp

text \<open>The step of one hash state followed by a map of the state is the step of the other.\<close>

locale simulation =
  fixes abs :: "'s \<Rightarrow> 'r" and combine :: "'s \<Rightarrow> memory \<Rightarrow> 's res" and combine' :: "'r \<Rightarrow> memory \<Rightarrow> 'r res"
  assumes sim: "combine' (abs s) b = res_map abs (combine s b)"
begin

lemma chunks_loop_sim:
  "chunks_loop combine' (abs s) d = rbind (chunks_loop combine s d) (\<lambda>(s, d). Inr (abs s, d))"
proof (induction "length d" arbitrary: s d rule: less_induct)
  case less
  show ?case
  proof (cases "PiecewiseChunkSize \<le> length d")
    case True
    then have "length (drop PiecewiseChunkSize d) < length d" by (simp add: PiecewiseChunkSize_def)
    from less [OF this] show ?thesis using True
      by (simp add: chunks_loop.simps [of combine s d] chunks_loop.simps [of combine' "abs s" d] sim rbind_res_map rbind_assoc)
  next
    case False
    then show ?thesis by (simp add: chunks_loop.simps)
  qed
qed

lemma add_buffer_sim:
  "add_buffer combine' this (abs s) d = rbind (add_buffer combine this s d) (\<lambda>(this, s). Inr (this, abs s))"
  by (simp add: add_buffer_def sim chunks_loop_sim rbind_res_map rbind_assoc rbind_assoc2 Let_def split_def)

lemma add_pieces_sim:
  "add_pieces combine' this (abs s) ps = rbind (add_pieces combine this s ps) (\<lambda>(this, s). Inr (this, abs s))"
  by (induction ps arbitrary: this s) (simp_all add: add_buffer_sim rbind_assoc split_def)

lemma combine_pieces_sim:
  "combine_pieces combine' g0 (abs s) ps = res_map abs (combine_pieces combine g0 s ps)"
  by (simp add: combine_pieces_def add_pieces_sim finalize_def sim res_map_rbind rbind_assoc split_def)

end

text \<open>Every hash state that never fails is simulated by the one with a single state, so pieces never fail.\<close>

lemma combine_pieces_returns:
  assumes "\<And>s b. returns (combine s b)" "length g0 = PiecewiseChunkSize"
  shows "returns (combine_pieces combine g0 s ps)"
proof -
  have "hash_state (\<lambda>(u :: unit) (b :: memory). Inr u)" by unfold_locales auto
  then have "combine_pieces (\<lambda>u b. Inr u) g0 () ps = Inr ()"
    using assms(2) by (simp add: hash_state.pieces_combine)
  moreover have "simulation (\<lambda>_. ()) combine (\<lambda>u b. Inr u)"
  proof
    show "Inr () = res_map (\<lambda>_. ()) (combine s b)" for s b using assms(1) [of s b] by (auto simp: returns_def)
  qed
  ultimately have "res_map (\<lambda>_. ()) (combine_pieces combine g0 s ps) = Inr ()"
    by (simp add: simulation.combine_pieces_sim [symmetric])
  then show ?thesis by (metis res_map_returns returns_Inr)
qed

section \<open>Simulation of the overloads\<close>

lemma hash_forward_list_eq: "hash_forward_list h H combine state xs = hash_list h H combine state xs"
proof -
  have "rfold (\<lambda>t (s, size). rbind (combine s t) (\<lambda>s. Inr (s, size + 1))) xs (state, n) =
      rbind (rfold (\<lambda>x s. combine s x) xs state) (\<lambda>s. Inr (s, n + length xs))" for n
    by (induction xs arbitrary: state n) (auto simp: rbind_assoc)
  then show ?thesis by (simp add: hash_forward_list_def hash_list_def combine_each_def rbind_assoc)
qed

lemma hash_sequence_eq: "hash_sequence h H c = hash_list h H"
  by (cases c) (simp_all add: hash_sequence_def hash_deque_def hash_list_def hash_map_def hash_multimap_def
      hash_set_def hash_multiset_def hash_forward_list_eq fun_eq_iff)

lemma hash_unordered_eq: "hash_unordered h H c = hash_unordered_set h H"
  by (cases c) (simp_all add: hash_unordered_def hash_unordered_set_def hash_unordered_multiset_def
      hash_unordered_map_def hash_unordered_multimap_def fun_eq_iff)

lemma hash_bitset_eq: "hash_bitset h H g0 = hash_vector_bool_pieces h H g0"
proof -
  have "map (\<lambda>i. [if bs ! i then 1 else (0 :: 8 word)]) [0..<length bs] = map (\<lambda>i. [if i then 1 else 0]) bs" for bs
    by (rule nth_equalityI) auto
  then show ?thesis by (simp add: hash_bitset_def hash_vector_bool_pieces_def fun_eq_iff)
qed

lemma hash_tuple_simps [simp]:
  "hash_tuple [] s xs = Inr s" "hash_tuple cs s [] = Inr s"
  "hash_tuple (c # cs) s (x # xs) = rbind (c s x) (\<lambda>s. hash_tuple cs s xs)"
  by (simp_all add: hash_tuple_def combine_values_def)

lemma hash_pair_eq: "hash_pair c d s (x, y) = rbind (c s x) (\<lambda>s. d s y)"
  by (simp add: hash_pair_def combine_values_def rfold_Nil_eq rfold_Cons_eq)

lemmas overload_defs = hash_enum_def hash_bool_def hash_float_def hash_pointer_def hash_nullptr_def hash_member_def
  hash_unique_ptr_def hash_shared_ptr_def hash_string_view_def hash_basic_string_def hash_basic_string_view_def
  hash_array_def hash_vector_def hash_vector_bool_std_def hash_reference_def hash_size_def combine_values_def
  hash_optional_def on_rep_def on_list_def on_bits_def

text \<open>The types in which an unordered container occurs.\<close>

primrec has_unordered :: "hty \<Rightarrow> bool" where
  "has_unordered (TIntegral n) = False"
| "has_unordered TBool = False"
| "has_unordered (TEnum n) = False"
| "has_unordered TFloat = False"
| "has_unordered TDouble = False"
| "has_unordered TPointer = False"
| "has_unordered TNullptr = False"
| "has_unordered (TMember n a) = False"
| "has_unordered (TPair t u) = (has_unordered t \<or> has_unordered u)"
| "has_unordered (TTuple ts) = list_ex id (map has_unordered ts)"
| "has_unordered TUniquePtr = False"
| "has_unordered TSharedPtr = False"
| "has_unordered TString = False"
| "has_unordered (TBasicString n) = False"
| "has_unordered (TBasicStringView n) = False"
| "has_unordered (TArray t n) = has_unordered t"
| "has_unordered (TVector t) = has_unordered t"
| "has_unordered TVectorBool = False"
| "has_unordered (TSequence c t) = has_unordered t"
| "has_unordered (TUnordered c t) = True"
| "has_unordered (TReference t) = has_unordered t"
| "has_unordered (TOptional t) = has_unordered t"
| "has_unordered (TVariant ts) = list_ex id (map has_unordered ts)"
| "has_unordered (TBitset n) = False"

locale hash_simulation =
  fixes abs :: "'s \<Rightarrow> 'r" and H :: "'s hash_api" and H' :: "'r hash_api"
  assumes contiguous_sim: "contiguous H' (abs s) b = res_map abs (contiguous H s b)"

sublocale hash_simulation \<subseteq> simulation abs "contiguous H" "contiguous H'"
  by unfold_locales (rule contiguous_sim)

context hash_simulation
begin

lemma combine_each_sim:
  "(\<And>x s. x \<in> set xs \<Longrightarrow> c' (abs s) x = res_map abs (c s x)) \<Longrightarrow>
     combine_each c' (abs s) xs = res_map abs (combine_each c s xs)"
  unfolding combine_each_def by (rule rfold_sim)

lemma combine_range_sim:
  "(\<And>x s. x \<in> set xs \<Longrightarrow> c' (abs s) x = res_map abs (c s x)) \<Longrightarrow>
     combine_range H' unique c' (abs s) xs = res_map abs (combine_range H unique c s xs)"
  by (simp add: combine_range_def contiguous_sim combine_each_sim split: option.split)

lemma hash_tuple_sim:
  "(\<And>t x s. t \<in> set ts \<Longrightarrow> f' t (abs s) x = res_map abs (f t s x)) \<Longrightarrow>
     hash_tuple (map f' ts) (abs s) xs = res_map abs (hash_tuple (map f ts) s xs)"
proof (induction ts arbitrary: xs s)
  case (Cons t ts)
  then show ?case by (cases xs) (simp_all add: rbind_res_map res_map_rbind)
qed simp

lemma inner_states_sim:
  assumes "abs init = init'" "\<And>x s. x \<in> set xs \<Longrightarrow> c' (abs s) x = res_map abs (c s x)"
  shows "inner_states init' c' xs = res_map (map abs) (inner_states init c xs)"
proof -
  have "rfold (\<lambda>x es. rbind (c' init' x) (\<lambda>e. Inr (es @ [e]))) xs (map abs []) =
      res_map (map abs) (rfold (\<lambda>x es. rbind (c init x) (\<lambda>e. Inr (es @ [e]))) xs [])"
    using assms by (intro rfold_sim) (auto simp: rbind_res_map res_map_rbind)
  then show ?thesis by (simp add: inner_states_def)
qed

lemma pieces_sim:
  "hash_vector_bool_pieces h H' g0 (abs s) bs = res_map abs (hash_vector_bool_pieces h H g0 s bs)"
  by (simp add: hash_vector_bool_pieces_def combine_pieces_sim contiguous_sim hash_size_def res_map_rbind rbind_res_map)

lemmas sim_simps = contiguous_sim combine_each_sim combine_range_sim hash_tuple_sim pieces_sim res_map_rbind rbind_res_map

lemma Invoke_sim:
  assumes "has_unordered t \<Longrightarrow> abs (initial H) = initial H'"
    "\<And>s es. has_unordered t \<Longrightarrow> RunCombineUnordered H' (abs s) (map abs es) = res_map abs (RunCombineUnordered H s es)"
  shows "Invoke L H' t (abs s) v = res_map abs (Invoke L H t s v)"
  using assms
proof (induction t arbitrary: s v)
  case (TPair t u)
  then show ?case by (auto simp: hash_pair_eq sim_simps split: hval.split list.split)
next
  case (TTuple ts)
  have "Invoke L H' t (abs s) x = res_map abs (Invoke L H t s x)" if "t \<in> set ts" for t s x
  proof (rule TTuple.IH [OF that])
    have "has_unordered t \<Longrightarrow> has_unordered (TTuple ts)" using that by (auto simp: list_ex_iff)
    then show "has_unordered t \<Longrightarrow> abs (initial H) = initial H'"
      "\<And>s es. has_unordered t \<Longrightarrow> RunCombineUnordered H' (abs s) (map abs es) = res_map abs (RunCombineUnordered H s es)"
      using TTuple.prems by blast+
  qed
  then show ?case by (auto simp: sim_simps split: hval.split)
next
  case (TUnordered c t)
  have "Invoke L H' t (abs s) x = res_map abs (Invoke L H t s x)" for s x
    using TUnordered.prems by (intro TUnordered.IH) auto
  then have "inner_states (initial H') (Invoke L H' t) xs = res_map (map abs) (inner_states (initial H) (Invoke L H t) xs)" for xs
    using TUnordered.prems(1) by (intro inner_states_sim) auto
  then show ?case using TUnordered.prems(2)
    by (auto simp: hash_unordered_eq hash_unordered_set_def combine_unordered_of_def hash_size_def sim_simps rbind_assoc split: hval.split)
next
  case (TVariant ts)
  have "Invoke L H' t (abs s) x = res_map abs (Invoke L H t s x)" if "t \<in> set ts" for t s x
  proof (rule TVariant.IH [OF that])
    have "has_unordered t \<Longrightarrow> has_unordered (TVariant ts)" using that by (auto simp: list_ex_iff)
    then show "has_unordered t \<Longrightarrow> abs (initial H) = initial H'"
      "\<And>s es. has_unordered t \<Longrightarrow> RunCombineUnordered H' (abs s) (map abs es) = res_map abs (RunCombineUnordered H s es)"
      using TVariant.prems by blast+
  qed
  then show ?case by (auto simp: hash_variant_def hash_size_def sim_simps split: hval.split)
qed (auto simp: overload_defs hash_sequence_eq hash_list_def hash_bitset_eq sim_simps split: hval.split option.split)

end

section \<open>Equality of values\<close>

lemma take_match_elem:
  "take_match p ys = Some ys' \<Longrightarrow> \<exists>y. p y \<and> mset ys = add_mset y (mset ys')"
  by (induction ys arbitrary: ys') (fastforce split: if_splits)+

lemma eq_perm_imp:
  "eq_perm eq xs ys \<Longrightarrow> \<exists>zs. list_all2 eq xs zs \<and> mset zs = mset ys"
proof (induction xs arbitrary: ys)
  case (Cons x xs)
  then obtain ys' where m: "take_match (eq x) ys = Some ys'" "eq_perm eq xs ys'" by (auto split: option.splits)
  from take_match_elem [OF m(1)] obtain y where "eq x y" "mset ys = add_mset y (mset ys')" by blast
  moreover from Cons.IH [OF m(2)] obtain zs where "list_all2 eq xs zs" "mset zs = mset ys'" by blast
  ultimately have "list_all2 eq (x # xs) (y # zs) \<and> mset (y # zs) = mset ys" by simp
  then show ?case by blast
qed simp

lemma cpp_eq_rep_of: "cpp_eq x y \<Longrightarrow> rep_of x = rep_of y"
  by (cases "(x, y)" rule: cpp_eq.cases) (auto split: hval.splits)

lemma cpp_eq_reps: "list_all2 cpp_eq xs ys \<Longrightarrow> map rep_of xs = map rep_of ys"
  by (induction xs ys rule: list_all2_induct) (auto dest: cpp_eq_rep_of)

section \<open>Typed values are hashed without an error\<close>

text \<open>
  What the overloads rely on in a hash state: mixing returns, and the states of the elements of an unordered
  container count in any order.
\<close>

locale total_hash =
  fixes H :: "'s hash_api"
  assumes contiguous_returns: "returns (contiguous H s b)"
    and unordered_returns: "returns (RunCombineUnordered H s es)"
    and unordered_order: "mset es = mset es' \<Longrightarrow> RunCombineUnordered H s es = RunCombineUnordered H s es'"
begin

lemma each_returns:
  "(\<And>x s. x \<in> set xs \<Longrightarrow> returns (c s x)) \<Longrightarrow> returns (combine_each c s xs)"
  unfolding combine_each_def by (induction xs arbitrary: s) (auto intro!: returns_rbind)

lemma range_returns:
  "(\<And>x s. x \<in> set xs \<Longrightarrow> returns (c s x)) \<Longrightarrow> returns (combine_range H unique c s xs)"
  by (simp add: combine_range_def contiguous_returns each_returns split: option.split)

lemma tuple_returns:
  "(\<And>i s. i < length xs \<Longrightarrow> returns ((cs ! i) s (xs ! i))) \<Longrightarrow> length cs = length xs \<Longrightarrow> returns (hash_tuple cs s xs)"
proof (induction cs xs arbitrary: s rule: list_induct2')
  case (4 c cs x xs)
  have "returns (c s x)" using 4(2) [of 0] by simp
  moreover have "returns (hash_tuple cs s xs)" for s
    using 4(2) [of "Suc i" for i] 4(3) by (intro 4(1)) auto
  ultimately show ?case by (auto intro: returns_rbind)
qed simp_all

lemma inner_states_eq:
  assumes "\<And>x. x \<in> set xs \<Longrightarrow> returns (c init x)"
  shows "inner_states init c xs = Inr (map (\<lambda>x. projr (c init x)) xs)"
proof -
  have "(\<And>x. x \<in> set xs \<Longrightarrow> returns (c init x)) \<Longrightarrow>
      rfold (\<lambda>x es. rbind (c init x) (\<lambda>e. Inr (es @ [e]))) xs es = Inr (es @ map (\<lambda>x. projr (c init x)) xs)" for es
  proof (induction xs arbitrary: es)
    case (Cons x xs)
    then obtain e where "c init x = Inr e" by (auto simp: returns_def)
    then show ?case using Cons by simp
  qed simp
  from this [of "[]"] show ?thesis using assms by (simp add: inner_states_def)
qed

lemma Invoke_returns:
  assumes "length (garbage L) = PiecewiseChunkSize" "has_type L t v"
  shows "returns (Invoke L H t s v)"
  using assms(2)
proof (induction t arbitrary: s v)
  case (TPair t u)
  then show ?case by (auto simp: hash_pair_eq intro!: returns_rbind split: hval.splits list.splits)
next
  case (TTuple ts)
  then show ?case
    by (auto simp: list_all2_conv_all_nth intro!: tuple_returns split: hval.splits)
next
  case (TUnordered c t)
  then show ?case
    by (auto simp: hash_unordered_eq hash_unordered_set_def combine_unordered_of_def inner_states_eq hash_size_def
        unordered_returns contiguous_returns intro!: returns_rbind split: hval.splits)
next
  case (TVariant ts)
  then show ?case
    by (auto simp: hash_variant_def hash_size_def contiguous_returns intro!: returns_rbind split: hval.splits)
qed (auto simp: overload_defs hash_sequence_eq hash_list_def hash_bitset_eq hash_vector_bool_pieces_def
      rfold_Nil_eq rfold_Cons_eq contiguous_returns assms(1)
      intro!: returns_rbind each_returns range_returns combine_pieces_returns split: hval.splits option.splits)


text \<open>Equal values of a type leave the hash state alike.\<close>

lemma each_eq:
  "list_all2 eq xs ys \<Longrightarrow> (\<And>x y s. x \<in> set xs \<Longrightarrow> y \<in> set ys \<Longrightarrow> eq x y \<Longrightarrow> c s x = c s y) \<Longrightarrow>
     combine_each c s xs = combine_each c s ys"
  unfolding combine_each_def
  by (induction xs ys arbitrary: s rule: list_all2_induct) (auto intro!: rbind_cong)

lemma range_eq:
  "list_all2 cpp_eq xs ys \<Longrightarrow> (\<And>x y s. x \<in> set xs \<Longrightarrow> y \<in> set ys \<Longrightarrow> cpp_eq x y \<Longrightarrow> c s x = c s y) \<Longrightarrow>
     combine_range H (is_uniquely_represented t) c s xs = combine_range H (is_uniquely_represented t) c s ys"
  using cpp_eq_reps [of xs ys] each_eq [of cpp_eq xs ys c s]
  by (auto simp: combine_range_def is_uniquely_represented_def split: hty.splits)

lemma tuple_eq:
  "list_all2 cpp_eq xs ys \<Longrightarrow>
     (\<And>i s. i < length xs \<Longrightarrow> i < length cs \<Longrightarrow> cpp_eq (xs ! i) (ys ! i) \<Longrightarrow> (cs ! i) s (xs ! i) = (cs ! i) s (ys ! i)) \<Longrightarrow>
     hash_tuple cs s xs = hash_tuple cs s ys"
proof (induction xs ys arbitrary: cs s rule: list_all2_induct)
  case (Cons x xs y ys)
  show ?case
  proof (cases cs)
    case c: (Cons d ds)
    have "d s x = d s y" using Cons.hyps(1) Cons.prems [of 0] c by simp
    moreover have "hash_tuple ds s xs = hash_tuple ds s ys" for s
      using Cons.prems [of "Suc i" for i] c by (intro Cons.IH) auto
    ultimately show ?thesis using c by simp
  qed simp
qed simp

lemma unordered_eq:
  assumes "eq_perm eq xs ys" "\<And>x. x \<in> set xs \<union> set ys \<Longrightarrow> returns (c (initial H) x)"
    "\<And>x y. x \<in> set xs \<Longrightarrow> y \<in> set ys \<Longrightarrow> eq x y \<Longrightarrow> c (initial H) x = c (initial H) y"
  shows "combine_unordered_of H c s xs = combine_unordered_of H c s ys"
proof -
  let ?f = "\<lambda>x. projr (c (initial H) x)"
  from eq_perm_imp [OF assms(1)] obtain zs where z: "list_all2 eq xs zs" "mset zs = mset ys" by blast
  have "map ?f xs = map ?f zs" using z(1) assms(3) mset_eq_setD [OF z(2)]
    by (auto simp: list_all2_conv_all_nth intro!: nth_equalityI) (metis nth_mem)
  then have "mset (map ?f xs) = mset (map ?f ys)" using z(2) by (metis mset_map)
  moreover have "inner_states (initial H) c xs = Inr (map ?f xs)" "inner_states (initial H) c ys = Inr (map ?f ys)"
    using assms(2) by (auto intro!: inner_states_eq)
  ultimately show ?thesis using unordered_order by (simp add: combine_unordered_of_def)
qed

lemma Invoke_eq:
  assumes "length (garbage L) = PiecewiseChunkSize" "has_type L t v" "has_type L t w" "cpp_eq v w"
  shows "Invoke L H t s v = Invoke L H t s w"
  using assms(2-)
proof (induction t arbitrary: s v w)
  case (TPair t u)
  then show ?case by (auto simp: hash_pair_eq intro!: rbind_cong split: hval.splits list.splits)
next
  case (TTuple ts)
  then show ?case
    by (auto simp: list_all2_conv_all_nth intro!: tuple_eq split: hval.splits)
next
  case (TUnordered c t)
  from TUnordered.prems obtain xs ys where v: "v = VBag xs" "w = VBag ys" and e: "eq_perm cpp_eq xs ys"
    and t: "\<And>x. x \<in> set xs \<union> set ys \<Longrightarrow> has_type L t x" by (auto split: hval.splits)
  have "combine_unordered_of H (Invoke L H t) s xs = combine_unordered_of H (Invoke L H t) s ys" for s
    using t TUnordered.IH Invoke_returns [OF assms(1)] by (intro unordered_eq [OF e]) auto
  moreover have "length xs = length ys" using eq_perm_imp [OF e] by (metis list_all2_lengthD mset_eq_length)
  ultimately show ?case by (simp add: v hash_unordered_eq hash_unordered_set_def)
next
  case (TVariant ts)
  then show ?case
    by (auto simp: hash_variant_def intro!: rbind_cong split: hval.splits)
qed (auto simp: overload_defs hash_sequence_eq hash_list_def hash_bitset_eq hash_vector_bool_pieces_def
      rfold_Nil_eq rfold_Cons_eq list_all2_lengthD cpp_eq_reps
      intro!: rbind_cong each_eq range_eq split: hval.splits option.splits)

end

section \<open>The two hash states\<close>

lemma fold_unordered_order: "mset es = mset es' \<Longrightarrow> fold unordered_add es u = fold unordered_add es' u"
  using fold_unordered_perm [of es es' id u] by simp

interpretation mixing_total: total_hash "MixingHashState h" for h
proof
  show "returns (contiguous (MixingHashState h) s b)" for s b
    by (simp add: MixingHashState_def combine_contiguous_returns)
  show "returns (RunCombineUnordered (MixingHashState h) s es)" for s es
    by (simp add: MixingHashState_def hash_bytes_def combine_contiguous_returns)
  show "RunCombineUnordered (MixingHashState h) s es = RunCombineUnordered (MixingHashState h) s es'"
    if "mset es = mset es'" for s es es'
    using that by (simp add: MixingHashState_def fold_unordered_order [OF that])
qed

text \<open>The chunks the spy cuts a range into hold the bytes of the range, and the mixing state does not see the cuts.\<close>

lemma chunks_loop_spy:
  "\<exists>cs rest. chunks_loop (\<lambda>rep c. Inr (rep @ [c])) rep d = Inr (rep @ cs, rest) \<and> d = concat cs @ rest \<and>
     (\<forall>c\<in>set cs. length c = PiecewiseChunkSize)"
proof (induction "length d" arbitrary: rep d rule: less_induct)
  case less
  show ?case
  proof (cases "PiecewiseChunkSize \<le> length d")
    case True
    let ?c = "take PiecewiseChunkSize d" and ?d = "drop PiecewiseChunkSize d"
    from True have "length ?d < length d" by (simp add: PiecewiseChunkSize_def)
    from less [OF this, of "rep @ [?c]"] obtain cs rest where
      "chunks_loop (\<lambda>rep c. Inr (rep @ [c])) (rep @ [?c]) ?d = Inr (rep @ [?c] @ cs, rest)"
      "?d = concat cs @ rest" "\<forall>c\<in>set cs. length c = PiecewiseChunkSize" by auto
    then show ?thesis using True append_take_drop_id [of PiecewiseChunkSize d]
      by (intro exI [of _ "?c # cs"] exI [of _ rest])
        (simp add: chunks_loop.simps [of _ rep d] del: append_take_drop_id)
  qed (auto simp: chunks_loop.simps)
qed

lemma spy_contiguous_chunks:
  "\<exists>cs rest. spy_contiguous rep d = Inr (rep @ cs @ [rest]) \<and> d = concat cs @ rest \<and>
     (\<forall>c\<in>set cs. length c = PiecewiseChunkSize)"
proof (cases "length d > PiecewiseChunkSize")
  case True
  with chunks_loop_spy [of rep d] show ?thesis by (auto simp: spy_contiguous_def)
qed (auto simp: spy_contiguous_def)

interpretation spy_total: total_hash SpyHashState
proof
  show "returns (contiguous SpyHashState s b)" for s b
    using spy_contiguous_chunks [of s b] by (auto simp: SpyHashState_def)
  show "returns (RunCombineUnordered SpyHashState s es)" for s es
    by (simp add: SpyHashState_def spy_unordered_def)
  show "RunCombineUnordered SpyHashState s es = RunCombineUnordered SpyHashState s es'"
    if "mset es = mset es'" for s es es'
  proof -
    have "sort (map concat es) = sort (map concat es')"
      using that by (intro properties_for_sort) (simp_all add: mset_map)
    then show ?thesis by (simp add: SpyHashState_def spy_unordered_def)
  qed
qed

text \<open>The recorded ranges mixed one after the other.\<close>

definition mix_all :: "host \<Rightarrow> 64 word \<Rightarrow> memory list \<Rightarrow> 64 word" where
  "mix_all h s rep = fold (\<lambda>b s. projr (combine_contiguous h s b)) rep s"

lemma combine_contiguous_projr: "combine_contiguous h s b = Inr (projr (combine_contiguous h s b))"
  using combine_contiguous_returns [of h s b] by (auto simp: returns_def)

lemma mix_chunks:
  "\<forall>c\<in>set cs. length c = PiecewiseChunkSize \<Longrightarrow>
     combine_contiguous h s (concat cs @ rest) = Inr (mix_all h s (cs @ [rest]))"
proof (induction cs arbitrary: s)
  case Nil
  then show ?case using combine_contiguous_projr by (simp add: mix_all_def)
next
  case (Cons c cs)
  then show ?case
    using mixing.combine_chunk [of c h s "concat cs @ rest"] combine_contiguous_projr [of h s c]
    by (simp add: mix_all_def) (metis rbind.simps(2))
qed

interpretation spy_mixing: hash_simulation "mix_all h s" SpyHashState "MixingHashState h" for h s
proof
  show "contiguous (MixingHashState h) (mix_all h s rep) b = res_map (mix_all h s) (contiguous SpyHashState rep b)" for rep b
    using spy_contiguous_chunks [of rep b] mix_chunks [of _ h "mix_all h s rep"]
    by (auto simp: MixingHashState_def SpyHashState_def mix_all_def)
qed

text \<open>The flat expansion: all the bytes in one list. The spy's ranges joined are this expansion.\<close>

definition FlatState :: "memory hash_api" where
  "FlatState =
     \<lparr>initial = [], contiguous = (\<lambda>s b. Inr (s @ b)), RunCombineUnordered = (\<lambda>s es. Inr (s @ concat (sort es)))\<rparr>"

interpretation flat_pieces: hash_state "contiguous FlatState"
  by unfold_locales (simp_all add: FlatState_def)

interpretation spy_flat: hash_simulation concat SpyHashState FlatState
proof
  show "contiguous FlatState (concat rep) b = res_map concat (contiguous SpyHashState rep b)" for rep b
    using spy_contiguous_chunks [of rep b] by (auto simp: FlatState_def SpyHashState_def)
qed

lemma spy_flat_Invoke: "Invoke L FlatState t (concat rep) v = res_map concat (Invoke L SpyHashState t rep v)"
  by (rule spy_flat.Invoke_sim) (simp_all add: FlatState_def SpyHashState_def spy_unordered_def)

end
