(* ===== verification/HashExpansion.thy ===== *)
theory HashExpansion
  imports HashLaws
begin

text \<open>
  The expansion of a value: the bytes its overload feeds to the hash state. The expansion is given once
  more, as a function of the type and the value without any hash state (\<open>flat\<close>), and the
  requirements of \<^verbatim>\<open>absl/hash/hash_testing.h\<close> are proved of it: equal values have equal expansions, and
  the expansions of unequal values differ in a way that no byte in front can hide.
\<close>

section \<open>The bytes of a value\<close>

primrec flat :: "library \<Rightarrow> hty \<Rightarrow> hval \<Rightarrow> memory" where
  "flat L (TIntegral n) v = rep_of v"
| "flat L TBool v = (case v of VBool b \<Rightarrow> [if b then 1 else 0] | _ \<Rightarrow> [])"
| "flat L (TEnum n) v = rep_of v"
| "flat L TFloat v = (case v of VFloat w \<Rightarrow> host_bytes (order (machine L)) (if is_zero w then 0 else w) | _ \<Rightarrow> [])"
| "flat L TDouble v = (case v of VDouble w \<Rightarrow> host_bytes (order (machine L)) (if is_zero w then 0 else w) | _ \<Rightarrow> [])"
| "flat L TPointer v = rep_of v @ rep_of v"
| "flat L TNullptr v = rep_of v @ rep_of v"
| "flat L (TMember n a) v = take (salient_ptm_size (toolchain (machine L)) a n) (rep_of v)"
| "flat L (TPair t u) v = (case v of VTuple [x, y] \<Rightarrow> flat L t x @ flat L u y | _ \<Rightarrow> [])"
| "flat L (TTuple ts) v = (case v of VTuple xs \<Rightarrow> concat (map2 (\<lambda>f x. f x) (map (flat L) ts) xs) | _ \<Rightarrow> [])"
| "flat L TUniquePtr v = rep_of v @ rep_of v"
| "flat L TSharedPtr v = rep_of v @ rep_of v"
| "flat L TString v = rep_of v @ size_bytes (machine L) (length (rep_of v))"
| "flat L (TBasicString n) v =
     (case v of VList xs \<Rightarrow> concat (map rep_of xs) @ size_bytes (machine L) (length xs) | _ \<Rightarrow> [])"
| "flat L (TBasicStringView n) v =
     (case v of VList xs \<Rightarrow> concat (map rep_of xs) @ size_bytes (machine L) (length xs) | _ \<Rightarrow> [])"
| "flat L (TArray t n) v = (case v of VList xs \<Rightarrow> concat (map (flat L t) xs) | _ \<Rightarrow> [])"
| "flat L (TVector t) v =
     (case v of VList xs \<Rightarrow> concat (map (flat L t) xs) @ size_bytes (machine L) (length xs) | _ \<Rightarrow> [])"
| "flat L TVectorBool v =
     (case v of VBits bs \<Rightarrow>
        (if custom_bits L then map (\<lambda>b. if b then 1 else 0) bs else size_bytes (machine L) (std_hash_vector_bool L bs)) @
        size_bytes (machine L) (length bs)
      | _ \<Rightarrow> [])"
| "flat L (TSequence c t) v =
     (case v of VList xs \<Rightarrow> concat (map (flat L t) xs) @ size_bytes (machine L) (length xs) | _ \<Rightarrow> [])"
| "flat L (TUnordered c t) v =
     (case v of VBag xs \<Rightarrow> concat (sort (map (flat L t) xs)) @ size_bytes (machine L) (length xs) | _ \<Rightarrow> [])"
| "flat L (TReference t) v = flat L t v"
| "flat L (TOptional t) v =
     (case v of VOptional (Some x) \<Rightarrow> flat L t x @ [1] | VOptional None \<Rightarrow> [0] | _ \<Rightarrow> [])"
| "flat L (TVariant ts) v =
     (case v of
        VVariant i x \<Rightarrow> (map (flat L) ts ! i) x @ size_bytes (machine L) i
      | VValueless \<Rightarrow> size_bytes (machine L) (variant_npos (machine L))
      | _ \<Rightarrow> [])"
| "flat L (TBitset n) v =
     (case v of VBits bs \<Rightarrow>
        if custom_bits L then map (\<lambda>b. if b then 1 else 0) bs @ size_bytes (machine L) n
        else size_bytes (machine L) (std_hash_bitset L bs)
      | _ \<Rightarrow> [])"

lemma flat_contiguous [simp]: "contiguous FlatState s b = Inr (s @ b)"
  by (simp add: FlatState_def)

interpretation flat_total: total_hash FlatState
proof
  show "RunCombineUnordered FlatState s es = RunCombineUnordered FlatState s es'" if "mset es = mset es'" for s es es'
  proof -
    have "sort es = sort es'" using that by (intro properties_for_sort) simp_all
    then show ?thesis by (simp add: FlatState_def)
  qed
qed (simp_all add: FlatState_def)

lemma each_flat:
  "(\<And>x s. x \<in> set xs \<Longrightarrow> c s x = Inr (s @ f x)) \<Longrightarrow> combine_each c s xs = Inr (s @ concat (map f xs))"
  unfolding combine_each_def by (induction xs arbitrary: s) auto

lemma unique_flat: "is_uniquely_represented t = Some r \<Longrightarrow> r = flat L t"
  by (cases t) (auto simp: is_uniquely_represented_def)

lemma range_flat:
  assumes "\<And>x s. x \<in> set xs \<Longrightarrow> Invoke L FlatState t s x = Inr (s @ flat L t x)"
  shows "combine_range FlatState (is_uniquely_represented t) (Invoke L FlatState t) s xs = Inr (s @ concat (map (flat L t) xs))"
proof (cases "is_uniquely_represented t")
  case None
  then show ?thesis using assms by (simp add: combine_range_def each_flat)
next
  case (Some r)
  from unique_flat [OF this, of L] Some show ?thesis by (simp add: combine_range_def)
qed

lemma tuple_flat:
  "(\<And>t x s. t \<in> set ts \<Longrightarrow> has_type L t x \<Longrightarrow> Invoke L FlatState t s x = Inr (s @ flat L t x)) \<Longrightarrow>
     list_all2 (\<lambda>p x. p x) (map (has_type L) ts) xs \<Longrightarrow>
     hash_tuple (map (Invoke L FlatState) ts) s xs = Inr (s @ concat (map2 (\<lambda>f x. f x) (map (flat L) ts) xs))"
proof (induction ts arbitrary: xs s)
  case (Cons t ts)
  then show ?case by (cases xs) auto
qed simp

lemma pieces_flat:
  assumes "length (garbage L) = PiecewiseChunkSize"
  shows "hash_vector_bool_pieces (machine L) FlatState (garbage L) s bs =
    Inr (s @ map (\<lambda>b. if b then 1 else 0) bs @ size_bytes (machine L) (length bs))"
proof -
  have "concat (map (\<lambda>i. [if i then 1 else (0 :: 8 word)]) bs) = map (\<lambda>b. if b then 1 else 0) bs"
    by (induction bs) auto
  then show ?thesis
    by (simp add: hash_vector_bool_pieces_def flat_pieces.pieces_combine [OF assms] hash_size_def)
qed

lemma Invoke_flat:
  assumes "length (garbage L) = PiecewiseChunkSize" "has_type L t v"
  shows "Invoke L FlatState t s v = Inr (s @ flat L t v)"
  using assms(2)
proof (induction t arbitrary: s v)
  case (TPair t u)
  then show ?case by (auto simp: hash_pair_eq split: hval.splits list.splits)
next
  case (TTuple ts)
  then show ?case by (auto intro!: tuple_flat split: hval.splits)
next
  case (TUnordered c t)
  from TUnordered.prems obtain xs where v: "v = VBag xs" "\<And>x. x \<in> set xs \<Longrightarrow> has_type L t x" by (auto split: hval.splits)
  then have i: "Invoke L FlatState t [] x = Inr (flat L t x)" if "x \<in> set xs" for x
    using TUnordered.IH that by simp
  then have "map (\<lambda>x. projr (Invoke L FlatState t [] x)) xs = map (flat L t) xs" by auto
  then have "inner_states (initial FlatState) (Invoke L FlatState t) xs = Inr (map (flat L t) xs)"
    using flat_total.inner_states_eq [of xs "Invoke L FlatState t" "[]"] i by (simp add: FlatState_def)
  then show ?case
    by (simp add: v hash_unordered_eq hash_unordered_set_def combine_unordered_of_def hash_size_def)
      (simp add: FlatState_def)
next
  case (TVariant ts)
  then show ?case by (auto simp: hash_variant_def hash_size_def split: hval.splits)
qed (auto simp: overload_defs hash_sequence_eq hash_list_def hash_bitset_eq pieces_flat [OF assms(1)] range_flat
      rfold_Nil_eq rfold_Cons_eq each_flat split: hval.splits option.splits)

section \<open>Codes that are read from the end\<close>

text \<open>Two words are separated when, whatever stands in front of them, equal ends mean equal words.\<close>

definition separated :: "'a list \<Rightarrow> 'a list \<Rightarrow> bool" where
  "separated u v \<longleftrightarrow> (\<forall>a b. a @ u = b @ v \<longrightarrow> u = v)"

lemma separatedD: "separated u v \<Longrightarrow> a @ u = b @ v \<Longrightarrow> u = v \<and> a = b"
  by (auto simp: separated_def)

lemma separated_suffix: "separated u v \<Longrightarrow> suffix u v \<Longrightarrow> u = v"
  unfolding suffix_def using separatedD by (metis append_Nil)

lemma separated_suffix': "separated u v \<Longrightarrow> suffix v u \<Longrightarrow> u = v"
  unfolding suffix_def using separatedD by (metis append_Nil)

lemma separated_length: "length u = length v \<Longrightarrow> separated u v"
  by (simp add: separated_def)

lemma separated_append:
  "separated u u' \<Longrightarrow> separated v v' \<Longrightarrow> separated (u @ v) (u' @ v')"
  unfolding separated_def by (metis append_assoc append_same_eq)

lemma separated_tag:
  "length s = length s' \<Longrightarrow> (s = s' \<Longrightarrow> separated u u') \<Longrightarrow> separated (u @ s) (u' @ s')"
  unfolding separated_def by (metis append_assoc append_eq_append_conv)

lemma separated_concat:
  "length us = length vs \<Longrightarrow> (\<And>i. i < length us \<Longrightarrow> separated (us ! i) (vs ! i)) \<Longrightarrow>
     a @ concat us = b @ concat vs \<Longrightarrow> us = vs \<and> a = b"
proof (induction us arbitrary: vs rule: rev_induct)
  case (snoc u us)
  then obtain v vs' where v: "vs = vs' @ [v]" "length us = length vs'" by (cases vs rule: rev_cases) auto
  have "separated u v" using snoc.prems(2) [of "length us"] v by (simp add: nth_append)
  moreover have "(a @ concat us) @ u = (b @ concat vs') @ v" using snoc.prems(3) v by simp
  ultimately have "u = v" "a @ concat us = b @ concat vs'" using separatedD by blast+
  moreover have "separated (us ! i) (vs' ! i)" if "i < length us" for i
    using snoc.prems(2) [of i] that v by (simp add: nth_append)
  ultimately show ?case using snoc.IH [of vs'] v by simp
qed simp

lemma separated_concatI:
  "length us = length vs \<Longrightarrow> (\<And>i. i < length us \<Longrightarrow> separated (us ! i) (vs ! i)) \<Longrightarrow> separated (concat us) (concat vs)"
  using separated_concat unfolding separated_def by metis

section \<open>Numbers as bytes\<close>

lemma host_bytes_inject: "8 dvd LENGTH('a) \<Longrightarrow> host_bytes ord (x :: 'a::len word) = host_bytes ord y \<longleftrightarrow> x = y"
  by (metis host_word_bytes)

lemma of_nat_word_inject:
  "n < 2 ^ LENGTH('a) \<Longrightarrow> m < 2 ^ LENGTH('a) \<Longrightarrow> (of_nat n :: 'a::len word) = of_nat m \<longleftrightarrow> n = m"
  by (metis unat_of_nat_small)

lemma length_size_bytes [simp]: "length (size_bytes h n) = size_t_bytes h"
  by (simp add: size_bytes_def size_t_bytes_def)

lemma size_bytes_inject:
  assumes "n < 2 ^ (8 * size_t_bytes h)" "m < 2 ^ (8 * size_t_bytes h)"
  shows "size_bytes h n = size_bytes h m \<longleftrightarrow> n = m"
proof (cases "size8 h")
  case True
  then show ?thesis using assms of_nat_word_inject [where 'a = 64] by (simp add: size_bytes_def size_t_bytes_def host_bytes_inject)
next
  case False
  then show ?thesis using assms of_nat_word_inject [where 'a = 32] by (simp add: size_bytes_def size_t_bytes_def host_bytes_inject)
qed

section \<open>Unequal values\<close>

text \<open>
  The types whose expansion keeps all of the value: bit vectors and bit sets only where their own overload is
  compiled, and pointers to members only where no byte is left out.
\<close>

primrec exact :: "library \<Rightarrow> hty \<Rightarrow> bool" where
  "exact L (TIntegral n) = True"
| "exact L TBool = True"
| "exact L (TEnum n) = True"
| "exact L TFloat = True"
| "exact L TDouble = True"
| "exact L TPointer = True"
| "exact L TNullptr = True"
| "exact L (TMember n a) = (salient_ptm_size (toolchain (machine L)) a n = n)"
| "exact L (TPair t u) = (exact L t \<and> exact L u)"
| "exact L (TTuple ts) = list_all id (map (exact L) ts)"
| "exact L TUniquePtr = True"
| "exact L TSharedPtr = True"
| "exact L TString = True"
| "exact L (TBasicString n) = True"
| "exact L (TBasicStringView n) = True"
| "exact L (TArray t n) = exact L t"
| "exact L (TVector t) = exact L t"
| "exact L TVectorBool = custom_bits L"
| "exact L (TSequence c t) = exact L t"
| "exact L (TUnordered c t) = exact L t"
| "exact L (TReference t) = exact L t"
| "exact L (TOptional t) = exact L t"
| "exact L (TVariant ts) = list_all id (map (exact L) ts)"
| "exact L (TBitset n) = custom_bits L"

definition decodes :: "library \<Rightarrow> hty \<Rightarrow> hval \<Rightarrow> hval \<Rightarrow> bool" where
  "decodes L t v w \<longleftrightarrow> separated (flat L t v) (flat L t w) \<and> (flat L t v = flat L t w \<longrightarrow> cpp_eq v w)"

lemma decodes_list:
  assumes "length xs = length ys" "\<And>i. i < length xs \<Longrightarrow> separated (f (xs ! i)) (f (ys ! i))"
    "\<And>i. i < length xs \<Longrightarrow> f (xs ! i) = f (ys ! i) \<Longrightarrow> cpp_eq (xs ! i) (ys ! i)"
  shows "separated (concat (map f xs)) (concat (map f ys))"
    "concat (map f xs) = concat (map f ys) \<Longrightarrow> list_all2 cpp_eq xs ys"
proof -
  show "separated (concat (map f xs)) (concat (map f ys))" using assms(1,2) by (intro separated_concatI) auto
  assume "concat (map f xs) = concat (map f ys)"
  then have "map f xs = map f ys" using separated_concat [of "map f xs" "map f ys" "[]" "[]"] assms(1,2) by simp
  then have "f (xs ! i) = f (ys ! i)" if "i < length xs" for i using that assms(1) by (metis nth_map)
  then show "list_all2 cpp_eq xs ys" using assms(1,3) by (simp add: list_all2_conv_all_nth)
qed

text \<open>A sequence followed by its length, the common shape of the containers.\<close>

lemma decodes_sized:
  assumes "fits_size_t L (length xs)" "fits_size_t L (length ys)"
    "\<And>x y. x \<in> set xs \<Longrightarrow> y \<in> set ys \<Longrightarrow> separated (f x) (f y)"
    "\<And>x y. x \<in> set xs \<Longrightarrow> y \<in> set ys \<Longrightarrow> f x = f y \<Longrightarrow> cpp_eq x y"
  shows "separated (concat (map f xs) @ size_bytes (machine L) (length xs))
      (concat (map f ys) @ size_bytes (machine L) (length ys))"
    "concat (map f xs) @ size_bytes (machine L) (length xs) = concat (map f ys) @ size_bytes (machine L) (length ys) \<Longrightarrow>
     list_all2 cpp_eq xs ys"
proof -
  have len: "length xs = length ys" if "size_bytes (machine L) (length xs) = size_bytes (machine L) (length ys)"
    using that assms(1,2) size_bytes_inject by (auto simp: fits_size_t_def)
  have "separated (concat (map f xs)) (concat (map f ys))" if "length xs = length ys"
    using that assms(3,4) by (intro decodes_list) auto
  then show "separated (concat (map f xs) @ size_bytes (machine L) (length xs))
      (concat (map f ys) @ size_bytes (machine L) (length ys))"
    using len by (intro separated_tag) auto
  assume "concat (map f xs) @ size_bytes (machine L) (length xs) = concat (map f ys) @ size_bytes (machine L) (length ys)"
  then have "size_bytes (machine L) (length xs) = size_bytes (machine L) (length ys)" "concat (map f xs) = concat (map f ys)"
    by (simp_all add: append_eq_append_conv)
  with len show "list_all2 cpp_eq xs ys" using assms(3,4) by (intro decodes_list(2) [of xs ys f]) auto
qed

lemma take_match_finds: "y \<in> set ys \<Longrightarrow> p y \<Longrightarrow> \<exists>ys'. take_match p ys = Some ys'"
  by (induction ys) auto

lemma eq_perm_code:
  assumes "\<And>x y. x \<in> set xs \<Longrightarrow> y \<in> set ys \<Longrightarrow> f x = f y \<longleftrightarrow> eq x y" "mset (map f xs) = mset (map f ys)"
  shows "eq_perm eq xs ys"
  using assms
proof (induction xs arbitrary: ys)
  case (Cons x xs)
  have "f x \<in> set (map f ys)" using Cons.prems(2) by (metis list.set_intros(1) list.simps(9) mset_eq_setD)
  then obtain y where "y \<in> set ys" "eq x y" using Cons.prems(1) by auto
  then obtain ys' where m: "take_match (eq x) ys = Some ys'" using take_match_finds by metis
  from take_match_elem [OF m] obtain z where z: "eq x z" "mset ys = add_mset z (mset ys')" by blast
  then have "z \<in> set ys" by (metis set_mset_mset union_single_eq_member)
  then have "f z = f x" using Cons.prems(1) [of x z] z(1) by simp
  moreover have "mset (map f ys) = add_mset (f z) (mset (map f ys'))" using z(2) by simp
  ultimately have "mset (map f xs) = mset (map f ys')" using Cons.prems(2) by simp
  then show ?case using m Cons.prems(1) take_match_set [OF m] by (auto intro!: Cons.IH)
qed simp

lemma decodes_bag:
  assumes "fits_size_t L (length xs)" "fits_size_t L (length ys)"
    "\<And>x y. x \<in> set xs \<Longrightarrow> y \<in> set ys \<Longrightarrow> separated (f x) (f y)"
    "\<And>x y. x \<in> set xs \<Longrightarrow> y \<in> set ys \<Longrightarrow> f x = f y \<longleftrightarrow> eq x y"
  shows "separated (concat (sort (map f xs)) @ size_bytes (machine L) (length xs))
      (concat (sort (map f ys)) @ size_bytes (machine L) (length ys))"
    "concat (sort (map f xs)) @ size_bytes (machine L) (length xs) =
       concat (sort (map f ys)) @ size_bytes (machine L) (length ys) \<Longrightarrow> eq_perm eq xs ys"
proof -
  have len: "length xs = length ys" if "size_bytes (machine L) (length xs) = size_bytes (machine L) (length ys)"
    using that assms(1,2) size_bytes_inject by (auto simp: fits_size_t_def)
  have nth: "separated (sort (map f xs) ! i) (sort (map f ys) ! i)" if "length xs = length ys" "i < length xs" for i
  proof -
    have "sort (map f xs) ! i \<in> set (map f xs)" "sort (map f ys) ! i \<in> set (map f ys)"
      using that by (metis length_map length_sort nth_mem set_sort)+
    then show ?thesis using assms(3) by auto
  qed
  then have "separated (concat (sort (map f xs))) (concat (sort (map f ys)))" if "length xs = length ys"
    using that by (intro separated_concatI) auto
  then show "separated (concat (sort (map f xs)) @ size_bytes (machine L) (length xs))
      (concat (sort (map f ys)) @ size_bytes (machine L) (length ys))"
    using len by (intro separated_tag) auto
  assume "concat (sort (map f xs)) @ size_bytes (machine L) (length xs) =
       concat (sort (map f ys)) @ size_bytes (machine L) (length ys)"
  then have "size_bytes (machine L) (length xs) = size_bytes (machine L) (length ys)"
    and c: "concat (sort (map f xs)) = concat (sort (map f ys))" by (simp_all add: append_eq_append_conv)
  then have "length xs = length ys" using len by blast
  with c nth have "sort (map f xs) = sort (map f ys)"
    using separated_concat [of "sort (map f xs)" "sort (map f ys)" "[]" "[]"] by simp
  then have "mset (map f xs) = mset (map f ys)" by (metis mset_sort)
  with assms(4) show "eq_perm eq xs ys" by (intro eq_perm_code [of xs ys f eq]) auto
qed

lemma flat_eq:
  assumes "length (garbage L) = PiecewiseChunkSize" "has_type L t v" "has_type L t w" "cpp_eq v w"
  shows "flat L t v = flat L t w"
  using flat_total.Invoke_eq [OF assms, of "[]"] Invoke_flat [OF assms(1,2), of "[]"] Invoke_flat [OF assms(1,3), of "[]"]
  by simp

lemma is_zero_0 [simp]: "is_zero 0"
  by (simp add: is_zero_def)

lemma zeros_inject: "(if is_zero a then 0 else a) = (if is_zero b then 0 else b) \<Longrightarrow> a = b \<or> is_zero a \<and> is_zero b"
  by (auto split: if_splits)

lemma bits_inject:
  "map (\<lambda>b. if b then 1 else (0 :: 8 word)) bs = map (\<lambda>b. if b then 1 else 0) cs \<longleftrightarrow> bs = cs"
  by (rule inj_map_eq_map) (auto simp: inj_def)

lemma bytes_sized:
  assumes "fits_size_t L (length b)" "fits_size_t L (length c)"
  shows "separated (b @ size_bytes (machine L) (length b)) (c @ size_bytes (machine L) (length c))"
    "b @ size_bytes (machine L) (length b) = c @ size_bytes (machine L) (length c) \<Longrightarrow> b = c"
proof -
  have "length b = length c" if "size_bytes (machine L) (length b) = size_bytes (machine L) (length c)"
    using that assms size_bytes_inject by (auto simp: fits_size_t_def)
  then show "separated (b @ size_bytes (machine L) (length b)) (c @ size_bytes (machine L) (length c))"
    by (intro separated_tag) (auto simp: separated_length)
  show "b @ size_bytes (machine L) (length b) = c @ size_bytes (machine L) (length c) \<Longrightarrow> b = c"
    by (simp add: append_eq_append_conv)
qed

lemma chars_sized:
  assumes "fits_size_t L (length xs)" "fits_size_t L (length ys)"
    "\<forall>x\<in>set xs. case x of VRep b \<Rightarrow> length b = n | _ \<Rightarrow> False" "\<forall>x\<in>set ys. case x of VRep b \<Rightarrow> length b = n | _ \<Rightarrow> False"
  shows "separated (concat (map rep_of xs) @ size_bytes (machine L) (length xs))
      (concat (map rep_of ys) @ size_bytes (machine L) (length ys))"
    "concat (map rep_of xs) @ size_bytes (machine L) (length xs) = concat (map rep_of ys) @ size_bytes (machine L) (length ys) \<Longrightarrow>
     list_all2 cpp_eq xs ys"
proof -
  have c: "length (rep_of x) = length (rep_of y)" "rep_of x = rep_of y \<Longrightarrow> cpp_eq x y" if "x \<in> set xs" "y \<in> set ys" for x y
    using bspec [OF assms(3) that(1)] bspec [OF assms(4) that(2)] by (cases x; cases y; simp)+
  note d = decodes_sized [of L xs ys rep_of, OF assms(1,2)]
  show "separated (concat (map rep_of xs) @ size_bytes (machine L) (length xs))
      (concat (map rep_of ys) @ size_bytes (machine L) (length ys))"
    using c by (intro d) (auto simp: separated_length)
  show "concat (map rep_of xs) @ size_bytes (machine L) (length xs) = concat (map rep_of ys) @ size_bytes (machine L) (length ys) \<Longrightarrow>
     list_all2 cpp_eq xs ys"
    using c by (intro d(2)) (auto simp: separated_length)
qed

lemma no_nan_list: "list_all id (map no_nan xs) \<longleftrightarrow> (\<forall>x\<in>set xs. no_nan x)"
  by (simp add: list_all_iff)

lemma decodes_tuple:
  assumes l: "length ts = length xs" "length ts = length ys"
    and d: "\<And>i. i < length ts \<Longrightarrow> decodes L (ts ! i) (xs ! i) (ys ! i)"
  shows "decodes L (TTuple ts) (VTuple xs) (VTuple ys)"
proof -
  let ?us = "map2 (\<lambda>f x. f x) (map (flat L) ts) xs" and ?vs = "map2 (\<lambda>f x. f x) (map (flat L) ts) ys"
  have "separated (concat ?us) (concat ?vs)"
    using d l by (intro separated_concatI) (auto simp: decodes_def)
  moreover have "list_all2 cpp_eq xs ys" if "concat ?us = concat ?vs"
  proof -
    have "?us = ?vs" using separated_concat [of ?us ?vs "[]" "[]"] that d l by (auto simp: decodes_def)
    moreover have "?us ! i = flat L (ts ! i) (xs ! i)" "?vs ! i = flat L (ts ! i) (ys ! i)" if "i < length ts" for i
      using that l by simp_all
    ultimately have "flat L (ts ! i) (xs ! i) = flat L (ts ! i) (ys ! i)" if "i < length ts" for i using that by metis
    then show ?thesis using d l by (simp add: list_all2_conv_all_nth decodes_def)
  qed
  ultimately show ?thesis by (simp add: decodes_def)
qed

lemma variant_shape:
  assumes "has_type L (TVariant ts) u" "no_nan u"
  obtains p i where "flat L (TVariant ts) u = p @ size_bytes (machine L) i" "i \<le> variant_npos (machine L)"
    "u = VValueless \<and> p = [] \<and> i = variant_npos (machine L) \<or>
     (\<exists>x. u = VVariant i x \<and> p = flat L (ts ! i) x \<and> i < length ts \<and> i < variant_npos (machine L) \<and>
        has_type L (ts ! i) x \<and> no_nan x)"
  using assms by (cases u) auto

lemma decodes_variant:
  assumes d: "\<And>i x y. i < length ts \<Longrightarrow> has_type L (ts ! i) x \<Longrightarrow> has_type L (ts ! i) y \<Longrightarrow> no_nan x \<Longrightarrow> no_nan y \<Longrightarrow>
      decodes L (ts ! i) x y"
    and t: "has_type L (TVariant ts) v" "has_type L (TVariant ts) w" "no_nan v" "no_nan w"
  shows "decodes L (TVariant ts) v w"
proof -
  let ?np = "variant_npos (machine L)"
  have n: "?np < 2 ^ (8 * size_t_bytes (machine L))" by (simp add: variant_npos_def size_t_bytes_def)
  obtain p i where v: "flat L (TVariant ts) v = p @ size_bytes (machine L) i" "i \<le> ?np"
    "v = VValueless \<and> p = [] \<and> i = ?np \<or>
     (\<exists>x. v = VVariant i x \<and> p = flat L (ts ! i) x \<and> i < length ts \<and> i < ?np \<and> has_type L (ts ! i) x \<and> no_nan x)"
    using variant_shape [OF t(1,3)] .
  obtain q j where w: "flat L (TVariant ts) w = q @ size_bytes (machine L) j" "j \<le> ?np"
    "w = VValueless \<and> q = [] \<and> j = ?np \<or>
     (\<exists>x. w = VVariant j x \<and> q = flat L (ts ! j) x \<and> j < length ts \<and> j < ?np \<and> has_type L (ts ! j) x \<and> no_nan x)"
    using variant_shape [OF t(2,4)] .
  have inj: "size_bytes (machine L) i = size_bytes (machine L) j \<longleftrightarrow> i = j"
    using v(2) w(2) n by (intro size_bytes_inject) auto
  have k: "separated p q \<and> (p = q \<longrightarrow> cpp_eq v w)" if "i = j"
    using v(3) w(3) d that unfolding decodes_def by (auto simp: separated_length)
  have "separated (p @ size_bytes (machine L) i) (q @ size_bytes (machine L) j)"
    using k inj by (intro separated_tag) auto
  then show ?thesis using v(1) w(1) k inj by (auto simp: decodes_def)
qed

lemma decodes_optional:
  assumes "\<And>x y. m = Some x \<Longrightarrow> n = Some y \<Longrightarrow> decodes L t x y"
  shows "decodes L (TOptional t) (VOptional m) (VOptional n)"
proof -
  have "separated [0] (u @ [1])" "separated (u @ [1]) [0]" "separated [0] [0 :: 8 word]" for u :: memory
    by (simp_all add: separated_def)
  with assms show ?thesis unfolding decodes_def
    by (cases m; cases n) (auto intro!: separated_append separated_length [of "[1]"])
qed

text \<open>Whatever the type, the expansions of two of its values are separated, and equal only for equal values.\<close>

lemma typed_decodes:
  assumes "length (garbage L) = PiecewiseChunkSize"
    and "exact L t" "has_type L t v" "has_type L t w" "no_nan v" "no_nan w"
  shows "decodes L t v w"
  using assms(2-)
proof (induction t arbitrary: v w)
  case (TPair t u)
  then obtain x y x' y' where v: "v = VTuple [x, y]" "w = VTuple [x', y']" by (auto split: hval.splits list.splits)
  then have "decodes L t x x'" "decodes L u y y'" using TPair by simp_all
  then show ?case using separatedD [of "flat L u y" "flat L u y'" "flat L t x" "flat L t x'"]
    unfolding decodes_def v by (auto intro!: separated_append)
next
  case (TTuple ts)
  then obtain xs ys where v: "v = VTuple xs" "w = VTuple ys" by (auto split: hval.splits)
  have l: "length ts = length xs" "length ts = length ys" using TTuple.prems v by (auto dest: list_all2_lengthD)
  moreover have "decodes L (ts ! i) (xs ! i) (ys ! i)" if "i < length ts" for i
    using TTuple.prems that l v by (intro TTuple.IH) (auto simp: list_all2_conv_all_nth no_nan_list list_all_iff)
  ultimately show ?case unfolding v by (rule decodes_tuple)
next
  case (TUnordered c t)
  then obtain xs ys where v: "v = VBag xs" "w = VBag ys" by (auto split: hval.splits)
  have t: "has_type L t x" "no_nan x" if "x \<in> set xs \<union> set ys" for x
    using that TUnordered.prems v by (auto simp: no_nan_list)
  then have d: "decodes L t x y" if "x \<in> set xs" "y \<in> set ys" for x y
    using that TUnordered.IH TUnordered.prems(1) by simp
  have "flat L t x = flat L t y \<longleftrightarrow> cpp_eq x y" if "x \<in> set xs" "y \<in> set ys" for x y
    using d [OF that] flat_eq [OF assms(1)] t that unfolding decodes_def by blast
  then show ?case using TUnordered.prems v d decodes_bag [of L xs ys "flat L t" cpp_eq]
    by (simp add: decodes_def)
next
  case (TVariant ts)
  have "decodes L (ts ! i) x y"
    if "i < length ts" "has_type L (ts ! i) x" "has_type L (ts ! i) y" "no_nan x" "no_nan y" for i x y
    using that TVariant.prems(1) by (intro TVariant.IH) (auto simp: list_all_iff)
  then show ?case using TVariant.prems(2-) by (rule decodes_variant)
next
  case (TOptional t)
  then obtain m n where v: "v = VOptional m" "w = VOptional n" by (auto split: hval.splits)
  show ?case unfolding v by (rule decodes_optional) (use TOptional v in simp)
next
  case (TArray t n)
  then obtain xs ys where v: "v = VList xs" "w = VList ys" by (auto split: hval.splits)
  then show ?case using TArray decodes_list [of xs ys "flat L t"]
    by (auto simp: decodes_def no_nan_list)
next
  case (TVector t)
  then obtain xs ys where v: "v = VList xs" "w = VList ys" by (auto split: hval.splits)
  then show ?case using TVector decodes_sized [of L xs ys "flat L t"]
    by (auto simp: decodes_def no_nan_list)
next
  case (TSequence c t)
  then obtain xs ys where v: "v = VList xs" "w = VList ys" by (auto split: hval.splits)
  then show ?case using TSequence decodes_sized [of L xs ys "flat L t"]
    by (auto simp: decodes_def no_nan_list)
next
  case TString
  then obtain b c where "v = VRep b" "w = VRep c" "fits_size_t L (length b)" "fits_size_t L (length c)"
    by (auto split: hval.splits)
  then show ?case using bytes_sized [of L b c] by (simp add: decodes_def)
next
  case (TBasicString n)
  then obtain xs ys where v: "v = VList xs" "w = VList ys" by (auto split: hval.splits)
  then show ?case using TBasicString.prems chars_sized [of L xs ys n] by (simp add: decodes_def)
next
  case (TBasicStringView n)
  then obtain xs ys where v: "v = VList xs" "w = VList ys" by (auto split: hval.splits)
  then show ?case using TBasicStringView.prems chars_sized [of L xs ys n] by (simp add: decodes_def)
next
  case TVectorBool
  then obtain b c where "v = VBits b" "w = VBits c" "fits_size_t L (length b)" "fits_size_t L (length c)"
    by (auto split: hval.splits)
  then show ?case
    using TVectorBool.prems(1) bytes_sized [of L "map (\<lambda>b. if b then 1 else 0) b" "map (\<lambda>b. if b then 1 else 0) c"] bits_inject
    by (simp add: decodes_def)
next
  case (TBitset n)
  then obtain b c where "v = VBits b" "w = VBits c" "length b = n" "length c = n" by (auto split: hval.splits)
  then show ?case
    using TBitset.prems(1) bits_inject [of b c] by (simp add: decodes_def separated_length)
next
  case TFloat
  then obtain a b where "v = VFloat a" "w = VFloat b" "\<not> is_nan32 a" "\<not> is_nan32 b" by (auto split: hval.splits)
  then show ?case using zeros_inject [of a b] by (auto simp: decodes_def host_bytes_inject separated_length)
next
  case TDouble
  then obtain a b where "v = VDouble a" "w = VDouble b" "\<not> is_nan64 a" "\<not> is_nan64 b" by (auto split: hval.splits)
  then show ?case using zeros_inject [of a b] by (auto simp: decodes_def host_bytes_inject separated_length)
next
  case TBool
  then obtain a b where "v = VBool a" "w = VBool b" by (auto split: hval.splits)
  then show ?case by (auto simp: decodes_def separated_length)
next
  case TNullptr
  then show ?case by (simp add: decodes_def separated_length)
next
  case (TMember n a)
  then obtain b c where "v = VRep b" "w = VRep c" "length b = n" "length c = n" by (auto split: hval.splits)
  with TMember.prems(1) show ?case by (simp add: decodes_def separated_length)
next
  case (TReference t)
  then show ?case by (simp add: decodes_def)
qed (auto simp: decodes_def separated_length split: hval.splits)

end
