(* ===== verification/HashTesting.thy ===== *)
theory HashTesting
  imports HashExpansion
begin

text \<open>
  The test that the framework offers to the writers of hash overloads,
  \<^verbatim>\<open>VerifyTypeImplementsAbslHashCorrectly\<close> of \<^verbatim>\<open>absl/hash/hash_testing.h\<close>: the values are put into classes of equal values,
  then the expansions are compared within a class and between classes. The overloads of the framework
  itself pass it.
\<close>

section \<open>The test\<close>









section \<open>The test passes for overloads that keep the contract\<close>


section \<open>The overloads of the framework\<close>




text \<open>
  The hash of a value: \<^verbatim>\<open>absl::Hash\<close> of its type. An integer takes the fast path of \<^verbatim>\<open>MixingHashState::hash\<close>, any
  other value is combined into a fresh state. \<^verbatim>\<open>HashOf\<close> hashes its arguments as a tuple of references.
\<close>

definition hash_general :: "library \<Rightarrow> hty \<Rightarrow> hval \<Rightarrow> 64 word res" where
  "hash_general L t value = hash_value (machine L) (Invoke L (MixingHashState (machine L)) t) value"

definition HashImpl :: "library \<Rightarrow> hty \<Rightarrow> hval \<Rightarrow> 64 word res" where
  "HashImpl L t value =
     (case is_uniquely_represented t of
        Some rep \<Rightarrow> Inr (hash_integral (machine L) (host_word (order (machine L)) (rep value) :: 64 word))
      | None \<Rightarrow> hash_general L t value)"

definition HashOf :: "library \<Rightarrow> hty list \<Rightarrow> hval list \<Rightarrow> 64 word res" where
  "HashOf L ts values = HashImpl L (TTuple (map TReference ts)) (VTuple values)"

lemma host_word_extend:
  assumes "8 * length b = LENGTH('a)" "LENGTH('a) \<le> LENGTH('b)"
  shows "(ucast (host_word ord b :: 'a::len word) :: 'b::len word) = host_word ord b"
proof -
  have "(ucast (le_word c :: 'a word) :: 'b word) = le_word c" if "8 * length c = LENGTH('a)" for c
    using that assms(2) by (intro bit_word_eqI) (auto simp: bit_simps bit_le_word)
  then show ?thesis using assms(1) by (simp add: host_word_def split: byte_order.split)
qed

lemma combine_bytes_value:
  assumes "8 * length b = LENGTH('a::len)" "LENGTH('a) \<in> {8, 16, 32, 64}"
  shows "combine_contiguous h s b = Inr (Mix h s (host_word (order h) b))"
proof -
  have "host_bytes (order h) (host_word (order h) b :: 'a word) = b"
    using assms(1) by (simp add: host_bytes_def host_word_def split: byte_order.split)
  then show ?thesis
    using hash_bytes_value [OF assms(2), of h s "host_word (order h) b"] host_word_extend [OF assms(1), where 'b = 64] assms(2)
    by (auto simp: hash_bytes_def)
qed

text \<open>For integers of the usual widths the fast path computes what combining does.\<close>

lemma HashImpl_general:
  assumes "has_type L t v" "\<And>n. t = TIntegral n \<Longrightarrow> n \<in> {1, 2, 4, 8}"
  shows "HashImpl L t v = hash_general L t v"
proof (cases "is_uniquely_represented t")
  case (Some rep)
  then obtain n b where t: "t = TIntegral n" "rep = rep_of" "v = VRep b" "length b = n"
    using assms(1) by (cases t; cases v) (auto simp: is_uniquely_represented_def)
  from t assms(2) have "length b \<in> {1, 2, 4, 8}" by simp
  then have "combine_contiguous (machine L) s b = Inr (Mix (machine L) s (host_word (order (machine L)) b))" for s
    using combine_bytes_value [where 'a = 8] combine_bytes_value [where 'a = 16] combine_bytes_value [where 'a = 32]
      combine_bytes_value [where 'a = 64] by auto
  then show ?thesis using t Some
    by (simp add: HashImpl_def hash_general_def hash_value_def hash_integral_def on_rep_def MixingHashState_def)
qed (simp add: HashImpl_def)

text \<open>\<^verbatim>\<open>HashOf(t) == absl::Hash<T>{}(t)\<close> and \<^verbatim>\<open>HashOf(a, b, c) == HashOf(std::make_tuple(a, b, c))\<close>.\<close>

lemma Invoke_references:
  "hash_tuple (map (Invoke L H) (map TReference ts)) s vs = hash_tuple (map (Invoke L H) ts) s vs"
proof -
  have "map (Invoke L H) (map TReference ts) = map (Invoke L H) ts" by (simp add: hash_reference_def fun_eq_iff)
  then show ?thesis by (rule arg_cong [where f = "\<lambda>cs. hash_tuple cs s vs"])
qed

lemma HashOf_single:
  assumes "has_type L t v" "\<And>n. t = TIntegral n \<Longrightarrow> n \<in> {1, 2, 4, 8}"
  shows "HashOf L [t] [v] = HashImpl L t v"
proof -
  have "HashOf L [t] [v] = hash_general L t v"
    by (simp add: HashOf_def HashImpl_def hash_general_def hash_value_def is_uniquely_represented_def hash_reference_def)
  then show ?thesis using HashImpl_general [OF assms] by simp
qed

lemma HashOf_tuple: "HashOf L ts vs = HashOf L [TTuple ts] [VTuple vs]"
  using Invoke_references [of L "MixingHashState (machine L)" ts _ vs]
  by (simp add: HashOf_def HashImpl_def hash_general_def hash_value_def is_uniquely_represented_def hash_reference_def)

text \<open>The unordered containers as the mixing state combines them one element at a time.\<close>

lemma unordered_mixing:
  assumes "\<And>x. x \<in> set xs \<Longrightarrow> returns (c (Seed h) x)"
  shows "combine_unordered_of (MixingHashState h) c s xs = combine_unordered h c s xs"
proof -
  let ?f = "\<lambda>x. projr (c (Seed h) x)"
  have "inner_states (Seed h) c xs = Inr (map ?f xs)"
    using assms by (intro mixing_total.inner_states_eq) auto
  moreover have "\<forall>x\<in>set xs. c (Seed h) x = Inr (?f x)" using assms by (metis returns_def sum.sel(2))
  ultimately show ?thesis using unordered_total [of xs c h ?f s]
    by (simp add: combine_unordered_of_def MixingHashState_def fold_map comp_def)
qed

section \<open>Properties\<close>

text \<open>C30. A value of a type the framework accepts, however deeply its containers are nested, is hashed without an
  error, and the hash fits into a \<^verbatim>\<open>size_t\<close>.\<close>

theorem typed_value_hashes:
  assumes "length (garbage L) = PiecewiseChunkSize" "has_type L t v"
  shows "\<exists>n. HashImpl L t v = Inr n \<and> unat n < 2 ^ (8 * size_t_bytes (machine L))"
proof -
  from mixing_total.Invoke_returns [OF assms, of "machine L" "Seed (machine L)"] obtain s where
    "hash_general L t v = Inr (to_size_t (machine L) s)"
    by (auto simp: returns_def hash_general_def hash_value_def)
  then obtain s where "HashImpl L t v = Inr (to_size_t (machine L) s)"
    by (cases "is_uniquely_represented t") (auto simp: HashImpl_def hash_integral_def)
  moreover have "unat (to_size_t (machine L) s) < 2 ^ (8 * size_t_bytes (machine L))"
    using unat_less [of s] take_bit_nat_less_exp [of 32 "unat s"]
    by (simp add: to_size_t_def size_t_bytes_def unsigned_take_bit_eq)
  ultimately show ?thesis by blast
qed

definition sample_library :: library where
  "sample_library =
     \<lparr>machine = \<lparr>intrinsic = True, toolchain = Gnu, order = LittleEndian, size8 = True, kSeed = 0x1234\<rparr>,
      libstdcxx = True, std_hash_vector_bool = length, std_hash_bitset = length,
      garbage = replicate PiecewiseChunkSize 0\<rparr>"

theorem typed_value_hashes_witness:
  "\<exists>n. HashImpl sample_library (TVector (TPair TString (TOptional TDouble)))
     (VList [VTuple [VRep [0x61, 0x62], VOptional (Some (VDouble 0))], VTuple [VRep [], VOptional None]]) = Inr n \<and> unat n < 2 ^ 64"
  using typed_value_hashes [of sample_library "TVector (TPair TString (TOptional TDouble))"
      "VList [VTuple [VRep [0x61, 0x62], VOptional (Some (VDouble 0))], VTuple [VRep [], VOptional None]]"]
  by (simp add: sample_library_def fits_size_t_def size_t_bytes_def)

text \<open>C31. Values that compare equal have equal hashes: zeros of either sign, and unordered containers whatever the order in which
  their elements come up, at any depth.\<close>

theorem equal_values_hash_alike:
  assumes "length (garbage L) = PiecewiseChunkSize" "has_type L t v" "has_type L t w" "cpp_eq v w"
  shows "HashImpl L t v = HashImpl L t w"
proof (cases "is_uniquely_represented t")
  case None
  then show ?thesis using mixing_total.Invoke_eq [OF assms] by (simp add: HashImpl_def hash_general_def hash_value_def)
next
  case (Some rep)
  then have "rep = rep_of" by (cases t) (auto simp: is_uniquely_represented_def)
  then show ?thesis using Some cpp_eq_rep_of [OF assms(4)] by (simp add: HashImpl_def)
qed

theorem equal_values_hash_alike_witness:
  "HashImpl sample_library (TUnordered StdUnorderedSet (TPair TBool TDouble))
     (VBag [VTuple [VBool True, VDouble 0], VTuple [VBool False, VDouble 3]]) =
   HashImpl sample_library (TUnordered StdUnorderedSet (TPair TBool TDouble))
     (VBag [VTuple [VBool False, VDouble 3], VTuple [VBool True, VDouble 0x8000000000000000]])"
  by (rule equal_values_hash_alike)
    (simp_all add: sample_library_def fits_size_t_def size_t_bytes_def is_zero_def is_nan64_def)

text \<open>The hash is determined by the expansion: for types without unordered containers, hashing a value is mixing the
  ranges the spy records for it, one after the other, errors included.\<close>

theorem mixing_folds_expansion:
  assumes "\<not> has_unordered t"
  shows "Invoke L (MixingHashState h) t s v = res_map (mix_all h s) (Invoke L SpyHashState t [] v)"
  using spy_mixing.Invoke_sim [of t h s L "[]" v] assms by (simp add: mix_all_def)

theorem mixing_folds_expansion_witness:
  "Invoke sample_library (MixingHashState (machine sample_library)) (TSequence StdMap (TPair TString TBool)) 7
     (VList [VTuple [VRep [0x6b], VBool True]]) =
   res_map (mix_all (machine sample_library) 7) (Invoke sample_library SpyHashState (TSequence StdMap (TPair TString TBool)) []
     (VList [VTuple [VRep [0x6b], VBool True]]))"
  by (rule mixing_folds_expansion) simp



end
