(* ===== verification/Spec2Isabelle.thy ===== *)
theory Spec2Isabelle
  imports Scenario Signals FlatHashMap TableValues TableLayout Foundations HashTesting
begin

text \<open>
  A verification of \<^verbatim>\<open>tty-anim\<close>, a terminal roguelike, and of the parts of the vendored Abseil library it
  stands on. Sources are named relative to \<^verbatim>\<open>src/\<close>.

  The program. \<^verbatim>\<open>main.cpp\<close> owns the terminal: it decodes keys, paces frames and draws the difference of two
  frames. Each frame it hands the keys to \<^verbatim>\<open>game.cpp\<close>, whose \<^verbatim>\<open>State\<close> holds a \<^verbatim>\<open>Board\<close> (tiles, entities, an index of
  entities by position, cached fields of vision), runs the turn loop, and renders what the player sees.
  \<^verbatim>\<open>geo.h\<close> and \<^verbatim>\<open>geo.cpp\<close> supply points, matrices, lines of sight and the field-of-vision trie, \<^verbatim>\<open>entity.cpp\<close> the
  creatures, \<^verbatim>\<open>base.h\<close> glyphs and colours. \<^verbatim>\<open>HashMap\<close> is \<^verbatim>\<open>absl::flat_hash_map\<close>, a hash table with control bytes
  searched eight at a time; it uses the bit operations, the byte order functions and the hash functions of
  Abseil, which use its 128-bit integers.

  Conventions. Fallible code returns a value of \<open>res\<close>: an error (\<open>AssertFailed\<close>, \<open>OutOfRange\<close>, \<open>UseAfterFree\<close>,
  \<open>BadAccess\<close>, ...) or a result. Objects reached through pointers live in an explicit store. Machine words are
  words of their width where wrap-around matters; coordinates and sizes are numbers, with lemmas that bound
  them. Loops are functions with termination proofs; where the code may run forever (drawing maps until one
  is usable) the result is optional. Clock readings, the random engine, typed bytes, window size, terminal flags, allocation
  addresses, toolchain, byte order and the size of \<^verbatim>\<open>size_t\<close> are parameters.

  The game.
  \<^item> \<open>Prelude\<close>: errors, folds that may fail, \<open>named_theorems\<close>, lemmas on lists and numbers.
  \<^item> \<open>Base\<close> (\<^verbatim>\<open>base.h\<close>), \<open>Geo\<close> and \<open>Los\<close> and \<open>Fov\<close> (\<^verbatim>\<open>geo.h\<close>, \<^verbatim>\<open>geo.cpp\<close>), \<open>Entities\<close> (\<^verbatim>\<open>entity.h\<close>, \<^verbatim>\<open>entity.cpp\<close>).
  \<^item> \<open>Board\<close>, \<open>Vision\<close>, \<open>MapGen\<close>, \<open>Runs\<close>, \<open>Game\<close>, \<open>Turns\<close>, \<open>Start\<close>, \<open>Render\<close> (\<^verbatim>\<open>game.h\<close>, \<^verbatim>\<open>game.cpp\<close>): \<open>board_ok\<close>, \<open>state_ok\<close> and
    \<open>visions_ok\<close> are the invariants; \<open>Runs\<close> has the abstract turn events as a step relation, which the turn loop of
    \<open>Turns\<close> refines; \<open>Start\<close> the constructor of the state.
  \<^item> \<open>Keys\<close>, \<open>Terminal\<close>, \<open>Screen\<close>, \<open>Timing\<close>, \<open>Program\<close>, \<open>Signals\<close> (\<^verbatim>\<open>main.cpp\<close>): \<open>Screen\<close> interprets the output on a
    screen, \<open>Program\<close> composes the main loop, \<open>Signals\<close> runs it under the signal handlers. \<open>Scenario\<close> builds concrete states.

  Abseil (\<^verbatim>\<open>abseil-cpp/absl\<close>).
  \<^item> \<open>Machine\<close> (memory, \<^verbatim>\<open>unaligned_access.h\<close>), \<open>Endian\<close> (\<^verbatim>\<open>endian.h\<close>), \<open>Bits\<close> (\<^verbatim>\<open>numeric/bits.h\<close>), \<open>U128\<close> and \<open>Int128\<close>
    (\<^verbatim>\<open>numeric/int128\<close>), \<open>City\<close>, \<open>LowLevelHash\<close>, \<open>HashState\<close> (\<^verbatim>\<open>hash/internal\<close>). The code selected by the preprocessor is
    modelled for all toolchains at once. The locale \<open>hash_state\<close> is what the piecewise combiner needs of a
    hash state; the mixing state is its interpretation. \<open>Foundations\<close> holds their properties.
  \<^item> \<open>HashValues\<close> (the overloads of \<^verbatim>\<open>AbslHashValue\<close> in \<^verbatim>\<open>hash/internal/hash.h\<close> over any hash state, and the recording state of
    \<^verbatim>\<open>spy_hash_state.h\<close>), \<open>HashTypes\<close> (the types and values, \<^verbatim>\<open>HashSelect\<close>), \<open>HashLaws\<close> (the locales \<open>simulation\<close>, \<open>hash_simulation\<close>
    and \<open>total_hash\<close>: hash states that follow one another, typed values hash, equal values hash alike), \<open>HashExpansion\<close> (the bytes a value
    expands to, read from the end), \<open>HashTesting\<close> (the test of \<^verbatim>\<open>hash_testing.h\<close>, which the overloads pass, by the locale \<open>hash_contract\<close>).
  \<^item> \<open>CtrlGroup\<close>, \<open>Probe\<close>, \<open>RawHashSet\<close> (\<^verbatim>\<open>container/internal/raw_hash_set.h\<close>, \<^verbatim>\<open>.cc\<close>, \<^verbatim>\<open>raw_hash_map.h\<close>): control bytes and groups,
    probe sequences and capacities, and the table's operations as they are in the code.
  \<^item> \<open>TableShape\<close>, \<open>HashTable\<close>, \<open>Rehash\<close>, \<open>TableOps\<close>, \<open>Iteration\<close>: the invariant \<open>table_ok\<close> and the map \<open>table_map\<close> of a
    table, and the correctness of search, insertion, rehashing (by copy and in place), erasure, clearing,
    reservation and iteration. A table keeps an empty byte in some group of every probe sequence before the
    capacity is passed, which is why searches end; erasure leaves an empty byte only where no search went past.
  \<^item> \<open>TableValues\<close>: tables as values, that is construction, copies, moves, comparison, hashing, erasing by range or
    predicate, merging and node handles. \<open>TableLayout\<close>: the backing array and the packed size field.
  \<^item> \<open>FlatHashMap\<close>: the locales \<open>map_machine\<close> and \<open>hash_map\<close>, interpreted on the table, and the board's index on it.

  What is shown. A session never aborts (C1) and shows the current frame (with 32 rows or more); a tick does
  what the keys and the speeds say; positions, timers, vision caches and drawn frames are right in every
  reachable state; the hash map is a finite map, compared, copied and merged as such, and serves as the board's index; the foundations compute
  what they are named for on every platform; the hash overloads accept every value of their types, respect equality and
  tell unequal values apart. Where the code errs the theorem says how (\<open>removeEntity_dangles\<close>).

  Bounds. The turn loop is a partial function, shown to return from every good state (\<open>turn_loop_refines\<close>); the fuel
  of a traversal of a table need only be its number of elements (\<open>iteration_complete\<close>). Reservations are for tables that 64 bits can address (\<open>legal\<close>).

  Not modelled. The system calls behind the parameters; conversions of 128-bit integers
  to floating point; the SSE2 and NEON variants of the group; sampling and the generation counters of
  sanitizer builds; lookup with keys of another type; the hash of \<^verbatim>\<open>long double\<close>,
  whose bytes the platform decides, the type-erased hash state and the misuse flags of the spy (states used after a move);
  the rest of Abseil, which the program does not call.
\<close>

section \<open>The program\<close>

text \<open>C1. A session of the program never aborts: if the clock offers a seed whose map leaves the
  player's cell free, then for every terminal, every sequence of rounds (bytes typed, clock readings)
  and every die that stays in range, \<open>main\<close> returns, no assertion fails, no exception is thrown and
  no destroyed entity is used; on exit the line flags it cleared are set again.\<close>

theorem main_returns:
  assumes "drawable mt roll clock" "die_ok roll"
  shows "\<exists>out. main mt roll clock flags c_lflag winsize ts rounds = Some (Inr (out, c_lflag OR flags))"
proof -
  obtain t where t: "Terminal mt roll clock flags c_lflag winsize =
      Some (Inr (fst (initTerminal flags True c_lflag), c_lflag AND NOT flags, t))" "term_ok t"
    using Terminal_ok [OF assms(1)] by blast
  let ?s = "\<lparr>s_terminal = t, s_timing = Timing ts, s_stdin = []\<rparr>"
  have "session_ok ?s" using t(2) Timing_ok by (simp add: session_ok_def)
  then obtain out s' where "main_loop roll rounds ?s = Some (Inr (out, s'))"
    using main_loop_ok [OF _ assms(2)] by blast
  moreover have "c_lflag AND NOT flags OR flags = c_lflag OR flags"
    by (simp add: bit_eq_iff bit_simps) blast
  ultimately show ?thesis using t(1) by (simp add: main_def exit_def initTerminal_def)
qed

theorem main_returns_witness:
  "\<exists>out. main demo_mt demo_roll demo_clock 10 0x8a3b (Point 80 40) 5
     [\<lparr>r_block = 6, r_start = 7, r_end = 8, r_count = 1, r_bytes = [104]\<rparr>] = Some (Inr (out, 0x8a3b OR 10))"
  by (rule main_returns [OF demo_drawable demo_die])

text \<open>C2. Signals end the session as the handlers say. The interrupt ends it after the round in which it comes, whatever
  would have come later: the output is that of the session of those rounds, and the terminal's flags are set again. A segmentation
  fault ends the process with status 1 and a backtrace of at most 64 frames, but the destructor of the terminal does not run: the
  line flags stay cleared.\<close>

theorem signals_end_session:
  assumes "drawable mt roll clock" "die_ok roll" "\<forall>x\<in>set pre. e_signals x = []"
  shows "(interrupted e \<longrightarrow>
      (\<exists>out. signal_main mt roll clock flags c_lflag winsize ts stack (pre @ e # post) =
          Some (Inr (Returned out (c_lflag OR flags))) \<and>
        main mt roll clock flags c_lflag winsize ts (map e_round (pre @ [e])) = Some (Inr (out, c_lflag OR flags)))) \<and>
    (\<forall>n sigs. e_signals e = SIGSEGV n # sigs \<longrightarrow>
      (\<exists>out. signal_main mt roll clock flags c_lflag winsize ts stack (pre @ e # post) =
          Some (Inr (Exited 1 (take 64 stack) out (c_lflag AND NOT flags)))))"
  using sigint_returns [OF assms] sigsegv_exits [OF assms] by blast

definition demo_event :: "signal list \<Rightarrow> event" where
  "demo_event sigs = \<lparr>e_round = \<lparr>r_block = 6, r_start = 7, r_end = 8, r_count = 1, r_bytes = [104]\<rparr>, e_signals = sigs\<rparr>"

theorem signals_end_session_witness:
  "(\<exists>out. signal_main demo_mt demo_roll demo_clock 10 0x8a3b (Point 80 40) 5 [''main''] [demo_event [], demo_event [SIGINT], demo_event []] =
      Some (Inr (Returned out (0x8a3b OR 10)))) \<and>
   (\<exists>out. signal_main demo_mt demo_roll demo_clock 10 0x8a3b (Point 80 40) 5 [''main''] [demo_event [], demo_event [SIGSEGV 3]] =
      Some (Inr (Exited 1 [''main''] out (0x8a3b AND NOT 10))))"
  using signals_end_session [OF demo_drawable demo_die, of "[demo_event []]" "demo_event [SIGINT]" 10 "0x8a3b" "Point 80 40" 5 "[''main'']" "[demo_event []]"]
    signals_end_session [OF demo_drawable demo_die, of "[demo_event []]" "demo_event [SIGSEGV 3]" 10 "0x8a3b" "Point 80 40" 5 "[''main'']" "[]"]
  by (auto simp: demo_event_def interrupted_def)



text \<open>C6. In every reachable state of a session each entity stands strictly inside the walled border,
  on a tile that is not blocked, alone in its cell, and is alive.\<close>

theorem reachable_positions:
  assumes "io_reachable mt roll clock io" "die_ok roll" "i \<in> set (m_entities (st_board (io_state io)))"
  shows "\<exists>e. store (st_board (io_state io)) i = Some e \<and> \<not> removed e \<and>
    0 < px (pos e) \<and> px (pos e) < kMapSize - 1 \<and> 0 < py (pos e) \<and> py (pos e) < kMapSize - 1 \<and>
    \<not> blocked_tile (getTile (st_board (io_state io)) (pos e)) \<and>
    (\<forall>j \<in> set (m_entities (st_board (io_state io))). \<forall>e'. store (st_board (io_state io)) j = Some e' \<longrightarrow>
       pos e' = pos e \<longrightarrow> j = i)"
proof -
  let ?s = "io_state io" and ?b = "st_board (io_state io)"
  have g: "game_ok ?s" using io_reachable_ok [OF assms(1,2)] by (simp add: io_ok_def)
  then have ok: "state_ok ?s" by (simp add: game_ok_def at_rest_def)
  have e: "store ?b i = Some (ent ?s i)" "entity_ok ?b (st_player ?s) i (ent ?s i)"
    using state_ok_ent [OF ok] assms(3) by (auto simp: ents_def)
  then have open_tile: "\<not> blocked_tile (getTile ?b (pos (ent ?s i)))" by (simp add: entity_ok_def)
  have "matrix_contains (m_map ?b) (pos (ent ?s i))"
    using open_tile_inside [OF _ open_tile] ok by (simp add: state_ok_def)
  moreover have "\<not> on_border (m_size (m_map ?b)) (pos (ent ?s i))"
    using g open_tile by (auto simp: game_ok_def border_closed_def)
  moreover have "m_size (m_map ?b) = Point kMapSize kMapSize"
    using g by (simp add: game_ok_def getSize_def matrix_size_def)
  ultimately have "0 < px (pos (ent ?s i)) \<and> px (pos (ent ?s i)) < kMapSize - 1 \<and>
      0 < py (pos (ent ?s i)) \<and> py (pos (ent ?s i)) < kMapSize - 1"
    by (auto simp: on_border_def matrix_contains_def)
  moreover have "index_ok ?b" using ok by (simp add: state_ok_def board_ok_def)
  ultimately show ?thesis
    using e open_tile index_ok_pos_inj [OF _ _ assms(3) _ e(1)] by (auto simp: entity_ok_def)
qed

theorem reachable_positions_witness:
  "\<exists>e. store (st_board demo_state) (st_player demo_state) = Some e \<and> \<not> removed e \<and>
    0 < px (pos e) \<and> px (pos e) < kMapSize - 1 \<and> 0 < py (pos e) \<and> py (pos e) < kMapSize - 1"
  using reachable_positions [OF started [OF demo_io_ok(1)] demo_die, of "st_player demo_state"]
    state_okD(3) [OF demo_at_rest(2)] by (auto simp: demo_io_ok(3))



text \<open>C8. Drawing: after \<open>render\<close> every map cell of the frame shows what the player sees there (blank when
  unseen, else the occupant, else the tile), and only the vision cache of the state changed.\<close>

theorem render_draws_view:
  assumes "game_ok s" "frame_ok frame"
  shows "\<exists>s' frame'. render s frame = Inr (s', frame') \<and> game_ok s' \<and> frame_ok frame' \<and>
    (\<exists>c. s' = s\<lparr>st_board := (st_board s)\<lparr>m_vision := c\<rparr>\<rparr>) \<and>
    (\<forall>p. matrix_contains (m_map (st_board s)) p \<longrightarrow>
       matrix_get frame' (frame_cell p) = shown s (player_vision s) p)"
  by (rule render_ok [OF assms])

theorem render_draws_view_witness:
  "\<exists>s' frame'. render demo_state (io_frame demo_io) = Inr (s', frame') \<and> frame_ok frame'"
  using render_draws_view [OF demo_at_rest(3), of "io_frame demo_io"] demo_io_ok(2) by (auto simp: io_ok_def)

text \<open>C9. Drawing only the difference is enough: \<open>draw_frame\<close> leaves the new frame as the remembered one,
  and a screen that showed the old frame shows the new one after its output, unchanged elsewhere.\<close>

theorem draw_frame_correct:
  assumes "frame_ok old" "full_frame frame" "shows_frame off s old" "draw_frame frame off old = (out, new)"
  shows "new = frame \<and> shows_frame off (fold show_out out s) frame \<and>
    (\<forall>p. \<not> matrix_contains frame (p - off) \<longrightarrow> cells (fold show_out out s) p = cells s p)"
  using draw_frame_effect [OF assms] by blast

theorem draw_frame_correct_witness:
  "\<exists>io' out. io_tick demo_roll demo_io = Some (Inr io') \<and>
     draw_frame (io_frame io') (Point 9 4) (io_frame demo_io) = (out, io_frame io') \<and>
     shows_frame (Point 9 4) (fold show_out out demo_screen) (io_frame io')"
proof -
  obtain io' where io': "io_tick demo_roll demo_io = Some (Inr io')"
    using io_tick_ok [OF demo_io_ok(2) demo_die] by blast
  obtain out new where d: "draw_frame (io_frame io') (Point 9 4) (io_frame demo_io) = (out, new)" by fastforce
  have "frame_ok (io_frame demo_io)" using demo_io_ok(2) by (simp add: io_ok_def)
  from draw_frame_correct [OF this io_tick_full(2) [OF demo_io_ok(2) demo_die io'] demo_screen_blank d] io' d
  show ?thesis by auto
qed

section \<open>The state constructor and the turn loop\<close>

text \<open>C10. The constructor of the game state returns exactly when some reading of the clock seeds a map whose
  middle cell is free; then the state is between ticks, the player in the middle of a map closed by
  walls, with at most five Pidgeys.\<close>

theorem State_starts:
  "(\<exists>s. State mt roll clock = Some (Inr s) \<and> initial_ok s) \<longleftrightarrow> drawable mt roll clock"
  using State_returns_iff [of mt roll clock] State_at_rest [of mt roll clock] by blast

text \<open>C11. The turn loop implements the step relation: on a good state it returns the outcome of a run of
  turn events that ends where the player has to be asked for an action, and the result is a good state.\<close>

theorem turn_loop_refines:
  assumes "state_ok s" "die_ok roll"
  shows "\<exists>evs s1 s2. run (turn_event roll) s evs s1 \<and> turn_stop roll s1 s2 \<and>
    turn_loop roll s = Some (Inr s2) \<and> state_ok s2 \<and> st_input s2 = None"
proof -
  obtain evs s1 s2 where r: "run (turn_event roll) s evs s1" "turn_stop roll s1 s2"
    using turns.run_stops assms by blast
  then have "state_ok s1" using turns.run_inv assms by blast
  from turn_stop_effect [OF this r(2)] r turn_loop_run [OF r assms] show ?thesis by auto
qed

theorem turn_loop_refines_witness:
  "\<exists>evs s1 s2. run (turn_event demo_roll) demo_state evs s1 \<and> turn_stop demo_roll s1 s2 \<and>
    turn_loop demo_roll demo_state = Some (Inr s2) \<and> state_ok s2 \<and> st_input s2 = None"
  by (rule turn_loop_refines [OF demo_at_rest(2) demo_die])

text \<open>The body of the turn loop and the step relation agree, one way and the other.\<close>

theorem turn_step_events:
  "turn_step roll s = Inr (go_on, s') \<longleftrightarrow>
     (if go_on then \<exists>ev. turn_event roll s ev s' else turn_stop roll s s')"
  using turn_step_continue_iff [of roll s s'] turn_step_stop_iff [of roll s s'] by (cases go_on) auto

text \<open>C12. Turns are taken round robin: at any point of a run all entities have been charged equally often,
  up to one for those the current lap has already passed.\<close>

theorem turns_are_fair:
  assumes "run (turn_event roll) s evs s'" "state_ok s" "die_ok roll" "i \<in> set (ents s)" "j \<in> set (ents s)"
  shows "count_list evs (Advanced i) \<le> count_list evs (Advanced j) + 1"
proof -
  obtain m where m: "\<And>q. q < length (ents s) \<Longrightarrow> count_list evs (Advanced (ents s ! q)) =
      m + (if ahead (length (ents s)) (m_entityIndex (st_board s)) q <
            ahead (length (ents s)) (m_entityIndex (st_board s)) (m_entityIndex (st_board s')) then 1 else 0)"
    using lap_counts [OF assms(1-3)] by blast
  have "m \<le> count_list evs (Advanced k) \<and> count_list evs (Advanced k) \<le> m + 1" if "k \<in> set (ents s)" for k
    using that m by (auto simp: in_set_conv_nth)
  from this [OF assms(4)] this [OF assms(5)] show ?thesis by linarith
qed

theorem turns_are_fair_witness:
  "\<exists>evs s'. run (turn_event demo_roll) demo_waiting evs s' \<and> (\<exists>s''. turn_stop demo_roll s' s'') \<and>
     count_list evs (Advanced (st_player demo_state)) \<le> count_list evs (Advanced (st_player demo_state)) + 1"
proof -
  obtain evs s1 s2 where "run (turn_event demo_roll) demo_waiting evs s1" "turn_stop demo_roll s1 s2"
    using turns.run_stops [of demo_roll demo_waiting] demo_die demo_waiting_ok(1) by blast
  then show ?thesis
    using turns_are_fair [OF _ demo_waiting_ok(1) demo_die demo_waiting_ok(2,2)] by blast
qed

text \<open>C13. Timers never leave the 32-bit range: along every run an entity's turn timer stays in
  \<open>(-120, 120]\<close> and its move timer at 0.\<close>

theorem timers_bounded:
  assumes "run (turn_event roll) s evs s'" "state_ok s" "die_ok roll" "i \<in> set (ents s')"
  shows "int32 (turn_timer (ent s' i)) \<and> \<bar>turn_timer (ent s' i)\<bar> \<le> 120 \<and> move_timer (ent s' i) = 0"
proof -
  have "state_ok s'" using turns.run_inv [OF assms(1)] assms(2,3) by blast
  from state_ok_ent(2) [OF this assms(4)] show ?thesis
    by (auto simp: entity_ok_def timers_ok_def kTurnTimer_def int32_def)
qed

theorem timers_bounded_witness:
  "\<exists>evs s'. run (turn_event demo_roll) demo_waiting evs s' \<and> (\<exists>s''. turn_stop demo_roll s' s'') \<and>
     \<bar>turn_timer (ent s' (st_player s'))\<bar> \<le> 120"
proof -
  obtain evs s1 s2 where r: "run (turn_event demo_roll) demo_waiting evs s1" "turn_stop demo_roll s1 s2"
    using turns.run_stops [of demo_roll demo_waiting] demo_die demo_waiting_ok(1) by blast
  then have "state_ok s1" using turns.run_inv demo_die demo_waiting_ok(1) by blast
  then have "st_player s1 \<in> set (ents s1)" by (simp add: ents_def state_okD(3))
  from timers_bounded [OF r(1) demo_waiting_ok(1) demo_die this] r show ?thesis by blast
qed

section \<open>Vision and the board\<close>

text \<open>C14. The vision cache is transparent: whatever is cached, \<open>getVision\<close> returns the field of vision computed
  from scratch for the entity's position and the present tiles, and leaves the cache coherent.\<close>

theorem getVision_transparent:
  assumes "visions_ok b" "store b i = Some e" "i \<in> set (m_entities b)"
  shows "\<exists>b'. getVision b i = Inr (fresh_vision b e, b') \<and> visions_ok b' \<and> m_map b' = m_map b \<and> store b' = store b"
  using getVision_ok [OF assms] by auto

theorem getVision_transparent_witness:
  "\<exists>b'. getVision (st_board demo_state) (st_player demo_state) =
     Inr (fresh_vision (st_board demo_state) (ent demo_state (st_player demo_state)), b') \<and> visions_ok b'"
  using getVision_transparent [OF state_okD(2) [OF demo_at_rest(2)] at_restD(4) [OF demo_at_rest(1)]
      state_okD(3) [OF demo_at_rest(2)]] by blast

text \<open>C15. Invalidation on a tile change is sound: after \<open>setTile\<close>, which marks dirty only the visions that see
  the changed cell, every clean cached vision is still the one computed from scratch.\<close>

theorem setTile_keeps_cache:
  assumes "board_ok b" "visions_ok b"
  shows "board_ok (setTile b p t) \<and> visions_ok (setTile b p t) \<and>
    getTile (setTile b p t) q = (if q = p \<and> matrix_contains (m_map b) p then t else getTile b q)"
  using setTile_visions_ok [OF assms(2), of p t] setTile_board_ok [OF assms(1), of p t] assms(1)
  by (auto simp: board_ok_def index_ok_def getTile_def setTile_fields matrix_get_set)

theorem setTile_keeps_cache_witness:
  "visions_ok (setTile (st_board demo_state) (Point 15 14) (projr (tileType (CHR ''#''))))"
  using setTile_keeps_cache [OF state_okD(1,2) [OF demo_at_rest(2)]] by blast





text \<open>Moving an entity to a free cell keeps the board invariant and the vision cache coherent, puts the entity
  there and leaves every other entity where it was.\<close>

theorem moveEntity_moves:
  assumes "board_ok b" "visions_ok b" "i \<in> set (m_entities b)" "store b i = Some e" "getStatus b to = Free"
  shows "\<exists>b'. moveEntity b i to = Inr b' \<and> board_ok b' \<and> visions_ok b' \<and> getEntity b' to = Some i \<and>
    store b' = (store b)(i \<mapsto> e\<lparr>pos := to\<rparr>) \<and> (to \<noteq> pos e \<longrightarrow> getEntity b' (pos e) = None)"
proof -
  have free: "m_entityAtPos b to = None \<or> to = pos e" using assms(5) by (simp add: getStatus_Free_iff)
  have "moveEntity b i to = Inr (moved b i e to)"
    using moveEntity_ok(1) [OF assms(1,3,4) free] by (simp add: moved_def)
  moreover have "getEntity (moved b i e to) to = Some i" "to \<noteq> pos e \<longrightarrow> getEntity (moved b i e to) (pos e) = None"
    by (simp_all add: getEntity_def)
  ultimately show ?thesis using moved_ok [OF assms] by auto
qed

theorem moveEntity_moves_witness:
  "\<exists>b i b'. moveEntity b i (Point 2 0) = Inr b' \<and> board_ok b' \<and> getEntity b' (Point 2 0) = Some i \<and>
     getEntity b' (Point 0 0) = None"
proof -
  obtain b i j e where "board_ok b" "visions_ok b" "i \<in> set (m_entities b)" "store b i = Some e"
    "pos e = Point 0 0" "getStatus b (Point 2 0) = Free" using demo_row by blast
  with moveEntity_moves [OF this(1-4,6)] show ?thesis by force
qed

text \<open>C18. \<open>removeEntity\<close> leaves a dangling pointer: the removed entity is destroyed but still listed, so the
  next use of it through the list is a use after free.\<close>

theorem removeEntity_dangles:
  assumes "board_ok b" "i \<in> set (m_entities b)"
  shows "\<exists>b'. removeEntity b i = Inr b' \<and> i \<in> set (getEntities b') \<and> deref b' i = Inl UseAfterFree"
  using removeEntity_dangling [OF assms] by (simp add: getEntities_def)

theorem removeEntity_dangles_witness:
  "\<exists>b'. removeEntity (st_board demo_state) (st_player demo_state) = Inr b' \<and>
     deref b' (st_player demo_state) = Inl UseAfterFree"
  using removeEntity_dangles [OF state_okD(1,3) [OF demo_at_rest(2)]] by blast

text \<open>C19. The map generator: on an empty board of non-negative size it returns, closes the border with blocked
  tiles, paints only tiles of the table, and its outcome does not depend on the tiles that were there.\<close>

theorem initBoard_closes_border:
  assumes "blank_board sz b" "0 \<le> px sz" "0 \<le> py sz"
  shows "\<exists>b' rng'. initBoard roll b rng = Inr (b', rng') \<and> blank_board sz b' \<and> border_closed b' \<and>
    tiles_known b' \<and> (\<forall>r. initBoard roll b' r = initBoard roll b r)"
  by (rule initBoard_blank [OF assms])

theorem initBoard_closes_border_witness:
  "\<exists>b b' rng'. Board map_size = Inr b \<and> initBoard demo_roll b 3 = Inr (b', rng') \<and> border_closed b'"
proof -
  have sz: "0 \<le> px map_size" "0 \<le> py map_size" by (simp_all add: kMapSize_def)
  obtain b where "Board map_size = Inr b" "blank_board map_size b" using blank_board_Board [OF sz] by blast
  with initBoard_closes_border [OF this(2) sz, of demo_roll 3] show ?thesis by blast
qed

section \<open>Lines of sight\<close>






section \<open>Keys and timing\<close>

text \<open>C23. Decoding inverts encoding: the bytes of any sequence of keys are decoded to the inputs of these keys, all bytes
  are consumed, and a single escape byte at the end is the escape key.\<close>

theorem getKeyInputs_roundtrip:
  assumes "\<forall>k \<in> set ks. key_valid k"
  shows "getKeyInputs (int (length (concat (map key_bytes ks)))) (concat (map key_bytes ks)) inputs =
      (inputs @ map key_input ks, []) \<and>
    getKeyInputs (int (length (concat (map key_bytes ks))) + 1) (concat (map key_bytes ks) @ [27]) inputs =
      (inputs @ map key_input ks @ [Input_Esc], [])"
proof -
  define n where "n = int (length (concat (map key_bytes ks)))"
  have "key_loop n n [] (inputs @ map key_input ks) = (inputs @ map key_input ks, [])"
    by (simp add: key_loop.simps)
  moreover have "key_loop (n + 1) n [27] (inputs @ map key_input ks) = (inputs @ map key_input ks @ [Input_Esc], [])"
    by (simp add: key_loop.simps key_step_def)
  ultimately show ?thesis
    using key_loop_keys [OF assms, of 0 n "[]" inputs] key_loop_keys [OF assms, of 0 "n + 1" "[27]" inputs]
    by (simp add: getKeyInputs_def n_def [symmetric])
qed

theorem getKeyInputs_roundtrip_witness:
  "getKeyInputs 10 [104, 27, 91, 65, 27, 91, 49, 59, 50, 68] [] = ([104, Input_Up, Input_ShiftLeft], [])"
  using getKeyInputs_roundtrip [of "[KChar 104, KArrow 0, KShiftArrow 3]" "[]"]
  by (simp add: Input_Up_def Input_ShiftUp_def Input_ShiftLeft_def)

text \<open>Reading is bounded: when at least \<open>avail\<close> bytes are there, the decoder consumes a prefix of at most \<open>avail\<close> bytes (so it
  never waits for more) and queues at most one input per byte, behind the inputs already queued.\<close>

theorem getKeyInputs_bounded:
  assumes "0 \<le> avail" "avail \<le> int (length cs)" "getKeyInputs avail cs inputs = (inputs', rest)"
  shows "\<exists>used new. cs = used @ rest \<and> int (length used) \<le> avail \<and> inputs' = inputs @ new \<and> length new \<le> length used"
  using key_loop_reads [of 0 avail cs inputs inputs' rest] assms by (simp add: getKeyInputs_def reads_def)

theorem getKeyInputs_bounded_witness:
  "getKeyInputs 3 [27, 79, 65, 104] [] = ([], [65, 104]) \<and>
   (\<exists>used new. [27, 79, 65, 104] = used @ [65, 104] \<and> int (length used) \<le> 3 \<and> [] = ([] :: input list) @ new \<and>
      length new \<le> length used)"
proof -
  have r: "getKeyInputs 3 [27, 79, 65, 104] [] = ([], [65, 104])"
    by (simp add: getKeyInputs_def key_loop.simps key_step_def)
  with getKeyInputs_bounded [of 3 "[27, 79, 65, 104]" "[]" "[]" "[65, 104]"] show ?thesis by simp
qed

text \<open>C24. The load display never exceeds 100 percent: with a clock that does not run backwards, each frame keeps the ring of frame
  times ordered and the running total equal to the sum of the recorded durations, and then the CPU share is at most 100.\<close>

theorem frame_keeps_load:
  assumes "timing_ok t" "chained t" "short t" "snd (tframes t ! prev_slot t) \<le> t0" "t0 \<le> t1"
  shows "timing_ok (end_frame (start_frame t t0) t1) \<and> chained (end_frame (start_frame t t0) t1) \<and> cpu (stats t) \<le> 100"
  using frame_timing_ok [OF assms(1)] chained_frame [OF assms(2-5)] load_le_100 [OF assms(1-3)] by blast

theorem frame_keeps_load_witness:
  "timing_ok (end_frame (start_frame (Timing 5) 7) 9) \<and> cpu (stats (Timing 5)) \<le> 100"
proof -
  have "short (Timing 5)" "snd (tframes (Timing 5) ! prev_slot (Timing 5)) \<le> 7"
    using prev_slot_less [of "Timing 5"] by (simp_all add: short_def) (simp_all add: Timing_def)
  from frame_keeps_load [OF Timing_ok Timing_chained this, of 9] show ?thesis by simp
qed

text \<open>The frame limiter sleeps for a positive time of at most one frame, without overflow, never past the time it waits for, and exactly
  until then when that is at most a frame away.\<close>

theorem block_sleeps_right:
  assumes "block t now = Some d"
    "nxt = max (fst (tframes t ! cur_slot t) + kNanosPerSecond) (fst (tframes t ! prev_slot t) + kNanosMinDelay)"
  shows "0 < d \<and> d \<le> kNanosPerFrame \<and> unat (now + d) = unat now + unat d \<and> now + d \<le> nxt \<and>
    (nxt - now \<le> kNanosPerFrame \<longrightarrow> now + d = nxt)"
  using block_bounds [OF assms(1)] assms(2) by blast

theorem block_sleeps_right_witness:
  "\<exists>d. block (Timing 5) 10000005 = Some d \<and> 0 < d \<and> d \<le> kNanosPerFrame"
proof -
  have "tframes (Timing 5) ! cur_slot (Timing 5) = (5, 5)" "tframes (Timing 5) ! prev_slot (Timing 5) = (5, 5)"
    using cur_slot_less [of "Timing 5"] prev_slot_less [of "Timing 5"] by (simp_all add: Timing_def)
  moreover have "\<lfloor>74999997 / 5 :: rat\<rfloor> = 14999999" by (simp add: floor_eq_iff)
  then have "kNanosMinDelay = 14999999"
    by (simp add: kNanosMinDelay_def kNanosPerFrame_def kNanosPerSecond_def kFPS_def)
  ultimately obtain d where "block (Timing 5) 10000005 = Some d"
    by (simp add: block_def kNanosPerSecond_def Let_def)
  with block_sleeps_right [OF this refl] show ?thesis by blast
qed

section \<open>The hash map\<close>

text \<open>C4. \<open>flat_hash_map\<close> is a finite map: from a default-constructed table, any sequence of find,
  insert-or-assign, emplace, subscript, erase, clear and reserve returns (no assertion of the table fails, no
  slot outside the array or without an element is read) and answers exactly what the same sequence answers
  on a mathematical map, whatever the hash function, the addresses of the allocations and the random
  choice of the insertion side.\<close>

theorem flat_hash_map_refines:
  fixes P :: "'k policy" and z :: 'v
  assumes "\<forall>op\<in>set ops. legal op"
  shows "\<exists>answers t. run_steps (table_step P addr z) ops (CommonFields addr cnt n) = Inr (answers, t) \<and>
    spec_run z ops Map.empty = (answers, table_map t) \<and> table_ok P t"
proof -
  let ?t = "CommonFields addr cnt n :: ('k, 'v) table"
  have "table_ok P ?t \<and> table_map ?t = Map.empty" by (rule CommonFields_ok [OF refl])
  with flat.machine.run_refines [of P ?t ops z addr] assms show ?thesis unfolding table_step_def by metis
qed

theorem flat_hash_map_refines_witness:
  "\<exists>t. run_steps (table_step nat_policy 0 0) [Emplace 1 5, Find 1, Subscript 9, Reserve 100, Erase 1, Find (1 :: nat)] (CommonFields 0 0 0) =
     Inr ([Inserted True, Found (Some 5), Value (0 :: nat), Done, Erased 1, Found None], t) \<and> table_map t = [9 \<mapsto> 0]"
proof -
  have "GrowthToLowerboundCapacity 100 < 2 ^ 64" by (simp add: GrowthToLowerboundCapacity_def kWidth_def)
  then have "\<forall>op\<in>set [Emplace 1 (5 :: nat), Find 1, Subscript 9, Reserve 100, Erase 1, Find (1 :: nat)]. legal op" by simp
  from flat_hash_map_refines [OF this, of nat_policy 0 0 0 0]
  obtain answers t where r: "run_steps (table_step nat_policy 0 0) [Emplace 1 (5 :: nat), Find 1, Subscript 9, Reserve 100, Erase 1, Find 1]
      (CommonFields 0 0 0) = Inr (answers, t)"
    "spec_run 0 [Emplace 1 (5 :: nat), Find 1, Subscript 9, Reserve 100, Erase 1, Find 1] Map.empty = (answers, table_map t)" by blast
  have "spec_run (0 :: nat) [Emplace 1 5, Find 1, Subscript 9, Reserve 100, Erase 1, Find (1 :: nat)] Map.empty =
      ([Inserted True, Found (Some 5), Value 0, Done, Erased 1, Found None], [9 \<mapsto> 0])" by (simp add: fun_eq_iff)
  with r show ?thesis by (intro exI [of _ t]) (simp only: prod.inject)
qed

text \<open>C5. The board's index of entities is a hash table, and what the board does with it is what the model
  of the board does with a map: when table and board agree, \<open>addEntity\<close>, \<open>moveEntity\<close> and \<open>removeEntity\<close>
  fail the same assertion or leave table and board in agreement, and \<open>getEntity\<close> and the occupancy test of
  \<open>getStatus\<close> read the same.\<close>

theorem board_index_refines:
  assumes "index_of (point_policy h at0 alloc_at) t b" "store b i = Some e"
  shows "(case addEntity b i of Inl err \<Rightarrow> index_add (point_policy h at0 alloc_at) t (pos e) i = Inl err
      | Inr b' \<Rightarrow> \<exists>t'. index_add (point_policy h at0 alloc_at) t (pos e) i = Inr t' \<and> index_of (point_policy h at0 alloc_at) t' b') \<and>
    (case moveEntity b i to of Inl err \<Rightarrow> index_move (point_policy h at0 alloc_at) t (pos e) i to = Inl err
      | Inr b' \<Rightarrow> \<exists>t'. index_move (point_policy h at0 alloc_at) t (pos e) i to = Inr t' \<and> index_of (point_policy h at0 alloc_at) t' b') \<and>
    (case removeEntity b i of Inl err \<Rightarrow> index_remove (point_policy h at0 alloc_at) t (pos e) i = Inl err
      | Inr b' \<Rightarrow> \<exists>t'. index_remove (point_policy h at0 alloc_at) t (pos e) i = Inr t' \<and> index_of (point_policy h at0 alloc_at) t' b') \<and>
    index_get (point_policy h at0 alloc_at) t p = Inr (getEntity b p) \<and>
    index_contains (point_policy h at0 alloc_at) t p = Inr (m_entityAtPos b p \<noteq> None)"
  using addEntity_index [OF assms] moveEntity_index [OF assms] removeEntity_index [OF assms] reads_index [OF assms(1)] by blast

theorem board_index_refines_witness:
  "\<exists>t. index_of (point_policy host64 64 (\<lambda>n. 4096)) t (st_board demo_state) \<and>
     index_get (point_policy host64 64 (\<lambda>n. 4096)) t (Point 50 50) = Inr (getEntity (st_board demo_state) (Point 50 50))"
proof -
  have b: "board_ok (st_board demo_state)" "st_player demo_state \<in> set (m_entities (st_board demo_state))"
    using state_okD(1,3) [OF demo_at_rest(2)] by blast+
  then have "index_ok (st_board demo_state)" by (simp add: board_ok_def)
  then obtain t e where t: "index_of (point_policy host64 64 (\<lambda>n. 4096)) t (st_board demo_state)"
    "store (st_board demo_state) (st_player demo_state) = Some e"
    using index_exists index_ok_entity [OF _ b(2)] by metis
  from board_index_refines [OF this, of undefined "Point 50 50"] t(1) show ?thesis by blast
qed

text \<open>C25. Rehashing keeps the contents: when a table has no room, \<open>rehash_and_grow_if_necessary\<close> (in place when
  enough slots are merely deleted, into the next capacity otherwise) returns a table with the same elements,
  all found again, with room and without deleted slots.\<close>

theorem rehash_keeps_contents:
  assumes "table_ok P t"
  shows "\<exists>t'. rehash_and_grow_if_necessary P t = Inr t' \<and> table_ok P t' \<and> table_map t' = table_map t \<and>
    deleted_slots t' = {} \<and> tab_size t' = tab_size t \<and> 0 < growth_left t'"
  by (rule rehash_and_grow_ok [OF assms])

theorem rehash_keeps_contents_witness:
  "\<exists>t t'. table_map t = [3 \<mapsto> 4] \<and> rehash_and_grow_if_necessary nat_policy t = Inr t' \<and>
     table_map t' = [3 \<mapsto> (4 :: nat)] \<and> 0 < growth_left t'"
proof -
  obtain t where t: "table_ok nat_policy t" "table_map t = [3 \<mapsto> (4 :: nat)]"
    using table_exists [of "[3 \<mapsto> (4 :: nat)]" nat_policy] by auto
  from rehash_keeps_contents [OF t(1)] t(2) show ?thesis by metis
qed

text \<open>C26. The probe sequence of a hash visits every slot of the table, the sentinel included, before its index
  passes the capacity: the searches end, and a search for a free slot finds one if there is any.\<close>

theorem probe_visits_all:
  assumes "IsValidCapacity cap" "i \<le> cap"
  shows "\<exists>seq n j. probe ctrl cap hash = Inr seq \<and> seq_index ((seq_next ^^ n) seq) \<le> cap \<and> j < kWidth \<and>
    offset_at ((seq_next ^^ n) seq) j = i"
  by (rule probe_reaches [OF assms])

theorem probe_visits_all_witness:
  "\<exists>seq n j. probe 4096 31 12345 = Inr seq \<and> seq_index ((seq_next ^^ n) seq) \<le> 31 \<and> j < kWidth \<and>
    offset_at ((seq_next ^^ n) seq) j = 17"
  by (rule probe_visits_all) code_simp+

text \<open>C27. Iteration: a loop from \<open>begin()\<close> ends within as many rounds as the table has elements and meets
  every slot that holds an element exactly once, in the order of the slots.\<close>

theorem iteration_complete:
  assumes "table_ok P t" "tab_size t \<le> fuel"
  shows "\<exists>is. rbind (begin_iter P t) (\<lambda>it. Inr (traverse P t fuel it)) = Inr (Some (Inr is)) \<and> sorted is \<and> distinct is \<and>
    set is = {i. full t i} \<and> length is = tab_size t"
  by (rule traverse_begin [OF assms])

theorem iteration_complete_witness:
  "\<exists>t is. table_map t = [3 \<mapsto> 4] \<and> rbind (begin_iter nat_policy t) (\<lambda>it. Inr (traverse nat_policy t (tab_size t) it)) = Inr (Some (Inr is)) \<and>
     set is = {i. full t i} \<and> distinct is \<and> table_map t 3 = Some (4 :: nat)"
proof -
  obtain t where t: "table_ok nat_policy t" "table_map t = [3 \<mapsto> (4 :: nat)]"
    using table_exists [of "[3 \<mapsto> (4 :: nat)]" nat_policy] by auto
  from iteration_complete [OF t(1) order_refl] t(2) show ?thesis by (metis fun_upd_same)
qed

text \<open>C28. Tables are compared as maps: \<open>operator==\<close> on any two good tables returns, and says whether they hold the
  same map, whatever their capacities, arrays and histories; equal tables have equal hashes; and the copy
  constructor returns a good table that compares equal to the original.\<close>

theorem tables_compare_as_maps:
  assumes "table_ok P a" "table_ok P b" "\<And>e. returns (combine (Seed h) e)"
    "GrowthToLowerboundCapacity (tab_size a) < 2 ^ 64"
  shows "table_eq P a b = Inr (table_map a = table_map b) \<and>
    (table_eq P a b = Inr True \<longrightarrow> hash_table h combine P state a = hash_table h combine P state b) \<and>
    (\<exists>c. copy_construct P addr a = Inr c \<and> table_ok P c \<and> table_eq P a c = Inr True \<and> table_eq P c a = Inr True)"
proof (intro conjI)
  show eq: "table_eq P a b = Inr (table_map a = table_map b)" by (rule table_eq_ok [OF assms(1,2)])
  show "table_eq P a b = Inr True \<longrightarrow> hash_table h combine P state a = hash_table h combine P state b"
    unfolding eq using hash_table_eq [of P a b combine h state] assms(1-3) by blast
  obtain c where c: "copy_construct P addr a = Inr c" "table_ok P c" "table_map c = table_map a"
    using copy_construct_ok [OF assms(1,4)] by blast
  then show "\<exists>c. copy_construct P addr a = Inr c \<and> table_ok P c \<and> table_eq P a c = Inr True \<and> table_eq P c a = Inr True"
    using table_eq_ok [OF assms(1) c(2)] table_eq_ok [OF c(2) assms(1)] by auto
qed

theorem tables_compare_as_maps_witness:
  "\<exists>a b. table_map a = [3 \<mapsto> (4 :: nat)] \<and> table_map b = [3 \<mapsto> 5] \<and> table_eq nat_policy a b = Inr False \<and>
     (\<exists>c. copy_construct nat_policy 0 a = Inr c \<and> table_eq nat_policy a c = Inr True)"
proof -
  obtain a b where t: "table_ok nat_policy a" "table_map a = [3 \<mapsto> (4 :: nat)]" "table_ok nat_policy b" "table_map b = [3 \<mapsto> (5 :: nat)]"
    using table_exists [of "[3 \<mapsto> (4 :: nat)]" nat_policy] table_exists [of "[3 \<mapsto> (5 :: nat)]" nat_policy] by auto
  have "tab_size a = 1" using card_dom(1) [OF t(1)] t(2) by simp
  then have size: "GrowthToLowerboundCapacity (tab_size a) < 2 ^ 64" by (simp add: GrowthToLowerboundCapacity_def kWidth_def)
  have "\<And>e. returns (hash_bytes host64 (Seed host64) (of_nat (fst e + snd e) :: 64 word))" by (simp add: hash_bytes_value)
  then have "table_eq nat_policy a b = Inr (table_map a = table_map b) \<and>
      (\<exists>c. copy_construct nat_policy 0 a = Inr c \<and> table_eq nat_policy a c = Inr True)"
    using tables_compare_as_maps [of nat_policy a b "\<lambda>s e. hash_bytes host64 s (of_nat (fst e + snd e) :: 64 word)" host64 0 0] t(1,3) size
    by blast
  then have "table_eq nat_policy a b = Inr ([3 :: nat \<mapsto> (4 :: nat)] = [3 \<mapsto> 5])"
    "\<exists>c. copy_construct nat_policy 0 a = Inr c \<and> table_eq nat_policy a c = Inr True" unfolding t(2,4) by blast+
  moreover have "[3 \<mapsto> (4 :: nat)] \<noteq> [3 :: nat \<mapsto> 5]" by (auto dest: fun_cong [of _ _ "3 :: nat"])
  ultimately have "table_eq nat_policy a b = Inr False" by simp
  then show ?thesis using t(2,4) \<open>\<exists>c. _ c\<close> by (intro exI [of _ a] exI [of _ b]) simp
qed

text \<open>C29. Merging moves exactly the elements whose keys are new: afterwards the target holds its old elements and
  those of the source with other keys, and the source keeps exactly the elements whose keys the target had.
  The two tables may use different hash functions.\<close>

theorem merge_splits:
  assumes "table_ok P this" "table_ok Q src"
  shows "\<exists>this' src'. merge P Q this src = Inr (this', src') \<and> table_ok P this' \<and> table_ok Q src' \<and>
    table_map this' = table_map src ++ table_map this \<and> table_map src' = table_map src |` dom (table_map this)"
  by (rule merge_ok [OF assms])

theorem merge_splits_witness:
  "\<exists>this src this' src'. table_map this = [3 \<mapsto> 4] \<and> table_map src = [3 \<mapsto> 5, 7 \<mapsto> 6] \<and>
     merge nat_policy (nat_policy\<lparr>p_hash := (\<lambda>n. 0)\<rparr>) this src = Inr (this', src') \<and>
     table_map this' 3 = Some 4 \<and> table_map this' 7 = Some 6 \<and> table_map src' 3 = Some 5 \<and> table_map src' 7 = (None :: nat option)"
proof -
  obtain this src where t: "table_ok nat_policy this" "table_map this = [3 \<mapsto> (4 :: nat)]"
    "table_ok (nat_policy\<lparr>p_hash := (\<lambda>n. 0)\<rparr>) src" "table_map src = [3 \<mapsto> (5 :: nat), 7 \<mapsto> 6]"
    using table_exists [of "[3 \<mapsto> (4 :: nat)]" nat_policy] table_exists [of "[3 \<mapsto> (5 :: nat), 7 \<mapsto> 6]" "nat_policy\<lparr>p_hash := (\<lambda>n. 0)\<rparr>"] by auto
  obtain this' src' where "merge nat_policy (nat_policy\<lparr>p_hash := (\<lambda>n. 0)\<rparr>) this src = Inr (this', src')"
    "table_map this' = [3 \<mapsto> 5, 7 \<mapsto> 6] ++ [3 \<mapsto> (4 :: nat)]" "table_map src' = [3 \<mapsto> 5, 7 \<mapsto> 6] |` dom [3 \<mapsto> (4 :: nat)]"
    using merge_splits [OF t(1,3)] unfolding t(2,4) by blast
  then show ?thesis using t(2,4)
    by (intro exI [of _ this] exI [of _ src] exI [of _ this'] exI [of _ src']) (simp add: map_add_def restrict_map_def)
qed

end
